(* ===== verification/Chain_Prelude.thy ===== *)
theory Chain_Prelude
  imports Main "HOL-Library.Word"
begin

text \<open>
  Shared vocabulary of the development: Go's fixed-width integers as words, byte slices as
  lists of 8-bit words, errors as the left summand of a sum, big-endian encoding as
  \<^verbatim>\<open>encoding/binary\<close> does it, and the interface of an encoder with its decoder.
\<close>

section \<open>Types\<close>

type_synonym u8 = "8 word"
type_synonym u16 = "16 word"
type_synonym u32 = "32 word"
type_synonym u64 = "64 word"
type_synonym bytes = "u8 list"
type_synonym address = "160 word"
type_synonym hash = "256 word"

named_theorems wire_simps \<open>evaluation rules of the byte-level encodings\<close>
named_theorems frame_simps \<open>fields an operation leaves alone\<close>

text \<open>The bytes of an ASCII string.\<close>

definition str :: "string \<Rightarrow> bytes" where
  "str s = map of_char s"

section \<open>Errors as values\<close>

text \<open>Sequencing of Go's \<^verbatim>\<open>if err != nil { return err }\<close>.\<close>

definition ebind :: "'e + 'a \<Rightarrow> ('a \<Rightarrow> 'e + 'b) \<Rightarrow> 'e + 'b" where
  "ebind r f = (case r of Inl e \<Rightarrow> Inl e | Inr x \<Rightarrow> f x)"

lemma ebind_simps [simp]:
  "ebind (Inl e) f = Inl e"
  "ebind (Inr x) f = f x"
  by (simp_all add: ebind_def)

lemma ebind_Inr_iff: "ebind r f = Inr y \<longleftrightarrow> (\<exists>x. r = Inr x \<and> f x = Inr y)"
  by (cases r) auto

definition is_ok :: "'e + 'a \<Rightarrow> bool" where
  "is_ok r = (case r of Inl _ \<Rightarrow> False | Inr _ \<Rightarrow> True)"

lemma is_ok_simps [simp]: "\<not> is_ok (Inl e)" "is_ok (Inr x)"
  by (simp_all add: is_ok_def)

section \<open>Lists\<close>

lemma list_all_zero_replicate: "(\<forall>x \<in> set xs. x = c) \<longleftrightarrow> xs = replicate (length xs) c"
  by (induction xs) auto

lemma filter_nonzero_Nil: "filter (\<lambda>b. b \<noteq> 0) xs = [] \<longleftrightarrow> xs = replicate (length xs) (0 :: 'a :: zero)"
  by (induction xs) auto

lemma take_Suc_conv: "i < length xs \<Longrightarrow> take (Suc i) xs = take i xs @ [xs ! i]"
  by (simp add: take_Suc_conv_app_nth)

lemma foldl_map_snoc: "foldl f a (xs @ [x]) = f (foldl f a xs) x"
  by simp

lemma restrict_all: "dom m \<subseteq> A \<Longrightarrow> m |` A = m"
  by (rule ext, rename_tac x, case_tac "m x") (auto simp: restrict_map_def)

lemma sorted_split_less:
  fixes xs :: "'a :: linorder list"
  assumes "sorted xs"
  shows "filter (\<lambda>x. x < t) xs @ filter (\<lambda>x. t \<le> x) xs = xs"
  using assms
proof (induction xs)
  case (Cons x xs)
  show ?case
  proof (cases "x < t")
    case False
    with Cons.prems have "filter (\<lambda>x. x < t) xs = []" by (auto simp: filter_empty_conv)
    moreover have "filter (\<lambda>x. t \<le> x) xs = xs"
      using Cons False by (auto simp: filter_id_conv)
    ultimately show ?thesis using False by simp
  qed (use Cons in auto)
qed simp

lemma sorted_list_of_set_filter:
  fixes A :: "'a :: linorder set"
  assumes "finite A"
  shows "sorted_list_of_set {x \<in> A. P x} = filter P (sorted_list_of_set A)"
  using assms by (intro sorted_distinct_set_unique) (auto intro: sorted_wrt_filter)

lemma sort_key_map: "sort_key f (map g xs) = map g (sort_key (\<lambda>x. f (g x)) xs)"
proof (induction xs)
  case (Cons x xs)
  have "insort_key f (g x) (map g ys) = map g (insort_key (\<lambda>x. f (g x)) x ys)" for ys
    by (induction ys) auto
  with Cons show ?case by simp
qed simp

lemma sort_key_cong_on:
  assumes "\<And>x. x \<in> set xs \<Longrightarrow> f x = g x"
  shows "sort_key f xs = sort_key g xs"
  using assms
proof (induction xs)
  case (Cons x xs)
  have "insort_key f y ys = insort_key g y ys" if "\<And>z. z \<in> insert y (set ys) \<Longrightarrow> f z = g z" for y ys
    using that by (induction ys) auto
  from this [of x "sort_key g xs"] Cons show ?case by simp
qed simp

section \<open>The bit length of \<^verbatim>\<open>big.Int\<close>\<close>

fun bitLenNat :: "nat \<Rightarrow> nat" where
  "bitLenNat n = (if n = 0 then 0 else Suc (bitLenNat (n div 2)))"

declare bitLenNat.simps [simp del]

definition BitLen :: "int \<Rightarrow> nat" where
  "BitLen n = bitLenNat (nat \<bar>n\<bar>)"

lemma bitLenNat_bound: "m < 2 ^ bitLenNat m"
proof (induction m rule: bitLenNat.induct)
  case (1 m)
  then show ?case by (cases "m = 0") (simp_all add: bitLenNat.simps [of m])
qed

section \<open>Iterating over a Go map\<close>

text \<open>
  \<^verbatim>\<open>for k := range m\<close> visits every key once, in an order the language leaves open: the
  operations take the order as a function of the map.
\<close>

definition map_order :: "(('k \<rightharpoonup> 'v) \<Rightarrow> 'k list) \<Rightarrow> bool" where
  "map_order rng \<longleftrightarrow> (\<forall>m. finite (dom m) \<longrightarrow> distinct (rng m) \<and> set (rng m) = dom m)"

lemma map_orderD:
  "map_order rng \<Longrightarrow> finite (dom m) \<Longrightarrow> distinct (rng m)"
  "map_order rng \<Longrightarrow> finite (dom m) \<Longrightarrow> set (rng m) = dom m"
  by (auto simp: map_order_def)

lemma map_order_length: "map_order rng \<Longrightarrow> finite (dom m) \<Longrightarrow> length (rng m) = card (dom m)"
  by (metis map_orderD distinct_card)

lemma map_order_mset: "map_order rng \<Longrightarrow> finite (dom m) \<Longrightarrow> sort (rng m) = sorted_list_of_set (dom m)"
  for m :: "'k :: linorder \<rightharpoonup> 'v"
  by (metis map_orderD sorted_list_of_set_sort_remdups distinct_remdups_id)

lemma map_order_sorted: "map_order (\<lambda>m :: 'k :: linorder \<rightharpoonup> 'v. sorted_list_of_set (dom m))"
  by (simp add: map_order_def)

section \<open>Big-endian encoding\<close>

text \<open>
  \<^verbatim>\<open>binary.BigEndian.PutUint16/32/64\<close> and their inverses, for a number of \<open>n\<close> bytes.
\<close>

fun be_bytes :: "nat \<Rightarrow> nat \<Rightarrow> bytes" where
  "be_bytes 0 v = []"
| "be_bytes (Suc n) v = be_bytes n (v div 256) @ [word_of_nat v]"

lemma be_bytes_numeral [wire_simps]:
  "be_bytes (numeral k) v = be_bytes (pred_numeral k) (v div 256) @ [word_of_nat v]"
  unfolding numeral_eq_Suc [of k] by (rule be_bytes.simps)

definition be_value :: "bytes \<Rightarrow> nat" where
  "be_value bs = foldl (\<lambda>a b. a * 256 + unat b) 0 bs"

lemma be_value_Nil [simp]: "be_value [] = 0"
  by (simp add: be_value_def)

lemma be_value_snoc [simp]: "be_value (bs @ [b]) = be_value bs * 256 + unat b"
  by (simp add: be_value_def)

lemma length_be_bytes [simp]: "length (be_bytes n v) = n"
  by (induction n arbitrary: v) auto

lemma unat_u8_of_nat: "unat (word_of_nat v :: u8) = v mod 256"
  by (simp add: unat_of_nat)

lemma be_value_be_bytes: "v < 256 ^ n \<Longrightarrow> be_value (be_bytes n v) = v"
proof (induction n arbitrary: v)
  case 0
  then show ?case by simp
next
  case (Suc n)
  then have "v div 256 < 256 ^ n"
    by (simp add: less_mult_imp_div_less mult.commute)
  with Suc.IH show ?case
    by (simp add: unat_u8_of_nat)
qed

lemma u8_lt_256 [simp]: "unat (b :: u8) < 256"
  using unsigned_less [where 'a = nat, of b] by simp

lemma be_bytes_be_value: "be_bytes (length bs) (be_value bs) = bs"
proof (induction bs rule: rev_induct)
  case Nil
  then show ?case by simp
next
  case (snoc b bs)
  have "(be_value bs * 256 + unat b) div 256 = be_value bs"
    by simp
  moreover have "(word_of_nat (be_value bs * 256 + unat b) :: u8) = b"
    by (rule unsigned_word_eqI [where 'a = nat]) (simp only: unat_u8_of_nat, simp)
  ultimately show ?case using snoc.IH by simp
qed

lemma unat_ucast_u8 [simp]: "unat (ucast (x :: u8) :: u64) = unat x"
proof -
  have "unat x < 2 ^ 64" using u8_lt_256 [of x] by (simp del: u8_lt_256)
  then show ?thesis by (simp add: unsigned_ucast_eq take_bit_nat_eq_self)
qed

lemma be_value_bound: "be_value bs < 256 ^ length bs"
proof (induction bs rule: rev_induct)
  case (snoc b bs)
  have "unat b < 256" by simp
  with snoc.IH have "be_value bs * 256 + unat b < (be_value bs + 1) * 256" by simp
  also have "\<dots> \<le> 256 ^ length bs * 256"
    using snoc.IH by (intro mult_le_mono1) simp
  finally show ?case by simp
qed simp

definition be64 :: "u64 \<Rightarrow> bytes" where
  "be64 x = be_bytes 8 (unat x)"

definition be32 :: "u32 \<Rightarrow> bytes" where
  "be32 x = be_bytes 4 (unat x)"

definition be16 :: "u16 \<Rightarrow> bytes" where
  "be16 x = be_bytes 2 (unat x)"

definition un_be64 :: "bytes \<Rightarrow> u64" where
  "un_be64 bs = word_of_nat (be_value bs)"

definition un_be32 :: "bytes \<Rightarrow> u32" where
  "un_be32 bs = word_of_nat (be_value bs)"

definition un_be16 :: "bytes \<Rightarrow> u16" where
  "un_be16 bs = word_of_nat (be_value bs)"

lemma length_be [simp]: "length (be64 x) = 8" "length (be32 y) = 4" "length (be16 z) = 2"
  by (simp_all add: be64_def be32_def be16_def)

lemma un_be64_be64 [simp]: "un_be64 (be64 x) = x"
  using unsigned_less [where 'a = nat, of x]
  by (simp add: un_be64_def be64_def be_value_be_bytes)

lemma un_be32_be32 [simp]: "un_be32 (be32 x) = x"
  using unsigned_less [where 'a = nat, of x]
  by (simp add: un_be32_def be32_def be_value_be_bytes)

lemma un_be16_be16 [simp]: "un_be16 (be16 x) = x"
  using unsigned_less [where 'a = nat, of x]
  by (simp add: un_be16_def be16_def be_value_be_bytes)

lemma be64_un_be64: "length bs = 8 \<Longrightarrow> be64 (un_be64 bs) = bs"
  using be_value_bound [of bs] be_bytes_be_value [of bs]
  by (simp add: be64_def un_be64_def unat_of_nat)

lemma be32_un_be32: "length bs = 4 \<Longrightarrow> be32 (un_be32 bs) = bs"
  using be_value_bound [of bs] be_bytes_be_value [of bs]
  by (simp add: be32_def un_be32_def unat_of_nat)

lemma be16_un_be16: "length bs = 2 \<Longrightarrow> be16 (un_be16 bs) = bs"
  using be_value_bound [of bs] be_bytes_be_value [of bs]
  by (simp add: be16_def un_be16_def unat_of_nat)

lemma be64_inj [simp]: "be64 x = be64 y \<longleftrightarrow> x = y"
  by (metis un_be64_be64)

section \<open>Interface: an encoder and its decoder\<close>

text \<open>
  The contract every wire format of the program promises: a valid value is read back as it
  was written. A canonical codec moreover accepts exactly one encoding of each value.
\<close>

locale codec =
  fixes enc :: "'a \<Rightarrow> 'b"
    and dec :: "'b \<Rightarrow> 'e + 'a"
    and valid :: "'a \<Rightarrow> bool"
  assumes dec_enc: "valid x \<Longrightarrow> dec (enc x) = Inr x"
begin

lemma enc_injective: "valid x \<Longrightarrow> valid y \<Longrightarrow> enc x = enc y \<Longrightarrow> x = y"
  by (metis dec_enc sum.inject(2))

lemma enc_inj_on: "inj_on enc {x. valid x}"
  by (rule inj_onI) (auto dest: enc_injective)

lemma dec_enc_ok: "valid x \<Longrightarrow> is_ok (dec (enc x))"
  by (simp add: dec_enc)

end

locale canonical_codec = codec +
  assumes enc_dec: "dec y = Inr x \<Longrightarrow> valid x \<and> enc x = y"
begin

lemma dec_iff: "dec y = Inr x \<longleftrightarrow> valid x \<and> y = enc x"
  using dec_enc enc_dec by auto

lemma dec_injective: "dec y = Inr x \<Longrightarrow> dec z = Inr x \<Longrightarrow> y = z"
  by (auto dest!: enc_dec)

lemma dec_ok_iff: "is_ok (dec y) \<longleftrightarrow> (\<exists>x. valid x \<and> y = enc x)"
  by (cases "dec y") (auto simp: dec_enc dest: enc_dec)

end

end
