(* ===== verification/Bit_Compress.thy ===== *)
theory Bit_Compress
  imports Chain_Prelude
begin

unbundle bit_operations_syntax

text \<open>
  The sparse bitset compression of \<^verbatim>\<open>compress.go\<close> (package bitutil): a slice is a bitmap
  of its non-zero bytes, itself compressed, followed by those bytes. The two recursions run
  on a length that shrinks from \<open>n\<close> to \<open>(n + 7) div 8\<close>; the loops over the bytes and over
  the bits of the bitmap are recursions over what is left to visit.
\<close>

section \<open>Operations\<close>

datatype bit_err = MissingData | UnreferencedData | ExceededTarget | ZeroContent

text \<open>The loop of \<^verbatim>\<open>bitsetEncodeBytes\<close> over \<^verbatim>\<open>i, b := range data\<close>.\<close>

fun encode_loop :: "nat \<Rightarrow> bytes \<Rightarrow> bytes \<Rightarrow> bytes \<Rightarrow> bytes \<times> bytes" where
  "encode_loop i [] nonZeroBitset nonZeroBytes = (nonZeroBitset, nonZeroBytes)"
| "encode_loop i (b # data) nonZeroBitset nonZeroBytes =
     (if b \<noteq> 0
      then encode_loop (Suc i) data
             (nonZeroBitset[i div 8 := (nonZeroBitset ! (i div 8)) OR push_bit (7 - i mod 8) 1])
             (nonZeroBytes @ [b])
      else encode_loop (Suc i) data nonZeroBitset nonZeroBytes)"

lemma length_encode_loop [simp]:
  "length (fst (encode_loop i data bs nz)) = length bs"
  by (induction i data bs nz rule: encode_loop.induct) auto

function bitsetEncodeBytes :: "bytes \<Rightarrow> bytes" where
  "bitsetEncodeBytes data =
     (if length data = 0 then []
      else if length data = 1 then (if data ! 0 = 0 then [] else data)
      else
        let (nonZeroBitset, nonZeroBytes) =
              encode_loop 0 data (replicate ((length data + 7) div 8) 0) []
        in if length nonZeroBytes = 0 then []
           else bitsetEncodeBytes nonZeroBitset @ nonZeroBytes)"
  by pat_completeness auto
termination
proof (relation "measure length", goal_cases)
  case (2 data p bs nz)
  have "length bs = (length data + 7) div 8"
    using length_encode_loop [of 0 data "replicate ((length data + 7) div 8) 0" "[]"]
    by (simp add: 2(3) [symmetric] 2(4) [symmetric])
  moreover have "(length data + 7) div 8 < length data"
    using 2(1,2) by linarith
  ultimately show ?case by simp
qed simp

declare bitsetEncodeBytes.simps [simp del]

definition CompressBytes :: "bytes \<Rightarrow> bytes" where
  "CompressBytes data =
     (let out = bitsetEncodeBytes data in if length out < length data then out else data)"

text \<open>
  The loop of \<^verbatim>\<open>bitsetDecodePartialBytes\<close>: \<open>k\<close> bits of the bitmap are left, \<open>i\<close> is
  the index of the next one.
\<close>

fun decode_loop :: "nat \<Rightarrow> nat \<Rightarrow> bytes \<Rightarrow> bytes \<Rightarrow> bytes \<Rightarrow> nat \<Rightarrow> bit_err + bytes \<times> nat" where
  "decode_loop 0 i nonZeroBitset data decomp ptr = Inr (decomp, ptr)"
| "decode_loop (Suc k) i nonZeroBitset data decomp ptr =
     (if (nonZeroBitset ! (i div 8)) AND push_bit (7 - i mod 8) 1 \<noteq> 0
      then if length data \<le> ptr then Inl MissingData
           else if length decomp \<le> i then Inl ExceededTarget
           else if data ! ptr = 0 then Inl ZeroContent
           else decode_loop k (Suc i) nonZeroBitset data (decomp[i := data ! ptr]) (Suc ptr)
      else decode_loop k (Suc i) nonZeroBitset data decomp ptr)"

function bitsetDecodePartialBytes :: "bytes \<Rightarrow> nat \<Rightarrow> bit_err + bytes \<times> nat" where
  "bitsetDecodePartialBytes data target =
     (if target = 0 then Inr ([], 0)
      else if length data = 0 then Inr (replicate target 0, 0)
      else if target = 1 then Inr ([data ! 0], if data ! 0 \<noteq> 0 then 1 else 0)
      else
        case bitsetDecodePartialBytes data ((target + 7) div 8) of
          Inl e \<Rightarrow> Inl e
        | Inr (nonZeroBitset, ptr) \<Rightarrow>
            decode_loop (8 * length nonZeroBitset) 0 nonZeroBitset data (replicate target 0) ptr)"
  by pat_completeness auto
termination
  by (relation "measure snd") auto

declare bitsetDecodePartialBytes.simps [simp del]

definition bitsetDecodeBytes :: "bytes \<Rightarrow> nat \<Rightarrow> bit_err + bytes" where
  "bitsetDecodeBytes data target =
     (case bitsetDecodePartialBytes data target of
        Inl e \<Rightarrow> Inl e
      | Inr (out, sz) \<Rightarrow> if sz \<noteq> length data then Inl UnreferencedData else Inr out)"

definition DecompressBytes :: "bytes \<Rightarrow> nat \<Rightarrow> bit_err + bytes" where
  "DecompressBytes data target =
     (if target < length data then Inl ExceededTarget
      else if length data = target then Inr data
      else bitsetDecodeBytes data target)"

section \<open>The bitmap\<close>

text \<open>\<open>bitAt bs i\<close>: the \<open>i\<close>-th bit of a bitmap, most significant bit first.\<close>

definition bitAt :: "bytes \<Rightarrow> nat \<Rightarrow> bool" where
  "bitAt bs i = bit (bs ! (i div 8)) (7 - i mod 8)"

lemma and_exp_0: "((w :: u8) AND 2 ^ n = 0) = (\<not> bit w n)"
  by (metis and.commute and_exp_eq_0_iff_not_bit)

lemma bitAt_set:
  assumes "i div 8 < length bs"
  shows "bitAt (bs[i div 8 := (bs ! (i div 8)) OR 2 ^ (7 - i mod 8)]) j
           \<longleftrightarrow> bitAt bs j \<or> i = j"
proof (cases "j div 8 = i div 8")
  case True
  have lt: "7 - i mod 8 < 8" by simp
  have "7 - i mod 8 = 7 - j mod 8 \<longleftrightarrow> i mod 8 = j mod 8"
    using mod_less_divisor [of 8 i] mod_less_divisor [of 8 j] by linarith
  moreover have "i mod 8 = j mod 8 \<longleftrightarrow> i = j"
    using True by (metis div_mult_mod_eq)
  ultimately show ?thesis
    using assms True lt
    by (auto simp: bitAt_def bit_or_iff bit_exp_iff)
next
  case False
  then show ?thesis by (auto simp: bitAt_def)
qed

lemma bytes_eq_by_bits:
  assumes "length bs = length cs"
    and "\<And>j. j < 8 * length bs \<Longrightarrow> bitAt bs j = bitAt cs j"
  shows "bs = cs"
proof (rule nth_equalityI [OF assms(1)])
  fix i assume i: "i < length bs"
  show "bs ! i = cs ! i"
  proof (rule bit_word_eqI)
    fix n assume n: "n < LENGTH(8)"
    define m where "m = 7 - n"
    have m: "m < 8" "7 - m = n" using n by (simp_all add: m_def)
    then have "(8 * i + m) div 8 = i" "(8 * i + m) mod 8 = m" by simp_all
    moreover have "8 * i + m < 8 * length bs" using i m(1) by linarith
    ultimately show "bit (bs ! i) n = bit (cs ! i) n"
      using assms(2) [of "8 * i + m"] m(2) by (simp add: bitAt_def)
  qed
qed

lemma bitAt_replicate_0 [simp]: "j div 8 < n \<Longrightarrow> \<not> bitAt (replicate n 0) j"
  by (simp add: bitAt_def)

lemma bitAt_none_iff: "(\<forall>j < 8 * length bs. \<not> bitAt bs j) \<longleftrightarrow> bs = replicate (length bs) 0"
proof
  assume "\<forall>j < 8 * length bs. \<not> bitAt bs j"
  then show "bs = replicate (length bs) 0"
    by (intro bytes_eq_by_bits) (auto simp: less_mult_imp_div_less mult.commute)
next
  assume bs: "bs = replicate (length bs) 0"
  show "\<forall>j < 8 * length bs. \<not> bitAt bs j"
    by (subst (2) bs) (auto simp: less_mult_imp_div_less mult.commute)
qed

definition nonZero :: "bytes \<Rightarrow> bytes" where
  "nonZero data = filter (\<lambda>b. b \<noteq> 0) data"

definition nonZeroBitset :: "bytes \<Rightarrow> bytes" where
  "nonZeroBitset data = fst (encode_loop 0 data (replicate ((length data + 7) div 8) 0) [])"

lemma nonZero_Cons: "nonZero (b # data) = (if b = 0 then nonZero data else b # nonZero data)"
  by (simp add: nonZero_def)

lemma nonZero_replicate_0 [simp]: "nonZero (replicate n 0) = []"
  by (simp add: nonZero_def)

lemma nonZero_empty_iff: "nonZero data = [] \<longleftrightarrow> (\<forall>i < length data. data ! i = 0)"
  by (simp add: nonZero_def filter_empty_conv all_set_conv_all_nth)

lemma nonZero_Nil [simp]: "nonZero [] = []"
  by (simp add: nonZero_def)

lemma encode_loop_bytes: "snd (encode_loop i data bs nz) = nz @ nonZero data"
  by (induction i data bs nz rule: encode_loop.induct) (auto simp: nonZero_def)

lemma encode_loop_bits:
  "i + length data \<le> 8 * length bs \<Longrightarrow>
   bitAt (fst (encode_loop i data bs nz)) j
     \<longleftrightarrow> bitAt bs j \<or> (i \<le> j \<and> j < i + length data \<and> data ! (j - i) \<noteq> 0)"
proof (induction i data bs nz rule: encode_loop.induct)
  case (2 i b data bs nz)
  have i: "i div 8 < length bs" using 2(3) by simp
  have nth: "(b # data) ! (j - i) = (if j = i then b else data ! (j - Suc i))" if "i \<le> j"
    using that by (auto simp: nth_Cons')
  show ?case
  proof (cases "b = 0")
    case True
    then show ?thesis using 2(2,3) nth by (auto simp: Suc_le_eq split: if_splits)
  next
    case False
    then show ?thesis using 2(1,3) nth by (auto simp: bitAt_set [OF i] Suc_le_eq)
  qed
qed auto

lemma length_nonZeroBitset [simp]: "length (nonZeroBitset data) = (length data + 7) div 8"
  by (simp add: nonZeroBitset_def)

lemma bitAt_nonZeroBitset:
  "j < 8 * ((length data + 7) div 8) \<Longrightarrow>
   bitAt (nonZeroBitset data) j \<longleftrightarrow> j < length data \<and> data ! j \<noteq> 0"
  unfolding nonZeroBitset_def
  by (subst encode_loop_bits) (auto simp: less_mult_imp_div_less mult.commute)

lemma nonZero_bitset_empty_iff: "nonZero (nonZeroBitset data) = [] \<longleftrightarrow> nonZero data = []"
proof -
  have "nonZero (nonZeroBitset data) = []
          \<longleftrightarrow> nonZeroBitset data = replicate (length (nonZeroBitset data)) 0"
    unfolding nonZero_def by (rule filter_nonzero_Nil)
  also have "\<dots> \<longleftrightarrow> (\<forall>j < 8 * length (nonZeroBitset data). \<not> bitAt (nonZeroBitset data) j)"
    by (rule bitAt_none_iff [symmetric])
  also have "\<dots> \<longleftrightarrow> nonZero data = []"
    unfolding nonZero_empty_iff by (auto simp: bitAt_nonZeroBitset)
  finally show ?thesis .
qed

lemma nonZeroBitset_unique:
  assumes "length bs = (length data + 7) div 8"
    and "\<And>j. j < 8 * length bs \<Longrightarrow> bitAt bs j \<longleftrightarrow> j < length data \<and> data ! j \<noteq> 0"
  shows "nonZeroBitset data = bs"
  using assms by (intro bytes_eq_by_bits) (auto simp: bitAt_nonZeroBitset)

lemma encode_small:
  "bitsetEncodeBytes [] = []"
  "bitsetEncodeBytes [b] = nonZero [b]"
  by (simp_all add: bitsetEncodeBytes.simps nonZero_def)

lemma encode_large:
  "2 \<le> length data \<Longrightarrow> bitsetEncodeBytes data =
     (if nonZero data = [] then [] else bitsetEncodeBytes (nonZeroBitset data) @ nonZero data)"
  by (subst bitsetEncodeBytes.simps)
     (auto simp: nonZeroBitset_def case_prod_beta encode_loop_bytes)

lemma encode_empty_iff: "bitsetEncodeBytes data = [] \<longleftrightarrow> nonZero data = []"
proof -
  consider "data = []" | b where "data = [b]" | "2 \<le> length data"
    by (cases data; cases "tl data") (auto simp: Suc_le_eq)
  then show ?thesis
    by cases (auto simp: encode_small encode_large)
qed

section \<open>Decoding what was encoded\<close>

lemma decode_loop_complete:
  assumes "i + k = 8 * length bset" and "length d \<le> 8 * length bset"
    and bits: "\<And>j. j < 8 * length bset \<Longrightarrow> bitAt bset j \<longleftrightarrow> j < length d \<and> d ! j \<noteq> 0"
    and "src = pre @ nonZero (drop i d) @ rest"
    and "decomp = take i d @ replicate (length d - i) 0"
  shows "decode_loop k i bset src decomp (length pre)
           = Inr (d, length pre + length (nonZero (drop i d)))"
  using assms(1,4,5)
proof (induction k arbitrary: i pre decomp)
  case 0
  then have "length d \<le> i" using assms(2) by simp
  then show ?case using 0 by (simp add: nonZero_def)
next
  case (Suc k)
  have i: "i < 8 * length bset" using Suc.prems(1) by simp
  have len: "length decomp = length d" using Suc.prems(3) by auto
  show ?case
  proof (cases "i < length d \<and> d ! i \<noteq> 0")
    case True
    have nz: "nonZero (drop i d) = d ! i # nonZero (drop (Suc i) d)"
      using True by (simp add: Cons_nth_drop_Suc [symmetric] nonZero_def)
    have "decomp[i := d ! i] = take (Suc i) d @ replicate (length d - Suc i) 0"
      using True Suc.prems(3)
      by (auto simp: list_update_append take_Suc_conv_app_nth intro!: nth_equalityI simp: nth_append nth_list_update)
    moreover have "src = (pre @ [d ! i]) @ nonZero (drop (Suc i) d) @ rest"
      using Suc.prems(2) nz by simp
    ultimately have "decode_loop k (Suc i) bset src (decomp[i := d ! i]) (length (pre @ [d ! i]))
        = Inr (d, length (pre @ [d ! i]) + length (nonZero (drop (Suc i) d)))"
      using Suc.prems(1) by (intro Suc.IH) auto
    then show ?thesis
      using True bits [OF i] Suc.prems(2) nz len by (simp add: bitAt_def and_exp_0)
  next
    case False
    have nz: "nonZero (drop i d) = nonZero (drop (Suc i) d)"
      using False by (cases "i < length d") (auto simp: Cons_nth_drop_Suc [symmetric] nonZero_def)
    have "decomp = take (Suc i) d @ replicate (length d - Suc i) 0"
      using False Suc.prems(3) Suc_diff_Suc [of i "length d"]
      by (cases "i < length d") (auto simp: take_Suc_conv_app_nth simp flip: replicate_Suc)
    then have "decode_loop k (Suc i) bset src decomp (length pre)
        = Inr (d, length pre + length (nonZero (drop (Suc i) d)))"
      using Suc.prems(1,2) nz by (intro Suc.IH) auto
    then show ?thesis
      using False bits [OF i] nz by (simp add: bitAt_def and_exp_0)
  qed
qed

lemma partial_target_0 [simp]: "bitsetDecodePartialBytes data 0 = Inr ([], 0)"
  by (simp add: bitsetDecodePartialBytes.simps)

lemma partial_no_data:
  "bitsetDecodePartialBytes [] n = Inr (replicate n 0, 0)"
  by (cases "n = 0") (simp_all add: bitsetDecodePartialBytes.simps)

lemma partial_target_1:
  "data \<noteq> [] \<Longrightarrow>
   bitsetDecodePartialBytes data 1 = Inr ([data ! 0], if data ! 0 \<noteq> 0 then 1 else 0)"
  by (simp add: bitsetDecodePartialBytes.simps)

lemma partial_large:
  "data \<noteq> [] \<Longrightarrow> 2 \<le> n \<Longrightarrow>
   bitsetDecodePartialBytes data n =
     (case bitsetDecodePartialBytes data ((n + 7) div 8) of
        Inl e \<Rightarrow> Inl e
      | Inr (bset, ptr) \<Rightarrow>
          decode_loop (8 * length bset) 0 bset data (replicate n 0) ptr)"
  by (subst bitsetDecodePartialBytes.simps) simp

text \<open>
  Decoding a non-empty encoding reads the data back and stops where it ends, whatever
  follows: the recursion decodes a prefix of its input.
\<close>

lemma partial_decode_encode:
  "nonZero d \<noteq> [] \<Longrightarrow>
   bitsetDecodePartialBytes (bitsetEncodeBytes d @ rest) (length d)
     = Inr (d, length (bitsetEncodeBytes d))"
proof (induction "length d" arbitrary: d rest rule: less_induct)
  case less
  consider b where "d = [b]" "b \<noteq> 0" | "2 \<le> length d"
    using less.prems by (cases d; cases "tl d") (auto simp: nonZero_def Suc_le_eq split: if_splits)
  then show ?case
  proof cases
    case 1
    then show ?thesis by (simp add: encode_small nonZero_def partial_target_1 [simplified])
  next
    case 2
    let ?b = "nonZeroBitset d" and ?nz = "nonZero d"
    have enc: "bitsetEncodeBytes d = bitsetEncodeBytes ?b @ ?nz"
      using 2 less.prems by (simp add: encode_large)
    have "length ?b < length d" using 2 by simp
    moreover have "nonZero ?b \<noteq> []" using less.prems by (simp add: nonZero_bitset_empty_iff)
    ultimately have "bitsetDecodePartialBytes (bitsetEncodeBytes ?b @ ?nz @ rest) (length ?b)
        = Inr (?b, length (bitsetEncodeBytes ?b))"
      by (rule less.hyps)
    moreover have "decode_loop (8 * length ?b) 0 ?b (bitsetEncodeBytes ?b @ ?nz @ rest)
        (replicate (length d) 0) (length (bitsetEncodeBytes ?b))
        = Inr (d, length (bitsetEncodeBytes ?b) + length (nonZero (drop 0 d)))"
      by (rule decode_loop_complete) (auto simp: bitAt_nonZeroBitset)
    ultimately show ?thesis
      using 2 less.prems enc by (simp add: partial_large)
  qed
qed

section \<open>Encoding what was decoded\<close>

lemma decode_loop_sound:
  "decode_loop k i bset src decomp ptr = Inr (out, p) \<Longrightarrow>
   i + k = 8 * length bset \<Longrightarrow> ptr \<le> length src \<Longrightarrow> (\<forall>j \<ge> i. j < length decomp \<longrightarrow> decomp ! j = 0) \<Longrightarrow>
   length out = length decomp \<and> (\<forall>j < i. j < length decomp \<longrightarrow> out ! j = decomp ! j) \<and>
   ptr \<le> p \<and> p \<le> length src \<and> take p src = take ptr src @ nonZero (drop i out) \<and>
   (\<forall>j. i \<le> j \<and> j < 8 * length bset \<longrightarrow> bitAt bset j = (j < length out \<and> out ! j \<noteq> 0))"
proof (induction k arbitrary: i decomp ptr)
  case 0
  then have "nonZero (drop i out) = []" by (auto simp: nonZero_empty_iff)
  with 0 show ?case by auto
next
  case (Suc k)
  show ?case
  proof (cases "bitAt bset i")
    case True
    then have c: "ptr < length src" "i < length decomp" "src ! ptr \<noteq> 0"
      and rec: "decode_loop k (Suc i) bset src (decomp[i := src ! ptr]) (Suc ptr) = Inr (out, p)"
      using Suc.prems(1) by (auto simp: bitAt_def and_exp_0 not_le split: if_splits)
    have IH: "length out = length decomp" "out ! i = src ! ptr" "Suc ptr \<le> p" "p \<le> length src"
      "\<forall>j < i. j < length decomp \<longrightarrow> out ! j = decomp ! j"
      "take p src = take (Suc ptr) src @ nonZero (drop (Suc i) out)"
      "\<forall>j. Suc i \<le> j \<and> j < 8 * length bset \<longrightarrow> bitAt bset j = (j < length out \<and> out ! j \<noteq> 0)"
      using Suc.IH [OF rec] Suc.prems(2,4) c by auto
    have "nonZero (drop i out) = src ! ptr # nonZero (drop (Suc i) out)"
      using c IH(1,2) by (simp add: Cons_nth_drop_Suc [symmetric] nonZero_Cons)
    moreover have "take (Suc ptr) src = take ptr src @ [src ! ptr]"
      using c(1) by (rule take_Suc_conv)
    moreover have "bitAt bset j = (j < length out \<and> out ! j \<noteq> 0)"
      if "i \<le> j" "j < 8 * length bset" for j
      using that IH(1,2,7) c True by (cases "j = i") auto
    ultimately show ?thesis
      using IH(1,3,4,5,6) by simp
  next
    case False
    then have rec: "decode_loop k (Suc i) bset src decomp ptr = Inr (out, p)"
      using Suc.prems(1) by (auto simp: bitAt_def and_exp_0 split: if_splits)
    have IH: "length out = length decomp" "ptr \<le> p" "p \<le> length src"
      "\<forall>j < Suc i. j < length decomp \<longrightarrow> out ! j = decomp ! j"
      "take p src = take ptr src @ nonZero (drop (Suc i) out)"
      "\<forall>j. Suc i \<le> j \<and> j < 8 * length bset \<longrightarrow> bitAt bset j = (j < length out \<and> out ! j \<noteq> 0)"
      using Suc.IH [OF rec] Suc.prems(2,3,4) by auto
    have "out ! i = 0" if "i < length out"
      using that IH(1,4) Suc.prems(4) by simp
    then have "nonZero (drop i out) = nonZero (drop (Suc i) out)"
      by (cases "i < length out") (simp_all add: Cons_nth_drop_Suc [symmetric] nonZero_Cons)
    moreover have "bitAt bset j = (j < length out \<and> out ! j \<noteq> 0)"
      if "i \<le> j" "j < 8 * length bset" for j
      using that IH(6) False \<open>i < length out \<Longrightarrow> out ! i = 0\<close> by (cases "j = i") auto
    ultimately show ?thesis
      using IH(1-5) by simp
  qed
qed

lemma partial_encode_decode:
  "bitsetDecodePartialBytes data n = Inr (out, sz) \<Longrightarrow>
   length out = n \<and> sz \<le> length data \<and> bitsetEncodeBytes out = take sz data"
proof (induction n arbitrary: out sz rule: less_induct)
  case (less n)
  consider "n = 0" | "data = []" "0 < n" | "data \<noteq> []" "n = 1" | "data \<noteq> []" "2 \<le> n"
    by linarith
  then show ?case
  proof cases
    case 2
    then show ?thesis
      using less.prems by (auto simp: partial_no_data encode_empty_iff)
  next
    case 3
    then show ?thesis
      using less.prems
      by (cases data) (auto simp: partial_target_1 [simplified] encode_small nonZero_def
            split: if_splits)
  next
    case 4
    then obtain bset ptr where b: "bitsetDecodePartialBytes data ((n + 7) div 8) = Inr (bset, ptr)"
      and loop: "decode_loop (8 * length bset) 0 bset data (replicate n 0) ptr = Inr (out, sz)"
      using less.prems by (auto simp: partial_large split: sum.splits)
    have IH: "length bset = (n + 7) div 8" "ptr \<le> length data" "bitsetEncodeBytes bset = take ptr data"
      using less.IH [OF _ b] 4 by auto
    have out: "length out = n" "sz \<le> length data" "take sz data = take ptr data @ nonZero out"
      "\<forall>j < 8 * length bset. bitAt bset j = (j < length out \<and> out ! j \<noteq> 0)"
      using decode_loop_sound [OF loop] IH(2) by auto
    then have "nonZeroBitset out = bset"
      using IH(1) by (intro nonZeroBitset_unique) auto
    then have "bitsetEncodeBytes out
        = (if nonZero out = [] then [] else bitsetEncodeBytes bset @ nonZero out)"
      using 4 out(1) by (simp add: encode_large)
    moreover have "bitsetEncodeBytes bset = []" if "nonZero out = []"
      using that nonZero_bitset_empty_iff [of out] \<open>nonZeroBitset out = bset\<close>
      by (simp add: encode_empty_iff)
    ultimately show ?thesis using out IH(3) by (auto split: if_splits)
  qed (use less.prems in \<open>auto simp: encode_small\<close>)
qed

section \<open>Properties\<close>

lemma bitset_dec_enc: "bitsetDecodeBytes (bitsetEncodeBytes data) (length data) = Inr data"
proof (cases "nonZero data = []")
  case True
  then have "bitsetEncodeBytes data = []" "data = replicate (length data) 0"
    by (simp_all add: encode_empty_iff nonZero_def filter_nonzero_Nil)
  then show ?thesis
    by (simp add: bitsetDecodeBytes_def partial_no_data)
next
  case False
  then show ?thesis
    using partial_decode_encode [of data "[]"] by (simp add: bitsetDecodeBytes_def)
qed

lemma bitset_enc_dec:
  "bitsetDecodeBytes data n = Inr out \<Longrightarrow> length out = n \<and> bitsetEncodeBytes out = data"
  by (auto simp: bitsetDecodeBytes_def dest!: partial_encode_decode
        split: sum.splits prod.splits if_splits)

text \<open>
  For every target length the bitset format is a canonical codec, and compression with its
  raw fallback is a codec: the tests and the fuzzers of the package check instances of both.
\<close>

interpretation bitset: canonical_codec bitsetEncodeBytes "\<lambda>data. bitsetDecodeBytes data n"
  "\<lambda>data. length data = n" for n
  by unfold_locales (auto simp: bitset_dec_enc dest: bitset_enc_dec)

lemma decompress_compress: "DecompressBytes (CompressBytes data) (length data) = Inr data"
  by (simp add: DecompressBytes_def CompressBytes_def Let_def bitset_dec_enc)

interpretation compress: codec CompressBytes "\<lambda>data. DecompressBytes data n"
  "\<lambda>data. length data = n" for n
  by unfold_locales (auto simp: decompress_compress)

text \<open>
  C1: decompressing what \<^verbatim>\<open>CompressBytes\<close> produced, with the original length, returns the
  original bytes; the compressed form is never longer than the input, and two inputs of one
  length never share a compressed form.
\<close>

theorem compress_roundtrip:
  "DecompressBytes (CompressBytes data) (length data) = Inr data
   \<and> length (CompressBytes data) \<le> length data
   \<and> inj_on CompressBytes {data. length data = n}"
  using compress.dec_enc [of data "length data"] compress.enc_inj_on [of n]
  by (simp add: CompressBytes_def Let_def)

text \<open>
  The bitset format is canonical. A byte string is accepted for a target length exactly
  when it is the encoding of the data returned, so re-encoding a decoded string gives the
  string back (the check of the package's \<^verbatim>\<open>fuzzDecode\<close>), and the data has the target
  length.
\<close>

theorem bitset_canonical:
  "bitsetDecodeBytes data n = Inr out \<longleftrightarrow> length out = n \<and> data = bitsetEncodeBytes out"
  by (rule bitset.dec_iff)

end
