(* ===== verification/State_Transition.thy ===== *)
theory State_Transition
  imports Chain_Prelude
begin

text \<open>
  Applying a message to the world state: the block gas pool (\<^verbatim>\<open>gaspool.go\<close>), the transfer
  helpers of \<^verbatim>\<open>evm.go\<close> and the state transition (\<^verbatim>\<open>state_transition.go\<close>).
  \<^verbatim>\<open>vm.StateDB\<close>, the interpreter behind \<^verbatim>\<open>evm.Create\<close> and \<^verbatim>\<open>evm.Call\<close> and the
  gas schedule of package params are not part of the repository; they are the parameters
  \<open>state_ops\<close>, \<open>evm_ops\<close> and \<open>gas_params\<close>. A Go panic is the error \<open>GoPanic\<close>.
\<close>

section \<open>Data\<close>

datatype tx_err =
    ErrNonceTooLow
  | ErrNonceTooHigh
  | ErrGasLimitReached
  | ErrInsufficientFundsForTransfer
  | ErrInsufficientFunds
  | ErrGasUintOverflow
  | ErrIntrinsicGas
  | ErrInvalidSig
  | GoPanic

datatype vm_err = ErrExecutionReverted | ErrOther nat

record 's state_ops =
  GetBalance :: "'s \<Rightarrow> address \<Rightarrow> int"
  SubBalance :: "'s \<Rightarrow> address \<Rightarrow> int \<Rightarrow> 's"
  AddBalance :: "'s \<Rightarrow> address \<Rightarrow> int \<Rightarrow> 's"
  GetNonce :: "'s \<Rightarrow> address \<Rightarrow> u64"
  SetNonce :: "'s \<Rightarrow> address \<Rightarrow> u64 \<Rightarrow> 's"
  GetRefund :: "'s \<Rightarrow> u64"

record 's evm_ops =
  evm_Create :: "'s \<Rightarrow> address \<Rightarrow> bytes \<Rightarrow> u64 \<Rightarrow> int \<Rightarrow> bytes \<times> address \<times> u64 \<times> vm_err option \<times> 's"
  evm_Call :: "'s \<Rightarrow> address \<Rightarrow> address \<Rightarrow> bytes \<Rightarrow> u64 \<Rightarrow> int \<Rightarrow> bytes \<times> u64 \<times> vm_err option \<times> 's"
  evm_Coinbase :: address
  evm_IsHomestead :: bool
  evm_IsIstanbul :: bool

record gas_params =
  TxGas :: u64
  TxGasContractCreation :: u64
  TxDataZeroGas :: u64
  TxDataNonZeroGasFrontier :: u64
  TxDataNonZeroGasEIP2028 :: u64

record message =
  msg_From :: address
  msg_To :: "address option"
  msg_GasPrice :: int
  msg_Gas :: u64
  msg_Value :: int
  msg_Nonce :: u64
  msg_CheckNonce :: bool
  msg_Data :: bytes

section \<open>The gas pool\<close>

type_synonym gas_pool = u64

definition AddGas :: "gas_pool \<Rightarrow> u64 \<Rightarrow> gas_pool option" where
  "AddGas gp amount = (if gp > - 1 - amount then None else Some (gp + amount))"

definition SubGas :: "gas_pool \<Rightarrow> u64 \<Rightarrow> tx_err + gas_pool" where
  "SubGas gp amount = (if gp < amount then Inl ErrGasLimitReached else Inr (gp - amount))"

lemma uint_max: "uint (- 1 :: u64) = 2 ^ 64 - 1"
  by (simp add: unsigned_minus_1_eq_mask mask_eq_exp_minus_1)

lemma uint_max_minus: "uint (- 1 - a :: u64) = 2 ^ 64 - 1 - uint a"
proof -
  have "uint a \<le> uint (- 1 :: u64)"
    using uint_lt2p [of a] by (simp only: uint_max) simp
  then have "uint (- 1 - a :: u64) = uint (- 1 :: u64) - uint a"
    by (simp only: uint_minus_simple_alt [symmetric] word_le_def)
  then show ?thesis by (simp only: uint_max)
qed

lemma uint_less_two64 [simp]: "uint (x :: u64) < 18446744073709551616"
  using uint_lt2p [of x] by simp

lemma uint_add_exact:
  "uint (a :: u64) + uint b < 2 ^ 64 \<Longrightarrow> uint (a + b) = uint a + uint b"
  by (simp add: uint_word_ariths)

lemma uint_sub_exact: "b \<le> a \<Longrightarrow> uint (a - b :: u64) = uint a - uint b"
  by (rule uint_minus_simple_alt [THEN iffD1])

lemma uint_mult_exact:
  "uint (a :: u64) * uint b < 2 ^ 64 \<Longrightarrow> uint (a * b) = uint a * uint b"
  by (simp add: uint_word_ariths)

lemma AddGas_iff: "AddGas gp amount = Some gp' \<longleftrightarrow>
    uint gp + uint amount < 2 ^ 64 \<and> uint gp' = uint gp + uint amount"
  by (auto simp: AddGas_def word_less_def uint_max_minus uint_add_exact
        intro!: word_uint_eqI)

lemma SubGas_iff: "SubGas gp amount = Inr gp' \<longleftrightarrow>
    uint amount \<le> uint gp \<and> uint gp' = uint gp - uint amount"
  by (auto simp: SubGas_def word_le_def word_less_def uint_sub_exact intro!: word_uint_eqI)

section \<open>Intrinsic gas\<close>

text \<open>\<^verbatim>\<open>for _, byt := range data { if byt != 0 { nz++ } }\<close>\<close>

definition countNonZero :: "bytes \<Rightarrow> u64" where
  "countNonZero data = fold (\<lambda>byt nz. if byt \<noteq> 0 then nz + 1 else nz) data 0"

definition IntrinsicGas :: "gas_params \<Rightarrow> bytes \<Rightarrow> bool \<Rightarrow> bool \<Rightarrow> bool \<Rightarrow> tx_err + u64" where
  "IntrinsicGas P data contractCreation isHomestead isEIP2028 =
     (let gas = (if contractCreation \<and> isHomestead then TxGasContractCreation P else TxGas P) in
      if 0 < length data then
        let nz = countNonZero data;
            nonZeroGas = (if isEIP2028 then TxDataNonZeroGasEIP2028 P
                          else TxDataNonZeroGasFrontier P)
        in if nonZeroGas = 0 then Inl GoPanic
           else if (- 1 - gas) div nonZeroGas < nz then Inl ErrGasUintOverflow
           else
             let gas = gas + nz * nonZeroGas;
                 z = word_of_nat (length data) - nz
             in if TxDataZeroGas P = 0 then Inl GoPanic
                else if (- 1 - gas) div TxDataZeroGas P < z then Inl ErrGasUintOverflow
                else Inr (gas + z * TxDataZeroGas P)
      else Inr gas)"

section \<open>Transfers\<close>

definition CanTransfer :: "'s state_ops \<Rightarrow> 's \<Rightarrow> address \<Rightarrow> int \<Rightarrow> bool" where
  "CanTransfer ops db addr amount = (GetBalance ops db addr \<ge> amount)"

definition Transfer :: "'s state_ops \<Rightarrow> 's \<Rightarrow> address \<Rightarrow> address \<Rightarrow> int \<Rightarrow> 's" where
  "Transfer ops db sender recipient amount =
     AddBalance ops (SubBalance ops db sender amount) recipient amount"

section \<open>The state transition\<close>

record 's transition =
  st_gp :: gas_pool
  st_msg :: message
  st_gas :: u64
  st_gasPrice :: int
  st_initialGas :: u64
  st_value :: int
  st_data :: bytes
  st_state :: 's

record exec_result =
  UsedGas :: u64
  Err :: "vm_err option"
  ReturnData :: bytes

definition Unwrap :: "exec_result \<Rightarrow> vm_err option" where
  "Unwrap result = Err result"

definition Failed :: "exec_result \<Rightarrow> bool" where
  "Failed result = (Err result \<noteq> None)"

definition Return :: "exec_result \<Rightarrow> bytes" where
  "Return result = (if Err result \<noteq> None then [] else ReturnData result)"

definition Revert :: "exec_result \<Rightarrow> bytes" where
  "Revert result = (if Err result \<noteq> Some ErrExecutionReverted then [] else ReturnData result)"

definition NewStateTransition :: "'s \<Rightarrow> message \<Rightarrow> gas_pool \<Rightarrow> 's transition" where
  "NewStateTransition statedb msg gp =
     \<lparr>st_gp = gp, st_msg = msg, st_gas = 0, st_gasPrice = msg_GasPrice msg, st_initialGas = 0,
      st_value = msg_Value msg, st_data = msg_Data msg, st_state = statedb\<rparr>"

definition st_to :: "'s transition \<Rightarrow> address" where
  "st_to st = (case msg_To (st_msg st) of None \<Rightarrow> 0 | Some a \<Rightarrow> a)"

definition gasUsed :: "'s transition \<Rightarrow> u64" where
  "gasUsed st = st_initialGas st - st_gas st"

text \<open>Every error return of \<open>buyGas\<close> and \<open>preCheck\<close> comes before the first write.\<close>

definition buyGas :: "'s state_ops \<Rightarrow> 's transition \<Rightarrow> tx_err + 's transition" where
  "buyGas ops st =
     (let msg = st_msg st;
          mgval = uint (msg_Gas msg) * st_gasPrice st
      in if GetBalance ops (st_state st) (msg_From msg) < mgval then Inl ErrInsufficientFunds
         else
           case SubGas (st_gp st) (msg_Gas msg) of
             Inl e \<Rightarrow> Inl e
           | Inr gp \<Rightarrow>
               Inr (st\<lparr>st_gp := gp, st_gas := st_gas st + msg_Gas msg,
                       st_initialGas := msg_Gas msg,
                       st_state := SubBalance ops (st_state st) (msg_From msg) mgval\<rparr>))"

definition preCheck :: "'s state_ops \<Rightarrow> 's transition \<Rightarrow> tx_err + 's transition" where
  "preCheck ops st =
     (let msg = st_msg st; nonce = GetNonce ops (st_state st) (msg_From msg) in
      if msg_CheckNonce msg \<and> nonce < msg_Nonce msg then Inl ErrNonceTooHigh
      else if msg_CheckNonce msg \<and> nonce > msg_Nonce msg then Inl ErrNonceTooLow
      else buyGas ops st)"

definition refundGas :: "'s state_ops \<Rightarrow> 's transition \<Rightarrow> 's transition option" where
  "refundGas ops st =
     (let refund = gasUsed st div 2;
          refund = (if refund > GetRefund ops (st_state st)
                    then GetRefund ops (st_state st) else refund);
          gas = st_gas st + refund;
          remaining = uint gas * st_gasPrice st;
          db = AddBalance ops (st_state st) (msg_From (st_msg st)) remaining
      in case AddGas (st_gp st) gas of
           None \<Rightarrow> None
         | Some gp \<Rightarrow> Some (st\<lparr>st_gas := gas, st_state := db, st_gp := gp\<rparr>))"

text \<open>The call into the interpreter: contract creation or a message call.\<close>

definition runEvm :: "'s state_ops \<Rightarrow> 's evm_ops \<Rightarrow> 's transition
    \<Rightarrow> bytes \<times> vm_err option \<times> 's transition" where
  "runEvm ops evm st =
     (let msg = st_msg st; from = msg_From msg in
      if msg_To msg = None then
        (case evm_Create evm (st_state st) from (st_data st) (st_gas st) (st_value st) of
           (ret, _, gas, vmerr, db) \<Rightarrow> (ret, vmerr, st\<lparr>st_gas := gas, st_state := db\<rparr>))
      else
        (let db = SetNonce ops (st_state st) from (GetNonce ops (st_state st) from + 1) in
         case evm_Call evm db from (st_to st) (st_data st) (st_gas st) (st_value st) of
           (ret, gas, vmerr, db) \<Rightarrow> (ret, vmerr, st\<lparr>st_gas := gas, st_state := db\<rparr>)))"

definition TransitionDb :: "gas_params \<Rightarrow> 's state_ops \<Rightarrow> 's evm_ops \<Rightarrow> 's transition
    \<Rightarrow> (tx_err + exec_result) \<times> 's transition" where
  "TransitionDb P ops evm st =
     (case preCheck ops st of
        Inl e \<Rightarrow> (Inl e, st)
      | Inr st \<Rightarrow>
          let msg = st_msg st in
          case IntrinsicGas P (st_data st) (msg_To msg = None) (evm_IsHomestead evm)
                 (evm_IsIstanbul evm) of
            Inl e \<Rightarrow> (Inl e, st)
          | Inr gas \<Rightarrow>
              if st_gas st < gas then (Inl ErrIntrinsicGas, st)
              else
                let st = st\<lparr>st_gas := st_gas st - gas\<rparr> in
                if msg_Value msg > 0 \<and> \<not> CanTransfer ops (st_state st) (msg_From msg) (msg_Value msg)
                then (Inl ErrInsufficientFundsForTransfer, st)
                else
                  case runEvm ops evm st of
                    (ret, vmerr, st) \<Rightarrow>
                      case refundGas ops st of
                        None \<Rightarrow> (Inl GoPanic, st)
                      | Some st \<Rightarrow>
                          let st = st\<lparr>st_state := AddBalance ops (st_state st) (evm_Coinbase evm)
                                                  (uint (gasUsed st) * st_gasPrice st)\<rparr>
                          in (Inr \<lparr>UsedGas = gasUsed st, Err = vmerr, ReturnData = ret\<rparr>, st))"

definition ApplyMessage :: "gas_params \<Rightarrow> 's state_ops \<Rightarrow> 's evm_ops \<Rightarrow> 's \<Rightarrow> message \<Rightarrow> gas_pool
    \<Rightarrow> (tx_err + exec_result) \<times> 's transition" where
  "ApplyMessage P ops evm statedb msg gp = TransitionDb P ops evm (NewStateTransition statedb msg gp)"

section \<open>Gas arithmetic is exact\<close>

lemma unat_max_minus: "unat (- 1 - a :: u64) = 2 ^ 64 - 1 - unat a"
  by (simp add: unat_sub unsigned_minus_1_eq_mask mask_eq_exp_minus_1)

lemma nat_room_iff: "(g :: nat) < M \<Longrightarrow> M - 1 - g < q \<longleftrightarrow> M \<le> g + q"
  by arith

lemma overflow_test:
  assumes "k \<noteq> (0 :: u64)"
  shows "(- 1 - g) div k < n \<longleftrightarrow> 2 ^ 64 \<le> uint g + uint n * uint k"
proof -
  have k: "0 < unat k" using assms by (simp add: unat_gt_0)
  have "(- 1 - g) div k < n \<longleftrightarrow> 2 ^ 64 - 1 - unat g < unat n * unat k"
    using k by (simp add: word_less_nat_alt unat_div unat_max_minus div_less_iff_less_mult)
  also have "\<dots> \<longleftrightarrow> 2 ^ 64 \<le> unat g + unat n * unat k"
    by (rule nat_room_iff) (use unsigned_less [where 'a = nat, of g] in simp)
  also have "\<dots> \<longleftrightarrow> int (2 ^ 64) \<le> int (unat g + unat n * unat k)"
    by (simp only: of_nat_le_iff)
  finally show ?thesis by simp
qed

lemma countNonZero_length:
  "countNonZero data = word_of_nat (length (filter (\<lambda>b. b \<noteq> 0) data))"
proof -
  have "fold (\<lambda>byt nz. if byt \<noteq> 0 then nz + 1 else nz) data n
          = n + word_of_nat (length (filter (\<lambda>b. b \<noteq> 0) data))" for n :: u64
    by (induction data arbitrary: n) auto
  from this [of 0] show ?thesis by (simp add: countNonZero_def)
qed

text \<open>The price of a message in unbounded integers.\<close>

definition intrinsicCost :: "gas_params \<Rightarrow> bytes \<Rightarrow> bool \<Rightarrow> bool \<Rightarrow> bool \<Rightarrow> int" where
  "intrinsicCost P data contractCreation isHomestead isEIP2028 =
     (let nz = int (length (filter (\<lambda>b. b \<noteq> 0) data)); z = int (length data) - nz in
        uint (if contractCreation \<and> isHomestead then TxGasContractCreation P else TxGas P)
        + nz * uint (if isEIP2028 then TxDataNonZeroGasEIP2028 P else TxDataNonZeroGasFrontier P)
        + z * uint (TxDataZeroGas P))"

lemma uint_countNonZero:
  assumes "length data < 2 ^ 64"
  shows "uint (countNonZero data) = int (length (filter (\<lambda>b. b \<noteq> 0) data))"
proof -
  have "length (filter (\<lambda>b. b \<noteq> 0) data) < 2 ^ 64"
    using assms length_filter_le [of "\<lambda>b. b \<noteq> 0" data] by linarith
  then show ?thesis by (simp add: countNonZero_length unsigned_of_nat take_bit_nat_eq_self_iff take_bit_eq_mod)
qed

lemma uint_countZero:
  assumes "length data < 2 ^ 64"
  shows "uint (word_of_nat (length data) - countNonZero data)
           = int (length data) - int (length (filter (\<lambda>b. b \<noteq> 0) data))"
proof -
  have "uint (word_of_nat (length data) :: u64) = int (length data)"
    using assms by (simp add: unsigned_of_nat take_bit_eq_mod)
  then show ?thesis
    using uint_countNonZero [OF assms] length_filter_le [of "\<lambda>b. b \<noteq> 0" data]
    by (subst uint_sub_exact) (simp_all add: word_le_def)
qed

lemma IntrinsicGas_exact:
  assumes nz: "TxDataZeroGas P \<noteq> 0" "TxDataNonZeroGasFrontier P \<noteq> 0" "TxDataNonZeroGasEIP2028 P \<noteq> 0"
    and len: "length data < 2 ^ 64"
  shows "IntrinsicGas P data cc hs ei =
     (if intrinsicCost P data cc hs ei < 2 ^ 64
      then Inr (word_of_int (intrinsicCost P data cc hs ei)) else Inl ErrGasUintOverflow)"
proof -
  define g where "g = (if cc \<and> hs then TxGasContractCreation P else TxGas P)"
  define k where "k = (if ei then TxDataNonZeroGasEIP2028 P else TxDataNonZeroGasFrontier P)"
  define n where "n = countNonZero data"
  define z where "z = (word_of_nat (length data) - n :: u64)"
  have k: "k \<noteq> 0" using nz by (simp add: k_def)
  have cost: "intrinsicCost P data cc hs ei = uint g + uint n * uint k + uint z * uint (TxDataZeroGas P)"
    using uint_countNonZero [OF len] uint_countZero [OF len]
    by (simp add: intrinsicCost_def Let_def g_def k_def n_def z_def)
  show ?thesis
  proof (cases "uint g + uint n * uint k < 2 ^ 64")
    case False
    have "0 \<le> uint z * uint (TxDataZeroGas P)" by simp
    then have "\<not> intrinsicCost P data cc hs ei < 2 ^ 64"
      using False unfolding cost by linarith
    moreover have "data \<noteq> []"
      using False uint_lt2p [of g] by (auto simp: n_def countNonZero_def)
    ultimately show ?thesis
      using False overflow_test [OF k, of g n] k
      by (auto simp: IntrinsicGas_def Let_def nz simp flip: g_def k_def n_def)
  next
    case True
    have "uint n * uint k < 2 ^ 64" using True uint_ge_0 [of g] by linarith
    with True have "uint (g + n * k) = uint g + uint n * uint k"
      by (simp add: uint_add_exact uint_mult_exact)
    then have "(- 1 - (g + n * k)) div TxDataZeroGas P < z
        \<longleftrightarrow> 2 ^ 64 \<le> intrinsicCost P data cc hs ei"
      using overflow_test [OF nz(1), of "g + n * k" z] by (simp add: cost)
    moreover have "intrinsicCost P data cc hs ei = uint g" "n = 0" "z = 0" if "data = []"
      using that by (simp_all add: intrinsicCost_def g_def n_def z_def countNonZero_def)
    moreover have "word_of_int (intrinsicCost P data cc hs ei) = g + n * k + z * TxDataZeroGas P"
      by (simp add: cost)
    ultimately show ?thesis
      using True overflow_test [OF k, of g n] k
      by (auto simp: IntrinsicGas_def Let_def nz simp flip: g_def k_def n_def z_def)
  qed
qed

section \<open>What the interpreter and the state database are assumed to do\<close>

text \<open>
  The interpreter returns no more gas than it was given, and moves value between accounts
  without creating any; the database's balance operations change one balance each.
\<close>

definition evm_bounds_gas :: "'s evm_ops \<Rightarrow> bool" where
  "evm_bounds_gas evm \<longleftrightarrow>
     (\<forall>db from d g v ret a g' e db'. evm_Create evm db from d g v = (ret, a, g', e, db') \<longrightarrow> g' \<le> g) \<and>
     (\<forall>db from to d g v ret g' e db'. evm_Call evm db from to d g v = (ret, g', e, db') \<longrightarrow> g' \<le> g)"




lemma evm_bounds_gasD:
  "evm_bounds_gas evm \<Longrightarrow> evm_Create evm db from d g v = (ret, a, g', e, db') \<Longrightarrow> g' \<le> g"
  "evm_bounds_gas evm \<Longrightarrow> evm_Call evm db from to d g v = (ret, g', e, db') \<Longrightarrow> g' \<le> g"
  unfolding evm_bounds_gas_def by blast+






section \<open>Inversion of a successful transition\<close>

lemma buyGas_InrE:
  assumes "buyGas ops st = Inr st1"
  obtains "GetBalance ops (st_state st) (msg_From (st_msg st)) \<ge> uint (msg_Gas (st_msg st)) * st_gasPrice st"
    and "uint (msg_Gas (st_msg st)) \<le> uint (st_gp st)"
    and "st1 = st\<lparr>st_gp := st_gp st - msg_Gas (st_msg st), st_gas := st_gas st + msg_Gas (st_msg st),
          st_initialGas := msg_Gas (st_msg st),
          st_state := SubBalance ops (st_state st) (msg_From (st_msg st))
                        (uint (msg_Gas (st_msg st)) * st_gasPrice st)\<rparr>"
  using assms
  by (auto simp: buyGas_def SubGas_def Let_def word_less_def not_less split: if_splits)

lemma preCheck_Inr:
  "preCheck ops st = Inr st1 \<Longrightarrow> buyGas ops st = Inr st1 \<and>
     (msg_CheckNonce (st_msg st) \<longrightarrow> GetNonce ops (st_state st) (msg_From (st_msg st)) = msg_Nonce (st_msg st))"
  by (auto simp: preCheck_def Let_def split: if_splits)

lemma TransitionDb_InrE:
  assumes "TransitionDb P ops evm st = (Inr r, st')"
  obtains st1 g st2 ret vmerr st3 st4 where
    "preCheck ops st = Inr st1"
    "IntrinsicGas P (st_data st1) (msg_To (st_msg st1) = None) (evm_IsHomestead evm)
       (evm_IsIstanbul evm) = Inr g"
    "g \<le> st_gas st1"
    "st2 = st1\<lparr>st_gas := st_gas st1 - g\<rparr>"
    "runEvm ops evm st2 = (ret, vmerr, st3)"
    "refundGas ops st3 = Some st4"
    "st' = st4\<lparr>st_state := AddBalance ops (st_state st4) (evm_Coinbase evm)
                             (uint (gasUsed st4) * st_gasPrice st4)\<rparr>"
    "r = \<lparr>UsedGas = gasUsed st', Err = vmerr, ReturnData = ret\<rparr>"
  using assms
  by (auto simp: TransitionDb_def Let_def not_less split: sum.splits if_splits prod.splits option.splits)

lemma runEvm_frame:
  assumes "runEvm ops evm st = (ret, vmerr, st3)"
  shows "st_gp st3 = st_gp st" "st_msg st3 = st_msg st" "st_initialGas st3 = st_initialGas st"
    "st_gasPrice st3 = st_gasPrice st"
  using assms by (auto simp: runEvm_def Let_def split: if_splits prod.splits)

lemma runEvm_gas:
  "evm_bounds_gas evm \<Longrightarrow> runEvm ops evm st = (ret, vmerr, st3) \<Longrightarrow> st_gas st3 \<le> st_gas st"
  unfolding runEvm_def Let_def
  by (auto dest: evm_bounds_gasD split: if_splits prod.splits)


lemma gasUsed_exact:
  "st_gas st \<le> st_initialGas st \<Longrightarrow> uint (gasUsed st) = uint (st_initialGas st) - uint (st_gas st)"
  by (simp add: gasUsed_def uint_sub_exact)

text \<open>
  The refund is at most half of the gas used, so the gas left never exceeds the gas bought.
\<close>

definition refundOf :: "'s state_ops \<Rightarrow> 's transition \<Rightarrow> int" where
  "refundOf ops st = min (uint (gasUsed st) div 2) (uint (GetRefund ops (st_state st)))"

lemma refund_amount:
  "uint (if gasUsed st div 2 > GetRefund ops (st_state st) then GetRefund ops (st_state st)
         else gasUsed st div 2) = refundOf ops st"
  by (auto simp: refundOf_def word_less_def uint_div)

lemma refund_gas_exact:
  assumes "st_gas st \<le> st_initialGas st"
  shows "uint (st_gas st + (if gasUsed st div 2 > GetRefund ops (st_state st)
            then GetRefund ops (st_state st) else gasUsed st div 2)) = uint (st_gas st) + refundOf ops st"
    and "uint (st_gas st) + refundOf ops st \<le> uint (st_initialGas st)"
proof -
  have "refundOf ops st \<le> uint (gasUsed st) div 2" by (simp add: refundOf_def)
  also have "uint (gasUsed st) div 2 \<le> uint (gasUsed st)"
    using uint_ge_0 [of "gasUsed st"] by linarith
  finally show le: "uint (st_gas st) + refundOf ops st \<le> uint (st_initialGas st)"
    using gasUsed_exact [OF assms] by linarith
  moreover have "uint (st_initialGas st) < 2 ^ 64" using uint_lt2p [of "st_initialGas st"] by simp
  ultimately show "uint (st_gas st + (if gasUsed st div 2 > GetRefund ops (st_state st)
            then GetRefund ops (st_state st) else gasUsed st div 2)) = uint (st_gas st) + refundOf ops st"
    using refund_amount [of ops st] by (subst uint_add_exact) linarith+
qed

lemma refundGas_exact:
  assumes "st_gas st \<le> st_initialGas st"
    and "uint (st_gp st) + uint (st_initialGas st) < 2 ^ 64"
  obtains st' where "refundGas ops st = Some st'"
    and "uint (st_gas st') = uint (st_gas st) + refundOf ops st"
    and "uint (st_gp st') = uint (st_gp st) + uint (st_gas st')"
    and "st_state st' = AddBalance ops (st_state st) (msg_From (st_msg st)) (uint (st_gas st') * st_gasPrice st)"
    and "st_initialGas st' = st_initialGas st" "st_gasPrice st' = st_gasPrice st"
proof -
  define gas where "gas = st_gas st + (if gasUsed st div 2 > GetRefund ops (st_state st)
            then GetRefund ops (st_state st) else gasUsed st div 2)"
  have gas: "uint gas = uint (st_gas st) + refundOf ops st" "uint gas \<le> uint (st_initialGas st)"
    using refund_gas_exact [OF assms(1), of ops] by (simp_all add: gas_def)
  then have "AddGas (st_gp st) gas = Some (st_gp st + gas)" "uint (st_gp st + gas) = uint (st_gp st) + uint gas"
    using assms(2) by (simp_all add: AddGas_iff uint_add_exact)
  then have "refundGas ops st = Some (st\<lparr>st_gas := gas,
      st_state := AddBalance ops (st_state st) (msg_From (st_msg st)) (uint gas * st_gasPrice st),
      st_gp := st_gp st + gas\<rparr>)"
    by (simp add: refundGas_def Let_def flip: gas_def)
  then show ?thesis
    by (rule that) (use gas \<open>uint (st_gp st + gas) = _\<close> in simp_all)
qed

lemma preCheck_NewStateTransition:
  assumes "preCheck ops (NewStateTransition db msg gp) = Inr st1"
  shows "uint (msg_Gas msg) \<le> uint gp"
    and "st1 = (NewStateTransition db msg gp)\<lparr>st_gp := gp - msg_Gas msg, st_gas := msg_Gas msg,
        st_initialGas := msg_Gas msg,
        st_state := SubBalance ops db (msg_From msg) (uint (msg_Gas msg) * msg_GasPrice msg)\<rparr>"
proof -
  have buy: "buyGas ops (NewStateTransition db msg gp) = Inr st1"
    using preCheck_Inr [OF assms] by simp
  show "uint (msg_Gas msg) \<le> uint gp"
    and "st1 = (NewStateTransition db msg gp)\<lparr>st_gp := gp - msg_Gas msg, st_gas := msg_Gas msg,
        st_initialGas := msg_Gas msg,
        st_state := SubBalance ops db (msg_From msg) (uint (msg_Gas msg) * msg_GasPrice msg)\<rparr>"
    by (rule buyGas_InrE [OF buy]; simp add: NewStateTransition_def)+
qed

text \<open>After the interpreter ran, the gas left fits the gas bought and the pool has room for it.\<close>

lemma after_evm:
  assumes "evm_bounds_gas evm"
    and pre: "preCheck ops (NewStateTransition db msg gp) = Inr st1"
    and g: "g \<le> st_gas st1"
    and ev: "runEvm ops evm (st1\<lparr>st_gas := st_gas st1 - g\<rparr>) = (ret, vmerr, st3)"
  shows "st_gp st3 = gp - msg_Gas msg" "st_msg st3 = msg" "st_initialGas st3 = msg_Gas msg"
    "st_gasPrice st3 = msg_GasPrice msg"
    and "uint (st_gas st3) \<le> uint (msg_Gas msg) - uint g"
    and "st_gas st3 \<le> st_initialGas st3"
    and "uint (st_gp st3) = uint gp - uint (msg_Gas msg)"
    and "uint (st_gp st3) + uint (st_initialGas st3) < 2 ^ 64"
proof -
  note st1 = preCheck_NewStateTransition(2) [OF pre] and gp = preCheck_NewStateTransition(1) [OF pre]
  show fr: "st_gp st3 = gp - msg_Gas msg" "st_msg st3 = msg" "st_initialGas st3 = msg_Gas msg"
    "st_gasPrice st3 = msg_GasPrice msg"
    using runEvm_frame [OF ev] by (simp_all add: st1 NewStateTransition_def)
  have "st_gas st3 \<le> msg_Gas msg - g"
    using runEvm_gas [OF assms(1) ev] by (simp add: st1)
  moreover have "uint (msg_Gas msg - g) = uint (msg_Gas msg) - uint g"
    using g by (simp add: st1 uint_sub_exact)
  ultimately show left: "uint (st_gas st3) \<le> uint (msg_Gas msg) - uint g"
    by (simp add: word_le_def)
  then show "st_gas st3 \<le> st_initialGas st3"
    using uint_ge_0 [of g] unfolding fr word_le_def by linarith
  show gp3: "uint (st_gp st3) = uint gp - uint (msg_Gas msg)"
    using gp by (simp add: fr uint_sub_exact word_le_def)
  then show "uint (st_gp st3) + uint (st_initialGas st3) < 2 ^ 64"
    using uint_lt2p [of gp] by (simp add: fr)
qed

text \<open>Facts about a successful transition that the properties below read off.\<close>

lemma TransitionDb_gas:
  assumes evm: "evm_bounds_gas evm"
    and run: "ApplyMessage P ops evm db msg gp = (Inr r, st')"
  obtains g st2 st3 where
    "IntrinsicGas P (msg_Data msg) (msg_To msg = None) (evm_IsHomestead evm) (evm_IsIstanbul evm) = Inr g"
    "uint g \<le> uint (msg_Gas msg)" "uint (msg_Gas msg) \<le> uint gp"
    "st_state st2 = SubBalance ops db (msg_From msg) (uint (msg_Gas msg) * msg_GasPrice msg)"
    "runEvm ops evm st2 = (ReturnData r, Err r, st3)"
    "UsedGas r = gasUsed st'"
    "uint (UsedGas r) = uint (msg_Gas msg) - uint (st_gas st')"
    "uint (st_gas st') = uint (st_gas st3) + refundOf ops st3"
    "uint (gasUsed st3) = uint (msg_Gas msg) - uint (st_gas st3)"
    "uint (st_gas st3) \<le> uint (msg_Gas msg) - uint g"
    "uint (st_gas st') \<le> uint (msg_Gas msg)"
    "uint (st_gp st') = uint gp - uint (UsedGas r)"
    "st_state st' = AddBalance ops
       (AddBalance ops (st_state st3) (msg_From msg) (uint (st_gas st') * msg_GasPrice msg))
       (evm_Coinbase evm) (uint (UsedGas r) * msg_GasPrice msg)"
proof -
  note run' = run [unfolded ApplyMessage_def]
  obtain st1 g st2 ret vmerr st3 st4 where
    pre: "preCheck ops (NewStateTransition db msg gp) = Inr st1"
    and g: "IntrinsicGas P (st_data st1) (msg_To (st_msg st1) = None) (evm_IsHomestead evm)
       (evm_IsIstanbul evm) = Inr g" "g \<le> st_gas st1"
    and st2: "st2 = st1\<lparr>st_gas := st_gas st1 - g\<rparr>"
    and ev: "runEvm ops evm st2 = (ret, vmerr, st3)"
    and rf: "refundGas ops st3 = Some st4"
    and st': "st' = st4\<lparr>st_state := AddBalance ops (st_state st4) (evm_Coinbase evm)
                             (uint (gasUsed st4) * st_gasPrice st4)\<rparr>"
    and r: "r = \<lparr>UsedGas = gasUsed st', Err = vmerr, ReturnData = ret\<rparr>"
    by (rule TransitionDb_InrE [OF run'])
  note gp = preCheck_NewStateTransition(1) [OF pre] and st1 = preCheck_NewStateTransition(2) [OF pre]
  note after = after_evm [OF evm pre g(2) ev [unfolded st2]]
  note fr = after(1-4) and left = after(5) and le3 = after(6) and gp3 = after(7) and room = after(8)
  obtain st4' where "refundGas ops st3 = Some st4'"
    and rg: "uint (st_gas st4') = uint (st_gas st3) + refundOf ops st3"
      "uint (st_gp st4') = uint (st_gp st3) + uint (st_gas st4')"
      "st_state st4' = AddBalance ops (st_state st3) (msg_From (st_msg st3))
          (uint (st_gas st4') * st_gasPrice st3)"
      "st_initialGas st4' = st_initialGas st3" "st_gasPrice st4' = st_gasPrice st3"
    by (rule refundGas_exact [OF le3 room])
  with rf have s4: "st4' = st4" by simp
  have le4: "st_gas st4 \<le> st_initialGas st4"
    using rg(1,4) refund_gas_exact(2) [OF le3, of ops] by (simp add: s4 word_le_def)
  have used: "uint (gasUsed st') = uint (msg_Gas msg) - uint (st_gas st')"
    using gasUsed_exact [OF le4] rg(4) by (simp add: st' gasUsed_def s4 fr)
  have eqs: "gasUsed st4 = gasUsed st'" "st_gas st4 = st_gas st'" "st_gp st4 = st_gp st'"
    by (simp_all add: st' gasUsed_def)
  show ?thesis
  proof (rule that [of g st2 st3])
    show "uint (st_gp st') = uint gp - uint (UsedGas r)"
      using rg(2) gp3 used eqs by (simp add: s4 r)
    show "st_state st' = AddBalance ops
       (AddBalance ops (st_state st3) (msg_From msg) (uint (st_gas st') * msg_GasPrice msg))
       (evm_Coinbase evm) (uint (UsedGas r) * msg_GasPrice msg)"
    proof -
      have "st_state st' = AddBalance ops (st_state st4) (evm_Coinbase evm)
          (uint (gasUsed st4) * st_gasPrice st4)"
        by (simp add: st')
      moreover have "st_state st4 = AddBalance ops (st_state st3) (msg_From msg)
          (uint (st_gas st4) * msg_GasPrice msg)" "st_gasPrice st4 = msg_GasPrice msg"
        using rg(3,5) by (simp_all only: s4 fr)
      moreover have "UsedGas r = gasUsed st'" by (simp add: r)
      ultimately show ?thesis by (simp only: eqs)
    qed
    show "uint (gasUsed st3) = uint (msg_Gas msg) - uint (st_gas st3)"
      using gasUsed_exact [OF le3] by (simp add: fr)
    show "uint (st_gas st') \<le> uint (msg_Gas msg)"
      using le4 rg(4) eqs by (simp add: s4 fr word_le_def)
    show "IntrinsicGas P (msg_Data msg) (msg_To msg = None) (evm_IsHomestead evm)
        (evm_IsIstanbul evm) = Inr g"
      using g(1) by (simp add: st1 NewStateTransition_def)
    show "uint g \<le> uint (msg_Gas msg)"
      using g(2) by (simp add: st1 word_le_def)
    show "st_state st2 = SubBalance ops db (msg_From msg) (uint (msg_Gas msg) * msg_GasPrice msg)"
      by (simp add: st2 st1)
    show "runEvm ops evm st2 = (ReturnData r, Err r, st3)"
      using ev by (simp add: r)
    show "UsedGas r = gasUsed st'" by (simp add: r)
    show "uint (UsedGas r) = uint (msg_Gas msg) - uint (st_gas st')"
      using used by (simp add: r)
    show "uint (st_gas st') = uint (st_gas st3) + refundOf ops st3"
      using rg(1) eqs(2) by (simp only: s4)
  qed (use gp left in simp_all)
qed

section \<open>A concrete database and interpreter\<close>

text \<open>
  Balances in a function, one nonce for everybody and a fixed refund counter; the interpreter
  moves the value and burns half of its gas. They satisfy the assumptions above, so the
  properties below are not empty.
\<close>

definition demo_ops :: "(address \<Rightarrow> int) state_ops" where
  "demo_ops = \<lparr>GetBalance = (\<lambda>s a. s a), SubBalance = (\<lambda>s a v. s(a := s a - v)),
     AddBalance = (\<lambda>s a v. s(a := s a + v)), GetNonce = (\<lambda>_ _. 7), SetNonce = (\<lambda>s _ _. s),
     GetRefund = (\<lambda>_. 500)\<rparr>"

definition demo_evm :: "(address \<Rightarrow> int) evm_ops" where
  "demo_evm = \<lparr>evm_Create = (\<lambda>s from d g v. ([], 99, g div 2, None, s)),
     evm_Call = (\<lambda>s from to d g v. ([1], g div 2, None, Transfer demo_ops s from to v)),
     evm_Coinbase = 3, evm_IsHomestead = True, evm_IsIstanbul = True\<rparr>"

definition demo_params :: gas_params where
  "demo_params = \<lparr>TxGas = 21000, TxGasContractCreation = 53000, TxDataZeroGas = 4,
     TxDataNonZeroGasFrontier = 68, TxDataNonZeroGasEIP2028 = 16\<rparr>"

definition demo_msg :: message where
  "demo_msg = \<lparr>msg_From = 1, msg_To = Some 2, msg_GasPrice = 2, msg_Gas = 30000, msg_Value = 5,
     msg_Nonce = 7, msg_CheckNonce = True, msg_Data = [0, 1]\<rparr>"

definition demo_db :: "address \<Rightarrow> int" where
  "demo_db = (\<lambda>a. 100000)"

lemmas demo_defs = demo_ops_def demo_evm_def demo_params_def demo_msg_def demo_db_def

lemma word_half_le: "(g :: u64) div 2 \<le> g"
  by (simp add: word_le_nat_alt unat_div)

lemma demo_bounds: "evm_bounds_gas demo_evm"
  by (auto simp: evm_bounds_gas_def demo_evm_def word_half_le)


lemma demo_intrinsic: "IntrinsicGas demo_params [0, 1] False True True = Inr 21020"
  by (simp add: IntrinsicGas_def demo_params_def countNonZero_def)


lemma demo_run:
  obtains r st' where "ApplyMessage demo_params demo_ops demo_evm demo_db demo_msg 100000 = (Inr r, st')"
    and "UsedGas r = 25010"
proof -
  have "\<exists>r st'. ApplyMessage demo_params demo_ops demo_evm demo_db demo_msg 100000 = (Inr r, st')
      \<and> UsedGas r = 25010"
    using demo_intrinsic
    by (simp add: ApplyMessage_def TransitionDb_def preCheck_def buyGas_def SubGas_def AddGas_def
        NewStateTransition_def runEvm_def refundGas_def gasUsed_def st_to_def CanTransfer_def
        Transfer_def demo_ops_def demo_evm_def demo_msg_def demo_db_def Let_def)
  then show ?thesis using that by blast
qed

section \<open>Properties\<close>

text \<open>
  C2: \<^verbatim>\<open>IntrinsicGas\<close> computes the price of a message exactly: it returns the unbounded
  sum when that fits 64 bits and \<^verbatim>\<open>ErrGasUintOverflow\<close> in exactly the other cases, so no
  intermediate addition or product of the code ever wraps around unnoticed.
\<close>

theorem intrinsic_gas_exact:
  assumes "TxDataZeroGas P \<noteq> 0" "TxDataNonZeroGasFrontier P \<noteq> 0" "TxDataNonZeroGasEIP2028 P \<noteq> 0"
    and "length data < 2 ^ 64"
  shows "IntrinsicGas P data cc hs ei =
     (if intrinsicCost P data cc hs ei < 2 ^ 64
      then Inr (word_of_int (intrinsicCost P data cc hs ei)) else Inl ErrGasUintOverflow)"
  by (rule IntrinsicGas_exact [OF assms])

theorem intrinsic_gas_exact_witness:
  "IntrinsicGas demo_params [0, 1] False True True = Inr 21020"
  using intrinsic_gas_exact [of demo_params "[0, 1]" False True True]
  by (simp add: demo_params_def intrinsicCost_def)

text \<open>
  C3: gas accounting of a message. When a message is applied, the block's gas pool pays exactly
  the gas the receipt reports, which is at most the message's gas limit and at least half of
  the intrinsic price (the refund gives back at most half of what was burned).
\<close>

theorem gas_pool_accounting:
  assumes "evm_bounds_gas evm"
    and "ApplyMessage P ops evm db msg gp = (Inr r, st')"
  shows "uint (st_gp st') = uint gp - uint (UsedGas r) \<and>
    uint (UsedGas r) \<le> uint (msg_Gas msg) \<and> uint (msg_Gas msg) \<le> uint gp \<and>
    (\<exists>g. IntrinsicGas P (msg_Data msg) (msg_To msg = None) (evm_IsHomestead evm)
            (evm_IsIstanbul evm) = Inr g \<and> uint g \<le> 2 * uint (UsedGas r))"
proof (rule TransitionDb_gas [OF assms])
  fix g st2 st3
  assume a: "IntrinsicGas P (msg_Data msg) (msg_To msg = None) (evm_IsHomestead evm)
       (evm_IsIstanbul evm) = Inr g" "uint (msg_Gas msg) \<le> uint gp"
    "uint (UsedGas r) = uint (msg_Gas msg) - uint (st_gas st')"
    "uint (st_gas st') = uint (st_gas st3) + refundOf ops st3"
    "uint (gasUsed st3) = uint (msg_Gas msg) - uint (st_gas st3)"
    "uint (st_gas st3) \<le> uint (msg_Gas msg) - uint g"
    "uint (st_gp st') = uint gp - uint (UsedGas r)"
  have "refundOf ops st3 \<le> uint (gasUsed st3) div 2" by (simp add: refundOf_def)
  then have "uint g \<le> 2 * uint (UsedGas r)" using a(3-6) by linarith
  moreover have "uint (UsedGas r) \<le> uint (msg_Gas msg)"
    using a(3) uint_ge_0 [of "st_gas st'"] by linarith
  ultimately show ?thesis using a by blast
qed

theorem gas_pool_accounting_witness:
  "\<exists>r st'. ApplyMessage demo_params demo_ops demo_evm demo_db demo_msg 100000 = (Inr r, st')
     \<and> uint (st_gp st') = 74990"
proof -
  obtain r st' where run: "ApplyMessage demo_params demo_ops demo_evm demo_db demo_msg 100000 = (Inr r, st')"
    and used: "UsedGas r = 25010"
    by (rule demo_run)
  show ?thesis
    using gas_pool_accounting [OF demo_bounds run] run used by auto
qed



lemma IntrinsicGas_no_panic:
  "TxDataZeroGas P \<noteq> 0 \<Longrightarrow> TxDataNonZeroGasFrontier P \<noteq> 0 \<Longrightarrow> TxDataNonZeroGasEIP2028 P \<noteq> 0 \<Longrightarrow>
   IntrinsicGas P data cc hs ei \<noteq> Inl GoPanic"
  by (simp add: IntrinsicGas_def Let_def)

lemma preCheck_errors:
  "preCheck ops st = Inl e \<Longrightarrow>
   e \<in> {ErrNonceTooHigh, ErrNonceTooLow, ErrInsufficientFunds, ErrGasLimitReached}"
  by (auto simp: preCheck_def buyGas_def SubGas_def Let_def split: if_splits sum.splits)

text \<open>
  C5: a message that is refused. With a sane gas schedule and an interpreter that never returns
  more gas than it got, the pool's overflow panic is unreachable; a refusal for nonce, funds or
  pool leaves the pool and the database untouched, and every later refusal leaves exactly the
  purchase of the gas behind and none of the interpreter's effects.
\<close>

theorem refused_message_effects:
  assumes "TxDataZeroGas P \<noteq> 0" "TxDataNonZeroGasFrontier P \<noteq> 0" "TxDataNonZeroGasEIP2028 P \<noteq> 0"
    and evm: "evm_bounds_gas evm"
    and run: "ApplyMessage P ops evm db msg gp = (Inl e, st')"
  shows "e \<noteq> GoPanic \<and>
    (if e \<in> {ErrNonceTooHigh, ErrNonceTooLow, ErrInsufficientFunds, ErrGasLimitReached}
     then st_gp st' = gp \<and> st_state st' = db
     else e \<in> {ErrGasUintOverflow, ErrIntrinsicGas, ErrInsufficientFundsForTransfer} \<and>
       st_gp st' = gp - msg_Gas msg \<and>
       st_state st' = SubBalance ops db (msg_From msg) (uint (msg_Gas msg) * msg_GasPrice msg))"
proof (cases "preCheck ops (NewStateTransition db msg gp)")
  case (Inl e')
  then show ?thesis
    using run preCheck_errors [OF Inl]
    by (auto simp: ApplyMessage_def TransitionDb_def NewStateTransition_def)
next
  case (Inr st1)
  note st1 = preCheck_NewStateTransition(2) [OF Inr]
  have late: "st_gp st' = gp - msg_Gas msg \<and> st_state st' =
      SubBalance ops db (msg_From msg) (uint (msg_Gas msg) * msg_GasPrice msg) \<and>
      e \<in> {ErrGasUintOverflow, ErrIntrinsicGas, ErrInsufficientFundsForTransfer}"
  proof (cases "IntrinsicGas P (st_data st1) (msg_To (st_msg st1) = None) (evm_IsHomestead evm)
                 (evm_IsIstanbul evm)")
    case (Inl e')
    then have "e' = ErrGasUintOverflow"
      using IntrinsicGas_no_panic [OF assms(1-3)]
      by (auto simp: IntrinsicGas_def Let_def assms(1-3) split: if_splits)
    then show ?thesis using run Inl Inr
      by (auto simp: ApplyMessage_def TransitionDb_def st1 NewStateTransition_def)
  next
    case g: (Inr g)
    have "refundGas ops st3 \<noteq> None"
      if "g \<le> st_gas st1" "runEvm ops evm (st1\<lparr>st_gas := st_gas st1 - g\<rparr>) = (ret, vmerr, st3)"
      for ret vmerr st3
      using after_evm(6,8) [OF evm Inr that] refundGas_exact [of st3 ops] by (metis option.distinct(1))
    then show ?thesis using run Inr g
      by (auto simp: ApplyMessage_def TransitionDb_def Let_def not_less split: if_splits prod.splits option.splits)
         (auto simp: st1 NewStateTransition_def)
  qed
  then show ?thesis by auto
qed

theorem refused_message_effects_witness:
  "\<exists>st'. ApplyMessage demo_params demo_ops demo_evm demo_db (demo_msg\<lparr>msg_Gas := 21019\<rparr>) 100000
            = (Inl ErrIntrinsicGas, st') \<and> st_gp st' = 78981"
proof -
  have "\<exists>st'. ApplyMessage demo_params demo_ops demo_evm demo_db (demo_msg\<lparr>msg_Gas := 21019\<rparr>) 100000
            = (Inl ErrIntrinsicGas, st')"
    using demo_intrinsic
    by (simp add: ApplyMessage_def TransitionDb_def preCheck_def buyGas_def SubGas_def
        NewStateTransition_def demo_ops_def demo_evm_def demo_msg_def demo_db_def Let_def)
  then obtain st' where run: "ApplyMessage demo_params demo_ops demo_evm demo_db
      (demo_msg\<lparr>msg_Gas := 21019\<rparr>) 100000 = (Inl ErrIntrinsicGas, st')" by blast
  have "TxDataZeroGas demo_params \<noteq> 0" "TxDataNonZeroGasFrontier demo_params \<noteq> 0"
    "TxDataNonZeroGasEIP2028 demo_params \<noteq> 0"
    by (simp_all add: demo_params_def)
  from refused_message_effects [OF this demo_bounds run] run show ?thesis
    by (simp add: demo_msg_def)
qed

end
