(* ===== verification/Block_Processing.thy ===== *)
theory Block_Processing
  imports State_Transition
begin

text \<open>
  Executing the transactions of a block (\<^verbatim>\<open>state_processor.go\<close>), checking the result against
  the header and choosing the next gas limit (\<^verbatim>\<open>block_validator.go\<close>). Signers, hashing,
  bloom filters, the state database's bookkeeping, the consensus engine and the chain's
  configuration live in packages outside the repository; they are the fields of \<open>block_env\<close>.
\<close>

section \<open>Data\<close>

type_synonym bloom = "2048 word"

record 'lg receipt =
  rc_PostState :: "hash option"
  rc_Failed :: bool
  rc_CumulativeGasUsed :: u64
  rc_TxHash :: hash
  rc_GasUsed :: u64
  rc_ContractAddress :: address
  rc_Logs :: "'lg list"
  rc_Bloom :: bloom
  rc_BlockHash :: hash
  rc_BlockNumber :: int
  rc_TransactionIndex :: nat

record ('s, 'tx, 'lg) block_env =
  AsMessage :: "'tx \<Rightarrow> tx_err + message"
  TxHash :: "'tx \<Rightarrow> hash"
  TxNonce :: "'tx \<Rightarrow> u64"
  MkEVM :: "message \<Rightarrow> 's evm_ops"
  Prepare :: "'s \<Rightarrow> hash \<Rightarrow> hash \<Rightarrow> nat \<Rightarrow> 's"
  Finalise :: "'s \<Rightarrow> 's"
  IntermediateRoot :: "bool \<Rightarrow> 's \<Rightarrow> hash \<times> 's"
  GetLogs :: "'s \<Rightarrow> hash \<Rightarrow> 'lg list"
  StateBlockHash :: "'s \<Rightarrow> hash"
  StateTxIndex :: "'s \<Rightarrow> nat"
  CreateBloom :: "'lg receipt list \<Rightarrow> bloom"
  CreateAddress :: "address \<Rightarrow> u64 \<Rightarrow> address"
  ApplyDAOHardFork :: "'s \<Rightarrow> 's"
  EngineFinalize :: "'s \<Rightarrow> 's"
  IsByzantium :: bool
  IsEIP158 :: bool
  IsDAOForkBlock :: bool
  HeaderNumber :: int
  BlockHash :: hash
  BlockGasLimit :: u64

section \<open>Operations\<close>

text \<open>
  The result is the receipt or the error, with the gas pool, the database and the counter
  \<open>usedGas\<close> as the call leaves them.
\<close>

definition ApplyTransaction :: "('s, 'tx, 'lg) block_env \<Rightarrow> gas_params \<Rightarrow> 's state_ops \<Rightarrow> gas_pool \<Rightarrow> 's
    \<Rightarrow> 'tx \<Rightarrow> u64 \<Rightarrow> (tx_err + 'lg receipt) \<times> gas_pool \<times> 's \<times> u64" where
  "ApplyTransaction env P ops gp db tx usedGas =
     (case AsMessage env tx of
        Inl e \<Rightarrow> (Inl e, gp, db, usedGas)
      | Inr msg \<Rightarrow>
          (case ApplyMessage P ops (MkEVM env msg) db msg gp of
             (Inl e, st) \<Rightarrow> (Inl e, st_gp st, st_state st, usedGas)
           | (Inr result, st) \<Rightarrow>
               let (root, db) =
                     (if IsByzantium env then (None, Finalise env (st_state st))
                      else map_prod Some id (IntermediateRoot env (IsEIP158 env) (st_state st)));
                   usedGas = usedGas + UsedGas result;
                   receipt = \<lparr>rc_PostState = root, rc_Failed = Failed result,
                     rc_CumulativeGasUsed = usedGas, rc_TxHash = TxHash env tx,
                     rc_GasUsed = UsedGas result,
                     rc_ContractAddress = (if msg_To msg = None
                        then CreateAddress env (msg_From msg) (TxNonce env tx) else 0),
                     rc_Logs = GetLogs env db (TxHash env tx), rc_Bloom = 0, rc_BlockHash = 0,
                     rc_BlockNumber = 0, rc_TransactionIndex = 0\<rparr>;
                   receipt = receipt\<lparr>rc_Bloom := CreateBloom env [receipt],
                     rc_BlockHash := StateBlockHash env db, rc_BlockNumber := HeaderNumber env,
                     rc_TransactionIndex := StateTxIndex env db\<rparr>
               in (Inr receipt, st_gp st, db, usedGas)))"

text \<open>The loop of \<^verbatim>\<open>Process\<close> over the transactions, \<open>i\<close> the index of the next one.\<close>

fun processTxs :: "('s, 'tx, 'lg) block_env \<Rightarrow> gas_params \<Rightarrow> 's state_ops \<Rightarrow> nat \<Rightarrow> 'tx list
    \<Rightarrow> gas_pool \<Rightarrow> 's \<Rightarrow> u64 \<Rightarrow> 'lg receipt list \<Rightarrow> 'lg list
    \<Rightarrow> tx_err + 'lg receipt list \<times> 'lg list \<times> gas_pool \<times> 's \<times> u64" where
  "processTxs env P ops i [] gp db usedGas receipts allLogs =
     Inr (receipts, allLogs, gp, db, usedGas)"
| "processTxs env P ops i (tx # txs) gp db usedGas receipts allLogs =
     (let db = Prepare env db (TxHash env tx) (BlockHash env) i in
      case ApplyTransaction env P ops gp db tx usedGas of
        (Inl e, _) \<Rightarrow> Inl e
      | (Inr receipt, gp, db, usedGas) \<Rightarrow>
          processTxs env P ops (Suc i) txs gp db usedGas (receipts @ [receipt])
            (allLogs @ rc_Logs receipt))"

definition Process :: "('s, 'tx, 'lg) block_env \<Rightarrow> gas_params \<Rightarrow> 's state_ops \<Rightarrow> 'tx list \<Rightarrow> 's
    \<Rightarrow> tx_err + 'lg receipt list \<times> 'lg list \<times> u64 \<times> 's" where
  "Process env P ops txs statedb =
     (case AddGas 0 (BlockGasLimit env) of
        None \<Rightarrow> Inl GoPanic
      | Some gp \<Rightarrow>
          let statedb = (if IsDAOForkBlock env then ApplyDAOHardFork env statedb else statedb) in
          case processTxs env P ops 0 txs gp statedb 0 [] [] of
            Inl e \<Rightarrow> Inl e
          | Inr (receipts, allLogs, _, statedb, usedGas) \<Rightarrow>
              Inr (receipts, allLogs, usedGas, EngineFinalize env statedb))"


section \<open>Block validation\<close>

datatype validation_err =
    ErrKnownBlock
  | ErrUncles
  | ErrUncleHash
  | ErrTxRoot
  | ErrUnknownAncestor
  | ErrPrunedAncestor
  | ErrGasUsed
  | ErrBloom
  | ErrReceiptRoot
  | ErrStateRoot

record header_fields =
  hd_GasUsed :: u64
  hd_UncleHash :: hash
  hd_TxHash :: hash
  hd_Bloom :: bloom
  hd_ReceiptHash :: hash
  hd_Root :: hash

text \<open>
  What \<^verbatim>\<open>ValidateBody\<close> asks the chain, the consensus engine and package types about a block.
\<close>

record body_facts =
  HasBlockAndState :: bool
  ParentHasBlock :: bool
  ParentHasBlockAndState :: bool
  VerifyUncles :: bool
  CalcUncleHash :: hash
  DeriveShaTxs :: hash

definition ValidateBody :: "body_facts \<Rightarrow> header_fields \<Rightarrow> validation_err option" where
  "ValidateBody f h =
     (if HasBlockAndState f then Some ErrKnownBlock
      else if \<not> VerifyUncles f then Some ErrUncles
      else if CalcUncleHash f \<noteq> hd_UncleHash h then Some ErrUncleHash
      else if DeriveShaTxs f \<noteq> hd_TxHash h then Some ErrTxRoot
      else if \<not> ParentHasBlockAndState f then
        (if \<not> ParentHasBlock f then Some ErrUnknownAncestor else Some ErrPrunedAncestor)
      else None)"

definition ValidateState :: "('s, 'tx, 'lg) block_env \<Rightarrow> ('lg receipt list \<Rightarrow> hash) \<Rightarrow> header_fields
    \<Rightarrow> 's \<Rightarrow> 'lg receipt list \<Rightarrow> u64 \<Rightarrow> validation_err option" where
  "ValidateState env DeriveSha h statedb receipts usedGas =
     (if hd_GasUsed h \<noteq> usedGas then Some ErrGasUsed
      else if CreateBloom env receipts \<noteq> hd_Bloom h then Some ErrBloom
      else if DeriveSha receipts \<noteq> hd_ReceiptHash h then Some ErrReceiptRoot
      else if fst (IntermediateRoot env (IsEIP158 env) statedb) \<noteq> hd_Root h
      then Some ErrStateRoot
      else None)"

section \<open>Block gas\<close>

lemma ApplyTransaction_gas:
  assumes "\<And>msg. evm_bounds_gas (MkEVM env msg)"
    and "ApplyTransaction env P ops gp db tx usedGas = (Inr receipt, gp', db', usedGas')"
  shows "uint gp' = uint gp - uint (rc_GasUsed receipt)"
    and "usedGas' = usedGas + rc_GasUsed receipt"
    and "rc_CumulativeGasUsed receipt = usedGas'"
proof -
  obtain msg result st where run: "ApplyMessage P ops (MkEVM env msg) db msg gp = (Inr result, st)"
    and r: "gp' = st_gp st" "rc_GasUsed receipt = UsedGas result"
      "usedGas' = usedGas + rc_GasUsed receipt" "rc_CumulativeGasUsed receipt = usedGas'"
    using assms(2)
    by (auto simp: ApplyTransaction_def Let_def split: sum.splits prod.splits)
  then show "uint gp' = uint gp - uint (rc_GasUsed receipt)"
    "usedGas' = usedGas + rc_GasUsed receipt" "rc_CumulativeGasUsed receipt = usedGas'"
    using TransitionDb_gas [OF assms(1) run, of "uint (st_gp st) = uint gp - uint (UsedGas result)"]
    by auto
qed

text \<open>The receipts carry the running total of the gas they report.\<close>

fun cumulative :: "int \<Rightarrow> 'lg receipt list \<Rightarrow> bool" where
  "cumulative acc [] = True"
| "cumulative acc (r # rs) =
     (uint (rc_CumulativeGasUsed r) = acc + uint (rc_GasUsed r)
      \<and> cumulative (acc + uint (rc_GasUsed r)) rs)"

lemma cumulative_append:
  "cumulative acc (rs @ ss) \<longleftrightarrow>
   cumulative acc rs \<and> cumulative (acc + (\<Sum>r\<leftarrow>rs. uint (rc_GasUsed r))) ss"
  by (induction rs arbitrary: acc) (auto simp: algebra_simps)

lemma processTxs_gas:
  assumes "\<And>msg. evm_bounds_gas (MkEVM env msg)"
    and "processTxs env P ops i txs gp db usedGas receipts logs = Inr (receipts', logs', gp', db', usedGas')"
    and "uint usedGas + uint gp = L" and "L < 2 ^ 64"
    and "uint usedGas = (\<Sum>r\<leftarrow>receipts. uint (rc_GasUsed r))" and "cumulative 0 receipts"
    and "logs = concat (map rc_Logs receipts)"
  shows "uint usedGas' + uint gp' = L \<and> uint usedGas' = (\<Sum>r\<leftarrow>receipts'. uint (rc_GasUsed r))
    \<and> cumulative 0 receipts' \<and> length receipts' = length receipts + length txs
    \<and> logs' = concat (map rc_Logs receipts')"
  using assms(2,3,5-)
proof (induction txs arbitrary: i gp db usedGas receipts logs)
  case Nil
  have eq: "receipts' = receipts" "logs' = logs" "gp' = gp" "usedGas' = usedGas"
    using Nil.prems(1) by simp_all
  show ?case unfolding eq using Nil.prems by simp
next
  case (Cons tx txs)
  let ?db = "Prepare env db (TxHash env tx) (BlockHash env) i"
  obtain r gp1 db1 used1 where ap: "ApplyTransaction env P ops gp ?db tx usedGas = (Inr r, gp1, db1, used1)"
    and rec: "processTxs env P ops (Suc i) txs gp1 db1 used1 (receipts @ [r]) (logs @ rc_Logs r)
      = Inr (receipts', logs', gp', db', usedGas')"
    using Cons.prems(1) by (auto simp: Let_def split: prod.splits sum.splits)
  note g = ApplyTransaction_gas [OF assms(1) ap]
  have "uint usedGas + uint (rc_GasUsed r) \<le> L"
    using g(1) Cons.prems(2) uint_ge_0 [of gp1] by linarith
  then have u1: "uint used1 = uint usedGas + uint (rc_GasUsed r)"
    using assms(4) unfolding g(2) by (intro uint_add_exact) linarith
  show ?case
    using Cons.IH [OF rec] u1 g Cons.prems by (simp add: cumulative_append)
qed

lemma Process_gas:
  assumes "\<And>msg. evm_bounds_gas (MkEVM env msg)"
    and "Process env P ops txs db = Inr (receipts, logs, usedGas, db')"
  shows "uint usedGas = (\<Sum>r\<leftarrow>receipts. uint (rc_GasUsed r)) \<and> usedGas \<le> BlockGasLimit env
    \<and> cumulative 0 receipts \<and> length receipts = length txs
    \<and> logs = concat (map rc_Logs receipts)"
proof -
  obtain gp0 gp1 db0 db1 where gp0: "AddGas 0 (BlockGasLimit env) = Some gp0"
    and run: "processTxs env P ops 0 txs gp0 db0 0 [] [] = Inr (receipts, logs, gp1, db1, usedGas)"
    using assms(2) by (auto simp: Process_def Let_def split: option.splits sum.splits)
  have "uint gp0 = uint (BlockGasLimit env)"
    using gp0 by (simp add: AddGas_iff)
  then have "uint usedGas + uint gp1 = uint (BlockGasLimit env)
      \<and> uint usedGas = (\<Sum>r\<leftarrow>receipts. uint (rc_GasUsed r)) \<and> cumulative 0 receipts
      \<and> length receipts = length txs \<and> logs = concat (map rc_Logs receipts)"
    using processTxs_gas [OF assms(1) run, of "uint (BlockGasLimit env)"] by simp
  moreover from this have "uint usedGas \<le> uint (BlockGasLimit env)"
    using uint_ge_0 [of gp1] by linarith
  ultimately show ?thesis
    unfolding word_le_def by blast
qed

section \<open>The gas limit of the next block\<close>










section \<open>Properties\<close>

text \<open>
  C6: a block that \<open>Process\<close> accepts uses exactly the gas its receipts report, never more than
  the limit in its header; there is one receipt per transaction, each carrying the running
  total, and the logs are those of the receipts in order.
\<close>

theorem block_gas:
  assumes "\<And>msg. evm_bounds_gas (MkEVM env msg)"
    and "Process env P ops txs db = Inr (receipts, logs, usedGas, db')"
  shows "uint usedGas = (\<Sum>r\<leftarrow>receipts. uint (rc_GasUsed r)) \<and> usedGas \<le> BlockGasLimit env
    \<and> cumulative 0 receipts \<and> length receipts = length txs
    \<and> logs = concat (map rc_Logs receipts)"
  by (rule Process_gas [OF assms])

definition demo_env :: "(address \<Rightarrow> int, unit, unit) block_env" where
  "demo_env = \<lparr>AsMessage = (\<lambda>_. Inr demo_msg), TxHash = (\<lambda>_. 1), TxNonce = (\<lambda>_. 7),
     MkEVM = (\<lambda>_. demo_evm), Prepare = (\<lambda>s _ _ _. s), Finalise = id,
     IntermediateRoot = (\<lambda>_ s. (0, s)), GetLogs = (\<lambda>_ _. [()]), StateBlockHash = (\<lambda>_. 0),
     StateTxIndex = (\<lambda>_. 0), CreateBloom = (\<lambda>_. 0), CreateAddress = (\<lambda>_ _. 0),
     ApplyDAOHardFork = id, EngineFinalize = id, IsByzantium = True, IsEIP158 = True,
     IsDAOForkBlock = False, HeaderNumber = 1, BlockHash = 2, BlockGasLimit = 100000\<rparr>"

theorem block_gas_witness:
  "\<exists>r s. Process demo_env demo_params demo_ops [()] demo_db = (Inr ([r], [()], 25010, s))"
proof -
  obtain r st' where run:
    "ApplyMessage demo_params demo_ops demo_evm demo_db demo_msg 100000 = (Inr r, st')"
    and used: "UsedGas r = 25010" by (rule demo_run)
  then obtain rs logs u s where p: "Process demo_env demo_params demo_ops [()] demo_db = Inr (rs, logs, u, s)"
    and u: "u = 25010"
    by (simp add: Process_def AddGas_def ApplyTransaction_def demo_env_def Let_def)
  have "evm_bounds_gas (MkEVM demo_env msg)" for msg
    by (simp add: demo_env_def demo_bounds)
  from block_gas [OF this p] have "length rs = 1" "logs = concat (map rc_Logs rs)" by simp_all
  then show ?thesis using p u run
    by (auto simp: Process_def AddGas_def ApplyTransaction_def demo_env_def Let_def)
qed



end
