(* ===== verification/Go_Heap.thy ===== *)
theory Go_Heap
  imports Chain_Prelude "HOL-Library.Multiset"
begin

text \<open>
  Go's \<^verbatim>\<open>container/heap\<close>, which the transaction lists build their priority queues on: the
  sift loops over a slice with the client's \<^verbatim>\<open>Less\<close>, and the priority queue contract they
  implement. A heap is a list; \<open>h.Len\<close>, \<open>h.Swap\<close>, \<open>h.Push\<close> and \<open>h.Pop\<close> are the slice
  operations every client of the package here defines.
\<close>

section \<open>Operations\<close>

definition heap_Swap :: "'a list \<Rightarrow> nat \<Rightarrow> nat \<Rightarrow> 'a list" where
  "heap_Swap h i j = h[i := h ! j, j := h ! i]"

text \<open>\<^verbatim>\<open>up\<close>: the loop variable \<open>j\<close> strictly decreases.\<close>

function heap_up :: "('a \<Rightarrow> 'a \<Rightarrow> bool) \<Rightarrow> 'a list \<Rightarrow> nat \<Rightarrow> 'a list" where
  "heap_up lt h j =
     (let i = (j - 1) div 2 in
      if i = j \<or> \<not> lt (h ! j) (h ! i) then h
      else heap_up lt (heap_Swap h i j) i)"
  by pat_completeness auto
termination
  by (relation "measure (\<lambda>(_, _, j). j)") auto

text \<open>\<^verbatim>\<open>down\<close> on the first \<open>n\<close> entries; the second result is where the entry came to rest.\<close>

function heap_down :: "('a \<Rightarrow> 'a \<Rightarrow> bool) \<Rightarrow> 'a list \<Rightarrow> nat \<Rightarrow> nat \<Rightarrow> 'a list \<times> nat" where
  "heap_down lt h i n =
     (let j1 = 2 * i + 1 in
      if n \<le> j1 then (h, i)
      else
        let j2 = j1 + 1; j = (if j2 < n \<and> lt (h ! j2) (h ! j1) then j2 else j1) in
        if \<not> lt (h ! j) (h ! i) then (h, i)
        else heap_down lt (heap_Swap h i j) j n)"
  by pat_completeness auto
termination
  by (relation "measure (\<lambda>(_, _, i, n). n - i)") (auto simp: Let_def split: if_splits)

declare heap_up.simps [simp del] heap_down.simps [simp del]

fun heap_init_loop :: "('a \<Rightarrow> 'a \<Rightarrow> bool) \<Rightarrow> 'a list \<Rightarrow> nat \<Rightarrow> 'a list" where
  "heap_init_loop lt h 0 = h"
| "heap_init_loop lt h (Suc i) = heap_init_loop lt (fst (heap_down lt h i (length h))) i"

definition heap_Init :: "('a \<Rightarrow> 'a \<Rightarrow> bool) \<Rightarrow> 'a list \<Rightarrow> 'a list" where
  "heap_Init lt h = heap_init_loop lt h (length h div 2)"

definition heap_Push :: "('a \<Rightarrow> 'a \<Rightarrow> bool) \<Rightarrow> 'a list \<Rightarrow> 'a \<Rightarrow> 'a list" where
  "heap_Push lt h x = heap_up lt (h @ [x]) (length h)"

text \<open>\<^verbatim>\<open>Pop\<close> and \<^verbatim>\<open>Remove\<close> are called on non-empty heaps and on valid indices only.\<close>

definition heap_Pop :: "('a \<Rightarrow> 'a \<Rightarrow> bool) \<Rightarrow> 'a list \<Rightarrow> 'a \<times> 'a list" where
  "heap_Pop lt h =
     (let n = length h - 1; h = fst (heap_down lt (heap_Swap h 0 n) 0 n)
      in (last h, butlast h))"

definition heap_Remove :: "('a \<Rightarrow> 'a \<Rightarrow> bool) \<Rightarrow> 'a list \<Rightarrow> nat \<Rightarrow> 'a \<times> 'a list" where
  "heap_Remove lt h i =
     (let n = length h - 1;
          h = (if n \<noteq> i then
                 (let (h', k) = heap_down lt (heap_Swap h i n) i n in
                  if i < k then h' else heap_up lt h' i)
               else h)
      in (last h, butlast h))"

section \<open>Rearrangement\<close>

lemma length_heap_Swap [simp]: "length (heap_Swap h i j) = length h"
  by (simp add: heap_Swap_def)

lemma mset_heap_Swap [simp]: "i < length h \<Longrightarrow> j < length h \<Longrightarrow> mset (heap_Swap h i j) = mset h"
  by (simp add: heap_Swap_def mset_swap)

lemma nth_heap_Swap:
  "i < length h \<Longrightarrow> j < length h \<Longrightarrow>
   heap_Swap h i j ! k = (if k = j then h ! i else if k = i then h ! j else h ! k)"
  by (simp add: heap_Swap_def nth_list_update)

lemma length_heap_up [simp]: "length (heap_up lt h j) = length h"
proof (induction lt h j rule: heap_up.induct)
  case (1 lt h j)
  then show ?case by (subst heap_up.simps) (auto simp: Let_def)
qed

lemma mset_heap_up [simp]: "j < length h \<Longrightarrow> mset (heap_up lt h j) = mset h"
proof (induction lt h j rule: heap_up.induct)
  case (1 lt h j)
  then show ?case by (subst heap_up.simps) (auto simp: Let_def)
qed

lemma heap_up_frame: "j < k \<Longrightarrow> k < length h \<Longrightarrow> heap_up lt h j ! k = h ! k"
proof (induction lt h j rule: heap_up.induct)
  case (1 lt h j)
  then show ?case by (subst heap_up.simps) (auto simp: Let_def nth_heap_Swap)
qed

text \<open>The parent of an entry, \<open>0\<close> being its own.\<close>

definition parent :: "nat \<Rightarrow> nat" where
  "parent k = (k - 1) div 2"

lemma parent_0 [simp]: "parent 0 = 0"
  by (simp add: parent_def)

lemma parent_less: "0 < k \<Longrightarrow> parent k < k"
  by (auto simp: parent_def)

lemma parent_le: "parent k \<le> k"
  by (auto simp: parent_def)

lemma parent_kids: "0 < k \<Longrightarrow> parent k = i \<longleftrightarrow> k = 2 * i + 1 \<or> k = 2 * i + 2"
  by (auto simp: parent_def)

lemma heap_up_step:
  "heap_up lt h j =
     (if parent j = j \<or> \<not> lt (h ! j) (h ! parent j) then h
      else heap_up lt (heap_Swap h (parent j) j) (parent j))"
  by (subst heap_up.simps) (simp add: parent_def Let_def)

text \<open>One round of \<^verbatim>\<open>down\<close>: the smaller child, and whether the entry moves there.\<close>

definition heap_child :: "('a \<Rightarrow> 'a \<Rightarrow> bool) \<Rightarrow> 'a list \<Rightarrow> nat \<Rightarrow> nat \<Rightarrow> nat" where
  "heap_child lt h i n =
     (if 2 * i + 2 < n \<and> lt (h ! (2 * i + 2)) (h ! (2 * i + 1)) then 2 * i + 2 else 2 * i + 1)"

definition heap_moves :: "('a \<Rightarrow> 'a \<Rightarrow> bool) \<Rightarrow> 'a list \<Rightarrow> nat \<Rightarrow> nat \<Rightarrow> bool" where
  "heap_moves lt h i n \<longleftrightarrow> 2 * i + 1 < n \<and> lt (h ! heap_child lt h i n) (h ! i)"

lemma heap_down_step:
  "heap_down lt h i n =
     (if heap_moves lt h i n
      then heap_down lt (heap_Swap h i (heap_child lt h i n)) (heap_child lt h i n) n
      else (h, i))"
  by (subst heap_down.simps) (simp add: heap_moves_def heap_child_def Let_def)

lemma heap_child_bounds:
  "2 * i + 1 < n \<Longrightarrow> heap_child lt h i n < n \<and> i < heap_child lt h i n
     \<and> parent (heap_child lt h i n) = i"
  by (auto simp: heap_child_def parent_def)

lemma heap_down_rule [consumes 0, case_names step]:
  assumes "\<And>h i. (heap_moves lt h i n \<Longrightarrow>
      P (heap_Swap h i (heap_child lt h i n)) (heap_child lt h i n)) \<Longrightarrow> P h i"
  shows "P h i"
proof (induction "n - i" arbitrary: h i rule: less_induct)
  case less
  show ?case
  proof (rule assms)
    assume "heap_moves lt h i n"
    then have "n - heap_child lt h i n < n - i"
      using heap_child_bounds [of i n lt h] unfolding heap_moves_def by (auto intro: diff_less_mono2)
    then show "P (heap_Swap h i (heap_child lt h i n)) (heap_child lt h i n)"
      by (rule less)
  qed
qed

lemma heap_down_frame:
  "n \<le> length h \<Longrightarrow> length (fst (heap_down lt h i n)) = length h
     \<and> mset (fst (heap_down lt h i n)) = mset h
     \<and> (\<forall>k \<ge> n. fst (heap_down lt h i n) ! k = h ! k) \<and> i \<le> snd (heap_down lt h i n)"
proof (induction h i rule: heap_down_rule [of lt n])
  case (step h i)
  show ?case
  proof (cases "heap_moves lt h i n")
    case True
    let ?c = "heap_child lt h i n"
    have c: "?c < n" "i < ?c" using True heap_child_bounds [of i n lt h] by (auto simp: heap_moves_def)
    show ?thesis
      using step.IH [OF True] step.prems True c
      by (subst (1 2 3 4) heap_down_step) (auto simp: nth_heap_Swap)
  qed (subst (1 2 3 4) heap_down_step, simp)
qed

lemma length_heap_down [simp]:
  "n \<le> length h \<Longrightarrow> length (fst (heap_down lt h i n)) = length h"
  using heap_down_frame [of n h lt i] by blast

lemma mset_heap_down [simp]: "n \<le> length h \<Longrightarrow> mset (fst (heap_down lt h i n)) = mset h"
  using heap_down_frame [of n h lt i] by blast

section \<open>The heap order\<close>

text \<open>
  \<open>heap_from lt h lo n\<close>: among the first \<open>n\<close> entries, no entry is smaller than its parent,
  as far as that parent's index is at least \<open>lo\<close>.
\<close>

definition heap_from :: "('a \<Rightarrow> 'a \<Rightarrow> bool) \<Rightarrow> 'a list \<Rightarrow> nat \<Rightarrow> nat \<Rightarrow> bool" where
  "heap_from lt h lo n \<longleftrightarrow> (\<forall>k < n. 0 < k \<longrightarrow> lo \<le> parent k \<longrightarrow> \<not> lt (h ! k) (h ! (parent k)))"

definition is_heap :: "('a \<Rightarrow> 'a \<Rightarrow> bool) \<Rightarrow> 'a list \<Rightarrow> bool" where
  "is_heap lt h = heap_from lt h 0 (length h)"

locale weak_order =
  fixes lt :: "'a \<Rightarrow> 'a \<Rightarrow> bool"
  assumes asym: "lt a b \<Longrightarrow> \<not> lt b a"
    and neg_trans: "\<not> lt a b \<Longrightarrow> \<not> lt b c \<Longrightarrow> \<not> lt a c"
begin

lemma irrefl [simp]: "\<not> lt a a"
  using asym by blast

lemma down_restores:
  assumes "n \<le> length h" "lo \<le> i"
    and "\<And>k. k < n \<Longrightarrow> 0 < k \<Longrightarrow> lo \<le> parent k \<Longrightarrow> parent k \<noteq> i \<Longrightarrow>
      \<not> lt (h ! k) (h ! (parent k))"
    and "\<And>k. k < n \<Longrightarrow> 0 < k \<Longrightarrow> parent k = i \<Longrightarrow> 0 < i \<Longrightarrow> lo \<le> parent i \<Longrightarrow>
      \<not> lt (h ! k) (h ! (parent i))"
  shows "heap_from lt (fst (heap_down lt h i n)) lo n"
  using assms
proof (induction h i rule: heap_down_rule [of lt n])
  case (step h i)
  let ?c = "heap_child lt h i n"
  have kids: "k = 2 * i + 1 \<or> k = 2 * i + 2" if "0 < k" "parent k = i" for k
    using that by (simp add: parent_kids)
  show ?case
  proof (cases "heap_moves lt h i n")
    case False
    have "\<not> lt (h ! k) (h ! i)" if k: "k < n" "0 < k" "parent k = i" for k
    proof -
      have "2 * i + 1 < n" using k kids [OF k(2,3)] by auto
      then have "\<not> lt (h ! ?c) (h ! i)" using False by (simp add: heap_moves_def)
      moreover have "\<not> lt (h ! k) (h ! ?c)"
        using kids [OF k(2,3)] k(1) asym by (auto simp: heap_child_def)
      ultimately show ?thesis by (rule neg_trans [rotated])
    qed
    with False step.prems show ?thesis
      by (subst heap_down_step) (auto simp: heap_from_def)
  next
    case True
    then have c: "?c < n" "i < ?c" "parent ?c = i" "lt (h ! ?c) (h ! i)"
      using heap_child_bounds [of i n lt h] by (auto simp: heap_moves_def)
    let ?h = "heap_Swap h i ?c"
    have nth: "?h ! k = (if k = ?c then h ! i else if k = i then h ! ?c else h ! k)" for k
      using c step.prems(1) by (simp add: nth_heap_Swap)
    have sib: "\<not> lt (h ! k) (h ! ?c)" if "k < n" "0 < k" "parent k = i" for k
      using kids [OF that(2,3)] that(1) asym by (auto simp: heap_child_def)
    have "heap_from lt (fst (heap_down lt ?h ?c n)) lo n"
    proof (rule step.IH [OF True])
      show "n \<le> length ?h" "lo \<le> ?c" using step.prems(1,2) c by simp_all
    next
      fix k assume k: "k < n" "0 < k" "lo \<le> parent k" "parent k \<noteq> ?c"
      have ne: "parent k \<noteq> k" using parent_less [OF k(2)] by simp
      show "\<not> lt (?h ! k) (?h ! (parent k))"
      proof (cases "parent k = i")
        case True
        with sib k c ne show ?thesis by (auto simp: nth dest: asym)
      next
        case False
        have "k = i \<Longrightarrow> \<not> lt (h ! ?c) (h ! (parent i))"
          using step.prems(4) [of ?c] c k by simp
        moreover have "k \<noteq> ?c" using False c by auto
        ultimately show ?thesis
          using False k step.prems(3) [OF k(1-3) False] by (auto simp: nth)
      qed
    next
      fix k assume k: "k < n" "0 < k" "parent k = ?c"
      then have "\<not> lt (h ! k) (h ! ?c)"
        using step.prems(2) c step.prems(3) [of k] by simp
      moreover have "k \<noteq> i" "k \<noteq> ?c" using parent_less [OF k(2)] k(3) c by auto
      ultimately show "\<not> lt (?h ! k) (?h ! (parent ?c))"
        using c by (simp add: nth)
    qed
    with True show ?thesis by (subst heap_down_step) simp
  qed
qed

lemma up_restores:
  assumes "j < n" "n \<le> length h"
    and "\<And>k. k < n \<Longrightarrow> 0 < k \<Longrightarrow> k \<noteq> j \<Longrightarrow> \<not> lt (h ! k) (h ! (parent k))"
    and "\<And>k. k < n \<Longrightarrow> 0 < k \<Longrightarrow> parent k = j \<Longrightarrow> 0 < j \<Longrightarrow>
      \<not> lt (h ! k) (h ! (parent j))"
  shows "heap_from lt (heap_up lt h j) 0 n"
  using assms
proof (induction j arbitrary: h rule: less_induct)
  case (less j)
  define i where "i = parent j"
  show ?case
  proof (cases "i = j \<or> \<not> lt (h ! j) (h ! i)")
    case True
    then have "\<not> lt (h ! j) (h ! i)" by (metis irrefl)
    then have "heap_from lt h 0 n"
      using less.prems(3) unfolding heap_from_def i_def by metis
    with True show ?thesis by (subst heap_up_step) (simp add: i_def)
  next
    case False
    then have j: "i < j" "i < n" "i < length h" "j < length h" "0 < j" "lt (h ! j) (h ! i)"
      using less.prems(1,2) parent_le [of j] by (auto simp: i_def intro: gr0I)
    let ?h = "heap_Swap h i j"
    have nth: "?h ! k = (if k = j then h ! i else if k = i then h ! j else h ! k)" for k
      using j by (simp add: nth_heap_Swap)
    have "heap_from lt (heap_up lt ?h i) 0 n"
    proof (rule less.IH [OF j(1)])
      show "i < n" "n \<le> length ?h" using j less.prems(2) by simp_all
    next
      fix k assume k: "k < n" "0 < k" "k \<noteq> i"
      have ne: "parent k \<noteq> k" using parent_less [OF k(2)] by simp
      show "\<not> lt (?h ! k) (?h ! (parent k))"
      proof (cases "k = j")
        case True
        then show ?thesis using j asym by (simp add: nth flip: i_def)
      next
        case kj: False
        consider "parent k = j" | "parent k = i" "parent k \<noteq> j"
          | "parent k \<noteq> i" "parent k \<noteq> j" by blast
        then show ?thesis
        proof cases
          case 1
          then show ?thesis using less.prems(4) [of k] k kj j by (simp add: nth flip: i_def)
        next
          case 2
          have "\<not> lt (h ! k) (h ! i)" using less.prems(3) [of k] k kj 2 by simp
          then have "\<not> lt (h ! k) (h ! j)" using j(6) asym neg_trans by blast
          then show ?thesis using 2 k kj by (simp add: nth flip: i_def)
        next
          case 3
          then show ?thesis using less.prems(3) [of k] k kj by (simp add: nth flip: i_def)
        qed
      qed
    next
      fix k assume k: "k < n" "0 < k" "parent k = i" "0 < i"
      have g: "\<not> lt (h ! i) (h ! (parent i))"
        using less.prems(3) [of i] j k by simp
      have "parent i \<noteq> i" "parent i \<noteq> j" using parent_less [OF k(4)] j by auto
      moreover have "k \<noteq> i" using parent_less [OF k(2)] k(3) by simp
      moreover have "k \<noteq> j \<Longrightarrow> \<not> lt (h ! k) (h ! (parent i))"
        using less.prems(3) [of k] k g neg_trans by simp
      ultimately show "\<not> lt (?h ! k) (?h ! (parent i))"
        using g by (simp add: nth flip: i_def)
    qed
    with False show ?thesis by (subst heap_up_step) (simp add: i_def)
  qed
qed

lemma heap_init_loop_correct:
  "i \<le> length h \<Longrightarrow> heap_from lt h i (length h) \<Longrightarrow>
   is_heap lt (heap_init_loop lt h i) \<and> mset (heap_init_loop lt h i) = mset h"
proof (induction i arbitrary: h)
  case 0
  then show ?case by (simp add: is_heap_def)
next
  case (Suc i)
  have "heap_from lt (fst (heap_down lt h i (length h))) i (length h)"
  proof (rule down_restores)
    fix k assume "k < length h" "0 < k" "i \<le> parent k" "parent k \<noteq> i"
    then show "\<not> lt (h ! k) (h ! (parent k))"
      using Suc.prems(2) unfolding heap_from_def by (metis Suc_leI le_neq_implies_less)
  next
    fix k assume "k < length h" "0 < k" "parent k = i" "0 < i" "i \<le> parent i"
    then show "\<not> lt (h ! k) (h ! parent i)" using parent_less [of i] by simp
  qed auto
  with Suc show ?case by simp
qed

lemma Init_correct: "is_heap lt (heap_Init lt h) \<and> mset (heap_Init lt h) = mset h"
proof -
  have "heap_from lt h (length h div 2) (length h)"
    unfolding heap_from_def parent_def by auto
  then show ?thesis
    unfolding heap_Init_def by (intro heap_init_loop_correct) auto
qed

lemma Push_correct:
  assumes "is_heap lt h"
  shows "is_heap lt (heap_Push lt h x) \<and> mset (heap_Push lt h x) = add_mset x (mset h)"
proof -
  have "heap_from lt (heap_up lt (h @ [x]) (length h)) 0 (Suc (length h))"
  proof (rule up_restores)
    fix k assume "k < Suc (length h)" "0 < k" "k \<noteq> length h"
    then show "\<not> lt ((h @ [x]) ! k) ((h @ [x]) ! (parent k))"
      using assms parent_less [of k] by (auto simp: is_heap_def heap_from_def nth_append)
  next
    fix k assume "k < Suc (length h)" "0 < k" "parent k = length h"
    then show "\<not> lt ((h @ [x]) ! k) ((h @ [x]) ! parent (length h))"
      using parent_less [of k] by simp
  qed auto
  then show ?thesis by (simp add: heap_Push_def is_heap_def)
qed

lemma heap_least:
  assumes "is_heap lt h" "k < length h"
  shows "\<not> lt (h ! k) (h ! 0)"
  using assms(2)
proof (induction k rule: less_induct)
  case (less k)
  show ?case
  proof (cases "k = 0")
    case False
    then have "\<not> lt (h ! k) (h ! (parent k))"
      using assms(1) less.prems unfolding is_heap_def heap_from_def by simp
    moreover have "\<not> lt (h ! (parent k)) (h ! 0)"
      using less False parent_less [of k] by simp
    ultimately show ?thesis by (rule neg_trans)
  qed simp
qed

lemma hd_least: "is_heap lt h \<Longrightarrow> x \<in> set h \<Longrightarrow> \<not> lt x (h ! 0)"
  by (auto simp: in_set_conv_nth heap_least)

lemma butlast_last_split:
  assumes "h \<noteq> []" "mset g = mset h" "length g = length h"
  shows "g \<noteq> []" "add_mset (last g) (mset (butlast g)) = mset h" "last g = g ! (length h - 1)"
proof -
  show g: "g \<noteq> []" using assms by auto
  have "mset (butlast g @ [last g]) = mset h" using g assms by simp
  then show "add_mset (last g) (mset (butlast g)) = mset h" by simp
  show "last g = g ! (length h - 1)" using g assms by (simp add: last_conv_nth)
qed

lemma is_heap_butlast:
  assumes "heap_from lt g 0 n" "length g = Suc n"
  shows "is_heap lt (butlast g)"
proof -
  have "parent k < n" if "k < n" for k using that parent_le [of k] by simp
  then show ?thesis using assms by (simp add: is_heap_def heap_from_def nth_butlast)
qed

lemma Pop_correct:
  assumes "is_heap lt h" "h \<noteq> []" "heap_Pop lt h = (x, h')"
  shows "x = h ! 0" "is_heap lt h'" "add_mset x (mset h') = mset h"
proof -
  define n where "n = length h - 1"
  define g where "g = fst (heap_down lt (heap_Swap h 0 n) 0 n)"
  have n: "n < length h" "length h = Suc n" using assms(2) by (simp_all add: n_def)
  have frame: "length g = length h" "mset g = mset h" "\<forall>k \<ge> n. g ! k = heap_Swap h 0 n ! k"
    using heap_down_frame [of n "heap_Swap h 0 n" lt 0] n unfolding g_def by auto
  have x: "x = last g" "h' = butlast g"
    using assms(3) by (simp_all add: heap_Pop_def Let_def g_def n_def)
  note split = butlast_last_split [OF assms(2) frame(2,1)]
  show "x = h ! 0" using frame(3) n split(3) by (simp add: x nth_heap_Swap)
  show "add_mset x (mset h') = mset h" using split(2) by (simp add: x)
  have "heap_from lt g 0 n"
    unfolding g_def
  proof (rule down_restores)
    fix k assume k: "k < n" "0 < k" "parent k \<noteq> 0"
    then have "parent k < n" using parent_le [of k] by simp
    with k show "\<not> lt (heap_Swap h 0 n ! k) (heap_Swap h 0 n ! (parent k))"
      using assms(1) n by (simp add: nth_heap_Swap is_heap_def heap_from_def)
  qed (use n in auto)
  then show "is_heap lt h'"
    unfolding x using frame(1) n by (intro is_heap_butlast) simp_all
qed

text \<open>\<^verbatim>\<open>Remove\<close> at an index before the last one.\<close>

lemma remove_restores:
  assumes h: "is_heap lt h" and n: "length h = Suc n" "i < n"
  defines "s \<equiv> heap_Swap h i n"
  shows "heap_from lt (if i < snd (heap_down lt s i n) then fst (heap_down lt s i n)
           else heap_up lt (fst (heap_down lt s i n)) i) 0 n"
proof -
  have nth: "s ! k = (if k = i then h ! n else h ! k)" if "k < n" for k
    using that n by (simp add: s_def nth_heap_Swap)
  have len: "n \<le> length s" using n by (simp add: s_def)
  have ord: "\<not> lt (h ! k) (h ! (parent k))" if "k < n" "0 < k" for k
    using h that n by (simp add: is_heap_def heap_from_def)
  have par: "parent k < n" "0 < k \<Longrightarrow> parent k \<noteq> k" if "k < n" for k using that parent_le [of k] parent_less [of k] by auto
  have rest: "\<not> lt (s ! k) (s ! (parent k))"
    if "k < n" "0 < k" "k \<noteq> i" "parent k \<noteq> i" for k
    using ord [of k] that par by (simp add: nth)
  have grand: "\<not> lt (s ! k) (s ! (parent i))"
    if k: "k < n" "0 < k" "parent k = i" "0 < i" for k
  proof -
    have "k \<noteq> i" using parent_less [OF k(2)] k by simp
    moreover have "\<not> lt (h ! k) (h ! (parent i))"
      using ord [of k] ord [of i] k n(2) neg_trans by simp
    ultimately show ?thesis using par [of i] k n(2) by (simp add: nth)
  qed
  show ?thesis
  proof (cases "heap_moves lt s i n")
    case True
    let ?c = "heap_child lt s i n"
    have c: "?c < n" "i < ?c" "parent ?c = i" "lt (s ! ?c) (s ! i)"
      using True heap_child_bounds [of i n lt s] by (auto simp: heap_moves_def)
    have "i < snd (heap_down lt s i n)"
      using heap_down_frame [of n "heap_Swap s i ?c" lt ?c] True c len
      by (subst heap_down_step) auto
    moreover have "heap_from lt (fst (heap_down lt s i n)) 0 n"
    proof (rule down_restores [OF len])
      fix k assume k: "k < n" "0 < k" "parent k \<noteq> i"
      have "\<not> lt (s ! i) (s ! (parent i))" if "0 < i"
        using grand [of ?c] c that asym neg_trans by (metis gr_zeroI not_less_zero)
      with k rest show "\<not> lt (s ! k) (s ! (parent k))" by metis
    qed (use grand in auto)
    ultimately show ?thesis by simp
  next
    case False
    have kid: "\<not> lt (s ! k) (s ! i)" if k: "k < n" "0 < k" "parent k = i" for k
    proof -
      have kk: "k = 2 * i + 1 \<or> k = 2 * i + 2" using k by (simp add: parent_kids)
      then have "\<not> lt (s ! heap_child lt s i n) (s ! i)"
        using False k(1) by (auto simp: heap_moves_def)
      moreover have "\<not> lt (s ! k) (s ! heap_child lt s i n)"
        using kk k(1) asym by (auto simp: heap_child_def)
      ultimately show ?thesis by (rule neg_trans [rotated])
    qed
    have "heap_from lt (heap_up lt s i) 0 n"
    proof (rule up_restores [OF n(2) len])
      fix k assume "k < n" "0 < k" "k \<noteq> i"
      then show "\<not> lt (s ! k) (s ! (parent k))" using rest kid by metis
    qed (use grand in auto)
    moreover have "heap_down lt s i n = (s, i)" using False by (subst heap_down_step) simp
    ultimately show ?thesis by simp
  qed
qed

lemma Remove_correct:
  assumes "is_heap lt h" "i < length h" "heap_Remove lt h i = (x, h')"
  shows "x = h ! i" "is_heap lt h'" "add_mset x (mset h') = mset h"
proof -
  define n where "n = length h - 1"
  have n: "n < length h" "length h = Suc n" using assms(2) by (simp_all add: n_def)
  have ne: "h \<noteq> []" using n by auto
  define d where "d = fst (heap_down lt (heap_Swap h i n) i n)"
  define g where "g = (if n \<noteq> i
      then if i < snd (heap_down lt (heap_Swap h i n) i n) then d else heap_up lt d i else h)"
  have x: "x = last g" "h' = butlast g"
    using assms(3) by (auto simp: heap_Remove_def Let_def g_def d_def n_def split: prod.splits)
  have d: "length d = length h" "mset d = mset h" "d ! n = heap_Swap h i n ! n"
    using heap_down_frame [of n "heap_Swap h i n" lt i] n assms(2) unfolding d_def by auto
  have frame: "length g = length h" "mset g = mset h"
    using d assms(2) by (simp_all add: g_def)
  note split = butlast_last_split [OF ne frame(2,1)]
  show "add_mset x (mset h') = mset h" using split(2) by (simp add: x)
  have heap: "heap_from lt g 0 n"
    using remove_restores [OF assms(1) n(2), of i] assms(1,2) n
    by (auto simp: g_def d_def is_heap_def heap_from_def)
  then show "is_heap lt h'"
    unfolding x using frame(1) n by (intro is_heap_butlast) simp_all
  have "heap_up lt d i ! n = d ! n" if "i < n"
    using heap_up_frame [OF that, of d lt] d(1) n by simp
  then show "x = h ! i"
    using split(3) d(3) n assms(2) by (simp add: x g_def nth_heap_Swap n_def [symmetric])
qed

end

section \<open>Interface: a priority queue\<close>

text \<open>
  What the transaction lists rely on: the queue holds a multiset; \<open>top\<close> is a least element;
  \<open>pop\<close> removes it, \<open>push\<close> adds, and \<open>build\<close> makes a queue of any slice.
\<close>

locale priority_queue =
  fixes lt :: "'a \<Rightarrow> 'a \<Rightarrow> bool"
    and build :: "'a list \<Rightarrow> 'a list"
    and push :: "'a list \<Rightarrow> 'a \<Rightarrow> 'a list"
    and pop :: "'a list \<Rightarrow> 'a \<times> 'a list"
    and remove :: "'a list \<Rightarrow> nat \<Rightarrow> 'a \<times> 'a list"
    and queue :: "'a list \<Rightarrow> bool"
  assumes queue_Nil: "queue []"
    and build_law: "queue (build h) \<and> mset (build h) = mset h"
    and push_law: "queue h \<Longrightarrow> queue (push h x) \<and> mset (push h x) = add_mset x (mset h)"
    and pop_law: "queue h \<Longrightarrow> h \<noteq> [] \<Longrightarrow> pop h = (x, h') \<Longrightarrow>
      x = h ! 0 \<and> queue h' \<and> mset h = add_mset x (mset h')"
    and remove_law: "queue h \<Longrightarrow> i < length h \<Longrightarrow> remove h i = (x, h') \<Longrightarrow>
      x = h ! i \<and> queue h' \<and> mset h = add_mset x (mset h')"
    and top_law: "queue h \<Longrightarrow> x \<in> set h \<Longrightarrow> \<not> lt x (h ! 0)"
begin

lemma pop_length: "queue h \<Longrightarrow> h \<noteq> [] \<Longrightarrow> pop h = (x, h') \<Longrightarrow> length h = Suc (length h')"
  by (metis pop_law size_mset size_add_mset)

lemma pop_least:
  assumes "queue h" "h \<noteq> []" "pop h = (x, h')" "y \<in> set h'"
  shows "\<not> lt y x"
proof -
  have "x = h ! 0" "mset h = add_mset x (mset h')"
    using pop_law [OF assms(1-3)] by auto
  then show ?thesis
    using top_law [OF assms(1), of y] assms(4) by (metis insert_iff set_mset_add_mset_insert set_mset_mset)
qed

lemma queue_empty_iff: "queue h \<Longrightarrow> mset h = {#} \<longleftrightarrow> h = []"
  by simp

text \<open>Pushing several elements back, as the price list does with what it saved.\<close>

lemma push_all:
  "queue h \<Longrightarrow> queue (foldl push h xs) \<and> mset (foldl push h xs) = mset h + mset xs"
proof (induction xs arbitrary: h)
  case (Cons x xs)
  from Cons.IH [of "push h x"] push_law [OF Cons.prems, of x] show ?case by simp
qed simp

end

sublocale weak_order \<subseteq> pq: priority_queue lt "heap_Init lt" "heap_Push lt" "heap_Pop lt"
  "heap_Remove lt" "is_heap lt"
proof (unfold_locales, goal_cases)
  case 1
  show ?case by (simp add: is_heap_def heap_from_def)
next
  case (2 h)
  show ?case by (rule Init_correct)
next
  case (3 h x)
  then show ?case by (rule Push_correct)
next
  case (4 h x h')
  then show ?case using Pop_correct [of h x h'] by simp
next
  case (5 h i x h')
  then show ?case using Remove_correct [of h i x h'] by simp
next
  case (6 h x)
  then show ?case by (rule hd_least)
qed

end
