(* ===== verification/Tx_List.thy ===== *)
theory Tx_List
  imports Go_Heap
begin

text \<open>
  The transaction lists of the pool (\<^verbatim>\<open>tx_list.go\<close>): the nonce-sorted map with its heap of
  nonces and its cache, and the list of one account built on it. A transaction is what its
  accessor methods return, since package types is not part of the repository. A nil
  transaction taken from the map, or a slice bound out of range, is the result \<open>None\<close>:
  there the program panics.
\<close>

section \<open>Data\<close>

record transaction =
  tx_Nonce :: u64
  tx_GasPrice :: int
  tx_Gas :: u64
  tx_Cost :: int
  tx_Hash :: hash
  tx_Size :: nat

record sorted_map =
  sm_items :: "u64 \<rightharpoonup> transaction"
  sm_index :: "u64 list"
  sm_cache :: "transaction list option"

definition newTxSortedMap :: sorted_map where
  "newTxSortedMap = \<lparr>sm_items = Map.empty, sm_index = [], sm_cache = None\<rparr>"

text \<open>\<^verbatim>\<open>nonceHeap.Less\<close>\<close>

definition nonceLess :: "u64 \<Rightarrow> u64 \<Rightarrow> bool" where
  "nonceLess a b = (a < b)"

section \<open>The nonce-sorted map\<close>

definition sm_Get :: "sorted_map \<Rightarrow> u64 \<Rightarrow> transaction option" where
  "sm_Get m nonce = sm_items m nonce"

definition sm_Put :: "sorted_map \<Rightarrow> transaction \<Rightarrow> sorted_map" where
  "sm_Put m tx =
     (let nonce = tx_Nonce tx;
          index = (if sm_items m nonce = None then heap_Push nonceLess (sm_index m) nonce
                   else sm_index m)
      in m\<lparr>sm_index := index, sm_items := (sm_items m)(nonce \<mapsto> tx), sm_cache := None\<rparr>)"

lemma length_heap_Pop [simp]: "length (snd (heap_Pop lt h)) = length h - 1"
  by (simp add: heap_Pop_def Let_def)

function sm_Forward_loop :: "u64 \<Rightarrow> sorted_map \<Rightarrow> transaction list
    \<Rightarrow> (sorted_map \<times> transaction list) option" where
  "sm_Forward_loop threshold m removed =
     (if sm_index m \<noteq> [] \<and> sm_index m ! 0 < threshold then
        (let (nonce, index) = heap_Pop nonceLess (sm_index m) in
         case sm_items m nonce of
           None \<Rightarrow> None
         | Some tx \<Rightarrow>
             sm_Forward_loop threshold
               (m\<lparr>sm_index := index, sm_items := (sm_items m)(nonce := None)\<rparr>) (removed @ [tx]))
      else Some (m, removed))"
  by pat_completeness auto
termination
proof (relation "measure (\<lambda>(_, m, _). length (sm_index m))", goal_cases)
  case (2 threshold m removed p nonce index tx)
  then have "length index = length (sm_index m) - 1"
    using length_heap_Pop [of nonceLess "sm_index m"] by (metis snd_conv)
  with 2(1) show ?case by (cases "sm_index m") auto
qed simp

declare sm_Forward_loop.simps [simp del]

definition sm_Forward :: "sorted_map \<Rightarrow> u64 \<Rightarrow> (sorted_map \<times> transaction list) option" where
  "sm_Forward m threshold =
     (case sm_Forward_loop threshold m [] of
        None \<Rightarrow> None
      | Some (m, removed) \<Rightarrow>
          (case sm_cache m of
             None \<Rightarrow> Some (m, removed)
           | Some c \<Rightarrow>
               if length removed \<le> length c
               then Some (m\<lparr>sm_cache := Some (drop (length removed) c)\<rparr>, removed) else None))"

text \<open>\<^verbatim>\<open>for nonce, tx := range m.items\<close> with its deletions, over the keys still to visit.\<close>

fun sm_Filter_loop :: "(transaction \<Rightarrow> bool) \<Rightarrow> u64 list \<Rightarrow> (u64 \<rightharpoonup> transaction) \<Rightarrow> transaction list
    \<Rightarrow> (u64 \<rightharpoonup> transaction) \<times> transaction list" where
  "sm_Filter_loop p [] items removed = (items, removed)"
| "sm_Filter_loop p (nonce # ks) items removed =
     (case items nonce of
        None \<Rightarrow> sm_Filter_loop p ks items removed
      | Some tx \<Rightarrow>
          if p tx then sm_Filter_loop p ks (items(nonce := None)) (removed @ [tx])
          else sm_Filter_loop p ks items removed)"

definition sm_Filter :: "((u64 \<rightharpoonup> transaction) \<Rightarrow> u64 list) \<Rightarrow> sorted_map \<Rightarrow> (transaction \<Rightarrow> bool)
    \<Rightarrow> sorted_map \<times> transaction list" where
  "sm_Filter rng m p =
     (let (items, removed) = sm_Filter_loop p (rng (sm_items m)) (sm_items m) [] in
      if 0 < length removed
      then (m\<lparr>sm_items := items, sm_index := heap_Init nonceLess (rng items), sm_cache := None\<rparr>,
            removed)
      else (m\<lparr>sm_items := items\<rparr>, removed))"

text \<open>The loop of \<^verbatim>\<open>Cap\<close>, from the highest nonce down; \<open>sz\<close> is the loop variable.\<close>

fun sm_Cap_loop :: "int \<Rightarrow> nat \<Rightarrow> u64 list \<Rightarrow> (u64 \<rightharpoonup> transaction) \<Rightarrow> transaction list
    \<Rightarrow> ((u64 \<rightharpoonup> transaction) \<times> transaction list) option" where
  "sm_Cap_loop threshold 0 index items drops =
     (if 0 > threshold then None else Some (items, drops))"
| "sm_Cap_loop threshold (Suc s) index items drops =
     (if int (Suc s) > threshold then
        (if s < length index then
           (case items (index ! s) of
              None \<Rightarrow> None
            | Some tx \<Rightarrow>
                sm_Cap_loop threshold s index (items(index ! s := None)) (drops @ [tx]))
         else None)
      else Some (items, drops))"

definition sm_Cap :: "sorted_map \<Rightarrow> int \<Rightarrow> (sorted_map \<times> transaction list) option" where
  "sm_Cap m threshold =
     (if int (card (dom (sm_items m))) \<le> threshold then Some (m, [])
      else
        let index = sort (sm_index m) in
        case sm_Cap_loop threshold (card (dom (sm_items m))) index (sm_items m) [] of
          None \<Rightarrow> None
        | Some (items, drops) \<Rightarrow>
            let m = m\<lparr>sm_items := items, sm_index := heap_Init nonceLess (take (nat threshold) index)\<rparr>
            in case sm_cache m of
                 None \<Rightarrow> Some (m, drops)
               | Some c \<Rightarrow>
                   if length drops \<le> length c
                   then Some (m\<lparr>sm_cache := Some (take (length c - length drops) c)\<rparr>, drops)
                   else None)"

text \<open>The search loop of \<^verbatim>\<open>Remove\<close>.\<close>

fun index_of :: "'a \<Rightarrow> 'a list \<Rightarrow> nat option" where
  "index_of x [] = None"
| "index_of x (y # ys) = (if y = x then Some 0 else map_option Suc (index_of x ys))"

definition sm_Remove :: "sorted_map \<Rightarrow> u64 \<Rightarrow> sorted_map \<times> bool" where
  "sm_Remove m nonce =
     (if sm_items m nonce = None then (m, False)
      else
        let index = (case index_of nonce (sm_index m) of
                       None \<Rightarrow> sm_index m
                     | Some i \<Rightarrow> snd (heap_Remove nonceLess (sm_index m) i))
        in (m\<lparr>sm_index := index, sm_items := (sm_items m)(nonce := None), sm_cache := None\<rparr>, True))"

function sm_Ready_loop :: "u64 \<Rightarrow> sorted_map \<Rightarrow> transaction list
    \<Rightarrow> (sorted_map \<times> transaction list) option" where
  "sm_Ready_loop nxt m ready =
     (if sm_index m \<noteq> [] \<and> sm_index m ! 0 = nxt then
        (case sm_items m nxt of
           None \<Rightarrow> None
         | Some tx \<Rightarrow>
             sm_Ready_loop (nxt + 1)
               (m\<lparr>sm_items := (sm_items m)(nxt := None),
                  sm_index := snd (heap_Pop nonceLess (sm_index m))\<rparr>) (ready @ [tx]))
      else Some (m, ready))"
  by pat_completeness auto
termination
proof (relation "measure (\<lambda>(_, m, _). length (sm_index m))", goal_cases)
  case (2 nxt m ready tx)
  then show ?case by (cases "sm_index m") auto
qed simp

declare sm_Ready_loop.simps [simp del]

definition sm_Ready :: "sorted_map \<Rightarrow> u64 \<Rightarrow> (sorted_map \<times> transaction list) option" where
  "sm_Ready m start =
     (if sm_index m = [] \<or> sm_index m ! 0 > start then Some (m, [])
      else map_option (\<lambda>(m, ready). (m\<lparr>sm_cache := None\<rparr>, ready))
             (sm_Ready_loop (sm_index m ! 0) m []))"

definition sm_Len :: "sorted_map \<Rightarrow> nat" where
  "sm_Len m = card (dom (sm_items m))"

definition sm_Flatten :: "((u64 \<rightharpoonup> transaction) \<Rightarrow> u64 list) \<Rightarrow> sorted_map \<Rightarrow> sorted_map \<times> transaction list" where
  "sm_Flatten rng m =
     (let m = (if sm_cache m = None
               then m\<lparr>sm_cache := Some (sort_key tx_Nonce
                        (map (\<lambda>k. the (sm_items m k)) (rng (sm_items m))))\<rparr>
               else m)
      in (m, the (sm_cache m)))"

section \<open>The list of an account\<close>

record tx_list =
  tl_strict :: bool
  tl_txs :: sorted_map
  tl_costcap :: int
  tl_gascap :: u64

definition newTxList :: "bool \<Rightarrow> tx_list" where
  "newTxList strict = \<lparr>tl_strict = strict, tl_txs = newTxSortedMap, tl_costcap = 0, tl_gascap = 0\<rparr>"

definition tl_Overlaps :: "tx_list \<Rightarrow> transaction \<Rightarrow> bool" where
  "tl_Overlaps l tx = (sm_Get (tl_txs l) (tx_Nonce tx) \<noteq> None)"

text \<open>\<^verbatim>\<open>100+int64(priceBump)\<close> is an addition of signed 64-bit integers.\<close>

definition bumpThreshold :: "int \<Rightarrow> u64 \<Rightarrow> int" where
  "bumpThreshold price priceBump = price * sint (100 + priceBump) div 100"

definition tl_Add :: "tx_list \<Rightarrow> transaction \<Rightarrow> u64 \<Rightarrow> tx_list \<times> bool \<times> transaction option" where
  "tl_Add l tx priceBump =
     (let old = sm_Get (tl_txs l) (tx_Nonce tx) in
      if (case old of
            None \<Rightarrow> False
          | Some o' \<Rightarrow> tx_GasPrice o' \<ge> tx_GasPrice tx
                       \<or> bumpThreshold (tx_GasPrice o') priceBump > tx_GasPrice tx)
      then (l, False, None)
      else
        let l = l\<lparr>tl_txs := sm_Put (tl_txs l) tx\<rparr>;
            l = (if tl_costcap l < tx_Cost tx then l\<lparr>tl_costcap := tx_Cost tx\<rparr> else l);
            l = (if tl_gascap l < tx_Gas tx then l\<lparr>tl_gascap := tx_Gas tx\<rparr> else l)
        in (l, True, old))"

definition tl_Forward :: "tx_list \<Rightarrow> u64 \<Rightarrow> (tx_list \<times> transaction list) option" where
  "tl_Forward l threshold =
     map_option (\<lambda>(m, removed). (l\<lparr>tl_txs := m\<rparr>, removed)) (sm_Forward (tl_txs l) threshold)"

text \<open>The loop of \<^verbatim>\<open>Filter\<close> that finds the lowest nonce removed.\<close>

definition lowestNonce :: "transaction list \<Rightarrow> u64" where
  "lowestNonce removed =
     foldl (\<lambda>lowest tx. if lowest > tx_Nonce tx then tx_Nonce tx else lowest) (- 1) removed"

definition tl_Filter :: "((u64 \<rightharpoonup> transaction) \<Rightarrow> u64 list) \<Rightarrow> tx_list \<Rightarrow> int \<Rightarrow> u64
    \<Rightarrow> tx_list \<times> transaction list \<times> transaction list" where
  "tl_Filter rng l costLimit gasLimit =
     (if tl_costcap l \<le> costLimit \<and> tl_gascap l \<le> gasLimit then (l, [], [])
      else
        let l = l\<lparr>tl_costcap := costLimit, tl_gascap := gasLimit\<rparr>;
            (m, removed) = sm_Filter rng (tl_txs l)
                             (\<lambda>tx. tx_Cost tx > costLimit \<or> tx_Gas tx > gasLimit);
            (m, invalids) =
              (if tl_strict l \<and> 0 < length removed
               then sm_Filter rng m (\<lambda>tx. tx_Nonce tx > lowestNonce removed)
               else (m, []))
        in (l\<lparr>tl_txs := m\<rparr>, removed, invalids))"

definition tl_Cap :: "tx_list \<Rightarrow> int \<Rightarrow> (tx_list \<times> transaction list) option" where
  "tl_Cap l threshold =
     map_option (\<lambda>(m, drops). (l\<lparr>tl_txs := m\<rparr>, drops)) (sm_Cap (tl_txs l) threshold)"

definition tl_Remove :: "((u64 \<rightharpoonup> transaction) \<Rightarrow> u64 list) \<Rightarrow> tx_list \<Rightarrow> transaction
    \<Rightarrow> tx_list \<times> bool \<times> transaction list" where
  "tl_Remove rng l tx =
     (let nonce = tx_Nonce tx; (m, removed) = sm_Remove (tl_txs l) nonce in
      if \<not> removed then (l, False, [])
      else if tl_strict l then
        (let (m, invalids) = sm_Filter rng m (\<lambda>tx. tx_Nonce tx > nonce)
         in (l\<lparr>tl_txs := m\<rparr>, True, invalids))
      else (l\<lparr>tl_txs := m\<rparr>, True, []))"

definition tl_Ready :: "tx_list \<Rightarrow> u64 \<Rightarrow> (tx_list \<times> transaction list) option" where
  "tl_Ready l start =
     map_option (\<lambda>(m, ready). (l\<lparr>tl_txs := m\<rparr>, ready)) (sm_Ready (tl_txs l) start)"

definition tl_Len :: "tx_list \<Rightarrow> nat" where
  "tl_Len l = sm_Len (tl_txs l)"

definition tl_Empty :: "tx_list \<Rightarrow> bool" where
  "tl_Empty l = (tl_Len l = 0)"

definition tl_Flatten :: "((u64 \<rightharpoonup> transaction) \<Rightarrow> u64 list) \<Rightarrow> tx_list \<Rightarrow> tx_list \<times> transaction list" where
  "tl_Flatten rng l = (let (m, txs) = sm_Flatten rng (tl_txs l) in (l\<lparr>tl_txs := m\<rparr>, txs))"

section \<open>The invariant of the nonce-sorted map\<close>

interpretation nonce: weak_order nonceLess
  by unfold_locales (auto simp: nonceLess_def)

text \<open>The transactions of a map in nonce order: what \<open>Flatten\<close> returns and the cache holds.\<close>

definition sm_flat :: "(u64 \<rightharpoonup> transaction) \<Rightarrow> transaction list" where
  "sm_flat items = map (\<lambda>k. the (items k)) (sorted_list_of_set (dom items))"

definition sm_keyed :: "(u64 \<rightharpoonup> transaction) \<Rightarrow> bool" where
  "sm_keyed items \<longleftrightarrow> finite (dom items) \<and> (\<forall>k tx. items k = Some tx \<longrightarrow> tx_Nonce tx = k)"

definition sm_core :: "sorted_map \<Rightarrow> bool" where
  "sm_core m \<longleftrightarrow> sm_keyed (sm_items m) \<and> distinct (sm_index m) \<and> set (sm_index m) = dom (sm_items m)
     \<and> is_heap nonceLess (sm_index m)"

definition sm_inv :: "sorted_map \<Rightarrow> bool" where
  "sm_inv m \<longleftrightarrow> sm_core m \<and> (\<forall>c. sm_cache m = Some c \<longrightarrow> c = sm_flat (sm_items m))"

lemma sm_coreI:
  "sm_keyed (sm_items m) \<Longrightarrow> distinct (sm_index m) \<Longrightarrow> set (sm_index m) = dom (sm_items m) \<Longrightarrow>
   is_heap nonceLess (sm_index m) \<Longrightarrow> sm_core m"
  by (simp add: sm_core_def)

lemma sm_coreD:
  assumes "sm_core m"
  shows "sm_keyed (sm_items m)" "distinct (sm_index m)" "set (sm_index m) = dom (sm_items m)"
    "is_heap nonceLess (sm_index m)" "finite (dom (sm_items m))"
  using assms by (auto simp: sm_core_def sm_keyed_def)

lemma sm_core_frame [frame_simps]: "sm_core (m\<lparr>sm_cache := c\<rparr>) = sm_core m"
  by (simp add: sm_core_def)

lemma sm_keyed_restrict: "sm_keyed items \<Longrightarrow> sm_keyed (items |` A)"
  by (auto simp: sm_keyed_def restrict_map_def)

lemma sm_keyed_del: "sm_keyed items \<Longrightarrow> sm_keyed (items(k := None))"
  by (auto simp: sm_keyed_def)

lemma sm_keyed_upd: "sm_keyed items \<Longrightarrow> sm_keyed (items(tx_Nonce tx \<mapsto> tx))"
  by (auto simp: sm_keyed_def)

lemma take_out:
  assumes "mset h = add_mset x (mset h')" "distinct h"
  shows "distinct h'" "x \<notin> set h'" "set h = insert x (set h')"
proof -
  have eq: "mset h = mset (x # h')" using assms(1) by simp
  then have "distinct (x # h')" using assms(2) mset_eq_imp_distinct_iff by blast
  then show "distinct h'" "x \<notin> set h'" by simp_all
  show "set h = insert x (set h')" using mset_eq_setD [OF eq] by simp
qed

text \<open>The top of the index is the lowest nonce, and popping it removes that entry.\<close>

lemma sm_top:
  assumes "sm_core m" "sm_index m \<noteq> []"
  shows "sm_index m ! 0 = Min (dom (sm_items m))" "dom (sm_items m) \<noteq> {}"
    "sm_items m (sm_index m ! 0) \<noteq> None"
proof -
  note c = sm_coreD [OF assms(1)]
  have in_set: "sm_index m ! 0 \<in> set (sm_index m)" using assms(2) by simp
  then have dom: "sm_index m ! 0 \<in> dom (sm_items m)" using c(3) by simp
  then show "dom (sm_items m) \<noteq> {}" "sm_items m (sm_index m ! 0) \<noteq> None" by auto
  have "sm_index m ! 0 \<le> k" if "k \<in> dom (sm_items m)" for k
    using nonce.hd_least [OF c(4), of k] that c(3) by (simp add: nonceLess_def)
  with dom c(5) show "sm_index m ! 0 = Min (dom (sm_items m))"
    by (intro Min_eqI [symmetric]) auto
qed

lemma sm_pop:
  assumes "sm_core m" "sm_index m \<noteq> []" "heap_Pop nonceLess (sm_index m) = (k, index)"
  shows "k = sm_index m ! 0"
    "sm_core (m\<lparr>sm_index := index, sm_items := (sm_items m)(k := None)\<rparr>)"
    "sorted_list_of_set (dom (sm_items m)) = k # sorted_list_of_set (dom (sm_items m) - {k})"
proof -
  note c = sm_coreD [OF assms(1)]
  have law: "k = sm_index m ! 0 \<and> is_heap nonceLess index
      \<and> mset (sm_index m) = add_mset k (mset index)"
    by (rule nonce.pq.pop_law [OF c(4) assms(2,3)])
  note t = take_out [OF _ c(2), of k index]
  show "k = sm_index m ! 0" using law by blast
  have "set index = dom (sm_items m) - {k}"
    using t law c(3) by auto
  then show "sm_core (m\<lparr>sm_index := index, sm_items := (sm_items m)(k := None)\<rparr>)"
    using law c t by (intro sm_coreI) (auto intro: sm_keyed_del)
  show "sorted_list_of_set (dom (sm_items m)) = k # sorted_list_of_set (dom (sm_items m) - {k})"
    using sm_top [OF assms(1,2)] law c(5) sorted_list_of_set_nonempty by metis
qed

lemma sm_flat_filter:
  assumes "sm_keyed items"
  shows "filter (\<lambda>tx. P (tx_Nonce tx)) (sm_flat items) = sm_flat (items |` {k. P k})"
proof -
  have fin: "finite (dom items)" using assms by (simp add: sm_keyed_def)
  have dom: "dom (items |` {k. P k}) = {k \<in> dom items. P k}" by (auto simp: restrict_map_def split: if_splits)
  have "filter (\<lambda>tx. P (tx_Nonce tx)) (sm_flat items)
      = map (\<lambda>k. the (items k)) (filter (\<lambda>k. P (tx_Nonce (the (items k)))) (sorted_list_of_set (dom items)))"
    by (simp add: sm_flat_def filter_map o_def)
  also have "filter (\<lambda>k. P (tx_Nonce (the (items k)))) (sorted_list_of_set (dom items))
      = filter P (sorted_list_of_set (dom items))"
    using assms fin by (intro filter_cong) (auto simp: sm_keyed_def)
  also have "\<dots> = sorted_list_of_set (dom (items |` {k. P k}))"
    by (simp only: dom sorted_list_of_set_filter [OF fin])
  also have "map (\<lambda>k. the (items k)) \<dots> = sm_flat (items |` {k. P k})"
    unfolding sm_flat_def using fin by (intro map_cong) (auto simp: dom)
  finally show ?thesis .
qed

section \<open>What the operations of the map do\<close>

lemma sm_Forward_loop_correct:
  "sm_core m \<Longrightarrow> \<exists>m'. sm_Forward_loop t m acc =
       Some (m', acc @ filter (\<lambda>tx. tx_Nonce tx < t) (sm_flat (sm_items m)))
     \<and> sm_items m' = sm_items m |` {k. t \<le> k} \<and> sm_core m' \<and> sm_cache m' = sm_cache m"
proof (induction t m acc rule: sm_Forward_loop.induct)
  case (1 t m acc)
  note c = sm_coreD [OF 1(2)]
  show ?case
  proof (cases "sm_index m \<noteq> [] \<and> sm_index m ! 0 < t")
    case True
    obtain k index where pop: "heap_Pop nonceLess (sm_index m) = (k, index)" by fastforce
    note p = sm_pop [OF 1(2) _ pop] and top = sm_top [OF 1(2)]
    obtain tx where tx: "sm_items m k = Some tx"
      using top(3) p(1) True by auto
    let ?m = "m\<lparr>sm_index := index, sm_items := (sm_items m)(k := None)\<rparr>"
    have kt: "k < t" using True p(1) by auto
    have flat: "sm_flat (sm_items m) = tx # sm_flat (sm_items ?m)"
      using p(3) True tx c(5) by (auto simp: sm_flat_def intro!: map_cong)
    have txk: "tx_Nonce tx = k" using c(1) tx by (simp add: sm_keyed_def)
    have items: "sm_items ?m |` {k. t \<le> k} = sm_items m |` {k. t \<le> k}"
      using kt by (auto simp: restrict_map_def fun_eq_iff)
    obtain m' where m': "sm_Forward_loop t ?m (acc @ [tx]) =
        Some (m', (acc @ [tx]) @ filter (\<lambda>tx. tx_Nonce tx < t) (sm_flat (sm_items ?m)))"
      "sm_items m' = sm_items ?m |` {k. t \<le> k}" "sm_core m'" "sm_cache m' = sm_cache ?m"
      using 1(1) [OF True pop [symmetric] refl tx p(2)] True by blast
    have "sm_Forward_loop t m acc = sm_Forward_loop t ?m (acc @ [tx])"
      using True pop tx by (subst sm_Forward_loop.simps) simp
    then show ?thesis
      using m' flat txk kt items by (intro exI [of _ m']) simp
  next
    case False
    have all: "t \<le> k" if "k \<in> dom (sm_items m)" for k
    proof -
      have ne: "sm_index m \<noteq> []" using that c(3) by auto
      then have "t \<le> Min (dom (sm_items m))" using False sm_top(1) [OF 1(2) ne] by simp
      also have "\<dots> \<le> k" using c(5) that by simp
      finally show ?thesis .
    qed
    have "filter (\<lambda>tx. tx_Nonce tx < t) (sm_flat (sm_items m)) = []"
      using all [OF domI] c(1,5) by (force simp: filter_empty_conv sm_flat_def sm_keyed_def)
    moreover have "sm_items m |` {k. t \<le> k} = sm_items m"
      using all by (intro restrict_all) blast
    ultimately show ?thesis
      using 1(2) by (subst sm_Forward_loop.simps) (simp only: False if_False append_Nil2, blast)
  qed
qed

lemma sorted_flat: "sm_keyed items \<Longrightarrow> map tx_Nonce (sm_flat items) = sorted_list_of_set (dom items)"
  unfolding sm_flat_def by (auto simp: sm_keyed_def intro!: map_idI)

lemma flat_split:
  assumes "sm_keyed items"
  shows "filter (\<lambda>tx. tx_Nonce tx < t) (sm_flat items) @ filter (\<lambda>tx. t \<le> tx_Nonce tx) (sm_flat items)
    = sm_flat items"
proof -
  have eq: "filter (\<lambda>tx. P (tx_Nonce tx)) (sm_flat items)
      = map (\<lambda>k. the (items k)) (filter P (sorted_list_of_set (dom items)))" for P
    using assms unfolding sm_flat_def filter_map o_def
    by (intro arg_cong [where f = "map _"] filter_cong) (auto simp: sm_keyed_def)
  show ?thesis
    unfolding eq [of "\<lambda>k. k < t"] eq [of "\<lambda>k. t \<le> k"] map_append [symmetric] sorted_split_less [OF sorted_list_of_set.sorted_sorted_key_list_of_set]
    by (simp add: sm_flat_def)
qed

lemma sm_Forward_correct:
  assumes "sm_inv m"
  shows "\<exists>m'. sm_Forward m t = Some (m', filter (\<lambda>tx. tx_Nonce tx < t) (sm_flat (sm_items m)))
    \<and> sm_items m' = sm_items m |` {k. t \<le> k} \<and> sm_inv m'"
proof -
  let ?f = "sm_flat (sm_items m)" and ?r = "filter (\<lambda>tx. tx_Nonce tx < t) (sm_flat (sm_items m))"
  have core: "sm_core m" using assms by (simp add: sm_inv_def)
  then obtain m' where m': "sm_Forward_loop t m [] = Some (m', ?r)"
    "sm_items m' = sm_items m |` {k. t \<le> k}" "sm_core m'" "sm_cache m' = sm_cache m"
    using sm_Forward_loop_correct [OF core, of t "[]"] by auto
  have drop: "drop (length ?r) ?f = sm_flat (sm_items m')"
    using flat_split [OF sm_coreD(1) [OF core], of t] sm_flat_filter [OF sm_coreD(1) [OF core], of "\<lambda>k. t \<le> k"]
    unfolding m'(2) by (metis append_eq_conv_conj)
  show ?thesis
  proof (cases "sm_cache m")
    case None
    with m' show ?thesis by (simp add: sm_Forward_def sm_inv_def)
  next
    case (Some c)
    then have "c = ?f" using assms by (simp add: sm_inv_def)
    with Some m' drop show ?thesis
      by (simp add: sm_Forward_def sm_inv_def sm_core_frame)
  qed
qed

text \<open>\<open>Put\<close>, \<open>Remove\<close>, \<open>Filter\<close>, \<open>Flatten\<close>.\<close>

lemma sm_Put_correct:
  assumes "sm_core m"
  shows "sm_items (sm_Put m tx) = (sm_items m)(tx_Nonce tx \<mapsto> tx) \<and> sm_inv (sm_Put m tx)"
proof -
  note c = sm_coreD [OF assms]
  have law: "is_heap nonceLess (heap_Push nonceLess (sm_index m) (tx_Nonce tx))
      \<and> mset (heap_Push nonceLess (sm_index m) (tx_Nonce tx)) = add_mset (tx_Nonce tx) (mset (sm_index m))"
    by (rule nonce.pq.push_law [OF c(4)])
  then have eq: "mset (heap_Push nonceLess (sm_index m) (tx_Nonce tx)) = mset (tx_Nonce tx # sm_index m)"
    by simp
  have "sm_core (sm_Put m tx)"
    using law c mset_eq_setD [OF eq] mset_eq_imp_distinct_iff [OF eq]
    by (intro sm_coreI) (auto simp: sm_Put_def Let_def intro: sm_keyed_upd)
  then show ?thesis by (simp add: sm_Put_def sm_inv_def Let_def)
qed

lemma index_of_Some: "index_of x xs = Some i \<Longrightarrow> i < length xs \<and> xs ! i = x"
  by (induction xs arbitrary: i) (auto split: if_splits)

lemma index_of_None: "index_of x xs = None \<longleftrightarrow> x \<notin> set xs"
  by (induction xs) auto

lemma sm_Remove_correct:
  assumes "sm_inv m" "sm_Remove m nonce = (m', ok)"
  shows "ok \<longleftrightarrow> nonce \<in> dom (sm_items m)" "sm_items m' = (sm_items m)(nonce := None)" "sm_inv m'"
proof -
  have core: "sm_core m" using assms(1) by (simp add: sm_inv_def)
  note c = sm_coreD [OF core]
  show "ok \<longleftrightarrow> nonce \<in> dom (sm_items m)" "sm_items m' = (sm_items m)(nonce := None)"
    using assms(2) by (auto simp: sm_Remove_def Let_def split: if_splits)
  show "sm_inv m'"
  proof (cases "sm_items m nonce")
    case None
    with assms show ?thesis by (simp add: sm_Remove_def)
  next
    case (Some tx)
    then have "nonce \<in> set (sm_index m)" using c(3) by auto
    then obtain i where i: "index_of nonce (sm_index m) = Some i"
      using index_of_None by (metis option.exhaust)
    obtain x index where rem: "heap_Remove nonceLess (sm_index m) i = (x, index)" by fastforce
    have law: "x = nonce \<and> is_heap nonceLess index \<and> mset (sm_index m) = add_mset x (mset index)"
      using nonce.pq.remove_law [OF c(4) _ rem] index_of_Some [OF i] by simp
    note t = take_out [OF _ c(2), of x index]
    have m': "m' = m\<lparr>sm_index := index, sm_items := (sm_items m)(nonce := None), sm_cache := None\<rparr>"
      using assms(2) Some i rem by (simp add: sm_Remove_def)
    have "set index = dom (sm_items m) - {nonce}" using t law c(3) by auto
    then have "sm_core m'"
      using law c t unfolding m' by (intro sm_coreI) (auto intro: sm_keyed_del)
    then show ?thesis by (simp add: m' sm_inv_def)
  qed
qed

lemma sm_Filter_loop_correct:
  "distinct ks \<Longrightarrow> sm_Filter_loop p ks items acc =
     (items |` (- {k \<in> set ks. \<exists>tx. items k = Some tx \<and> p tx}),
      acc @ filter p (map (\<lambda>k. the (items k)) (filter (\<lambda>k. k \<in> dom items) ks)))"
proof (induction ks arbitrary: items acc)
  case (Cons k ks)
  have k: "k \<notin> set ks" "distinct ks" using Cons.prems by auto
  have del: "map (\<lambda>i. the ((items(k := None)) i)) (filter (\<lambda>i. i \<in> dom (items(k := None))) ks)
      = map (\<lambda>i. the (items i)) (filter (\<lambda>i. i \<in> dom items) ks)"
    using k(1) by (intro map_cong filter_cong) auto
  show ?case
  proof (cases "\<exists>tx. items k = Some tx \<and> p tx")
    case True
    then obtain tx where tx: "items k = Some tx" "p tx" by blast
    have "items(k := None) |` (- {i \<in> set ks. \<exists>tx. (items(k := None)) i = Some tx \<and> p tx})
        = items |` (- {i \<in> set (k # ks). \<exists>tx. items i = Some tx \<and> p tx})"
      using k(1) tx by (auto simp: restrict_map_def fun_eq_iff)
    moreover have "filter p (map (\<lambda>i. the (items i)) (filter (\<lambda>i. i \<in> dom items) (k # ks)))
        = tx # filter p (map (\<lambda>i. the (items i)) (filter (\<lambda>i. i \<in> dom items) ks))"
      using tx by (simp add: domI)
    ultimately show ?thesis
      using tx by (simp only: sm_Filter_loop.simps option.case if_True
          Cons.IH [OF k(2), of "items(k := None)" "acc @ [tx]"] del append_assoc append.simps)
  next
    case False
    then have "sm_Filter_loop p (k # ks) items acc = sm_Filter_loop p ks items acc"
      by (auto split: option.split)
    moreover have "filter p (map (\<lambda>k. the (items k)) (filter (\<lambda>k. k \<in> dom items) (k # ks)))
        = filter p (map (\<lambda>k. the (items k)) (filter (\<lambda>k. k \<in> dom items) ks))"
      using False by auto
    moreover have "{i \<in> set (k # ks). \<exists>tx. items i = Some tx \<and> p tx}
        = {i \<in> set ks. \<exists>tx. items i = Some tx \<and> p tx}"
      using False by auto
    ultimately show ?thesis using Cons.IH [OF k(2)] by simp
  qed
qed (simp add: restrict_map_def)

lemma sm_Filter_correct:
  assumes "map_order rng" "sm_inv m" "sm_Filter rng m p = (m', removed)"
  shows "sm_items m' = sm_items m |` {k. \<exists>tx. sm_items m k = Some tx \<and> \<not> p tx}"
    "mset removed = mset (filter p (sm_flat (sm_items m)))" "sm_inv m'"
proof -
  let ?items = "sm_items m"
  have core: "sm_core m" using assms(2) by (simp add: sm_inv_def)
  note c = sm_coreD [OF core]
  note order = map_orderD [OF assms(1) c(5)]
  define items where "items = ?items |` {k. \<exists>tx. ?items k = Some tx \<and> \<not> p tx}"
  have "?items |` (- {k \<in> dom ?items. \<exists>tx. ?items k = Some tx \<and> p tx}) = items"
    by (auto simp: items_def restrict_map_def fun_eq_iff)
  then have loop: "sm_Filter_loop p (rng ?items) ?items [] =
      (items, filter p (map (\<lambda>k. the (?items k)) (rng ?items)))"
    using sm_Filter_loop_correct [OF order(1), of p ?items "[]"] order(2) by (simp cong: filter_cong)
  have removed: "removed = filter p (map (\<lambda>k. the (?items k)) (rng ?items))"
    using assms(3) loop by (auto simp: sm_Filter_def split: if_splits)
  show items': "sm_items m' = sm_items m |` {k. \<exists>tx. sm_items m k = Some tx \<and> \<not> p tx}"
    using assms(3) loop by (auto simp: sm_Filter_def items_def split: if_splits)
  have "mset (rng ?items) = mset (sorted_list_of_set (dom ?items))"
    using map_order_mset [OF assms(1) c(5)] by (metis mset_sort)
  then show "mset removed = mset (filter p (sm_flat ?items))"
    by (simp add: removed sm_flat_def mset_map)
  show "sm_inv m'"
  proof (cases "removed = []")
    case True
    have "items = ?items"
    proof -
      have "\<not> p tx" if "?items k = Some tx" for k tx
        using True that order(2) unfolding removed filter_empty_conv by force
      then show ?thesis by (auto simp: items_def restrict_map_def fun_eq_iff split: option.splits)
    qed
    then show ?thesis
      using assms(2,3) loop removed True by (simp add: sm_Filter_def)
  next
    case False
    then have m': "m' = m\<lparr>sm_items := items, sm_index := heap_Init nonceLess (rng items), sm_cache := None\<rparr>"
      using assms(3) loop removed by (simp add: sm_Filter_def)
    have fin: "sm_keyed items" "finite (dom items)"
      unfolding items_def using c(5) by (simp_all add: sm_keyed_restrict [OF c(1)] del: dom_restrict) 
    note build = nonce.pq.build_law [of "rng items"]
    have "mset (heap_Init nonceLess (rng items)) = mset (rng items)" using build by blast
    from mset_eq_setD [OF this] mset_eq_imp_distinct_iff [OF this]
    have "sm_core m'"
      using build map_orderD [OF assms(1) fin(2)] fin unfolding m' by (intro sm_coreI) auto
    then show ?thesis by (simp add: sm_inv_def m')
  qed
qed

lemma sm_Flatten_correct:
  assumes "map_order rng" "sm_inv m" "sm_Flatten rng m = (m', txs)"
  shows "txs = sm_flat (sm_items m)" "sm_items m' = sm_items m" "sm_inv m'"
proof -
  have core: "sm_core m" using assms(2) by (simp add: sm_inv_def)
  note c = sm_coreD [OF core]
  have "sort_key tx_Nonce (map (\<lambda>k. the (sm_items m k)) (rng (sm_items m)))
      = map (\<lambda>k. the (sm_items m k)) (sort_key (\<lambda>k. tx_Nonce (the (sm_items m k))) (rng (sm_items m)))"
    by (rule sort_key_map)
  also have "sort_key (\<lambda>k. tx_Nonce (the (sm_items m k))) (rng (sm_items m)) = sort (rng (sm_items m))"
    using c(1) map_orderD [OF assms(1) c(5)] by (intro sort_key_cong_on) (auto simp: sm_keyed_def)
  finally have "sort_key tx_Nonce (map (\<lambda>k. the (sm_items m k)) (rng (sm_items m))) = sm_flat (sm_items m)"
    by (simp add: sm_flat_def map_order_mset [OF assms(1) c(5)])
  then show "txs = sm_flat (sm_items m)" "sm_items m' = sm_items m" "sm_inv m'"
    using assms(2,3) core by (auto simp: sm_Flatten_def sm_inv_def sm_core_frame split: if_splits)
qed

text \<open>\<open>Cap\<close> keeps the lowest nonces and drops the others, the highest first.\<close>

lemma sm_Cap_loop_correct:
  assumes "distinct index" "0 \<le> th" "s \<le> length index" "\<forall>k \<in> set (take s index). k \<in> dom items"
    "nat th \<le> s"
  shows "sm_Cap_loop th s index items acc =
    Some (items |` (- set (drop (nat th) (take s index))),
          acc @ rev (map (\<lambda>k. the (items k)) (drop (nat th) (take s index))))"
  using assms(3-)
proof (induction s arbitrary: items acc)
  case 0
  then show ?case using assms(2) by (simp add: restrict_map_def)
next
  case (Suc s)
  have take: "take (Suc s) index = take s index @ [index ! s]"
    using Suc.prems(1) by (simp add: take_Suc_conv)
  show ?case
  proof (cases "nat th = Suc s")
    case True
    then have "\<not> int (Suc s) > th" using assms(2) by linarith
    with True show ?thesis by (simp add: restrict_map_def)
  next
    case False
    then have le: "nat th \<le> s" and gt: "int (Suc s) > th" using Suc.prems(3) by linarith+
    obtain tx where tx: "items (index ! s) = Some tx"
      using Suc.prems(2) unfolding take by auto
    have notin: "index ! s \<notin> set (take s index)"
      using assms(1) Suc.prems(1) by (metis Suc_le_lessD distinct_take take distinct_append disjoint_insert(1) list.set(2))
    let ?it = "items(index ! s := None)"
    have drop: "drop (nat th) (take (Suc s) index) = drop (nat th) (take s index) @ [index ! s]"
      using le Suc.prems(1) by (simp add: take)
    have sub: "set (drop (nat th) (take s index)) \<subseteq> set (take s index)" by (rule set_drop_subset)
    have dom: "\<forall>k \<in> set (take s index). k \<in> dom ?it"
      using Suc.prems(2) notin unfolding take by auto
    have "sm_Cap_loop th (Suc s) index items acc = sm_Cap_loop th s index ?it (acc @ [tx])"
      using gt Suc.prems(1) tx by simp
    also have "\<dots> = Some (?it |` (- set (drop (nat th) (take s index))),
        (acc @ [tx]) @ rev (map (\<lambda>k. the (?it k)) (drop (nat th) (take s index))))"
      by (rule Suc.IH [OF _ dom le]) (use Suc.prems(1) in simp)
    also have "?it |` (- set (drop (nat th) (take s index)))
        = items |` (- set (drop (nat th) (take (Suc s) index)))"
      by (auto simp: drop restrict_map_def fun_eq_iff)
    also have "map (\<lambda>k. the (?it k)) (drop (nat th) (take s index))
        = map (\<lambda>k. the (items k)) (drop (nat th) (take s index))"
      using notin sub by (intro map_cong) auto
    finally show ?thesis using tx by (simp only: drop) simp
  qed
qed

lemma sm_Cap_correct:
  assumes "sm_inv m" "0 \<le> th"
  shows "\<exists>m'. sm_Cap m th = Some (m', rev (drop (nat th) (sm_flat (sm_items m))))
    \<and> sm_flat (sm_items m') = take (nat th) (sm_flat (sm_items m))
    \<and> sm_items m' = sm_items m |` set (take (nat th) (sorted_list_of_set (dom (sm_items m))))
    \<and> sm_inv m'"
proof -
  have core: "sm_core m" using assms(1) by (simp add: sm_inv_def)
  note c = sm_coreD [OF core]
  let ?D = "dom (sm_items m)" and ?it = "sm_items m"
  let ?ks = "sorted_list_of_set ?D"
  have len: "length ?ks = card ?D" by simp
  have idx: "sort (sm_index m) = ?ks"
    using c(2,3) by (metis distinct_remdups_id sorted_list_of_set_sort_remdups)
  show ?thesis
  proof (cases "int (card ?D) \<le> th")
    case True
    then have le: "length ?ks \<le> nat th" using len by linarith
    have "?it |` ?D = ?it" by (simp add: restrict_all)
    then show ?thesis
      using True le assms(1) c(5) by (simp add: sm_Cap_def sm_flat_def)
  next
    case False
    then have lt: "nat th \<le> length ?ks" using len by linarith
    define items where "items = ?it |` (- set (drop (nat th) ?ks))"
    have part: "set (take (nat th) ?ks) \<union> set (drop (nat th) ?ks) = ?D"
      "set (take (nat th) ?ks) \<inter> set (drop (nat th) ?ks) = {}"
      using c(5) set_append [of "take (nat th) ?ks" "drop (nat th) ?ks"]
        distinct_append [of "take (nat th) ?ks" "drop (nat th) ?ks"] by auto
    have items: "items = ?it |` set (take (nat th) ?ks)"
      using part by (auto simp: items_def restrict_map_def fun_eq_iff split: option.splits)
    have dom: "dom items = set (take (nat th) ?ks)" using part(1) by (auto simp: items)
    have loop: "sm_Cap_loop th (card ?D) ?ks ?it [] =
        Some (items, rev (drop (nat th) (sm_flat ?it)))"
      using sm_Cap_loop_correct [of ?ks th "length ?ks" ?it "[]"] lt assms(2) c(5)
      by (simp add: items_def sm_flat_def drop_map len)
    have sorted: "sorted_list_of_set (dom items) = take (nat th) ?ks"
      unfolding dom by (rule sorted_list_of_set.idem_if_sorted_distinct)
        (auto intro: sorted_wrt_take)
    have flat: "sm_flat items = take (nat th) (sm_flat ?it)"
      unfolding sm_flat_def sorted take_map by (intro map_cong) (auto simp: items)
    define m1 where "m1 = m\<lparr>sm_items := items, sm_index := heap_Init nonceLess (take (nat th) ?ks)\<rparr>"
    note build = nonce.pq.build_law [of "take (nat th) ?ks"]
    have eq: "mset (heap_Init nonceLess (take (nat th) ?ks)) = mset (take (nat th) ?ks)"
      using build by blast
    have keyed: "sm_keyed items" unfolding items by (rule sm_keyed_restrict [OF c(1)])
    have core1: "sm_core m1"
      using build mset_eq_setD [OF eq] mset_eq_imp_distinct_iff [OF eq] dom keyed
      unfolding m1_def by (intro sm_coreI) auto
    have lenf: "length (sm_flat ?it) = card ?D" by (simp add: sm_flat_def)
    have run: "sm_Cap m th = (case sm_cache m1 of
        None \<Rightarrow> Some (m1, rev (drop (nat th) (sm_flat ?it)))
      | Some c \<Rightarrow> if length (rev (drop (nat th) (sm_flat ?it))) \<le> length c
          then Some (m1\<lparr>sm_cache := Some (take (length c - length (rev (drop (nat th) (sm_flat ?it)))) c)\<rparr>,
                     rev (drop (nat th) (sm_flat ?it))) else None)"
      using False unfolding sm_Cap_def idx Let_def loop m1_def by simp
    show ?thesis
    proof (cases "sm_cache m")
      case None
      then show ?thesis
        using core1 flat items unfolding run by (simp add: m1_def sm_inv_def)
    next
      case (Some cc)
      then have "cc = sm_flat ?it" using assms(1) by (simp add: sm_inv_def)
      then show ?thesis
        using core1 flat items lenf lt len Some unfolding run
      by (simp add: m1_def sm_inv_def sm_core_frame)
    qed
  qed
qed

text \<open>\<open>Ready\<close> takes the run of consecutive nonces the map starts with.\<close>

fun nonceRun :: "u64 \<Rightarrow> u64 list \<Rightarrow> u64 list" where
  "nonceRun n [] = []"
| "nonceRun n (k # ks) = (if k = n then k # nonceRun (n + 1) ks else [])"

lemma set_nonceRun: "set (nonceRun n ks) \<subseteq> set ks"
  by (induction n ks rule: nonceRun.induct) auto

lemma nonceRun_prefix: "take (length (nonceRun n ks)) ks = nonceRun n ks"
  by (induction n ks rule: nonceRun.induct) auto

lemma nth_nonceRun: "i < length (nonceRun n ks) \<Longrightarrow> nonceRun n ks ! i = n + word_of_nat i"
proof (induction n ks arbitrary: i rule: nonceRun.induct)
  case (2 n k ks)
  then show ?case by (cases i) (auto split: if_splits)
qed simp

lemma nonceRun_gap:
  "length (nonceRun n ks) < length ks \<Longrightarrow>
   ks ! length (nonceRun n ks) \<noteq> n + word_of_nat (length (nonceRun n ks))"
proof (induction n ks rule: nonceRun.induct)
  case (2 n k ks)
  then show ?case by (auto simp: algebra_simps)
qed simp

text \<open>The nonce after the run is free.\<close>

lemma run_gap:
  fixes items :: "u64 \<rightharpoonup> 'b"
  assumes fin: "finite (dom items)"
  defines "ks \<equiv> sorted_list_of_set (dom items)"
  assumes hd: "ks \<noteq> []" "hd ks = n"
  shows "(items |` (- set (nonceRun n ks))) (n + word_of_nat (length (nonceRun n ks))) = None"
proof (rule ccontr)
  define run where "run = nonceRun n ks"
  define len where "len = length run"
  assume "\<not> ?thesis"
  then have k: "n + word_of_nat len \<in> set ks" "n + word_of_nat len \<notin> set run"
    using fin by (auto simp: restrict_map_def run_def len_def ks_def split: if_splits)
  have pre: "take len ks = run" unfolding len_def run_def by (rule nonceRun_prefix)
  obtain m where len: "len = Suc m" using hd by (cases ks) (auto simp: len_def run_def)
  have sorted: "sorted ks" "distinct ks" by (simp_all add: ks_def)
  have "n + word_of_nat len \<in> set (drop len ks)"
    using k pre by (metis Un_iff append_take_drop_id set_append)
  then obtain j where j: "len \<le> j" "j < length ks" "ks ! j = n + word_of_nat len"
    by (auto simp: in_set_conv_nth) (metis add.commute le_add1 less_diff_conv)
  have lt: "len < length ks" using j by simp
  have "ks ! len \<noteq> n + word_of_nat len"
    using nonceRun_gap [of n ks] lt by (simp add: len_def run_def)
  moreover have "ks ! len \<le> n + word_of_nat len"
    using sorted_nth_mono [OF sorted(1) j(1,2)] j(3) by simp
  ultimately have up: "ks ! len < n + word_of_nat len" by simp
  have "ks ! m = n + word_of_nat m"
    using nth_nonceRun [of m n ks] pre len by (metis len_def lessI nth_take run_def)
  moreover have "ks ! m < ks ! len"
    using strict_sorted_iff [of ks] sorted lt len sorted_wrt_nth_less [of "(<)" ks m len] by simp
  ultimately have "n + word_of_nat m < ks ! len" by simp
  then have "n + word_of_nat m + 1 \<le> ks ! len" by (rule inc_le)
  with up show False by (simp add: len algebra_simps)
qed

lemma sm_Ready_loop_correct:
  "sm_core m \<Longrightarrow> \<exists>m'. sm_Ready_loop n m acc =
      Some (m', acc @ map (\<lambda>k. the (sm_items m k)) (nonceRun n (sorted_list_of_set (dom (sm_items m)))))
    \<and> sm_items m' = sm_items m |` (- set (nonceRun n (sorted_list_of_set (dom (sm_items m)))))
    \<and> sm_core m'"
proof (induction n m acc rule: sm_Ready_loop.induct)
  case (1 n m acc)
  note c = sm_coreD [OF 1(2)]
  let ?ks = "sorted_list_of_set (dom (sm_items m))"
  show ?case
  proof (cases "sm_index m \<noteq> [] \<and> sm_index m ! 0 = n")
    case True
    obtain k index where pop: "heap_Pop nonceLess (sm_index m) = (k, index)" by fastforce
    note p = sm_pop [OF 1(2) _ pop] and top = sm_top [OF 1(2)]
    have k: "k = n" using p(1) True by auto
    obtain tx where tx: "sm_items m n = Some tx" using top(3) True by auto
    let ?m = "m\<lparr>sm_items := (sm_items m)(n := None), sm_index := snd (heap_Pop nonceLess (sm_index m))\<rparr>"
    have meq: "?m = m\<lparr>sm_index := index, sm_items := (sm_items m)(k := None)\<rparr>"
      using pop k by simp
    have core: "sm_core ?m" unfolding meq using p(2) True by blast
    have ks: "?ks = n # sorted_list_of_set (dom (sm_items ?m))"
      using p(3) True k by simp
    define ks' where "ks' = sorted_list_of_set (dom (sm_items ?m))"
    have sub: "set (nonceRun (n + 1) ks') \<subseteq> dom (sm_items m) - {n}"
      using set_nonceRun [of "n + 1" ks'] c(5) by (auto simp: ks'_def)
    obtain m' where m': "sm_Ready_loop (n + 1) ?m (acc @ [tx]) =
        Some (m', (acc @ [tx]) @ map (\<lambda>k. the (sm_items ?m k)) (nonceRun (n + 1) ks'))"
      "sm_items m' = sm_items ?m |` (- set (nonceRun (n + 1) ks'))" "sm_core m'"
      using 1(1) [OF True tx core] unfolding ks'_def by blast
    have "sm_Ready_loop n m acc = sm_Ready_loop (n + 1) ?m (acc @ [tx])"
      using True tx by (subst sm_Ready_loop.simps) simp
    moreover have "map (\<lambda>k. the (sm_items ?m k)) (nonceRun (n + 1) ks')
        = map (\<lambda>k. the (sm_items m k)) (nonceRun (n + 1) ks')"
      using sub by (intro map_cong) auto
    moreover have "sm_items m |` (- set (nonceRun n ?ks)) = sm_items ?m |` (- set (nonceRun (n + 1) ks'))"
      unfolding ks ks'_def [symmetric] by (auto simp: restrict_map_def fun_eq_iff)
    moreover have "map (\<lambda>k. the (sm_items m k)) (nonceRun n ?ks)
        = tx # map (\<lambda>k. the (sm_items m k)) (nonceRun (n + 1) ks')"
      unfolding ks ks'_def [symmetric] by (simp add: tx)
    ultimately show ?thesis using m' by (intro exI [of _ m']) simp
  next
    case False
    have "nonceRun n ?ks = []"
    proof (cases ?ks)
      case (Cons k ks)
      then have "sm_index m \<noteq> []" using c(3,5) by (metis empty_set list.distinct(1) sorted_list_of_set.fold_insort_key.empty)
      moreover from this have "sm_index m ! 0 = k"
        using sm_pop(1,3) [OF 1(2)] Cons by (metis list.inject surj_pair)
      ultimately show ?thesis using False Cons by simp
    qed simp
    moreover have "sm_items m |` UNIV = sm_items m" by (simp add: restrict_all)
    ultimately show ?thesis
      using 1(2) by (subst sm_Ready_loop.simps) (simp only: False if_False append_Nil2 list.map list.set Compl_empty_eq, blast)
  qed
qed

definition readyNonces :: "(u64 \<rightharpoonup> transaction) \<Rightarrow> u64 \<Rightarrow> u64 list" where
  "readyNonces items start =
     (let ks = sorted_list_of_set (dom items) in
      if ks = [] \<or> hd ks > start then [] else nonceRun (hd ks) ks)"

lemma sm_Ready_correct:
  assumes "sm_inv m"
  shows "\<exists>m'. sm_Ready m start =
      Some (m', map (\<lambda>k. the (sm_items m k)) (readyNonces (sm_items m) start))
    \<and> sm_items m' = sm_items m |` (- set (readyNonces (sm_items m) start)) \<and> sm_inv m'"
proof -
  have core: "sm_core m" using assms by (simp add: sm_inv_def)
  note c = sm_coreD [OF core]
  let ?ks = "sorted_list_of_set (dom (sm_items m))"
  have nil: "sm_index m = [] \<longleftrightarrow> ?ks = []"
    using c(3,5) by (metis empty_set set_empty set_sorted_list_of_set)
  have hd: "sm_index m ! 0 = hd ?ks" if "sm_index m \<noteq> []"
    using sm_pop(1,3) [OF core that] by (metis list.sel(1) surj_pair)
  show ?thesis
  proof (cases "sm_index m = [] \<or> sm_index m ! 0 > start")
    case True
    then have "readyNonces (sm_items m) start = []" using nil hd by (auto simp: readyNonces_def Let_def)
    with True assms show ?thesis by (simp add: sm_Ready_def restrict_all)
  next
    case False
    then have run: "readyNonces (sm_items m) start = nonceRun (sm_index m ! 0) ?ks"
      using nil hd by (simp add: readyNonces_def Let_def)
    show ?thesis
      using sm_Ready_loop_correct [OF core, of "sm_index m ! 0" "[]"] False
      by (auto simp: sm_Ready_def run sm_inv_def sm_core_frame)
  qed
qed

section \<open>The invariant of an account's list\<close>

text \<open>
  The caps bound every transaction of the list, so that \<open>Filter\<close> may return early.
\<close>

definition tl_inv :: "tx_list \<Rightarrow> bool" where
  "tl_inv l \<longleftrightarrow> sm_inv (tl_txs l) \<and>
     (\<forall>k tx. sm_items (tl_txs l) k = Some tx \<longrightarrow> tx_Cost tx \<le> tl_costcap l \<and> tx_Gas tx \<le> tl_gascap l)"

abbreviation tl_items :: "tx_list \<Rightarrow> u64 \<rightharpoonup> transaction" where
  "tl_items l \<equiv> sm_items (tl_txs l)"

lemma tl_invD:
  assumes "tl_inv l"
  shows "sm_inv (tl_txs l)" "sm_core (tl_txs l)" "sm_keyed (tl_items l)"
    "tl_items l k = Some tx \<Longrightarrow> tx_Cost tx \<le> tl_costcap l"
    "tl_items l k = Some tx \<Longrightarrow> tx_Gas tx \<le> tl_gascap l"
    "tl_items l k = Some tx \<Longrightarrow> tx_Nonce tx = k"
  using assms by (auto simp: tl_inv_def sm_inv_def sm_core_def sm_keyed_def)

lemma tl_inv_new: "tl_inv (newTxList strict)"
  by (simp add: tl_inv_def newTxList_def newTxSortedMap_def sm_inv_def sm_core_def sm_keyed_def
      nonce.pq.queue_Nil)

text \<open>Every operation that only drops entries keeps the invariant.\<close>

lemma tl_inv_sub:
  assumes "tl_inv l" "sm_inv m" "sm_items m = tl_items l |` A"
  shows "tl_inv (l\<lparr>tl_txs := m\<rparr>)"
  using assms by (auto simp: tl_inv_def restrict_map_def split: if_splits)

lemma tl_Add_correct:
  assumes "tl_inv l" "tl_Add l tx priceBump = (l', added, old)"
  shows "added \<longleftrightarrow> (\<forall>o'. tl_items l (tx_Nonce tx) = Some o' \<longrightarrow> tx_GasPrice o' < tx_GasPrice tx
      \<and> bumpThreshold (tx_GasPrice o') priceBump \<le> tx_GasPrice tx)"
    "added \<Longrightarrow> tl_items l' = (tl_items l)(tx_Nonce tx \<mapsto> tx) \<and> old = tl_items l (tx_Nonce tx)"
    "\<not> added \<Longrightarrow> l' = l \<and> old = None" "tl_inv l'"
proof -
  let ?old = "tl_items l (tx_Nonce tx)"
  let ?refused = "case ?old of None \<Rightarrow> False | Some o' \<Rightarrow> tx_GasPrice o' \<ge> tx_GasPrice tx
      \<or> bumpThreshold (tx_GasPrice o') priceBump > tx_GasPrice tx"
  note put = sm_Put_correct [OF tl_invD(2) [OF assms(1)], of tx]
  have acc: "?refused \<longleftrightarrow> \<not> (\<forall>o'. ?old = Some o' \<longrightarrow> tx_GasPrice o' < tx_GasPrice tx
      \<and> bumpThreshold (tx_GasPrice o') priceBump \<le> tx_GasPrice tx)"
    by (auto split: option.splits)
  have res: "if ?refused then (l', added, old) = (l, False, None)
    else added \<and> old = ?old \<and> tl_txs l' = sm_Put (tl_txs l) tx
      \<and> tl_costcap l' = max (tl_costcap l) (tx_Cost tx) \<and> tl_gascap l' = max (tl_gascap l) (tx_Gas tx)"
    using assms(2) unfolding tl_Add_def sm_Get_def Let_def by (auto split: if_splits)
  show "added \<longleftrightarrow> (\<forall>o'. ?old = Some o' \<longrightarrow> tx_GasPrice o' < tx_GasPrice tx
      \<and> bumpThreshold (tx_GasPrice o') priceBump \<le> tx_GasPrice tx)"
    using res unfolding acc by (simp split: if_splits)
  show "added \<Longrightarrow> tl_items l' = (tl_items l)(tx_Nonce tx \<mapsto> tx) \<and> old = ?old"
    "\<not> added \<Longrightarrow> l' = l \<and> old = None"
    using res put by (simp_all split: if_splits)
  show "tl_inv l'"
  proof (cases ?refused)
    case True
    with res assms(1) show ?thesis by simp
  next
    case False
    with res have l': "tl_txs l' = sm_Put (tl_txs l) tx" "tl_costcap l' = max (tl_costcap l) (tx_Cost tx)"
      "tl_gascap l' = max (tl_gascap l) (tx_Gas tx)" by simp_all
    have "tx_Cost t \<le> tl_costcap l' \<and> tx_Gas t \<le> tl_gascap l'"
      if "sm_items (sm_Put (tl_txs l) tx) k = Some t" for k t
      using that put tl_invD(4,5) [OF assms(1), of k t] unfolding l' by (auto split: if_splits simp: max.coboundedI1)
    then show ?thesis using put by (simp add: tl_inv_def l')
  qed
qed

lemma lowestNonce_least:
  assumes "removed \<noteq> []"
  shows "lowestNonce removed = Min (tx_Nonce ` set removed)"
proof -
  have gen: "foldl (\<lambda>lowest tx. if lowest > tx_Nonce tx then tx_Nonce tx else lowest) a xs
      = Min (insert a (tx_Nonce ` set xs))" for a xs
  proof -
    have "foldl (\<lambda>lowest tx. if lowest > tx_Nonce tx then tx_Nonce tx else lowest) a xs
        = fold min (map tx_Nonce xs) a"
      by (induction xs arbitrary: a) (auto simp: min_def)
    also have "\<dots> = Min (set (a # map tx_Nonce xs))" by (rule Min.set_eq_fold [symmetric])
    finally show ?thesis by simp
  qed
  have "Min (insert (- 1) (tx_Nonce ` set removed)) = Min (tx_Nonce ` set removed)"
    using assms by (simp add: min_def word_order.extremum_unique)
  then show ?thesis by (simp add: lowestNonce_def gen)
qed

lemma set_flat:
  assumes keyed: "sm_keyed items"
  shows "tx \<in> set (sm_flat items) \<longleftrightarrow> items (tx_Nonce tx) = Some tx"
proof
  have fin: "finite (dom items)" using keyed by (simp add: sm_keyed_def)
  show "tx \<in> set (sm_flat items) \<Longrightarrow> items (tx_Nonce tx) = Some tx"
    using keyed fin by (auto simp: sm_flat_def sm_keyed_def)
  assume "items (tx_Nonce tx) = Some tx"
  then show "tx \<in> set (sm_flat items)"
    using fin unfolding sm_flat_def by (force simp: dom_def)
qed

lemma sm_flat_pred:
  assumes "sm_keyed items"
  shows "sm_flat (items |` {k. \<exists>tx. items k = Some tx \<and> q tx}) = filter q (sm_flat items)"
proof -
  have "filter q (sm_flat items)
      = filter (\<lambda>tx. \<exists>t. items (tx_Nonce tx) = Some t \<and> q t) (sm_flat items)"
    using set_flat [OF assms] by (intro filter_cong) auto
  then show ?thesis
    using sm_flat_filter [OF assms, of "\<lambda>k. \<exists>t. items k = Some t \<and> q t"] by simp
qed

lemma mset_filter_split: "mset (filter q xs) + mset (filter (\<lambda>x. \<not> q x) xs) = mset xs"
  by (simp add: multiset_partition [symmetric])

lemma sm_Filter_split:
  assumes "map_order rng" "sm_inv m" "sm_Filter rng m p = (m', removed)"
  shows "sm_flat (sm_items m') = filter (\<lambda>tx. \<not> p tx) (sm_flat (sm_items m))"
    "mset removed + mset (sm_flat (sm_items m')) = mset (sm_flat (sm_items m))"
proof -
  note f = sm_Filter_correct [OF assms]
  have keyed: "sm_keyed (sm_items m)" using assms(2) by (simp add: sm_inv_def sm_core_def)
  show flat: "sm_flat (sm_items m') = filter (\<lambda>tx. \<not> p tx) (sm_flat (sm_items m))"
    unfolding f(1) by (rule sm_flat_pred [OF keyed])
  show "mset removed + mset (sm_flat (sm_items m')) = mset (sm_flat (sm_items m))"
    unfolding flat f(2) by (rule mset_filter_split)
qed

lemma tl_Filter_correct:
  assumes "map_order rng" "tl_inv l" "tl_Filter rng l costLimit gasLimit = (l', removed, invalids)"
  defines "bad \<equiv> \<lambda>tx. tx_Cost tx > costLimit \<or> tx_Gas tx > gasLimit"
  defines "kept \<equiv> \<lambda>tx. \<not> bad tx \<and> (tl_strict l \<longrightarrow> (\<forall>t \<in> set removed. tx_Nonce tx \<le> tx_Nonce t))"
  shows "mset removed = mset (filter bad (sm_flat (tl_items l)))"
    "tl_items l' = tl_items l |` {k. \<exists>tx. tl_items l k = Some tx \<and> kept tx}"
    "mset removed + mset invalids + mset (sm_flat (tl_items l')) = mset (sm_flat (tl_items l))"
    "tl_inv l'"
proof -
  note inv = tl_invD [OF assms(2)]
  have fin: "finite (dom (tl_items l))" using inv(3) by (simp add: sm_keyed_def)
  have mem: "set (sm_flat (tl_items l)) = ran (tl_items l)"
    using fin by (force simp: sm_flat_def ran_def)
  have "mset removed = mset (filter bad (sm_flat (tl_items l)))
    \<and> tl_items l' = tl_items l |` {k. \<exists>tx. tl_items l k = Some tx \<and> kept tx}
    \<and> mset removed + mset invalids + mset (sm_flat (tl_items l')) = mset (sm_flat (tl_items l))
    \<and> tl_inv l'"
  proof (cases "tl_costcap l \<le> costLimit \<and> tl_gascap l \<le> gasLimit")
    case True
    have good: "\<not> bad tx" if "tl_items l k = Some tx" for k tx
      using inv(4,5) [OF that] True by (auto simp: bad_def)
    then have "filter bad (sm_flat (tl_items l)) = []"
      by (auto simp: filter_empty_conv mem ran_def)
    moreover have "l' = l" "removed = []" "invalids = []"
      using assms(3) True by (simp_all add: tl_Filter_def)
    moreover have "tl_items l |` {k. \<exists>tx. tl_items l k = Some tx \<and> kept tx} = tl_items l"
      using good \<open>removed = []\<close> by (intro restrict_all) (auto simp: kept_def)
    ultimately show ?thesis using assms(2) by simp
  next
    case False
    obtain m1 m2 where f1: "sm_Filter rng (tl_txs l) bad = (m1, removed)"
      and f2: "(if tl_strict l \<and> 0 < length removed
           then sm_Filter rng m1 (\<lambda>tx. tx_Nonce tx > lowestNonce removed) else (m1, [])) = (m2, invalids)"
      and l': "l' = l\<lparr>tl_costcap := costLimit, tl_gascap := gasLimit, tl_txs := m2\<rparr>"
      using assms(3) False unfolding tl_Filter_def bad_def Let_def
      by (auto split: prod.splits)
    note g1 = sm_Filter_correct [OF assms(1) inv(1) f1] and h1 = sm_Filter_split [OF assms(1) inv(1) f1]
    have bads: "set removed = {tx. tl_items l (tx_Nonce tx) = Some tx \<and> bad tx}"
      using mset_eq_setD [OF g1(2)] set_flat [OF inv(3)] by auto
    define q where "q = (\<lambda>tx :: transaction. tl_strict l \<longrightarrow> (\<forall>t \<in> set removed. tx_Nonce tx \<le> tx_Nonce t))"
    have low: "tx_Nonce tx > lowestNonce removed \<longleftrightarrow> (\<exists>t \<in> set removed. tx_Nonce tx > tx_Nonce t)"
      if "removed \<noteq> []" for tx :: transaction
      using that by (simp add: lowestNonce_least Min_less_iff)
    have second: "sm_items m2 = sm_items m1 |` {k. \<exists>tx. sm_items m1 k = Some tx \<and> q tx}
      \<and> mset invalids + mset (sm_flat (sm_items m2)) = mset (sm_flat (sm_items m1)) \<and> sm_inv m2"
    proof (cases "tl_strict l \<and> removed \<noteq> []")
      case True
      then have f: "sm_Filter rng m1 (\<lambda>tx. tx_Nonce tx > lowestNonce removed) = (m2, invalids)"
        using f2 by simp
      have "(\<lambda>tx. \<not> tx_Nonce tx > lowestNonce removed) = q"
        using True by (auto simp: q_def low fun_eq_iff not_less)
      then show ?thesis
        using sm_Filter_correct [OF assms(1) g1(3) f] sm_Filter_split [OF assms(1) g1(3) f]
        by (simp only: simp_thms) (metis (no_types, lifting))
    next
      case False
      then have "m2 = m1" "invalids = []" using f2 by (auto split: if_splits)
      moreover have "sm_items m1 |` {k. \<exists>tx. sm_items m1 k = Some tx \<and> q tx} = sm_items m1"
        using False by (intro restrict_all) (auto simp: q_def)
      ultimately show ?thesis using g1(3) by simp
    qed
    have items: "sm_items m2 = tl_items l |` {k. \<exists>tx. tl_items l k = Some tx \<and> kept tx}"
      unfolding conjunct1 [OF second] unfolding g1(1) kept_def q_def
      by (auto simp: restrict_map_def fun_eq_iff)
    have "sm_items m2 k = Some tx \<Longrightarrow> \<not> bad tx" for k tx
      unfolding items kept_def by (auto simp: restrict_map_def split: if_splits)
    then have "tl_inv l'"
      using conjunct2 [OF conjunct2 [OF second]] unfolding l' tl_inv_def
      by (simp add: bad_def not_less)
    moreover have "mset removed + mset invalids + mset (sm_flat (sm_items m2)) = mset (sm_flat (tl_items l))"
      using h1(2) conjunct1 [OF conjunct2 [OF second]] by (metis add.assoc)
    moreover have "tl_items l' = sm_items m2" by (simp add: l')
    ultimately show ?thesis using g1(2) items by metis
  qed
  then show "mset removed = mset (filter bad (sm_flat (tl_items l)))"
    "tl_items l' = tl_items l |` {k. \<exists>tx. tl_items l k = Some tx \<and> kept tx}"
    "mset removed + mset invalids + mset (sm_flat (tl_items l')) = mset (sm_flat (tl_items l))"
    "tl_inv l'" by blast+
qed

lemma tl_Remove_correct:
  assumes "map_order rng" "tl_inv l" "tl_Remove rng l tx = (l', ok, invalids)"
  shows "ok \<longleftrightarrow> tx_Nonce tx \<in> dom (tl_items l)"
    "tl_items l' = tl_items l |` {k. k \<noteq> tx_Nonce tx \<and> (ok \<and> tl_strict l \<longrightarrow> k < tx_Nonce tx)}"
    "mset invalids = (if ok \<and> tl_strict l
       then mset (filter (\<lambda>t. tx_Nonce t > tx_Nonce tx) (sm_flat (tl_items l))) else {#})"
    "tl_inv l'"
proof -
  let ?n = "tx_Nonce tx"
  note inv = tl_invD [OF assms(2)]
  obtain m1 where r: "sm_Remove (tl_txs l) ?n = (m1, ok)"
    using assms(3) by (auto simp: tl_Remove_def Let_def split: prod.splits if_splits)
  note s = sm_Remove_correct [OF inv(1) r]
  show ok: "ok \<longleftrightarrow> ?n \<in> dom (tl_items l)" by (rule s(1))
  have core1: "sm_keyed (sm_items m1)" using s(3) by (simp add: sm_inv_def sm_core_def)
  have del: "tl_items l |` {k. k \<noteq> ?n} = sm_items m1" unfolding s(2) by (auto simp: restrict_map_def fun_eq_iff)
  have "tl_items l' = tl_items l |` {k. k \<noteq> ?n \<and> (ok \<and> tl_strict l \<longrightarrow> k < ?n)}
    \<and> mset invalids = (if ok \<and> tl_strict l
       then mset (filter (\<lambda>t. tx_Nonce t > ?n) (sm_flat (tl_items l))) else {#})
    \<and> tl_inv l'"
  proof (cases "ok \<and> tl_strict l")
    case True
    obtain m2 where f: "sm_Filter rng m1 (\<lambda>t. tx_Nonce t > ?n) = (m2, invalids)"
      and l': "l' = l\<lparr>tl_txs := m2\<rparr>"
      using assms(3) True r by (auto simp: tl_Remove_def split: prod.splits)
    note g = sm_Filter_correct [OF assms(1) s(3) f]
    have items: "sm_items m2 = tl_items l |` {k. k \<noteq> ?n \<and> k < ?n}"
    proof (rule ext)
      fix k
      have "sm_items m1 k = (if k = ?n then None else tl_items l k)" by (simp add: s(2))
      then show "sm_items m2 k = (tl_items l |` {k. k \<noteq> ?n \<and> k < ?n}) k"
        unfolding g(1) using inv(6) [of k]
        by (cases "tl_items l k") (auto simp: restrict_map_def)
    qed
    have "filter (\<lambda>t. tx_Nonce t > ?n) (sm_flat (sm_items m1))
        = sm_flat (sm_items m1 |` {k. k > ?n})"
      by (rule sm_flat_filter [OF core1])
    also have "sm_items m1 |` {k. k > ?n} = tl_items l |` {k. k > ?n}"
      unfolding s(2) by (auto simp: restrict_map_def fun_eq_iff)
    also have "sm_flat \<dots> = filter (\<lambda>t. tx_Nonce t > ?n) (sm_flat (tl_items l))"
      by (rule sm_flat_filter [OF inv(3), symmetric])
    finally have "mset invalids = mset (filter (\<lambda>t. tx_Nonce t > ?n) (sm_flat (tl_items l)))"
      using g(2) by simp
    then show ?thesis
      using True items tl_inv_sub [OF assms(2) g(3) items] by (simp add: l')
  next
    case False
    then have l': "tl_txs l' = m1 \<and> invalids = [] \<and> tl_inv l' \<or> \<not> ok \<and> l' = l \<and> invalids = []"
      using assms(3) r tl_inv_sub [OF assms(2) s(3) del [symmetric]]
      by (auto simp: tl_Remove_def split: if_splits)
    have "sm_items m1 = tl_items l" if "\<not> ok"
      using that s(1) by (simp add: s(2) fun_upd_idem domIff)
    with l' False del assms(2) show ?thesis by auto
  qed
  then show "tl_items l' = tl_items l |` {k. k \<noteq> ?n \<and> (ok \<and> tl_strict l \<longrightarrow> k < ?n)}"
    "mset invalids = (if ok \<and> tl_strict l
       then mset (filter (\<lambda>t. tx_Nonce t > ?n) (sm_flat (tl_items l))) else {#})"
    "tl_inv l'" by blast+
qed

section \<open>Properties\<close>

text \<open>
  C8: adding a transaction to an account's list. It is taken exactly when its nonce is free or it
  outbids the transaction there, by strictly more and by at least the price bump; then it is the
  entry of its nonce and the one it replaced is returned. Otherwise the list is unchanged. The
  heap of nonces, the cache and the caps stay consistent with the entries.
\<close>

theorem list_add_replaces:
  assumes "tl_inv l" "tl_Add l tx priceBump = (l', added, old)"
  shows "(added \<longleftrightarrow> (\<forall>o'. tl_items l (tx_Nonce tx) = Some o' \<longrightarrow> tx_GasPrice o' < tx_GasPrice tx
        \<and> tx_GasPrice o' * sint (100 + priceBump) div 100 \<le> tx_GasPrice tx))
    \<and> (added \<longrightarrow> tl_items l' = (tl_items l)(tx_Nonce tx \<mapsto> tx) \<and> old = tl_items l (tx_Nonce tx))
    \<and> (\<not> added \<longrightarrow> l' = l \<and> old = None) \<and> tl_inv l'"
  using tl_Add_correct [OF assms] unfolding bumpThreshold_def by blast

definition demo_tx :: "u64 \<Rightarrow> int \<Rightarrow> transaction" where
  "demo_tx n price = \<lparr>tx_Nonce = n, tx_GasPrice = price, tx_Gas = 21000, tx_Cost = 21000 * price,
     tx_Hash = word_of_int (uint n), tx_Size = 110\<rparr>"

definition demo_list :: tx_list where
  "demo_list = fst (tl_Add (newTxList True) (demo_tx 3 100) 10)"

lemma demo_list_inv: "tl_inv demo_list"
proof -
  obtain a o' where "tl_Add (newTxList True) (demo_tx 3 100) 10 = (demo_list, a, o')"
    unfolding demo_list_def by (metis prod.collapse)
  from tl_Add_correct(4) [OF tl_inv_new this] show ?thesis .
qed

lemma demo_list_items: "tl_items demo_list = [3 \<mapsto> demo_tx 3 100]"
  by (simp add: demo_list_def tl_Add_def newTxList_def newTxSortedMap_def sm_Get_def sm_Put_def
      demo_tx_def Let_def)

theorem list_add_replaces_witness:
  "fst (snd (tl_Add demo_list (demo_tx 3 110) 10)) \<and> \<not> fst (snd (tl_Add demo_list (demo_tx 3 109) 10))"
proof -
  obtain l1 a1 o1 where e1: "tl_Add demo_list (demo_tx 3 110) 10 = (l1, a1, o1)"
    by (metis prod_cases3)
  obtain l2 a2 o2 where e2: "tl_Add demo_list (demo_tx 3 109) 10 = (l2, a2, o2)"
    by (metis prod_cases3)
  show ?thesis
    using list_add_replaces [OF demo_list_inv e1] list_add_replaces [OF demo_list_inv e2]
    by (simp add: e1 e2 demo_list_items) (simp add: demo_tx_def)
qed

text \<open>
  The affordability filter. \<open>removed\<close> are exactly the transactions above the cost or the gas
  limit; in a strict list every later nonce goes as well, into \<open>invalids\<close>; whatever stays is
  affordable, nothing is lost, and the early return on the caps never misses one.
\<close>

theorem list_filter_exact:
  assumes "map_order rng" "tl_inv l" "tl_Filter rng l costLimit gasLimit = (l', removed, invalids)"
  shows "mset removed = mset (filter (\<lambda>tx. tx_Cost tx > costLimit \<or> tx_Gas tx > gasLimit) (sm_flat (tl_items l)))
    \<and> tl_items l' = tl_items l |` {k. \<exists>tx. tl_items l k = Some tx
        \<and> tx_Cost tx \<le> costLimit \<and> tx_Gas tx \<le> gasLimit
        \<and> (tl_strict l \<longrightarrow> (\<forall>t \<in> set removed. k \<le> tx_Nonce t))}
    \<and> mset removed + mset invalids + mset (sm_flat (tl_items l')) = mset (sm_flat (tl_items l))
    \<and> tl_inv l'"
proof -
  note f = tl_Filter_correct [OF assms]
  have "{k. \<exists>tx. tl_items l k = Some tx \<and> \<not> (tx_Cost tx > costLimit \<or> tx_Gas tx > gasLimit)
          \<and> (tl_strict l \<longrightarrow> (\<forall>t \<in> set removed. tx_Nonce tx \<le> tx_Nonce t))}
      = {k. \<exists>tx. tl_items l k = Some tx \<and> tx_Cost tx \<le> costLimit \<and> tx_Gas tx \<le> gasLimit
          \<and> (tl_strict l \<longrightarrow> (\<forall>t \<in> set removed. k \<le> tx_Nonce t))}"
    using tl_invD(6) [OF assms(2)] by (auto simp: not_less)
  with f show ?thesis by simp
qed

theorem list_filter_exact_witness:
  "fst (snd (tl_Filter (\<lambda>m. sorted_list_of_set (dom m)) demo_list 1000 30000)) = [demo_tx 3 100]"
proof -
  obtain l' r i where e: "tl_Filter (\<lambda>m. sorted_list_of_set (dom m)) demo_list 1000 30000 = (l', r, i)"
    by (metis prod_cases3)
  have "sm_flat (tl_items demo_list) = [demo_tx 3 100]"
    by (simp add: demo_list_items sm_flat_def)
  with list_filter_exact [OF map_order_sorted demo_list_inv e] show ?thesis
    by (simp add: e demo_tx_def)
qed

text \<open>
  \<open>Ready\<close> returns, in order, the longest run of consecutive nonces from the lowest one, when
  that is not above \<open>start\<close>, and removes exactly those; it never meets a nil transaction.
\<close>

theorem list_ready_run:
  assumes "tl_inv l" "tl_items l \<noteq> Map.empty" "Min (dom (tl_items l)) \<le> start"
  shows "\<exists>l' ready. tl_Ready l start = Some (l', ready) \<and> ready \<noteq> []
    \<and> (\<forall>i < length ready. tx_Nonce (ready ! i) = Min (dom (tl_items l)) + word_of_nat i
         \<and> tl_items l (tx_Nonce (ready ! i)) = Some (ready ! i))
    \<and> tl_items l' = tl_items l |` (- tx_Nonce ` set ready)
    \<and> tl_items l' (Min (dom (tl_items l)) + word_of_nat (length ready)) = None \<and> tl_inv l'"
proof -
  note inv = tl_invD [OF assms(1)]
  let ?it = "tl_items l" and ?ks = "sorted_list_of_set (dom (tl_items l))"
  let ?n = "Min (dom ?it)"
  have fin: "finite (dom ?it)" using inv(3) by (simp add: sm_keyed_def)
  have ks: "?ks = ?n # sorted_list_of_set (dom ?it - {?n})"
    using fin assms(2) by (intro sorted_list_of_set_nonempty) auto
  define run where "run = nonceRun ?n ?ks"
  have hd: "?ks \<noteq> []" "hd ?ks = ?n" by (subst ks, simp)+
  have rn: "readyNonces ?it start = run"
    using assms(3) hd(1) unfolding readyNonces_def Let_def hd(2) run_def by (simp del: sorted_list_of_set_eq_Nil_iff Min_le_iff)
  obtain m' where m': "sm_Ready (tl_txs l) start = Some (m', map (\<lambda>k. the (?it k)) run)"
    "sm_items m' = ?it |` (- set run)" "sm_inv m'"
    using sm_Ready_correct [OF inv(1), of start] unfolding rn by blast
  have dom: "set run \<subseteq> dom ?it" using set_nonceRun [of ?n ?ks] fin by (simp add: run_def)
  have nonce: "tx_Nonce (the (?it k)) = k \<and> ?it k = Some (the (?it k))" if "k \<in> set run" for k
    using dom that inv(6) by force
  have gap: "(?it |` (- set run)) (?n + word_of_nat (length run)) = None"
    unfolding run_def by (rule run_gap [OF fin hd])
  have ne: "run \<noteq> []" unfolding run_def using hd by (cases ?ks) simp_all
  define ready where "ready = map (\<lambda>k. the (?it k)) run"
  have img: "tx_Nonce ` set ready = set run" using nonce by (force simp: ready_def)
  have len: "length ready = length run" by (simp add: ready_def)
  have nth: "tx_Nonce (ready ! i) = ?n + word_of_nat i \<and> ?it (tx_Nonce (ready ! i)) = Some (ready ! i)"
    if "i < length ready" for i
  proof -
    have i: "i < length run" using that by (simp add: ready_def)
    then have "run ! i \<in> set run" by (rule nth_mem)
    moreover have "run ! i = ?n + word_of_nat i"
      using i nth_nonceRun [of i ?n ?ks] by (simp add: run_def)
    moreover have "ready ! i = the (?it (run ! i))" using i by (simp add: ready_def)
    ultimately show ?thesis using nonce by metis
  qed
  have "tl_Ready l start = Some (l\<lparr>tl_txs := m'\<rparr>, ready)"
    using m'(1) by (simp add: tl_Ready_def ready_def)
  moreover have "tl_inv (l\<lparr>tl_txs := m'\<rparr>)" by (rule tl_inv_sub [OF assms(1) m'(3,2)])
  moreover have "ready \<noteq> []" using ne by (simp add: ready_def)
  moreover have "tl_items (l\<lparr>tl_txs := m'\<rparr>) = ?it |` (- tx_Nonce ` set ready)"
    by (simp add: m'(2) img)
  moreover have "tl_items (l\<lparr>tl_txs := m'\<rparr>) (?n + word_of_nat (length ready)) = None"
    using gap by (simp add: m'(2) len)
  ultimately show ?thesis using nth by blast
qed

theorem list_ready_run_witness:
  "\<exists>l' ready. tl_Ready demo_list 5 = Some (l', ready) \<and> ready \<noteq> [] \<and> tx_Nonce (ready ! 0) = 3"
proof -
  have ne: "tl_items demo_list \<noteq> Map.empty" "Min (dom (tl_items demo_list)) = 3"
    by (simp_all add: demo_list_items)
  from list_ready_run [OF demo_list_inv ne(1), of 5] ne(2) show ?thesis by fastforce
qed

text \<open>
  \<open>Forward\<close> and \<open>Cap\<close>. Forward returns the transactions below the threshold in nonce order
  and keeps the others; Cap keeps the given number of lowest nonces and returns the others from
  the highest down. Neither meets a nil transaction or a slice bound out of range.
\<close>

theorem list_forward_cap:
  assumes "tl_inv l" "0 \<le> limit"
  shows "(\<exists>l'. tl_Forward l t = Some (l', filter (\<lambda>tx. tx_Nonce tx < t) (sm_flat (tl_items l)))
      \<and> sm_flat (tl_items l') = filter (\<lambda>tx. t \<le> tx_Nonce tx) (sm_flat (tl_items l)) \<and> tl_inv l')
    \<and> (\<exists>l'. tl_Cap l limit = Some (l', rev (drop (nat limit) (sm_flat (tl_items l))))
      \<and> sm_flat (tl_items l') = take (nat limit) (sm_flat (tl_items l)) \<and> tl_inv l')"
proof -
  note inv = tl_invD [OF assms(1)]
  obtain m1 where m1: "sm_Forward (tl_txs l) t = Some (m1, filter (\<lambda>tx. tx_Nonce tx < t) (sm_flat (tl_items l)))"
    "sm_items m1 = tl_items l |` {k. t \<le> k}" "sm_inv m1"
    using sm_Forward_correct [OF inv(1), of t] by blast
  obtain m2 where m2: "sm_Cap (tl_txs l) limit = Some (m2, rev (drop (nat limit) (sm_flat (tl_items l))))"
    "sm_flat (sm_items m2) = take (nat limit) (sm_flat (tl_items l))"
    "sm_items m2 = tl_items l |` set (take (nat limit) (sorted_list_of_set (dom (tl_items l))))" "sm_inv m2"
    using sm_Cap_correct [OF inv(1) assms(2)] by blast
  show ?thesis
    using m1 m2 tl_inv_sub [OF assms(1) m1(3,2)] tl_inv_sub [OF assms(1) m2(4,3)]
      sm_flat_filter [OF inv(3), of "\<lambda>k. t \<le> k"]
    by (auto simp: tl_Forward_def tl_Cap_def)
qed

theorem list_forward_cap_witness:
  "\<exists>l'. tl_Cap demo_list 0 = Some (l', [demo_tx 3 100]) \<and> tl_inv l'"
proof -
  have "sm_flat (tl_items demo_list) = [demo_tx 3 100]"
    by (simp add: demo_list_items sm_flat_def)
  with list_forward_cap [OF demo_list_inv, of 0] show ?thesis by fastforce
qed

end
