(* ===== verification/Tx_Priced.thy ===== *)
theory Tx_Priced
  imports Tx_List
begin

text \<open>
  The pool's view by price: the lookup table of all transactions and the set of local accounts
  (\<^verbatim>\<open>txLookup\<close> and \<^verbatim>\<open>accountSet\<close> of \<^verbatim>\<open>tx_pool.go\<close>), the price-sorted list with its lazily
  removed entries (\<^verbatim>\<open>txPricedList\<close> of \<^verbatim>\<open>tx_list.go\<close>) and the virtual nonces (\<^verbatim>\<open>tx_noncer.go\<close>).
  The list shares the lookup table of the pool, so its operations take the table as an argument;
  recovering a transaction's sender belongs to package types and is the argument \<open>Sender\<close>.
\<close>

section \<open>Lookup table and account set\<close>

record tx_lookup =
  lk_all :: "hash \<rightharpoonup> transaction"
  lk_slots :: int

definition newTxLookup :: tx_lookup where
  "newTxLookup = \<lparr>lk_all = Map.empty, lk_slots = 0\<rparr>"

definition txSlotSize :: nat where
  "txSlotSize = 32 * 1024"

definition numSlots :: "transaction \<Rightarrow> int" where
  "numSlots tx = int ((tx_Size tx + txSlotSize - 1) div txSlotSize)"

definition lk_Get :: "tx_lookup \<Rightarrow> hash \<Rightarrow> transaction option" where
  "lk_Get t h = lk_all t h"

definition lk_Count :: "tx_lookup \<Rightarrow> nat" where
  "lk_Count t = card (dom (lk_all t))"

definition lk_Slots :: "tx_lookup \<Rightarrow> int" where
  "lk_Slots t = lk_slots t"

definition lk_Add :: "tx_lookup \<Rightarrow> transaction \<Rightarrow> tx_lookup" where
  "lk_Add t tx = t\<lparr>lk_slots := lk_slots t + numSlots tx, lk_all := (lk_all t)(tx_Hash tx \<mapsto> tx)\<rparr>"

text \<open>\<^verbatim>\<open>numSlots\<close> of a nil transaction panics.\<close>

definition lk_Remove :: "tx_lookup \<Rightarrow> hash \<Rightarrow> tx_lookup option" where
  "lk_Remove t h =
     (case lk_all t h of
        None \<Rightarrow> None
      | Some tx \<Rightarrow> Some (t\<lparr>lk_slots := lk_slots t - numSlots tx, lk_all := (lk_all t)(h := None)\<rparr>))"

definition lk_Range :: "((hash \<rightharpoonup> transaction) \<Rightarrow> hash list) \<Rightarrow> tx_lookup \<Rightarrow> transaction list" where
  "lk_Range rng t = map (\<lambda>h. the (lk_all t h)) (rng (lk_all t))"

record account_set =
  as_accounts :: "address set"
  as_cache :: "address list option"

definition as_contains :: "account_set \<Rightarrow> address \<Rightarrow> bool" where
  "as_contains as addr = (addr \<in> as_accounts as)"

definition as_containsTx :: "(transaction \<Rightarrow> address option) \<Rightarrow> account_set \<Rightarrow> transaction \<Rightarrow> bool" where
  "as_containsTx Sender as tx =
     (case Sender tx of None \<Rightarrow> False | Some addr \<Rightarrow> as_contains as addr)"

definition as_add :: "account_set \<Rightarrow> address \<Rightarrow> account_set" where
  "as_add as addr = as\<lparr>as_accounts := insert addr (as_accounts as), as_cache := None\<rparr>"

definition newAccountSet :: "address list \<Rightarrow> account_set" where
  "newAccountSet addrs = foldl as_add \<lparr>as_accounts = {}, as_cache = None\<rparr> addrs"

definition as_addTx :: "(transaction \<Rightarrow> address option) \<Rightarrow> account_set \<Rightarrow> transaction \<Rightarrow> account_set" where
  "as_addTx Sender as tx = (case Sender tx of None \<Rightarrow> as | Some addr \<Rightarrow> as_add as addr)"

definition as_flatten :: "(address set \<Rightarrow> address list) \<Rightarrow> account_set \<Rightarrow> account_set \<times> address list" where
  "as_flatten rng as =
     (let as = (if as_cache as = None then as\<lparr>as_cache := Some (rng (as_accounts as))\<rparr> else as)
      in (as, the (as_cache as)))"

definition as_merge :: "account_set \<Rightarrow> account_set \<Rightarrow> account_set" where
  "as_merge as other = as\<lparr>as_accounts := as_accounts as \<union> as_accounts other, as_cache := None\<rparr>"

section \<open>The price heap\<close>

definition priceLess :: "transaction \<Rightarrow> transaction \<Rightarrow> bool" where
  "priceLess a b =
     (if tx_GasPrice a < tx_GasPrice b then True
      else if tx_GasPrice a > tx_GasPrice b then False
      else tx_Nonce a > tx_Nonce b)"

interpretation price: weak_order priceLess
  by unfold_locales (auto simp: priceLess_def split: if_splits)

record priced_list =
  pl_items :: "transaction list"
  pl_stales :: int

definition newTxPricedList :: priced_list where
  "newTxPricedList = \<lparr>pl_items = [], pl_stales = 0\<rparr>"

definition pl_Put :: "priced_list \<Rightarrow> transaction \<Rightarrow> priced_list" where
  "pl_Put l tx = l\<lparr>pl_items := heap_Push priceLess (pl_items l) tx\<rparr>"

definition pl_Removed :: "((hash \<rightharpoonup> transaction) \<Rightarrow> hash list) \<Rightarrow> tx_lookup \<Rightarrow> priced_list \<Rightarrow> int \<Rightarrow> priced_list" where
  "pl_Removed rng all l cnt =
     (let l = l\<lparr>pl_stales := pl_stales l + cnt\<rparr> in
      if pl_stales l \<le> int (length (pl_items l) div 4) then l
      else l\<lparr>pl_stales := 0, pl_items := heap_Init priceLess (lk_Range rng all)\<rparr>)"

text \<open>The loop of \<^verbatim>\<open>Cap\<close>, with the slices \<open>drop\<close> and \<open>save\<close> it fills.\<close>

function pl_Cap_loop :: "tx_lookup \<Rightarrow> (transaction \<Rightarrow> bool) \<Rightarrow> int \<Rightarrow> priced_list \<Rightarrow> transaction list
    \<Rightarrow> transaction list \<Rightarrow> priced_list \<times> transaction list \<times> transaction list" where
  "pl_Cap_loop all isLocal threshold l dropped saved =
     (if pl_items l = [] then (l, dropped, saved)
      else
        let (tx, items) = heap_Pop priceLess (pl_items l); l' = l\<lparr>pl_items := items\<rparr> in
        if lk_Get all (tx_Hash tx) = None then
          pl_Cap_loop all isLocal threshold (l'\<lparr>pl_stales := pl_stales l - 1\<rparr>) dropped saved
        else if tx_GasPrice tx \<ge> threshold then (l', dropped, saved @ [tx])
        else if isLocal tx then pl_Cap_loop all isLocal threshold l' dropped (saved @ [tx])
        else pl_Cap_loop all isLocal threshold l' (dropped @ [tx]) saved)"
  by pat_completeness auto

lemma heap_Pop_shorter: "(x, h') = heap_Pop lt h \<Longrightarrow> h \<noteq> [] \<Longrightarrow> length h' < length h"
  using length_heap_Pop [of lt h] by (cases h) (metis snd_conv, metis diff_Suc_1 length_Cons lessI snd_conv)

termination pl_Cap_loop
  by (relation "measure (\<lambda>(_, _, _, l, _, _). length (pl_items l))") (auto dest: heap_Pop_shorter)

declare pl_Cap_loop.simps [simp del]

definition pl_Cap :: "tx_lookup \<Rightarrow> (transaction \<Rightarrow> bool) \<Rightarrow> priced_list \<Rightarrow> int \<Rightarrow> priced_list \<times> transaction list" where
  "pl_Cap all isLocal l threshold =
     (let (l, dropped, saved) = pl_Cap_loop all isLocal threshold l [] []
      in (l\<lparr>pl_items := foldl (heap_Push priceLess) (pl_items l) saved\<rparr>, dropped))"

text \<open>The loop of \<^verbatim>\<open>Underpriced\<close> that discards stale entries at the top.\<close>

function pl_skip_stale :: "tx_lookup \<Rightarrow> priced_list \<Rightarrow> priced_list" where
  "pl_skip_stale all l =
     (if pl_items l \<noteq> [] \<and> lk_Get all (tx_Hash (pl_items l ! 0)) = None
      then pl_skip_stale all (l\<lparr>pl_stales := pl_stales l - 1,
             pl_items := snd (heap_Pop priceLess (pl_items l))\<rparr>)
      else l)"
  by pat_completeness auto
termination
  by (relation "measure (\<lambda>(_, l). length (pl_items l))") (auto simp: heap_Pop_shorter)

declare pl_skip_stale.simps [simp del]

definition pl_Underpriced :: "tx_lookup \<Rightarrow> (transaction \<Rightarrow> bool) \<Rightarrow> priced_list \<Rightarrow> transaction
    \<Rightarrow> priced_list \<times> bool" where
  "pl_Underpriced all isLocal l tx =
     (if isLocal tx then (l, False)
      else
        let l = pl_skip_stale all l in
        if pl_items l = [] then (l, False)
        else (l, tx_GasPrice (pl_items l ! 0) \<ge> tx_GasPrice tx))"

function pl_Discard_loop :: "tx_lookup \<Rightarrow> (transaction \<Rightarrow> bool) \<Rightarrow> int \<Rightarrow> priced_list \<Rightarrow> transaction list
    \<Rightarrow> transaction list \<Rightarrow> priced_list \<times> transaction list \<times> transaction list" where
  "pl_Discard_loop all isLocal slots l dropped saved =
     (if pl_items l = [] \<or> slots \<le> 0 then (l, dropped, saved)
      else
        let (tx, items) = heap_Pop priceLess (pl_items l); l' = l\<lparr>pl_items := items\<rparr> in
        if lk_Get all (tx_Hash tx) = None then
          pl_Discard_loop all isLocal slots (l'\<lparr>pl_stales := pl_stales l - 1\<rparr>) dropped saved
        else if isLocal tx then pl_Discard_loop all isLocal slots l' dropped (saved @ [tx])
        else pl_Discard_loop all isLocal (slots - numSlots tx) l' (dropped @ [tx]) saved)"
  by pat_completeness auto
termination
  by (relation "measure (\<lambda>(_, _, _, l, _, _). length (pl_items l))") (auto dest: heap_Pop_shorter)

declare pl_Discard_loop.simps [simp del]

definition pl_Discard :: "tx_lookup \<Rightarrow> (transaction \<Rightarrow> bool) \<Rightarrow> priced_list \<Rightarrow> int \<Rightarrow> priced_list \<times> transaction list" where
  "pl_Discard all isLocal l slots =
     (let (l, dropped, saved) = pl_Discard_loop all isLocal slots l [] []
      in (l\<lparr>pl_items := foldl (heap_Push priceLess) (pl_items l) saved\<rparr>, dropped))"

section \<open>Virtual nonces\<close>

record tx_noncer =
  tn_fallback :: "address \<Rightarrow> u64"
  tn_nonces :: "address \<rightharpoonup> u64"

definition newTxNoncer :: "(address \<Rightarrow> u64) \<Rightarrow> tx_noncer" where
  "newTxNoncer statedb = \<lparr>tn_fallback = statedb, tn_nonces = Map.empty\<rparr>"

definition tn_fill :: "tx_noncer \<Rightarrow> address \<Rightarrow> tx_noncer" where
  "tn_fill t addr =
     (if tn_nonces t addr = None
      then t\<lparr>tn_nonces := (tn_nonces t)(addr \<mapsto> tn_fallback t addr)\<rparr> else t)"

definition tn_get :: "tx_noncer \<Rightarrow> address \<Rightarrow> tx_noncer \<times> u64" where
  "tn_get t addr = (let t = tn_fill t addr in (t, the (tn_nonces t addr)))"

definition tn_set :: "tx_noncer \<Rightarrow> address \<Rightarrow> u64 \<Rightarrow> tx_noncer" where
  "tn_set t addr nonce = t\<lparr>tn_nonces := (tn_nonces t)(addr \<mapsto> nonce)\<rparr>"

definition tn_setIfLower :: "tx_noncer \<Rightarrow> address \<Rightarrow> u64 \<Rightarrow> tx_noncer" where
  "tn_setIfLower t addr nonce =
     (let t = tn_fill t addr in
      if the (tn_nonces t addr) \<le> nonce then t
      else t\<lparr>tn_nonces := (tn_nonces t)(addr \<mapsto> nonce)\<rparr>)"

section \<open>Stale entries\<close>

text \<open>
  An entry is stale when the pool no longer knows its hash. \<open>pl_inv\<close>: the entries form a heap
  and \<open>stales\<close> counts the stale ones.
\<close>

definition stale :: "tx_lookup \<Rightarrow> transaction \<Rightarrow> bool" where
  "stale all tx = (lk_all all (tx_Hash tx) = None)"

definition live :: "tx_lookup \<Rightarrow> priced_list \<Rightarrow> transaction multiset" where
  "live all l = {# tx \<in># mset (pl_items l). \<not> stale all tx #}"

definition pl_inv :: "tx_lookup \<Rightarrow> priced_list \<Rightarrow> bool" where
  "pl_inv all l \<longleftrightarrow> is_heap priceLess (pl_items l) \<and>
     pl_stales l = int (size {# tx \<in># mset (pl_items l). stale all tx #})"

lemma stale_Get: "lk_Get all (tx_Hash tx) = None \<longleftrightarrow> stale all tx"
  by (simp add: lk_Get_def stale_def)

text \<open>Popping the top entry, whether it is stale or not.\<close>

lemma pl_pop:
  assumes "pl_inv all l" "pl_items l \<noteq> []" "heap_Pop priceLess (pl_items l) = (tx, items)"
  shows "tx = pl_items l ! 0" "mset (pl_items l) = add_mset tx (mset items)"
    "\<And>t. t \<in> set items \<Longrightarrow> \<not> priceLess t tx"
    "stale all tx \<Longrightarrow> pl_inv all (l\<lparr>pl_items := items, pl_stales := pl_stales l - 1\<rparr>)
       \<and> live all (l\<lparr>pl_items := items, pl_stales := pl_stales l - 1\<rparr>) = live all l"
    "\<not> stale all tx \<Longrightarrow> pl_inv all (l\<lparr>pl_items := items\<rparr>)
       \<and> live all l = add_mset tx (live all (l\<lparr>pl_items := items\<rparr>))"
proof -
  have heap: "is_heap priceLess (pl_items l)" using assms(1) by (simp add: pl_inv_def)
  note law = price.pq.pop_law [OF heap assms(2,3)]
  show "tx = pl_items l ! 0" "mset (pl_items l) = add_mset tx (mset items)"
    using law by blast+
  show "\<not> priceLess t tx" if "t \<in> set items" for t
    by (rule price.pq.pop_least [OF heap assms(2,3) that])
  show "stale all tx \<Longrightarrow> pl_inv all (l\<lparr>pl_items := items, pl_stales := pl_stales l - 1\<rparr>)
       \<and> live all (l\<lparr>pl_items := items, pl_stales := pl_stales l - 1\<rparr>) = live all l"
    "\<not> stale all tx \<Longrightarrow> pl_inv all (l\<lparr>pl_items := items\<rparr>)
       \<and> live all l = add_mset tx (live all (l\<lparr>pl_items := items\<rparr>))"
    using law assms(1) by (simp_all add: pl_inv_def live_def)
qed

lemma pl_push_all:
  assumes "pl_inv all l" "\<forall>tx \<in> set txs. \<not> stale all tx"
  shows "pl_inv all (l\<lparr>pl_items := foldl (heap_Push priceLess) (pl_items l) txs\<rparr>)
    \<and> live all (l\<lparr>pl_items := foldl (heap_Push priceLess) (pl_items l) txs\<rparr>) = live all l + mset txs"
proof -
  have "is_heap priceLess (pl_items l)" using assms(1) by (simp add: pl_inv_def)
  note push = price.pq.push_all [OF this, of txs]
  have "filter_mset (stale all) (mset txs) = {#}" "filter_mset (\<lambda>tx. \<not> stale all tx) (mset txs) = mset txs"
    using assms(2) by (induction txs) auto
  then show ?thesis using push assms(1) by (simp add: pl_inv_def live_def)
qed

lemma price_mono: "\<not> priceLess t tx \<Longrightarrow> tx_GasPrice tx \<le> tx_GasPrice t"
  by (auto simp: priceLess_def split: if_splits)

text \<open>What \<^verbatim>\<open>Cap\<close>'s loop has put into \<open>drop\<close> and \<open>save\<close> when it leaves.\<close>

lemma pl_Cap_loop_correct:
  "pl_inv all l \<Longrightarrow> pl_Cap_loop all isLocal th l dropped saved = (l', dropped', saved') \<Longrightarrow>
   \<exists>D S. dropped' = dropped @ D \<and> saved' = saved @ S \<and> pl_inv all l'
     \<and> live all l = mset D + mset S + live all l'
     \<and> (\<forall>tx \<in> set D. \<not> isLocal tx \<and> tx_GasPrice tx < th)
     \<and> (\<forall>tx \<in> set S. \<not> stale all tx \<and> (isLocal tx \<or> th \<le> tx_GasPrice tx))
     \<and> (\<forall>tx \<in> set (pl_items l'). th \<le> tx_GasPrice tx)"
proof (induction all isLocal th l dropped saved rule: pl_Cap_loop.induct)
  case (1 all isLocal th l dropped saved)
  show ?case
  proof (cases "pl_items l = []")
    case True
    then show ?thesis using 1(4,5) by (subst (asm) pl_Cap_loop.simps) simp
  next
    case False
    obtain tx items where pop: "heap_Pop priceLess (pl_items l) = (tx, items)" by fastforce
    note p = pl_pop [OF 1(4) False pop]
    note run = 1(5) [unfolded pl_Cap_loop.simps [of all isLocal th l] pop Let_def prod.case if_not_P [OF False] stale_Get]
    note ih = 1(1-3) [unfolded stale_Get, OF False refl pop [symmetric] refl]
    consider (stale) "stale all tx" | (stop) "\<not> stale all tx" "th \<le> tx_GasPrice tx"
      | (local) "\<not> stale all tx" "\<not> th \<le> tx_GasPrice tx" "isLocal tx"
      | (dropped) "\<not> stale all tx" "\<not> th \<le> tx_GasPrice tx" "\<not> isLocal tx" by blast
    then show ?thesis
    proof cases
      case stale
      from ih(1) [OF stale conjunct1 [OF p(4) [OF stale]]] run stale p(4) show ?thesis by simp
    next
      case stop
      then have r: "l' = l\<lparr>pl_items := items\<rparr>" "dropped' = dropped" "saved' = saved @ [tx]"
        using run by simp_all
      have "th \<le> tx_GasPrice t" if "t \<in> set items" for t
        using p(3) [OF that] price_mono stop(2) by fastforce
      then show ?thesis using r p(5) stop by (intro exI [of _ "[]"] exI [of _ "[tx]"]) simp
    next
      case local
      then have "pl_Cap_loop all isLocal th (l\<lparr>pl_items := items\<rparr>) dropped (saved @ [tx]) = (l', dropped', saved')"
        using run by simp
      from ih(2) [OF local(1-3) conjunct1 [OF p(5) [OF local(1)]] this]
      obtain D S where ds: "dropped' = dropped @ D" "saved' = (saved @ [tx]) @ S" "pl_inv all l'"
        "live all (l\<lparr>pl_items := items\<rparr>) = mset D + mset S + live all l'"
        "\<forall>tx \<in> set D. \<not> isLocal tx \<and> tx_GasPrice tx < th"
        "\<forall>tx \<in> set S. \<not> stale all tx \<and> (isLocal tx \<or> th \<le> tx_GasPrice tx)"
        "\<forall>tx \<in> set (pl_items l'). th \<le> tx_GasPrice tx" by blast
      show ?thesis
        using ds local p(5) by (intro exI [of _ D] exI [of _ "tx # S"]) simp
    next
      case dropped
      then have "pl_Cap_loop all isLocal th (l\<lparr>pl_items := items\<rparr>) (dropped @ [tx]) saved = (l', dropped', saved')"
        using run by simp
      from ih(3) [OF dropped(1-3) conjunct1 [OF p(5) [OF dropped(1)]] this]
      obtain D S where ds: "dropped' = (dropped @ [tx]) @ D" "saved' = saved @ S" "pl_inv all l'"
        "live all (l\<lparr>pl_items := items\<rparr>) = mset D + mset S + live all l'"
        "\<forall>tx \<in> set D. \<not> isLocal tx \<and> tx_GasPrice tx < th"
        "\<forall>tx \<in> set S. \<not> stale all tx \<and> (isLocal tx \<or> th \<le> tx_GasPrice tx)"
        "\<forall>tx \<in> set (pl_items l'). th \<le> tx_GasPrice tx" by blast
      show ?thesis
        using ds dropped p(5) by (intro exI [of _ "tx # D"] exI [of _ S]) simp
    qed
  qed
qed

lemma pl_Cap_correct:
  assumes "pl_inv all l" "pl_Cap all isLocal l th = (l', dropped)"
  shows "mset dropped = {# tx \<in># live all l. \<not> isLocal tx \<and> tx_GasPrice tx < th #}"
    "live all l' = live all l - mset dropped" "pl_inv all l'"
proof -
  obtain l1 saved where run: "pl_Cap_loop all isLocal th l [] [] = (l1, dropped, saved)"
    and l': "l' = l1\<lparr>pl_items := foldl (heap_Push priceLess) (pl_items l1) saved\<rparr>"
    using assms(2) by (auto simp: pl_Cap_def split: prod.splits)
  have c: "pl_inv all l1" "live all l = mset dropped + mset saved + live all l1"
    "\<forall>tx \<in> set dropped. \<not> isLocal tx \<and> tx_GasPrice tx < th"
    "\<forall>tx \<in> set saved. \<not> stale all tx \<and> (isLocal tx \<or> th \<le> tx_GasPrice tx)"
    "\<forall>tx \<in> set (pl_items l1). th \<le> tx_GasPrice tx"
    using pl_Cap_loop_correct [OF assms(1) run] by auto
  note push = pl_push_all [OF c(1), of saved]
  show inv: "pl_inv all l'" "live all l' = live all l - mset dropped"
    using push c(2,4) by (auto simp: l')
  have "filter_mset (\<lambda>tx. \<not> isLocal tx \<and> tx_GasPrice tx < th) (mset dropped) = mset dropped"
    using c(3) by (simp add: filter_mset_eq_conv)
  moreover have "filter_mset (\<lambda>tx. \<not> isLocal tx \<and> tx_GasPrice tx < th) (mset saved) = {#}"
    using c(4) by (force simp: filter_mset_eq_conv)
  moreover have "filter_mset (\<lambda>tx. \<not> isLocal tx \<and> tx_GasPrice tx < th) (live all l1) = {#}"
    using c(5) by (force simp: live_def filter_mset_eq_conv)
  ultimately show "mset dropped = {# tx \<in># live all l. \<not> isLocal tx \<and> tx_GasPrice tx < th #}"
    by (simp add: c(2))
qed

text \<open>\<open>Underpriced\<close>\<close>

lemma pl_skip_stale_correct:
  "pl_inv all l \<Longrightarrow> pl_inv all (pl_skip_stale all l) \<and> live all (pl_skip_stale all l) = live all l
     \<and> (pl_items (pl_skip_stale all l) \<noteq> [] \<longrightarrow> \<not> stale all (pl_items (pl_skip_stale all l) ! 0))"
proof (induction all l rule: pl_skip_stale.induct)
  case (1 all l)
  show ?case
  proof (cases "pl_items l \<noteq> [] \<and> lk_Get all (tx_Hash (pl_items l ! 0)) = None")
    case True
    obtain tx items where pop: "heap_Pop priceLess (pl_items l) = (tx, items)" by fastforce
    note p = pl_pop [OF 1(2) conjunct1 [OF True] pop]
    have "stale all tx" using True by (simp add: p(1) stale_Get)
    moreover have "l\<lparr>pl_stales := pl_stales l - 1, pl_items := snd (heap_Pop priceLess (pl_items l))\<rparr>
        = l\<lparr>pl_items := items, pl_stales := pl_stales l - 1\<rparr>" using pop by simp
    moreover have "pl_skip_stale all l = pl_skip_stale all (l\<lparr>pl_stales := pl_stales l - 1,
             pl_items := snd (heap_Pop priceLess (pl_items l))\<rparr>)"
      using True by (subst pl_skip_stale.simps) simp
    ultimately show ?thesis using 1(1) [OF True] p(4) by simp
  next
    case False
    then have "pl_skip_stale all l = l" by (subst pl_skip_stale.simps) (simp only: if_False)
    with False 1(2) show ?thesis by (auto simp: stale_Get)
  qed
qed

lemma pl_Underpriced_correct:
  assumes "pl_inv all l" "pl_Underpriced all isLocal l tx = (l', res)"
  shows "res \<longleftrightarrow> \<not> isLocal tx \<and> live all l \<noteq> {#} \<and> (\<forall>t \<in># live all l. tx_GasPrice tx \<le> tx_GasPrice t)"
    "live all l' = live all l" "pl_inv all l'"
proof -
  define k where "k = pl_skip_stale all l"
  have k: "pl_inv all k" "live all k = live all l"
    "pl_items k \<noteq> [] \<Longrightarrow> \<not> stale all (pl_items k ! 0)"
    using pl_skip_stale_correct [OF assms(1)] by (auto simp: k_def)
  have least: "tx_GasPrice (pl_items k ! 0) \<le> tx_GasPrice t" if "t \<in># live all k" for t
    using that price.hd_least [of "pl_items k" t] price_mono k(1) by (auto simp: pl_inv_def live_def)
  have top: "pl_items k ! 0 \<in># live all k" if "pl_items k \<noteq> []"
    using that k(3) by (simp add: live_def)
  have empty: "live all k = {#}" if "pl_items k = []" using that by (simp add: live_def)
  have r: "(l', res) = (if isLocal tx then (l, False) else
      (k, pl_items k \<noteq> [] \<and> tx_GasPrice (pl_items k ! 0) \<ge> tx_GasPrice tx))"
    using assms(2) unfolding pl_Underpriced_def k_def [symmetric] Let_def by (auto split: if_splits)
  then show "live all l' = live all l" "pl_inv all l'"
    using k assms(1) by (auto split: if_splits)
  show "res \<longleftrightarrow> \<not> isLocal tx \<and> live all l \<noteq> {#} \<and> (\<forall>t \<in># live all l. tx_GasPrice tx \<le> tx_GasPrice t)"
  proof (cases "isLocal tx \<or> pl_items k = []")
    case True
    then show ?thesis using r empty k(2) by (auto split: if_splits)
  next
    case False
    then have "live all k \<noteq> {#}" using top by auto
    with False r top least show ?thesis unfolding k(2) [symmetric] by (auto intro: order.trans)
  qed
qed

text \<open>\<open>Discard\<close> drops the cheapest remote transactions until enough slots are free.\<close>

definition slotsOf :: "transaction list \<Rightarrow> int" where
  "slotsOf txs = (\<Sum>tx\<leftarrow>txs. numSlots tx)"

lemma slotsOf_simps [simp]: "slotsOf [] = 0" "slotsOf (tx # txs) = numSlots tx + slotsOf txs"
  by (simp_all add: slotsOf_def)

lemma pl_Discard_loop_correct:
  "pl_inv all l \<Longrightarrow> pl_Discard_loop all isLocal slots l dropped saved = (l', dropped', saved') \<Longrightarrow>
   \<exists>D S. dropped' = dropped @ D \<and> saved' = saved @ S \<and> pl_inv all l'
     \<and> live all l = mset D + mset S + live all l'
     \<and> (\<forall>tx \<in> set D. \<not> isLocal tx \<and> (\<forall>t \<in># live all l'. \<not> priceLess t tx))
     \<and> (\<forall>tx \<in> set S. \<not> stale all tx \<and> isLocal tx)
     \<and> (slots \<le> slotsOf D \<or> live all l' = {#})
     \<and> (D \<noteq> [] \<longrightarrow> slotsOf (butlast D) < slots)"
proof (induction all isLocal slots l dropped saved rule: pl_Discard_loop.induct)
  case (1 all isLocal slots l dropped saved)
  show ?case
  proof (cases "pl_items l = [] \<or> slots \<le> 0")
    case True
    then show ?thesis using 1(4,5) by (subst (asm) pl_Discard_loop.simps) (auto simp: live_def)
  next
    case False
    then have ne: "pl_items l \<noteq> []" by blast
    obtain tx items where pop: "heap_Pop priceLess (pl_items l) = (tx, items)" by fastforce
    note p = pl_pop [OF 1(4) ne pop]
    note run = 1(5) [unfolded pl_Discard_loop.simps [of all isLocal slots l] pop Let_def prod.case if_not_P [OF False] stale_Get]
    note ih = 1(1-3) [unfolded stale_Get, OF False refl pop [symmetric] refl]
    consider (stale) "stale all tx" | (local) "\<not> stale all tx" "isLocal tx"
      | (dropped) "\<not> stale all tx" "\<not> isLocal tx" by blast
    then show ?thesis
    proof cases
      case stale
      from ih(1) [OF stale conjunct1 [OF p(4) [OF stale]]] run stale p(4) show ?thesis by simp
    next
      case local
      then have "pl_Discard_loop all isLocal slots (l\<lparr>pl_items := items\<rparr>) dropped (saved @ [tx]) = (l', dropped', saved')"
        using run by simp
      from ih(2) [OF local conjunct1 [OF p(5) [OF local(1)]] this]
      obtain D S where ds: "dropped' = dropped @ D" "saved' = (saved @ [tx]) @ S" "pl_inv all l'"
        "live all (l\<lparr>pl_items := items\<rparr>) = mset D + mset S + live all l'"
        "\<forall>tx \<in> set D. \<not> isLocal tx \<and> (\<forall>t \<in># live all l'. \<not> priceLess t tx)"
        "\<forall>tx \<in> set S. \<not> stale all tx \<and> isLocal tx" "slots \<le> slotsOf D \<or> live all l' = {#}"
        "D \<noteq> [] \<longrightarrow> slotsOf (butlast D) < slots" by blast
      show ?thesis
        using ds local p(5) by (intro exI [of _ D] exI [of _ "tx # S"]) simp
    next
      case dropped
      then have "pl_Discard_loop all isLocal (slots - numSlots tx) (l\<lparr>pl_items := items\<rparr>) (dropped @ [tx]) saved
          = (l', dropped', saved')"
        using run by simp
      from ih(3) [OF dropped conjunct1 [OF p(5) [OF dropped(1)]] this]
      obtain D S where ds: "dropped' = (dropped @ [tx]) @ D" "saved' = saved @ S" "pl_inv all l'"
        "live all (l\<lparr>pl_items := items\<rparr>) = mset D + mset S + live all l'"
        "\<forall>tx \<in> set D. \<not> isLocal tx \<and> (\<forall>t \<in># live all l'. \<not> priceLess t tx)"
        "\<forall>tx \<in> set S. \<not> stale all tx \<and> isLocal tx" "slots - numSlots tx \<le> slotsOf D \<or> live all l' = {#}"
        "D \<noteq> [] \<longrightarrow> slotsOf (butlast D) < slots - numSlots tx" by blast
      have "\<not> priceLess t tx" if "t \<in># live all l'" for t
      proof (rule p(3))
        have "t \<in># live all (l\<lparr>pl_items := items\<rparr>)" using that unfolding ds(4) by simp
        then show "t \<in> set items" by (simp add: live_def)
      qed
      then show ?thesis
        using ds dropped p(5) False by (intro exI [of _ "tx # D"] exI [of _ S]) auto
    qed
  qed
qed

lemma pl_Discard_correct:
  assumes "pl_inv all l" "pl_Discard all isLocal l slots = (l', dropped)"
  shows "live all l = mset dropped + live all l'"
    "\<forall>tx \<in> set dropped. \<not> isLocal tx \<and> (\<forall>t \<in># live all l'. isLocal t \<or> \<not> priceLess t tx)"
    "slots \<le> slotsOf dropped \<or> (\<forall>t \<in># live all l'. isLocal t)"
    "dropped \<noteq> [] \<longrightarrow> slotsOf (butlast dropped) < slots" "pl_inv all l'"
proof -
  obtain l1 saved where run: "pl_Discard_loop all isLocal slots l [] [] = (l1, dropped, saved)"
    and l': "l' = l1\<lparr>pl_items := foldl (heap_Push priceLess) (pl_items l1) saved\<rparr>"
    using assms(2) by (auto simp: pl_Discard_def split: prod.splits)
  have c: "pl_inv all l1" "live all l = mset dropped + mset saved + live all l1"
    "\<forall>tx \<in> set dropped. \<not> isLocal tx \<and> (\<forall>t \<in># live all l1. \<not> priceLess t tx)"
    "\<forall>tx \<in> set saved. \<not> stale all tx \<and> isLocal tx"
    "slots \<le> slotsOf dropped \<or> live all l1 = {#}"
    "dropped \<noteq> [] \<longrightarrow> slotsOf (butlast dropped) < slots"
    using pl_Discard_loop_correct [OF assms(1) run] by auto
  note push = pl_push_all [OF c(1), of saved]
  have live: "live all l' = live all l1 + mset saved" and inv: "pl_inv all l'"
    using push c(4) by (auto simp: l')
  show "live all l = mset dropped + live all l'" using live c(2) by simp
  show "\<forall>tx \<in> set dropped. \<not> isLocal tx \<and> (\<forall>t \<in># live all l'. isLocal t \<or> \<not> priceLess t tx)"
    "slots \<le> slotsOf dropped \<or> (\<forall>t \<in># live all l'. isLocal t)"
    using c(3,4,5) by (auto simp: live)
  show "dropped \<noteq> [] \<longrightarrow> slotsOf (butlast dropped) < slots" "pl_inv all l'" by (fact c(6), fact inv)
qed

text \<open>\<open>Removed\<close>, called after entries left the table, either counts them or rebuilds the heap.\<close>

definition lk_inv :: "tx_lookup \<Rightarrow> bool" where
  "lk_inv t \<longleftrightarrow> finite (dom (lk_all t)) \<and> (\<forall>h tx. lk_all t h = Some tx \<longrightarrow> tx_Hash tx = h)
     \<and> lk_slots t = (\<Sum>h \<in> dom (lk_all t). numSlots (the (lk_all t h)))"

definition pl_covers :: "tx_lookup \<Rightarrow> priced_list \<Rightarrow> bool" where
  "pl_covers all l \<longleftrightarrow> ran (lk_all all) \<subseteq> set (pl_items l)"

lemma lk_inv_new: "lk_inv newTxLookup"
  by (simp add: lk_inv_def newTxLookup_def)

lemma lk_inv_Add: "lk_inv t \<Longrightarrow> lk_all t (tx_Hash tx) = None \<Longrightarrow> lk_inv (lk_Add t tx)"
  by (auto simp: lk_inv_def lk_Add_def domIff intro!: sum.cong)

lemma lk_inv_Remove:
  assumes "lk_inv t" "lk_Remove t h = Some t'"
  shows "lk_inv t'"
proof -
  obtain tx where tx: "lk_all t h = Some tx"
    and t': "t' = t\<lparr>lk_slots := lk_slots t - numSlots tx, lk_all := (lk_all t)(h := None)\<rparr>"
    using assms(2) by (auto simp: lk_Remove_def split: option.splits)
  have fin: "finite (dom (lk_all t))" using assms(1) by (simp add: lk_inv_def)
  have "(\<Sum>k \<in> dom (lk_all t). numSlots (the (lk_all t k)))
      = numSlots tx + (\<Sum>k \<in> dom (lk_all t) - {h}. numSlots (the (lk_all t k)))"
    using sum.remove [OF fin, of h "\<lambda>k. numSlots (the (lk_all t k))"] tx by (simp add: domI)
  moreover have "(\<Sum>k \<in> dom (lk_all t) - {h}. numSlots (the (((lk_all t)(h := None)) k)))
      = (\<Sum>k \<in> dom (lk_all t) - {h}. numSlots (the (lk_all t k)))"
    by (intro sum.cong) auto
  ultimately show ?thesis using assms(1) fin unfolding t' by (simp add: lk_inv_def)
qed

lemma pl_Removed_correct:
  assumes "map_order rng" "lk_inv all" "is_heap priceLess (pl_items l)" "pl_covers all l"
    and "pl_stales l + cnt = int (size {# tx \<in># mset (pl_items l). stale all tx #})"
  shows "pl_inv all (pl_Removed rng all l cnt)" "pl_covers all (pl_Removed rng all l cnt)"
    "4 * pl_stales (pl_Removed rng all l cnt) \<le> int (length (pl_items (pl_Removed rng all l cnt)))"
proof -
  let ?r = "pl_Removed rng all l cnt"
  have fin: "finite (dom (lk_all all))" using assms(2) by (simp add: lk_inv_def)
  have "pl_inv all ?r \<and> pl_covers all ?r \<and> 4 * pl_stales ?r \<le> int (length (pl_items ?r))"
  proof (cases "pl_stales l + cnt \<le> int (length (pl_items l) div 4)")
    case True
    then have "?r = l\<lparr>pl_stales := pl_stales l + cnt\<rparr>" by (simp add: pl_Removed_def)
    moreover have "4 * (pl_stales l + cnt) \<le> int (length (pl_items l))"
      using True by presburger
    ultimately show ?thesis using assms(3,4,5) by (simp add: pl_inv_def pl_covers_def)
  next
    case False
    let ?h = "heap_Init priceLess (lk_Range rng all)"
    have r: "pl_items ?r = ?h" "pl_stales ?r = 0" using False by (simp_all add: pl_Removed_def)
    note build = price.pq.build_law [of "lk_Range rng all"]
    have "set (lk_Range rng all) = ran (lk_all all)"
      using map_orderD(2) [OF assms(1) fin] by (force simp: lk_Range_def ran_def)
    then have set: "set ?h = ran (lk_all all)" using build mset_eq_setD by metis
    have "\<not> stale all tx" if "tx \<in> set ?h" for tx
      using that assms(2) unfolding set by (auto simp: ran_def stale_def lk_inv_def)
    then have "{# tx \<in># mset ?h. stale all tx #} = {#}" by (simp add: filter_mset_eq_conv)
    then show ?thesis using build set by (simp add: pl_inv_def pl_covers_def r)
  qed
  then show "pl_inv all ?r" "pl_covers all ?r" "4 * pl_stales ?r \<le> int (length (pl_items ?r))"
    by blast+
qed

section \<open>Properties\<close>

text \<open>
  The price queries. \<open>Cap\<close> drops exactly the live remote transactions below the threshold
  and keeps every other live one; \<open>Underpriced\<close> says yes exactly when the transaction is
  remote and no live one is cheaper than it. Both keep the heap order and the count of stale entries.
\<close>

theorem price_queries_exact:
  assumes "pl_inv all l" "pl_Cap all isLocal l threshold = (l', dropped)"
    and "pl_Underpriced all isLocal l tx = (l'', res)"
  shows "mset dropped = {# t \<in># live all l. \<not> isLocal t \<and> tx_GasPrice t < threshold #}
    \<and> live all l' = live all l - mset dropped \<and> pl_inv all l'
    \<and> (res \<longleftrightarrow> \<not> isLocal tx \<and> live all l \<noteq> {#} \<and> (\<forall>t \<in># live all l. tx_GasPrice tx \<le> tx_GasPrice t))
    \<and> live all l'' = live all l \<and> pl_inv all l''"
  using pl_Cap_correct [OF assms(1,2)] pl_Underpriced_correct [OF assms(1,3)] by blast

definition demo_pool :: tx_lookup where
  "demo_pool = lk_Add (lk_Add newTxLookup (demo_tx 1 50)) (demo_tx 2 40)"

definition demo_priced :: priced_list where
  "demo_priced = pl_Put (pl_Put newTxPricedList (demo_tx 1 50)) (demo_tx 2 40)"

lemma demo_priced_inv: "pl_inv demo_pool demo_priced"
  and demo_priced_items: "mset (pl_items demo_priced) = {# demo_tx 1 50, demo_tx 2 40 #}"
proof -
  note a = price.pq.push_law [OF price.pq.queue_Nil, of "demo_tx 1 50"]
  note b = price.pq.push_law [OF conjunct1 [OF a], of "demo_tx 2 40"]
  show m: "mset (pl_items demo_priced) = {# demo_tx 1 50, demo_tx 2 40 #}"
    using a b by (simp add: demo_priced_def newTxPricedList_def pl_Put_def add_mset_commute)
  show "pl_inv demo_pool demo_priced"
    unfolding pl_inv_def m using b
    by (simp add: demo_priced_def newTxPricedList_def pl_Put_def stale_def demo_pool_def lk_Add_def
        newTxLookup_def demo_tx_def)
qed

lemma demo_live: "live demo_pool demo_priced = {# demo_tx 1 50, demo_tx 2 40 #}"
  by (simp add: live_def demo_priced_items) (simp add: stale_def demo_pool_def lk_Add_def newTxLookup_def demo_tx_def)

theorem price_queries_exact_witness:
  "mset (snd (pl_Cap demo_pool (\<lambda>_. False) demo_priced 45)) = {# demo_tx 2 40 #}
   \<and> snd (pl_Underpriced demo_pool (\<lambda>_. False) demo_priced (demo_tx 7 40))"
proof -
  obtain l1 d where e1: "pl_Cap demo_pool (\<lambda>_. False) demo_priced 45 = (l1, d)" by fastforce
  obtain l2 r where e2: "pl_Underpriced demo_pool (\<lambda>_. False) demo_priced (demo_tx 7 40) = (l2, r)"
    by fastforce
  from price_queries_exact [OF demo_priced_inv e1 e2] show ?thesis
    by (simp add: e1 e2 demo_live) (simp add: demo_tx_def)
qed

text \<open>
  C9: \<open>Discard\<close> frees the slots asked for by dropping remote transactions only, the cheapest
  first: no live remote one left is cheaper than one dropped, the slots are reached unless no live
  remote one is left, and without the last one dropped they are not.
\<close>

theorem discard_cheapest_first:
  assumes "pl_inv all l" "pl_Discard all isLocal l slots = (l', dropped)"
  shows "live all l = mset dropped + live all l'
    \<and> (\<forall>tx \<in> set dropped. \<not> isLocal tx \<and> (\<forall>t \<in># live all l'. isLocal t \<or> \<not> priceLess t tx))
    \<and> (slots \<le> slotsOf dropped \<or> (\<forall>t \<in># live all l'. isLocal t))
    \<and> (dropped \<noteq> [] \<longrightarrow> slotsOf (butlast dropped) < slots) \<and> pl_inv all l'"
  using pl_Discard_correct [OF assms] by blast

theorem discard_cheapest_first_witness:
  "\<exists>d. snd (pl_Discard demo_pool (\<lambda>_. False) demo_priced 1) = d \<and> d \<noteq> []"
proof -
  obtain l1 d where e: "pl_Discard demo_pool (\<lambda>_. False) demo_priced 1 = (l1, d)" by fastforce
  from discard_cheapest_first [OF demo_priced_inv e] have "d \<noteq> []" by (auto simp: demo_live)
  then show ?thesis by (simp add: e)
qed

text \<open>
  \<open>Removed\<close>, told how many entries have just left the table, restores the count of stale
  entries, keeps every transaction of the table on the heap, and leaves at most a quarter of the
  heap stale.
\<close>

theorem removed_bounds_stale:
  assumes "map_order rng" "lk_inv all" "is_heap priceLess (pl_items l)" "pl_covers all l"
    and "pl_stales l + cnt = int (size {# tx \<in># mset (pl_items l). stale all tx #})"
  shows "pl_inv all (pl_Removed rng all l cnt) \<and> pl_covers all (pl_Removed rng all l cnt)
    \<and> 4 * pl_stales (pl_Removed rng all l cnt) \<le> int (length (pl_items (pl_Removed rng all l cnt)))"
  using pl_Removed_correct [OF assms] by blast

theorem removed_bounds_stale_witness:
  "4 * pl_stales (pl_Removed (\<lambda>m. sorted_list_of_set (dom m)) newTxLookup demo_priced 2)
     \<le> int (length (pl_items (pl_Removed (\<lambda>m. sorted_list_of_set (dom m)) newTxLookup demo_priced 2)))"
proof -
  have "is_heap priceLess (pl_items demo_priced)" "pl_stales demo_priced = 0"
    using demo_priced_inv by (simp_all add: pl_inv_def demo_priced_def pl_Put_def newTxPricedList_def)
  then show ?thesis
    using removed_bounds_stale [OF map_order_sorted lk_inv_new, of demo_priced 2]
    by (simp add: demo_priced_items stale_def pl_covers_def newTxLookup_def)
qed

end
