(* ===== verification/Tx_Journal.thy ===== *)
theory Tx_Journal
  imports Tx_List
begin

text \<open>
  The journal of local transactions (\<^verbatim>\<open>tx_journal.go\<close>): a file of encoded transactions that
  survives restarts, the writer that appends to it, and its regeneration through a second
  file. The state holds the two files; what the operating system and the RLP library answer
  (errors, the bytes an encoding wrote, the transactions a stream decodes) is the argument \<open>io\<close>.
\<close>

section \<open>The journal and its files\<close>

datatype journal_writer = devNull | Sink

record journal =
  jn_disk :: "bytes option"
  jn_next :: "bytes option"
  jn_writer :: "journal_writer option"

datatype 'e journal_error = errNoActiveJournal | IOError 'e

text \<open>
  \<open>io_Write tx\<close>: the bytes \<^verbatim>\<open>rlp.Encode\<close> has written for \<open>tx\<close>, and its error;
  \<open>io_Stream f\<close>: the transactions decoded from \<open>f\<close>, and the error that is not \<^verbatim>\<open>io.EOF\<close>.
\<close>

record 'e journal_io =
  io_Open :: "'e option"
  io_Close :: "'e option"
  io_Create :: "'e option"
  io_Write :: "transaction \<Rightarrow> bytes \<times> 'e option"
  io_Rename :: "'e option"
  io_Append :: "'e option"
  io_Stream :: "bytes \<Rightarrow> transaction list \<times> 'e option"

definition newTxJournal :: "bytes option \<Rightarrow> bytes option \<Rightarrow> journal" where
  "newTxJournal disk nxt = \<lparr>jn_disk = disk, jn_next = nxt, jn_writer = None\<rparr>"

section \<open>Writing\<close>

definition jn_insert :: "'e journal_io \<Rightarrow> journal \<Rightarrow> transaction \<Rightarrow> journal \<times> 'e journal_error option" where
  "jn_insert io j tx =
     (case jn_writer j of
        None \<Rightarrow> (j, Some errNoActiveJournal)
      | Some devNull \<Rightarrow> (j, None)
      | Some Sink \<Rightarrow>
          let (bs, err) = io_Write io tx
          in (j\<lparr>jn_disk := map_option (\<lambda>f. f @ bs) (jn_disk j)\<rparr>, map_option IOError err))"

text \<open>The loop of \<^verbatim>\<open>rotate\<close> that writes the replacement file.\<close>

fun rotate_loop :: "'e journal_io \<Rightarrow> transaction list \<Rightarrow> journal \<Rightarrow> journal \<times> 'e option" where
  "rotate_loop io [] j = (j, None)"
| "rotate_loop io (tx # txs) j =
     (let (bs, err) = io_Write io tx; j = j\<lparr>jn_next := map_option (\<lambda>f. f @ bs) (jn_next j)\<rparr>
      in if err \<noteq> None then (j, err) else rotate_loop io txs j)"

definition jn_rotate :: "'e journal_io \<Rightarrow> journal \<Rightarrow> transaction list list \<Rightarrow> journal \<times> 'e option" where
  "jn_rotate io j all =
     (if jn_writer j = Some Sink \<and> io_Close io \<noteq> None then (j, io_Close io)
      else
        let j = j\<lparr>jn_writer := None\<rparr> in
        if io_Create io \<noteq> None then (j, io_Create io)
        else
          let (j, err) = rotate_loop io (concat all) (j\<lparr>jn_next := Some []\<rparr>) in
          if err \<noteq> None then (j, err)
          else if io_Rename io \<noteq> None then (j, io_Rename io)
          else
            let j = j\<lparr>jn_disk := jn_next j, jn_next := None\<rparr> in
            if io_Append io \<noteq> None then (j, io_Append io)
            else (j\<lparr>jn_writer := Some Sink\<rparr>, None))"

definition jn_close :: "'e journal_io \<Rightarrow> journal \<Rightarrow> journal \<times> 'e option" where
  "jn_close io j =
     (case jn_writer j of
        None \<Rightarrow> (j, None)
      | Some w \<Rightarrow> (j\<lparr>jn_writer := None\<rparr>, if w = Sink then io_Close io else None))"

section \<open>Loading\<close>

text \<open>
  The loop of \<^verbatim>\<open>load\<close> over the decoded transactions: a batch is handed to \<open>add\<close> when it is
  longer than 1024, and what is left at the end of the stream. \<open>add\<close> changes the state of
  the pool that owns the journal and may panic.
\<close>

fun load_loop :: "('s \<Rightarrow> transaction list \<Rightarrow> 's option) \<Rightarrow> transaction list \<Rightarrow> transaction list \<Rightarrow> 's
    \<Rightarrow> 's option" where
  "load_loop add [] batch s = (if 0 < length batch then add s batch else Some s)"
| "load_loop add (tx # txs) batch s =
     (if 1024 < length (batch @ [tx])
      then Option.bind (add s (batch @ [tx])) (\<lambda>s. load_loop add txs [] s)
      else load_loop add txs (batch @ [tx]) s)"

text \<open>\<open>upd\<close> updates the journal inside the pool's state.\<close>

definition jn_load :: "'e journal_io \<Rightarrow> ((journal \<Rightarrow> journal) \<Rightarrow> 's \<Rightarrow> 's) \<Rightarrow> ('s \<Rightarrow> journal)
    \<Rightarrow> ('s \<Rightarrow> transaction list \<Rightarrow> 's option) \<Rightarrow> 's \<Rightarrow> ('s \<times> 'e option) option" where
  "jn_load io upd get add s =
     (case jn_disk (get s) of
        None \<Rightarrow> Some (s, None)
      | Some f \<Rightarrow>
          if io_Open io \<noteq> None then Some (s, io_Open io)
          else
            let (txs, failure) = io_Stream io f in
            map_option (\<lambda>s. (upd (jn_writer_update (\<lambda>_. None)) s, failure))
              (load_loop add txs [] (upd (jn_writer_update (\<lambda>_. Some devNull)) s)))"

section \<open>What is journalled is loaded again\<close>

lemma load_loop_batches:
  "\<exists>bs. load_loop (\<lambda>s txs. Some (s @ [txs])) txs batch s = Some (s @ bs)
     \<and> concat bs = batch @ txs \<and> [] \<notin> set bs
     \<and> (length batch \<le> 1024 \<longrightarrow> (\<forall>b \<in> set bs. length b \<le> 1025))"
proof (induction txs arbitrary: batch s)
  case Nil
  show ?case
    by (cases "batch = []") (auto intro: exI [of _ "[batch]"] exI [of _ "[]"])
next
  case (Cons tx txs)
  show ?case
  proof (cases "1024 < length (batch @ [tx])")
    case True
    obtain bs where "load_loop (\<lambda>s txs. Some (s @ [txs])) txs [] (s @ [batch @ [tx]]) = Some ((s @ [batch @ [tx]]) @ bs)"
      "concat bs = txs" "[] \<notin> set bs" "\<forall>b \<in> set bs. length b \<le> 1025"
      using Cons.IH [of "[]" "s @ [batch @ [tx]]"] by auto
    then show ?thesis using True by (intro exI [of _ "(batch @ [tx]) # bs"]) auto
  next
    case False
    then show ?thesis using Cons.IH [of "batch @ [tx]" s] by auto
  qed
qed

text \<open>Without failures \<open>rotate\<close> leaves the encodings of all transactions in the file.\<close>

lemma rotate_loop_ok:
  assumes "\<And>tx. tx \<in> set txs \<Longrightarrow> io_Write io tx = (enc tx, None)" "jn_next j = Some f"
  shows "rotate_loop io txs j = (j\<lparr>jn_next := Some (f @ concat (map enc txs))\<rparr>, None)"
  using assms by (induction txs arbitrary: j f) auto

lemma jn_rotate_ok:
  assumes "\<And>tx. tx \<in> set (concat all) \<Longrightarrow> io_Write io tx = (enc tx, None)"
    "io_Close io = None" "io_Create io = None" "io_Rename io = None" "io_Append io = None"
  shows "jn_rotate io j all =
    (\<lparr>jn_disk = Some (concat (map enc (concat all))), jn_next = None, jn_writer = Some Sink\<rparr>, None)"
  using rotate_loop_ok [OF assms(1), of "concat all" "j\<lparr>jn_writer := None, jn_next := Some []\<rparr>" "[]"] assms(2-)
  by (simp add: jn_rotate_def)

lemma foldl_insert_ok:
  assumes "\<And>tx. tx \<in> set txs \<Longrightarrow> io_Write io tx = (enc tx, None)" "jn_disk j = Some f" "jn_writer j = Some Sink"
  shows "foldl (\<lambda>j tx. fst (jn_insert io j tx)) j txs = j\<lparr>jn_disk := Some (f @ concat (map enc txs))\<rparr>"
  using assms by (induction txs arbitrary: j f) (auto simp: jn_insert_def)

text \<open>
  C32: the journal gives back what was put into it. When no call fails and the stream decodes
  what was encoded, a journal that was regenerated from \<open>all\<close> and then received the
  transactions \<open>txs\<close> hands exactly these transactions, in this order, to the pool that loads
  it, in batches that are not empty and hold at most 1025; and a journal that has never been
  written hands over nothing.
\<close>

theorem journal_roundtrip:
  assumes "\<And>tx. tx \<in> set (concat all @ txs) \<Longrightarrow> io_Write io tx = (enc tx, None)"
    "io_Open io = None" "io_Close io = None" "io_Create io = None" "io_Rename io = None" "io_Append io = None"
    "io_Stream io (concat (map enc (concat all @ txs))) = (concat all @ txs, None)"
    "j' = foldl (\<lambda>j tx. fst (jn_insert io j tx)) (fst (jn_rotate io j all)) txs"
  shows "(\<exists>bs s. jn_load io apfst fst (\<lambda>(j, s) b. Some (j, s @ [b])) (newTxJournal (jn_disk j') None, [])
        = Some (s, None)
      \<and> snd s = bs \<and> concat bs = concat all @ txs \<and> (\<forall>b \<in> set bs. b \<noteq> [] \<and> length b \<le> 1025))
    \<and> jn_load io apfst fst (\<lambda>(j, s) b. Some (j, s @ [b])) (newTxJournal None None, [])
        = Some ((newTxJournal None None, []), None)"
proof -
  have disk: "jn_disk j' = Some (concat (map enc (concat all @ txs)))"
    using jn_rotate_ok [of all io enc j] foldl_insert_ok [of txs io enc "fst (jn_rotate io j all)"] assms(1-6,8) by auto
  have split: "load_loop (\<lambda>(j, s) b. Some (j, s @ [b])) ts b (w, s)
      = map_option (Pair w) (load_loop (\<lambda>s b. Some (s @ [b])) ts b s)" for ts b w and s :: "transaction list list"
    by (induction ts arbitrary: b s) auto
  obtain bs where "load_loop (\<lambda>s b. Some (s @ [b])) (concat all @ txs) [] [] = Some bs"
    "concat bs = concat all @ txs" "[] \<notin> set bs" "\<forall>b \<in> set bs. length b \<le> 1025"
    using load_loop_batches [of "concat all @ txs" "[]" "[]"] by auto
  then show ?thesis using assms(2,7)
    by (auto simp: jn_load_def newTxJournal_def disk split)
qed

definition demo_io :: "nat journal_io" where
  "demo_io = \<lparr>io_Open = None, io_Close = None, io_Create = None,
     io_Write = (\<lambda>tx. ([ucast (tx_Nonce tx)], None)), io_Rename = None, io_Append = None,
     io_Stream = (\<lambda>bs. (map (\<lambda>b. demo_tx (ucast b) 1) bs, None))\<rparr>"

theorem journal_roundtrip_witness:
  "\<exists>s. jn_load demo_io apfst fst (\<lambda>(j, s) b. Some (j, s @ [b]))
       (newTxJournal (jn_disk (fst (jn_insert demo_io
          (fst (jn_rotate demo_io (newTxJournal None None) [[demo_tx 1 1], [demo_tx 2 1]])) (demo_tx 3 1)))) None, [])
     = Some (s, None) \<and> concat (snd s) = [demo_tx 1 1, demo_tx 2 1, demo_tx 3 1]"
proof -
  have "\<exists>bs s. jn_load demo_io apfst fst (\<lambda>(j, s) b. Some (j, s @ [b]))
       (newTxJournal (jn_disk (fst (jn_insert demo_io
          (fst (jn_rotate demo_io (newTxJournal None None) [[demo_tx 1 1], [demo_tx 2 1]])) (demo_tx 3 1)))) None, [])
     = Some (s, None) \<and> snd s = bs \<and> concat bs = concat [[demo_tx 1 1], [demo_tx 2 1]] @ [demo_tx 3 1]
       \<and> (\<forall>b \<in> set bs. b \<noteq> [] \<and> length b \<le> 1025)"
    by (rule journal_roundtrip [where enc = "\<lambda>tx. [ucast (tx_Nonce tx)]" and txs = "[demo_tx 3 1]",
          THEN conjunct1]) (simp_all add: demo_io_def demo_tx_def)
  then show ?thesis by auto
qed

end
