(* ===== verification/Tx_Pool.thy ===== *)
theory Tx_Pool
  imports Tx_Priced Tx_Journal State_Transition "HOL-Library.Monad_Syntax"
begin

text \<open>
  The transaction pool (\<^verbatim>\<open>tx_pool.go\<close>): its configuration, its state and the operations under
  its lock that add, replace, remove and look up transactions. An operation that may panic (a
  nil transaction or list, a slice bound) returns an option, \<open>None\<close> being the panic. What the
  code takes from other packages (the sender recovered from a signature, the fields of a
  transaction that \<^verbatim>\<open>tx_list.go\<close> does not use, the gas schedule, the clock, the order in which a
  map is walked) is the record \<open>pool_env\<close>. Metrics, logging and subscriptions are left out.
\<close>

section \<open>Configuration\<close>

record pool_config =
  pc_Locals :: "address list"
  pc_NoLocals :: bool
  pc_Journal :: string
  pc_Rejournal :: int
  PriceLimit :: u64
  PriceBump :: u64
  AccountSlots :: u64
  GlobalSlots :: u64
  AccountQueue :: u64
  GlobalQueue :: u64
  Lifetime :: int

text \<open>Durations are nanoseconds.\<close>

definition second :: int where
  "second = 1000000000"

definition DefaultTxPoolConfig :: pool_config where
  "DefaultTxPoolConfig = \<lparr>pc_Locals = [], pc_NoLocals = False, pc_Journal = ''transactions.rlp'',
     pc_Rejournal = 3600 * second, PriceLimit = 1, PriceBump = 10, AccountSlots = 16, GlobalSlots = 4096,
     AccountQueue = 64, GlobalQueue = 1024, Lifetime = 3 * 3600 * second\<rparr>"

definition sanitize :: "pool_config \<Rightarrow> pool_config" where
  "sanitize config =
     (let conf = config;
          conf = (if pc_Rejournal conf < second then conf\<lparr>pc_Rejournal := second\<rparr> else conf);
          conf = (if PriceLimit conf < 1 then conf\<lparr>PriceLimit := PriceLimit DefaultTxPoolConfig\<rparr> else conf);
          conf = (if PriceBump conf < 1 then conf\<lparr>PriceBump := PriceBump DefaultTxPoolConfig\<rparr> else conf);
          conf = (if AccountSlots conf < 1 then conf\<lparr>AccountSlots := AccountSlots DefaultTxPoolConfig\<rparr> else conf);
          conf = (if GlobalSlots conf < 1 then conf\<lparr>GlobalSlots := GlobalSlots DefaultTxPoolConfig\<rparr> else conf);
          conf = (if AccountQueue conf < 1 then conf\<lparr>AccountQueue := AccountQueue DefaultTxPoolConfig\<rparr> else conf);
          conf = (if GlobalQueue conf < 1 then conf\<lparr>GlobalQueue := GlobalQueue DefaultTxPoolConfig\<rparr> else conf);
          conf = (if Lifetime conf < 1 then conf\<lparr>Lifetime := Lifetime DefaultTxPoolConfig\<rparr> else conf)
      in conf)"

section \<open>The pool\<close>

text \<open>\<open>PoolTxErr\<close>: the errors of \<^verbatim>\<open>error.go\<close> and of \<^verbatim>\<open>IntrinsicGas\<close>.\<close>

datatype pool_error =
    ErrAlreadyKnown
  | ErrInvalidSender
  | ErrUnderpriced
  | ErrReplaceUnderpriced
  | ErrGasLimit
  | ErrNegativeValue
  | ErrOversizedData
  | PoolTxErr tx_err

datatype tx_status = TxStatusUnknown | TxStatusQueued | TxStatusPending | TxStatusIncluded

text \<open>What the pool reads of a \<^verbatim>\<open>state.StateDB\<close>.\<close>

record pool_state =
  ps_nonce :: "address \<Rightarrow> u64"
  ps_balance :: "address \<Rightarrow> int"

record 'e pool_env =
  pe_Sender :: "transaction \<Rightarrow> address option"
  pe_Value :: "transaction \<Rightarrow> int"
  pe_Data :: "transaction \<Rightarrow> bytes"
  pe_Creates :: "transaction \<Rightarrow> bool"
  pe_gas :: gas_params
  pe_now :: "hash \<Rightarrow> int"
  pe_hashes :: "(hash \<rightharpoonup> transaction) \<Rightarrow> hash list"
  pe_nonces :: "(u64 \<rightharpoonup> transaction) \<Rightarrow> u64 list"
  pe_addrs :: "(address \<rightharpoonup> tx_list) \<Rightarrow> address list"
  pe_set :: "address set \<Rightarrow> address list"
  pe_io :: "'e journal_io"

record pool =
  tp_config :: pool_config
  tp_gasPrice :: int
  tp_istanbul :: bool
  tp_state :: pool_state
  tp_nonces :: tx_noncer
  tp_maxGas :: u64
  tp_locals :: account_set
  tp_journal :: "journal option"
  tp_pending :: "address \<rightharpoonup> tx_list"
  tp_queue :: "address \<rightharpoonup> tx_list"
  tp_beats :: "address \<rightharpoonup> int"
  tp_all :: tx_lookup
  tp_priced :: priced_list
  tp_events :: "transaction list"

text \<open>
  \<^verbatim>\<open>from, _ := types.Sender(pool.signer, tx)\<close>: the zero address when the signature is invalid.
  \<open>tp_events\<close> are the transactions sent on \<^verbatim>\<open>queueTxEventCh\<close>.
\<close>

definition sender :: "'e pool_env \<Rightarrow> transaction \<Rightarrow> address" where
  "sender E tx = (case pe_Sender E tx of None \<Rightarrow> 0 | Some a \<Rightarrow> a)"

definition isLocalTx :: "'e pool_env \<Rightarrow> pool \<Rightarrow> transaction \<Rightarrow> bool" where
  "isLocalTx E p = as_containsTx (pe_Sender E) (tp_locals p)"

text \<open>A loop over a slice whose body may panic.\<close>

fun each :: "('a \<Rightarrow> 's \<Rightarrow> 's option) \<Rightarrow> 'a list \<Rightarrow> 's \<Rightarrow> 's option" where
  "each f [] s = Some s"
| "each f (x # xs) s = f x s \<bind> each f xs"

text \<open>\<^verbatim>\<open>pool.all.Remove(hash)\<close>, and \<^verbatim>\<open>pool.priced.Removed(n)\<close>, which reads \<^verbatim>\<open>pool.all\<close>.\<close>

definition all_Remove :: "hash \<Rightarrow> pool \<Rightarrow> pool option" where
  "all_Remove h p = map_option (\<lambda>t. p\<lparr>tp_all := t\<rparr>) (lk_Remove (tp_all p) h)"

definition priced_Removed :: "'e pool_env \<Rightarrow> nat \<Rightarrow> pool \<Rightarrow> pool" where
  "priced_Removed E n p = p\<lparr>tp_priced := pl_Removed (pe_hashes E) (tp_all p) (tp_priced p) (int n)\<rparr>"

definition all_Add :: "transaction \<Rightarrow> pool \<Rightarrow> pool" where
  "all_Add tx p = p\<lparr>tp_all := lk_Add (tp_all p) tx, tp_priced := pl_Put (tp_priced p) tx\<rparr>"

section \<open>Validation\<close>

definition txMaxSize :: nat where
  "txMaxSize = 4 * txSlotSize"

definition validateTx :: "'e pool_env \<Rightarrow> pool \<Rightarrow> transaction \<Rightarrow> bool \<Rightarrow> pool_error option" where
  "validateTx E p tx isLocal =
     (if tx_Size tx > txMaxSize then Some ErrOversizedData
      else if pe_Value E tx < 0 then Some ErrNegativeValue
      else if tp_maxGas p < tx_Gas tx then Some ErrGasLimit
      else case pe_Sender E tx of
        None \<Rightarrow> Some ErrInvalidSender
      | Some from' \<Rightarrow>
          if \<not> (isLocal \<or> as_contains (tp_locals p) from') \<and> tp_gasPrice p > tx_GasPrice tx
          then Some ErrUnderpriced
          else if ps_nonce (tp_state p) from' > tx_Nonce tx then Some (PoolTxErr ErrNonceTooLow)
          else if ps_balance (tp_state p) from' < tx_Cost tx then Some (PoolTxErr ErrInsufficientFunds)
          else case IntrinsicGas (pe_gas E) (pe_Data E tx) (pe_Creates E tx) True (tp_istanbul p) of
            Inl err \<Rightarrow> Some (PoolTxErr err)
          | Inr intrGas \<Rightarrow> if tx_Gas tx < intrGas then Some (PoolTxErr ErrIntrinsicGas) else None)"

section \<open>Moving a transaction into the queue or the pending list\<close>

definition enqueueTx :: "'e pool_env \<Rightarrow> hash \<Rightarrow> transaction \<Rightarrow> pool \<Rightarrow> (pool \<times> (pool_error + bool)) option" where
  "enqueueTx E h tx p =
     (let from' = sender E tx;
          (l, inserted, old) = tl_Add (case tp_queue p from' of None \<Rightarrow> newTxList False | Some l \<Rightarrow> l) tx
                                 (PriceBump (tp_config p));
          p = p\<lparr>tp_queue := (tp_queue p)(from' \<mapsto> l)\<rparr>
      in if \<not> inserted then Some (p, Inl ErrReplaceUnderpriced)
         else do {
           p \<leftarrow> (case old of
                  None \<Rightarrow> Some p
                | Some o' \<Rightarrow> map_option (priced_Removed E 1) (all_Remove (tx_Hash o') p));
           Some (if lk_Get (tp_all p) h = None then all_Add tx p else p, Inr (old \<noteq> None))
         })"

definition journalTx :: "'e pool_env \<Rightarrow> address \<Rightarrow> transaction \<Rightarrow> pool \<Rightarrow> pool" where
  "journalTx E from' tx p =
     (case tp_journal p of
        None \<Rightarrow> p
      | Some j \<Rightarrow>
          if \<not> as_contains (tp_locals p) from' then p
          else p\<lparr>tp_journal := Some (fst (jn_insert (pe_io E) j tx))\<rparr>)"

definition promoteTx :: "'e pool_env \<Rightarrow> address \<Rightarrow> hash \<Rightarrow> transaction \<Rightarrow> pool \<Rightarrow> (pool \<times> bool) option" where
  "promoteTx E addr h tx p =
     (let (l, inserted, old) = tl_Add (case tp_pending p addr of None \<Rightarrow> newTxList True | Some l \<Rightarrow> l) tx
                                 (PriceBump (tp_config p));
          p = p\<lparr>tp_pending := (tp_pending p)(addr \<mapsto> l)\<rparr>
      in if \<not> inserted
         then map_option (\<lambda>p. (priced_Removed E 1 p, False)) (all_Remove h p)
         else do {
           p \<leftarrow> (case old of
                  None \<Rightarrow> Some p
                | Some o' \<Rightarrow> map_option (priced_Removed E 1) (all_Remove (tx_Hash o') p));
           let p = (if lk_Get (tp_all p) h = None then all_Add tx p else p);
           Some (p\<lparr>tp_beats := (tp_beats p)(addr \<mapsto> pe_now E h),
                   tp_nonces := tn_set (tp_nonces p) addr (tx_Nonce tx + 1)\<rparr>, True)
         })"

section \<open>Removing\<close>

text \<open>The part of \<^verbatim>\<open>removeTx\<close> after the pending list, on the queue of the account.\<close>

definition remove_queued :: "'e pool_env \<Rightarrow> address \<Rightarrow> transaction \<Rightarrow> pool \<Rightarrow> pool" where
  "remove_queued E addr tx p =
     (case tp_queue p addr of
        None \<Rightarrow> p
      | Some future \<Rightarrow>
          let (future, _, _) = tl_Remove (pe_nonces E) future tx
          in p\<lparr>tp_queue := (tp_queue p)(addr := if tl_Empty future then None else Some future)\<rparr>)"

text \<open>The part of \<^verbatim>\<open>removeTx\<close> after the lookup table, on the lists of the account.\<close>

definition remove_listed :: "'e pool_env \<Rightarrow> address \<Rightarrow> transaction \<Rightarrow> pool \<Rightarrow> pool option" where
  "remove_listed E addr tx p =
     (case tp_pending p addr of
        None \<Rightarrow> Some (remove_queued E addr tx p)
      | Some pending \<Rightarrow>
          let (pending, removed, invalids) = tl_Remove (pe_nonces E) pending tx;
              p = p\<lparr>tp_pending := (tp_pending p)(addr \<mapsto> pending)\<rparr>
          in if \<not> removed then Some (remove_queued E addr tx p)
             else do {
               let p = (if tl_Empty pending
                        then p\<lparr>tp_pending := (tp_pending p)(addr := None),
                               tp_beats := (tp_beats p)(addr := None)\<rparr>
                        else p);
               p \<leftarrow> each (\<lambda>tx p. map_option fst (enqueueTx E (tx_Hash tx) tx p)) invalids p;
               Some (p\<lparr>tp_nonces := tn_setIfLower (tp_nonces p) addr (tx_Nonce tx)\<rparr>)
             })"

definition removeTx :: "'e pool_env \<Rightarrow> hash \<Rightarrow> bool \<Rightarrow> pool \<Rightarrow> pool option" where
  "removeTx E h outofbound p =
     (case lk_Get (tp_all p) h of
        None \<Rightarrow> Some p
      | Some tx \<Rightarrow> do {
          p \<leftarrow> all_Remove h p;
          remove_listed E (sender E tx) tx (if outofbound then priced_Removed E 1 p else p)
        })"

section \<open>Adding\<close>

text \<open>
  The part of \<^verbatim>\<open>add\<close> for a full pool: the transaction is refused, or room is made for it.
\<close>

definition make_room :: "'e pool_env \<Rightarrow> transaction \<Rightarrow> bool \<Rightarrow> pool \<Rightarrow> (pool \<times> bool) option" where
  "make_room E tx isLocal p =
     (let limit = GlobalSlots (tp_config p) + GlobalQueue (tp_config p) in
      if (word_of_nat (lk_Count (tp_all p)) :: u64) \<ge> limit then
        (let (priced, under) = (if isLocal then (tp_priced p, False)
                                else pl_Underpriced (tp_all p) (isLocalTx E p) (tp_priced p) tx);
             p = p\<lparr>tp_priced := priced\<rparr>
         in if under then Some (p, False)
            else
              let (priced, dropped) = pl_Discard (tp_all p) (isLocalTx E p) (tp_priced p)
                                        (lk_Slots (tp_all p) - sint limit + numSlots tx)
              in map_option (\<lambda>p. (p, True))
                   (each (\<lambda>tx. removeTx E (tx_Hash tx) False) dropped (p\<lparr>tp_priced := priced\<rparr>)))
      else Some (p, True))"

text \<open>The end of \<^verbatim>\<open>add\<close>, for a transaction that replaces no pending one.\<close>

definition add_queued :: "'e pool_env \<Rightarrow> transaction \<Rightarrow> bool \<Rightarrow> pool \<Rightarrow> (pool \<times> (pool_error + bool)) option" where
  "add_queued E tx isLocal p = do {
     (p, res) \<leftarrow> enqueueTx E (tx_Hash tx) tx p;
     (case res of
        Inl err \<Rightarrow> Some (p, Inl err)
      | Inr replaced \<Rightarrow>
          let from' = sender E tx;
              p = (if isLocal \<and> \<not> as_contains (tp_locals p) from'
                   then p\<lparr>tp_locals := as_add (tp_locals p) from'\<rparr> else p)
          in Some (journalTx E from' tx p, Inr replaced))
   }"

definition add :: "'e pool_env \<Rightarrow> transaction \<Rightarrow> bool \<Rightarrow> pool \<Rightarrow> (pool \<times> (pool_error + bool)) option" where
  "add E tx isLocal p =
     (if lk_Get (tp_all p) (tx_Hash tx) \<noteq> None then Some (p, Inl ErrAlreadyKnown)
      else case validateTx E p tx isLocal of
        Some err \<Rightarrow> Some (p, Inl err)
      | None \<Rightarrow> do {
          (p, room) \<leftarrow> make_room E tx isLocal p;
          if \<not> room then Some (p, Inl ErrUnderpriced)
          else do {
            let from' = sender E tx;
            (case tp_pending p from' of
               Some l \<Rightarrow>
                 if tl_Overlaps l tx then
                   (let (l, inserted, old) = tl_Add l tx (PriceBump (tp_config p));
                        p = p\<lparr>tp_pending := (tp_pending p)(from' \<mapsto> l)\<rparr>
                    in if \<not> inserted then Some (p, Inl ErrReplaceUnderpriced)
                       else do {
                         p \<leftarrow> (case old of
                                None \<Rightarrow> Some p
                              | Some o' \<Rightarrow> map_option (priced_Removed E 1) (all_Remove (tx_Hash o') p));
                         let p = journalTx E from' tx (all_Add tx p);
                         Some (p\<lparr>tp_events := tp_events p @ [tx]\<rparr>, Inr (old \<noteq> None))
                       })
                 else add_queued E tx isLocal p
             | None \<Rightarrow> add_queued E tx isLocal p)
          }
        })"

end
