(* ===== verification/Tx_Pool_Ops.thy ===== *)
theory Tx_Pool_Ops
  imports Tx_Pool
begin

text \<open>
  The pool's interface and its periodic work (\<^verbatim>\<open>tx_pool.go\<close>): adding batches, queries, the price
  threshold, eviction, and what a reorganisation run does: promoting queued transactions,
  demoting pending ones, and cutting both collections down to their limits.
\<close>

section \<open>Adding batches\<close>

fun addTxsLocked_loop :: "'e pool_env \<Rightarrow> bool \<Rightarrow> transaction list \<Rightarrow> pool_error option list \<Rightarrow> account_set \<Rightarrow> pool
    \<Rightarrow> (pool \<times> pool_error option list \<times> account_set) option" where
  "addTxsLocked_loop E isLocal [] errs dirty p = Some (p, errs, dirty)"
| "addTxsLocked_loop E isLocal (tx # txs) errs dirty p = do {
     (p, res) \<leftarrow> add E tx isLocal p;
     (case res of
        Inl err \<Rightarrow> addTxsLocked_loop E isLocal txs (errs @ [Some err]) dirty p
      | Inr replaced \<Rightarrow>
          addTxsLocked_loop E isLocal txs (errs @ [None])
            (if \<not> replaced then as_addTx (pe_Sender E) dirty tx else dirty) p)
   }"

definition addTxsLocked :: "'e pool_env \<Rightarrow> transaction list \<Rightarrow> bool \<Rightarrow> pool
    \<Rightarrow> (pool \<times> pool_error option list \<times> account_set) option" where
  "addTxsLocked E txs isLocal p = addTxsLocked_loop E isLocal txs [] (newAccountSet []) p"

text \<open>
  The loop of \<^verbatim>\<open>addTxs\<close> that puts the new errors into the slots of the result, and its inner
  loop; an index out of range is a panic.
\<close>

function next_nil :: "'x option list \<Rightarrow> nat \<Rightarrow> nat option" where
  "next_nil errs nilSlot =
     (if length errs \<le> nilSlot then None
      else if errs ! nilSlot \<noteq> None then next_nil errs (nilSlot + 1)
      else Some nilSlot)"
  by pat_completeness auto
termination
  by (relation "measure (\<lambda>(errs, i). length errs - i)") auto

declare next_nil.simps [simp del]

fun merge_errs :: "'x option list \<Rightarrow> nat \<Rightarrow> 'x option list \<Rightarrow> 'x option list option" where
  "merge_errs errs nilSlot [] = Some errs"
| "merge_errs errs nilSlot (err # newErrs) = do {
     nilSlot \<leftarrow> next_nil errs nilSlot;
     merge_errs (errs[nilSlot := err]) nilSlot newErrs
   }"

text \<open>
  The result carries the set of accounts whose promotion \<^verbatim>\<open>addTxs\<close> requests, if it requests one.
\<close>

definition addTxs :: "'e pool_env \<Rightarrow> transaction list \<Rightarrow> bool \<Rightarrow> pool
    \<Rightarrow> (pool \<times> pool_error option list \<times> account_set option) option" where
  "addTxs E txs isLocal p =
     (let errs = map (\<lambda>tx. if lk_Get (tp_all p) (tx_Hash tx) \<noteq> None then Some ErrAlreadyKnown else None) txs;
          news = filter (\<lambda>tx. lk_Get (tp_all p) (tx_Hash tx) = None) txs
      in if length news = 0 then Some (p, errs, None)
         else do {
           (p, newErrs, dirtyAddrs) \<leftarrow> addTxsLocked E news isLocal p;
           errs \<leftarrow> merge_errs errs 0 newErrs;
           Some (p, errs, Some dirtyAddrs)
         })"

definition AddLocals :: "'e pool_env \<Rightarrow> transaction list \<Rightarrow> pool
    \<Rightarrow> (pool \<times> pool_error option list \<times> account_set option) option" where
  "AddLocals E txs p = addTxs E txs (\<not> pc_NoLocals (tp_config p)) p"

definition AddRemotes :: "'e pool_env \<Rightarrow> transaction list \<Rightarrow> pool
    \<Rightarrow> (pool \<times> pool_error option list \<times> account_set option) option" where
  "AddRemotes E txs p = addTxs E txs False p"

definition AddLocal :: "'e pool_env \<Rightarrow> transaction \<Rightarrow> pool \<Rightarrow> (pool \<times> pool_error option \<times> account_set option) option" where
  "AddLocal E tx p = map_option (\<lambda>(p, errs, dirty). (p, errs ! 0, dirty)) (AddLocals E [tx] p)"

definition AddRemote :: "'e pool_env \<Rightarrow> transaction \<Rightarrow> pool \<Rightarrow> (pool \<times> pool_error option \<times> account_set option) option" where
  "AddRemote E tx p = map_option (\<lambda>(p, errs, dirty). (p, errs ! 0, dirty)) (AddRemotes E [tx] p)"

section \<open>Queries\<close>

definition tp_GasPrice :: "pool \<Rightarrow> int" where
  "tp_GasPrice p = tp_gasPrice p"

definition tp_Get :: "pool \<Rightarrow> hash \<Rightarrow> transaction option" where
  "tp_Get p h = lk_Get (tp_all p) h"

definition tp_Has :: "pool \<Rightarrow> hash \<Rightarrow> bool" where
  "tp_Has p h = (lk_Get (tp_all p) h \<noteq> None)"

definition holds_nonce :: "(address \<rightharpoonup> tx_list) \<Rightarrow> address \<Rightarrow> u64 \<Rightarrow> bool" where
  "holds_nonce m addr nonce = (case m addr of None \<Rightarrow> False | Some l \<Rightarrow> tl_items l nonce \<noteq> None)"

definition Status1 :: "'e pool_env \<Rightarrow> pool \<Rightarrow> hash \<Rightarrow> tx_status" where
  "Status1 E p h =
     (case tp_Get p h of
        None \<Rightarrow> TxStatusUnknown
      | Some tx \<Rightarrow>
          let from' = sender E tx in
          if holds_nonce (tp_pending p) from' (tx_Nonce tx) then TxStatusPending
          else if holds_nonce (tp_queue p) from' (tx_Nonce tx) then TxStatusQueued
          else TxStatusUnknown)"

definition Status :: "'e pool_env \<Rightarrow> pool \<Rightarrow> hash list \<Rightarrow> tx_status list" where
  "Status E p hashes = map (Status1 E p) hashes"

definition tp_Nonce :: "pool \<Rightarrow> address \<Rightarrow> pool \<times> u64" where
  "tp_Nonce p addr = (let (t, n) = tn_get (tp_nonces p) addr in (p\<lparr>tp_nonces := t\<rparr>, n))"

definition total_len :: "'e pool_env \<Rightarrow> (address \<rightharpoonup> tx_list) \<Rightarrow> nat" where
  "total_len E m = (\<Sum>addr\<leftarrow>pe_addrs E m. tl_Len (the (m addr)))"

definition stats :: "'e pool_env \<Rightarrow> pool \<Rightarrow> nat \<times> nat" where
  "stats E p = (total_len E (tp_pending p), total_len E (tp_queue p))"

text \<open>\<^verbatim>\<open>Flatten\<close> on every list of a map fills the caches; the copy handed out maps each account.\<close>

definition flatten_all :: "'e pool_env \<Rightarrow> (address \<rightharpoonup> tx_list) \<Rightarrow> (address \<rightharpoonup> tx_list) \<times> (address \<rightharpoonup> transaction list)" where
  "flatten_all E m = (map_option (\<lambda>l. fst (tl_Flatten (pe_nonces E) l)) \<circ> m,
                      map_option (\<lambda>l. snd (tl_Flatten (pe_nonces E) l)) \<circ> m)"

definition Pending :: "'e pool_env \<Rightarrow> pool \<Rightarrow> pool \<times> (address \<rightharpoonup> transaction list)" where
  "Pending E p = (let (m, txs) = flatten_all E (tp_pending p) in (p\<lparr>tp_pending := m\<rparr>, txs))"

definition Content :: "'e pool_env \<Rightarrow> pool
    \<Rightarrow> pool \<times> (address \<rightharpoonup> transaction list) \<times> (address \<rightharpoonup> transaction list)" where
  "Content E p =
     (let (m, pending) = flatten_all E (tp_pending p); (m', queued) = flatten_all E (tp_queue p)
      in (p\<lparr>tp_pending := m, tp_queue := m'\<rparr>, pending, queued))"

definition Locals :: "'e pool_env \<Rightarrow> pool \<Rightarrow> pool \<times> address list" where
  "Locals E p = (let (s, addrs) = as_flatten (pe_set E) (tp_locals p) in (p\<lparr>tp_locals := s\<rparr>, addrs))"

text \<open>\<^verbatim>\<open>local\<close>: the transactions of the local accounts, pending ones first.\<close>

definition local_txs :: "'e pool_env \<Rightarrow> pool \<Rightarrow> (address \<rightharpoonup> transaction list)" where
  "local_txs E p addr =
     (if as_contains (tp_locals p) addr \<and> (tp_pending p addr \<noteq> None \<or> tp_queue p addr \<noteq> None)
      then Some ((case tp_pending p addr of None \<Rightarrow> [] | Some l \<Rightarrow> snd (tl_Flatten (pe_nonces E) l))
                 @ (case tp_queue p addr of None \<Rightarrow> [] | Some l \<Rightarrow> snd (tl_Flatten (pe_nonces E) l)))
      else None)"

section \<open>The price threshold and eviction\<close>

definition SetGasPrice :: "'e pool_env \<Rightarrow> int \<Rightarrow> pool \<Rightarrow> pool option" where
  "SetGasPrice E price p =
     (let p = p\<lparr>tp_gasPrice := price\<rparr>;
          (priced, txs) = pl_Cap (tp_all p) (isLocalTx E p) (tp_priced p) price
      in each (\<lambda>tx. removeTx E (tx_Hash tx) False) txs (p\<lparr>tp_priced := priced\<rparr>))"

text \<open>
  Times are nanoseconds since the zero time; their difference saturates. The heartbeat of an
  account without an entry is the zero time.
\<close>

definition time_Sub :: "int \<Rightarrow> int \<Rightarrow> int" where
  "time_Sub a b = max (- (2 ^ 63)) (min (2 ^ 63 - 1) (a - b))"

definition beat :: "pool \<Rightarrow> address \<Rightarrow> int" where
  "beat p addr = (case tp_beats p addr of None \<Rightarrow> 0 | Some t \<Rightarrow> t)"

text \<open>The body of the eviction loop for one account, and the case \<^verbatim>\<open>evict.C\<close> of \<^verbatim>\<open>loop\<close>.\<close>

definition evict_account :: "'e pool_env \<Rightarrow> int \<Rightarrow> address \<Rightarrow> pool \<Rightarrow> pool option" where
  "evict_account E now addr p =
     (case tp_queue p addr of
        None \<Rightarrow> Some p
      | Some l \<Rightarrow>
          if as_contains (tp_locals p) addr then Some p
          else if time_Sub now (beat p addr) > Lifetime (tp_config p) then
            (let (l, txs) = tl_Flatten (pe_nonces E) l
             in each (\<lambda>tx. removeTx E (tx_Hash tx) True) txs (p\<lparr>tp_queue := (tp_queue p)(addr \<mapsto> l)\<rparr>))
          else Some p)"

definition evict :: "'e pool_env \<Rightarrow> int \<Rightarrow> pool \<Rightarrow> pool option" where
  "evict E now p = each (evict_account E now) (pe_addrs E (tp_queue p)) p"

text \<open>The case \<^verbatim>\<open>journal.C\<close> of \<^verbatim>\<open>loop\<close>, and \<^verbatim>\<open>Stop\<close> for the journal.\<close>

definition rejournal :: "'e pool_env \<Rightarrow> ((address \<rightharpoonup> transaction list) \<Rightarrow> transaction list list) \<Rightarrow> pool \<Rightarrow> pool" where
  "rejournal E rng p =
     (case tp_journal p of
        None \<Rightarrow> p
      | Some j \<Rightarrow> p\<lparr>tp_journal := Some (fst (jn_rotate (pe_io E) j (rng (local_txs E p))))\<rparr>)"

definition tp_Stop :: "'e pool_env \<Rightarrow> pool \<Rightarrow> pool" where
  "tp_Stop E p = p\<lparr>tp_journal := map_option (\<lambda>j. fst (jn_close (pe_io E) j)) (tp_journal p)\<rparr>"

section \<open>Promotion\<close>

text \<open>
  A list found in a map is a pointer: every change of it is a change of the map's entry, which
  \<open>put_queue\<close> and \<open>put_pending\<close> write back.
\<close>

abbreviation all_RemoveTxs :: "transaction list \<Rightarrow> pool \<Rightarrow> pool option" where
  "all_RemoveTxs \<equiv> each (\<lambda>tx. all_Remove (tx_Hash tx))"

definition promote_ready :: "'e pool_env \<Rightarrow> address \<Rightarrow> transaction \<Rightarrow> pool \<times> transaction list
    \<Rightarrow> (pool \<times> transaction list) option" where
  "promote_ready E addr tx = (\<lambda>(p, promoted). do {
     (p, ok) \<leftarrow> promoteTx E addr (tx_Hash tx) tx p;
     Some (p, if ok then promoted @ [tx] else promoted)
   })"

definition put_queue :: "address \<Rightarrow> tx_list \<Rightarrow> pool \<Rightarrow> pool" where
  "put_queue addr l p = p\<lparr>tp_queue := (tp_queue p)(addr \<mapsto> l)\<rparr>"

definition put_pending :: "address \<Rightarrow> tx_list \<Rightarrow> pool \<Rightarrow> pool" where
  "put_pending addr l p = p\<lparr>tp_pending := (tp_pending p)(addr \<mapsto> l)\<rparr>"

definition promote_account :: "'e pool_env \<Rightarrow> address \<Rightarrow> pool \<times> transaction list
    \<Rightarrow> (pool \<times> transaction list) option" where
  "promote_account E addr = (\<lambda>(p, promoted).
     (case tp_queue p addr of
        None \<Rightarrow> Some (p, promoted)
      | Some l \<Rightarrow> do {
          (l, forwards) \<leftarrow> tl_Forward l (ps_nonce (tp_state p) addr);
          p \<leftarrow> all_RemoveTxs forwards (put_queue addr l p);
          let (l, drops, _) = tl_Filter (pe_nonces E) l (ps_balance (tp_state p) addr) (tp_maxGas p);
          p \<leftarrow> all_RemoveTxs drops (put_queue addr l p);
          let (p, n) = tp_Nonce p addr;
          (l, readies) \<leftarrow> tl_Ready l n;
          (p, promoted) \<leftarrow> each (promote_ready E addr) readies (put_queue addr l p, promoted);
          (l, caps) \<leftarrow> (if as_contains (tp_locals p) addr then Some (l, [])
                        else tl_Cap l (sint (AccountQueue (tp_config p))));
          p \<leftarrow> all_RemoveTxs caps (put_queue addr l p);
          let p = priced_Removed E (length forwards + length drops + length caps) p;
          Some (if tl_Empty l then p\<lparr>tp_queue := (tp_queue p)(addr := None)\<rparr> else p, promoted)
        }))"

definition promoteExecutables :: "'e pool_env \<Rightarrow> address list \<Rightarrow> pool \<Rightarrow> (pool \<times> transaction list) option" where
  "promoteExecutables E accounts p = each (promote_account E) accounts (p, [])"

section \<open>Demotion\<close>

abbreviation enqueueTxs :: "'e pool_env \<Rightarrow> transaction list \<Rightarrow> pool \<Rightarrow> pool option" where
  "enqueueTxs E \<equiv> each (\<lambda>tx p. map_option fst (enqueueTx E (tx_Hash tx) tx p))"

definition demote_account :: "'e pool_env \<Rightarrow> address \<Rightarrow> pool \<Rightarrow> pool option" where
  "demote_account E addr p =
     (case tp_pending p addr of
        None \<Rightarrow> Some p
      | Some l \<Rightarrow> do {
          let nonce = ps_nonce (tp_state p) addr;
          (l, olds) \<leftarrow> tl_Forward l nonce;
          p \<leftarrow> all_RemoveTxs olds (put_pending addr l p);
          let (l, drops, invalids) = tl_Filter (pe_nonces E) l (ps_balance (tp_state p) addr) (tp_maxGas p);
          p \<leftarrow> all_RemoveTxs drops (put_pending addr l p);
          let p = priced_Removed E (length olds + length drops) p;
          p \<leftarrow> enqueueTxs E invalids p;
          (l, gapped) \<leftarrow> (if 0 < tl_Len l \<and> sm_Get (tl_txs l) nonce = None then tl_Cap l 0 else Some (l, []));
          p \<leftarrow> enqueueTxs E gapped (put_pending addr l p);
          Some (if tl_Empty l
                then p\<lparr>tp_pending := (tp_pending p)(addr := None), tp_beats := (tp_beats p)(addr := None)\<rparr>
                else p)
        })"

definition demoteUnexecutables :: "'e pool_env \<Rightarrow> pool \<Rightarrow> pool option" where
  "demoteUnexecutables E p = each (demote_account E) (pe_addrs E (tp_pending p)) p"

section \<open>Cutting the pending transactions\<close>

text \<open>
  Dropping the last transaction of an offender, the body of both \<^verbatim>\<open>for\<close> loops over offenders.
  \<^verbatim>\<open>pending\<close> is an unsigned counter of its own.
\<close>

definition cap_nonce :: "address \<Rightarrow> transaction \<Rightarrow> pool \<Rightarrow> pool option" where
  "cap_nonce addr tx p =
     map_option (\<lambda>p. p\<lparr>tp_nonces := tn_setIfLower (tp_nonces p) addr (tx_Nonce tx)\<rparr>) (all_Remove (tx_Hash tx) p)"

definition cap_one :: "'e pool_env \<Rightarrow> address \<Rightarrow> pool \<times> u64 \<Rightarrow> (pool \<times> u64) option" where
  "cap_one E addr = (\<lambda>(p, pending).
     (case tp_pending p addr of
        None \<Rightarrow> None
      | Some l \<Rightarrow> do {
          (l, caps) \<leftarrow> tl_Cap l (int (tl_Len l) - 1);
          p \<leftarrow> each (cap_nonce addr) caps (put_pending addr l p);
          Some (priced_Removed E (length caps) p, pending - 1)
        }))"

text \<open>
  \<^verbatim>\<open>pool.pending[addr].Len()\<close>. The loops below take it of accounts found in the map, and no
  step of them deletes an entry.
\<close>

definition pendingLen :: "pool \<Rightarrow> address \<Rightarrow> nat" where
  "pendingLen p addr = (case tp_pending p addr of None \<Rightarrow> 0 | Some l \<Rightarrow> tl_Len l)"

text \<open>The inner loop that brings all but the last offender down to \<open>threshold\<close>.\<close>

partial_function (option) equalize :: "'e pool_env \<Rightarrow> nat \<Rightarrow> address list \<Rightarrow> pool \<times> u64 \<Rightarrow> (pool \<times> u64) option" where
  "equalize E threshold offenders s =
     (if snd s > GlobalSlots (tp_config (fst s)) \<and> pendingLen (fst s) (last (butlast offenders)) > threshold
      then each (cap_one E) (butlast offenders) s \<bind> equalize E threshold offenders
      else Some s)"

text \<open>The first loop, over the spammers in the order the priority queue hands them out.\<close>

fun penalize :: "'e pool_env \<Rightarrow> address list \<Rightarrow> address list \<Rightarrow> pool \<times> u64 \<Rightarrow> (address list \<times> pool \<times> u64) option" where
  "penalize E [] offenders s = Some (offenders, s)"
| "penalize E (offender # spammers) offenders s =
     (if \<not> snd s > GlobalSlots (tp_config (fst s)) then Some (offenders, s)
      else do {
        let offenders = offenders @ [offender];
        s \<leftarrow> (if 1 < length offenders then equalize E (pendingLen (fst s) offender) offenders s else Some s);
        penalize E spammers offenders s
      })"

partial_function (option) shrink_all :: "'e pool_env \<Rightarrow> address list \<Rightarrow> pool \<times> u64 \<Rightarrow> (pool \<times> u64) option" where
  "shrink_all E offenders s =
     (if snd s > GlobalSlots (tp_config (fst s))
         \<and> (word_of_nat (pendingLen (fst s) (last offenders)) :: u64) > AccountSlots (tp_config (fst s))
      then each (cap_one E) offenders s \<bind> shrink_all E offenders
      else Some s)"

text \<open>
  \<open>pops\<close>: the order in which the priority queue of package prque hands out what was pushed.
\<close>

definition spammers :: "'e pool_env \<Rightarrow> pool \<Rightarrow> (address \<times> int) list" where
  "spammers E p = map (\<lambda>addr. (addr, int (pendingLen p addr)))
     (filter (\<lambda>addr. \<not> as_contains (tp_locals p) addr
                \<and> (word_of_nat (pendingLen p addr) :: u64) > AccountSlots (tp_config p))
        (pe_addrs E (tp_pending p)))"

definition truncatePending :: "'e pool_env \<Rightarrow> ((address \<times> int) list \<Rightarrow> address list) \<Rightarrow> pool \<Rightarrow> pool option" where
  "truncatePending E pops p =
     (let pending = (word_of_nat (total_len E (tp_pending p)) :: u64) in
      if pending \<le> GlobalSlots (tp_config p) then Some p
      else do {
        (offenders, s) \<leftarrow> penalize E (pops (spammers E p)) [] (p, pending);
        s \<leftarrow> (if snd s > GlobalSlots (tp_config (fst s)) \<and> 0 < length offenders
              then shrink_all E offenders s else Some s);
        Some (fst s)
      })"

section \<open>Cutting the queue\<close>

text \<open>The loop over one account's transactions from the last one; it stops when \<open>todo\<close> is 0.\<close>

fun drop_tail :: "'e pool_env \<Rightarrow> transaction list \<Rightarrow> u64 \<Rightarrow> pool \<Rightarrow> (pool \<times> u64) option" where
  "drop_tail E [] todo p = Some (p, todo)"
| "drop_tail E (tx # txs) todo p =
     (if \<not> todo > 0 then Some (p, todo)
      else do { p \<leftarrow> removeTx E (tx_Hash tx) True p; drop_tail E txs (todo - 1) p })"

text \<open>The main loop, over the addresses from the last one.\<close>

fun drop_accounts :: "'e pool_env \<Rightarrow> address list \<Rightarrow> u64 \<Rightarrow> pool \<Rightarrow> pool option" where
  "drop_accounts E [] todo p = Some p"
| "drop_accounts E (addr # addresses) todo p =
     (if \<not> todo > 0 then Some p
      else case tp_queue p addr of
        None \<Rightarrow> None
      | Some l \<Rightarrow>
          let size' = (word_of_nat (tl_Len l) :: u64);
              (l, txs) = tl_Flatten (pe_nonces E) l;
              p = p\<lparr>tp_queue := (tp_queue p)(addr \<mapsto> l)\<rparr>
          in if size' \<le> todo then do {
               p \<leftarrow> each (\<lambda>tx. removeTx E (tx_Hash tx) True) txs p;
               drop_accounts E addresses (todo - size') p
             } else do {
               (p, todo) \<leftarrow> drop_tail E (rev txs) todo p;
               drop_accounts E addresses todo p
             })"

text \<open>\<open>srt\<close>: \<^verbatim>\<open>sort.Sort\<close> on accounts with their heartbeats, which leaves the order of ties open.\<close>

definition truncateQueue :: "'e pool_env \<Rightarrow> ((address \<times> int) list \<Rightarrow> (address \<times> int) list) \<Rightarrow> pool \<Rightarrow> pool option" where
  "truncateQueue E srt p =
     (let queued = (word_of_nat (total_len E (tp_queue p)) :: u64) in
      if queued \<le> GlobalQueue (tp_config p) then Some p
      else
        let addresses = map (\<lambda>addr. (addr, beat p addr))
              (filter (\<lambda>addr. \<not> as_contains (tp_locals p) addr) (pe_addrs E (tp_queue p)))
        in drop_accounts E (map fst (rev (srt addresses))) (queued - GlobalQueue (tp_config p)) p)"

end
