(* ===== verification/Tx_Pool_Reorg.thy ===== *)
theory Tx_Pool_Reorg
  imports Tx_Pool_Ops "HOL-Library.Log_Nat"
begin

text \<open>
  The pool and the chain (\<^verbatim>\<open>tx_pool.go\<close>): the reset to a new head, which finds the transactions a
  reorganisation has thrown out, the run that follows a reset or new transactions, the
  background loop that schedules these runs, and the construction of the pool.
\<close>

section \<open>The chain\<close>

record chain_block =
  bl_Hash :: hash
  bl_Number :: u64
  bl_Parent :: hash
  bl_Txs :: "transaction list"

record chain_header =
  hd_Hash :: hash
  hd_ParentHash :: hash
  hd_Number :: int
  hd_Root :: hash
  hd_GasLimit :: u64

text \<open>
  What the pool asks of the chain and of other packages: blocks and states by hash, the head,
  the fork rule, \<^verbatim>\<open>types.TxDifference\<close>, the order of the priority queue, of \<^verbatim>\<open>sort.Sort\<close> and of the
  maps of events and of local transactions, and what converting a float of \<open>2^64\<close> or more to
  64 bits gives, which Go leaves to the machine.
\<close>

record chain_env =
  ce_GetBlock :: "hash \<Rightarrow> u64 \<Rightarrow> chain_block option"
  ce_StateAt :: "hash \<Rightarrow> pool_state option"
  ce_Head :: chain_header
  ce_IsIstanbul :: "int \<Rightarrow> bool"
  ce_Difference :: "transaction list \<Rightarrow> transaction list \<Rightarrow> transaction list"
  ce_pops :: "(address \<times> int) list \<Rightarrow> address list"
  ce_sort :: "(address \<times> int) list \<Rightarrow> (address \<times> int) list"
  ce_events :: "(address \<rightharpoonup> sorted_map) \<Rightarrow> address list"
  ce_locals :: "(address \<rightharpoonup> transaction list) \<Rightarrow> transaction list list"
  ce_wide :: "int \<Rightarrow> u64"

section \<open>The depth of a reorganisation\<close>

text \<open>An integer as a \<^verbatim>\<open>float64\<close>: rounded to 53 bits, ties to even.\<close>

definition f64 :: "int \<Rightarrow> int" where
  "f64 n =
     (let k = nat (bitlen \<bar>n\<bar> - 53); q = \<bar>n\<bar> div 2 ^ k; r = \<bar>n\<bar> mod 2 ^ k;
          q' = (if 2 ^ k < 2 * r \<or> 2 ^ k = 2 * r \<and> odd q then q + 1 else q)
      in if k = 0 then n else sgn n * q' * 2 ^ k)"

definition reorg_depth :: "chain_env \<Rightarrow> u64 \<Rightarrow> u64 \<Rightarrow> u64" where
  "reorg_depth C oldNum newNum =
     (let x = \<bar>f64 (f64 (uint oldNum) - f64 (uint newNum))\<bar> in if x < 2 ^ 64 then word_of_int x else ce_wide C x)"

section \<open>The transactions to put back\<close>

text \<open>
  The first two loops, which walk one chain down to a block number; the inner \<open>None\<close> is the
  missing block that ends the reset. The outer \<open>None\<close> is a walk that never ends.
\<close>

partial_function (option) walk_down :: "chain_env \<Rightarrow> u64 \<Rightarrow> chain_block \<Rightarrow> transaction list
    \<Rightarrow> (chain_block \<times> transaction list) option option" where
  "walk_down C n b txs =
     (if bl_Number b > n then
        (case ce_GetBlock C (bl_Parent b) (bl_Number b - 1) of
           None \<Rightarrow> Some None
         | Some b' \<Rightarrow> walk_down C n b' (txs @ bl_Txs b))
      else Some (Some (b, txs)))"

partial_function (option) walk_both :: "chain_env \<Rightarrow> chain_block \<Rightarrow> chain_block \<Rightarrow> transaction list \<Rightarrow> transaction list
    \<Rightarrow> (transaction list \<times> transaction list) option option" where
  "walk_both C rem new discarded included =
     (if bl_Hash rem \<noteq> bl_Hash new then
        (case ce_GetBlock C (bl_Parent rem) (bl_Number rem - 1) of
           None \<Rightarrow> Some None
         | Some rem' \<Rightarrow>
             (case ce_GetBlock C (bl_Parent new) (bl_Number new - 1) of
                None \<Rightarrow> Some None
              | Some new' \<Rightarrow> walk_both C rem' new' (discarded @ bl_Txs rem) (included @ bl_Txs new)))
      else Some (Some (discarded, included)))"

definition walk_reorg :: "chain_env \<Rightarrow> chain_block \<Rightarrow> chain_block \<Rightarrow> transaction list option option" where
  "walk_reorg C rem new = do {
     r \<leftarrow> walk_down C (bl_Number new) rem [];
     (case r of
        None \<Rightarrow> Some None
      | Some (rem, discarded) \<Rightarrow> do {
          r \<leftarrow> walk_down C (bl_Number rem) new [];
          (case r of
             None \<Rightarrow> Some None
           | Some (new, included) \<Rightarrow> do {
               r \<leftarrow> walk_both C rem new discarded included;
               Some (map_option (\<lambda>(discarded, included). ce_Difference C discarded included) r)
             })
        })
   }"

text \<open>
  The first part of \<^verbatim>\<open>reset\<close>: \<open>None\<close> is a panic, \<open>Some None\<close> the early return. A new head that is
  nil, or whose block is missing, is dereferenced.
\<close>

definition reset_reinject :: "chain_env \<Rightarrow> chain_header option \<Rightarrow> chain_header option \<Rightarrow> transaction list option option" where
  "reset_reinject C oldHead newHead =
     (case oldHead of
        None \<Rightarrow> Some (Some [])
      | Some old \<Rightarrow>
          (case newHead of
             None \<Rightarrow> None
           | Some new \<Rightarrow>
               if hd_Hash old = hd_ParentHash new then Some (Some [])
               else let oldNum = (word_of_int (hd_Number old) :: u64); newNum = (word_of_int (hd_Number new) :: u64) in
               if reorg_depth C oldNum newNum > 64 then Some (Some [])
               else (case ce_GetBlock C (hd_Hash old) oldNum of
                       None \<Rightarrow> Some None
                     | Some rem \<Rightarrow>
                         (case ce_GetBlock C (hd_Hash new) newNum of
                            None \<Rightarrow> None
                          | Some head \<Rightarrow> walk_reorg C rem head))))"

definition reset :: "'e pool_env \<Rightarrow> chain_env \<Rightarrow> chain_header option \<Rightarrow> chain_header option \<Rightarrow> pool \<Rightarrow> pool option" where
  "reset E C oldHead newHead p = do {
     r \<leftarrow> reset_reinject C oldHead newHead;
     (case r of
        None \<Rightarrow> Some p
      | Some reinject \<Rightarrow>
          let newHead = (case newHead of None \<Rightarrow> ce_Head C | Some h \<Rightarrow> h) in
          (case ce_StateAt C (hd_Root newHead) of
             None \<Rightarrow> Some p
           | Some statedb \<Rightarrow> do {
               (p, _, _) \<leftarrow> addTxsLocked E reinject False
                  (p\<lparr>tp_state := statedb, tp_nonces := newTxNoncer (ps_nonce statedb), tp_maxGas := hd_GasLimit newHead\<rparr>);
               Some (p\<lparr>tp_istanbul := ce_IsIstanbul C (hd_Number newHead + 1)\<rparr>)
             }))
   }"

section \<open>A run\<close>

type_synonym tx_events = "address \<rightharpoonup> sorted_map"

definition put_event :: "'e pool_env \<Rightarrow> tx_events \<Rightarrow> transaction \<Rightarrow> tx_events" where
  "put_event E events tx =
     (let addr = sender E tx
      in events(addr \<mapsto> sm_Put (case events addr of None \<Rightarrow> newTxSortedMap | Some m \<Rightarrow> m) tx))"

text \<open>The loop over the events after a reset: what the new state has already seen is dropped.\<close>

definition prune_event :: "address \<Rightarrow> pool \<times> tx_events \<Rightarrow> (pool \<times> tx_events) option" where
  "prune_event addr = (\<lambda>(p, events).
     (case events addr of
        None \<Rightarrow> Some (p, events)
      | Some m \<Rightarrow> do {
          let (p, n) = tp_Nonce p addr;
          (m, _) \<leftarrow> sm_Forward m n;
          Some (p, if sm_Len m = 0 then events(addr := None) else events(addr \<mapsto> m))
        }))"

text \<open>The loop that sets the pending nonces; the last of an empty list panics.\<close>

definition set_nonce :: "'e pool_env \<Rightarrow> address \<Rightarrow> pool \<Rightarrow> pool option" where
  "set_nonce E addr p =
     (case tp_pending p addr of
        None \<Rightarrow> Some p
      | Some l \<Rightarrow>
          let (l, txs) = tl_Flatten (pe_nonces E) l; p = put_pending addr l p
          in if txs = [] then None
             else Some (p\<lparr>tp_nonces := tn_set (tp_nonces p) addr (tx_Nonce (last txs) + 1)\<rparr>))"

definition set_nonces :: "'e pool_env \<Rightarrow> pool \<Rightarrow> pool option" where
  "set_nonces E p = each (set_nonce E) (pe_addrs E (tp_pending p)) p"

text \<open>The transactions of the event that is sent, if one is.\<close>

definition event_txs :: "'e pool_env \<Rightarrow> chain_env \<Rightarrow> tx_events \<Rightarrow> transaction list option" where
  "event_txs E C events =
     (if 0 < card (dom events)
      then Some (concat (map (\<lambda>addr. snd (sm_Flatten (pe_nonces E) (the (events addr)))) (ce_events C events)))
      else None)"

type_synonym reset_request = "chain_header option \<times> chain_header option"

definition runReorg :: "'e pool_env \<Rightarrow> chain_env \<Rightarrow> reset_request option \<Rightarrow> account_set option \<Rightarrow> tx_events \<Rightarrow> pool
    \<Rightarrow> (pool \<times> transaction list option) option" where
  "runReorg E C reset_req dirtyAccounts events p = do {
     let promoteAddrs = (case dirtyAccounts of None \<Rightarrow> [] | Some d \<Rightarrow> snd (as_flatten (pe_set E) d));
     (p, events, promoteAddrs) \<leftarrow> (case reset_req of
         None \<Rightarrow> Some (p, events, promoteAddrs)
       | Some (oldHead, newHead) \<Rightarrow> do {
           p \<leftarrow> reset E C oldHead newHead p;
           (p, events) \<leftarrow> each prune_event (ce_events C events) (p, events);
           Some (p, events, pe_addrs E (tp_queue p))
         });
     (p, promoted) \<leftarrow> promoteExecutables E promoteAddrs p;
     p \<leftarrow> (if reset_req \<noteq> None then demoteUnexecutables E p else Some p);
     p \<leftarrow> truncatePending E (ce_pops C) p;
     p \<leftarrow> truncateQueue E (ce_sort C) p;
     p \<leftarrow> set_nonces E p;
     Some (p, event_txs E C (foldl (put_event E) events promoted))
   }"

section \<open>The background loop\<close>

text \<open>
  The local variables of \<^verbatim>\<open>scheduleReorgLoop\<close>; \<open>sc_cur\<close> says that \<open>curDone\<close> is not nil, a run is under
  way. The messages it receives, in the order of its select, and the arguments of a run.
\<close>

record scheduler =
  sc_cur :: bool
  sc_launch :: bool
  sc_reset :: "reset_request option"
  sc_dirty :: "account_set option"
  sc_events :: tx_events

datatype sched_msg =
    ReqReset reset_request
  | ReqPromote account_set
  | QueueTx transaction
  | RunDone
  | Shutdown

type_synonym sched_run = "reset_request option \<times> account_set option \<times> tx_events"

definition sched_init :: scheduler where
  "sched_init = \<lparr>sc_cur = False, sc_launch = False, sc_reset = None, sc_dirty = None, sc_events = Map.empty\<rparr>"

text \<open>The head of the loop: the next run is launched unless one is under way.\<close>

definition sched_next :: "scheduler \<Rightarrow> scheduler \<times> sched_run option" where
  "sched_next s =
     (if \<not> sc_cur s \<and> sc_launch s
      then (\<lparr>sc_cur = True, sc_launch = False, sc_reset = None, sc_dirty = None, sc_events = Map.empty\<rparr>,
            Some (sc_reset s, sc_dirty s, sc_events s))
      else (s, None))"

text \<open>
  The select: a run's end is received only while one is under way (a nil channel never is), and
  a shutdown leaves the loop. \<open>None\<close>: the message cannot be received; \<open>Some None\<close>: the loop is left.
\<close>

definition sched_recv :: "'e pool_env \<Rightarrow> sched_msg \<Rightarrow> scheduler \<Rightarrow> scheduler option option" where
  "sched_recv E msg s =
     (case msg of
        ReqReset req \<Rightarrow>
          Some (Some (s\<lparr>sc_reset := Some (case sc_reset s of None \<Rightarrow> req | Some (oldHead, _) \<Rightarrow> (oldHead, snd req)),
                        sc_launch := True\<rparr>))
      | ReqPromote req \<Rightarrow>
          Some (Some (s\<lparr>sc_dirty := Some (case sc_dirty s of None \<Rightarrow> req | Some d \<Rightarrow> as_merge d req), sc_launch := True\<rparr>))
      | QueueTx tx \<Rightarrow> Some (Some (s\<lparr>sc_events := put_event E (sc_events s) tx\<rparr>))
      | RunDone \<Rightarrow> if sc_cur s then Some (Some (s\<lparr>sc_cur := False\<rparr>)) else None
      | Shutdown \<Rightarrow> Some None)"

text \<open>The loop over a sequence of messages: the runs it launches, and where it stands.\<close>

fun sched_loop :: "'e pool_env \<Rightarrow> sched_msg list \<Rightarrow> scheduler \<Rightarrow> (sched_run list \<times> scheduler option) option" where
  "sched_loop E [] s = Some ([], Some s)"
| "sched_loop E (msg # msgs) s =
     (let (s, run) = sched_next s; runs = (case run of None \<Rightarrow> [] | Some r \<Rightarrow> [r]) in
      case sched_recv E msg s of
        None \<Rightarrow> None
      | Some None \<Rightarrow> Some (runs, None)
      | Some (Some s) \<Rightarrow> map_option (\<lambda>(rs, s). (runs @ rs, s)) (sched_loop E msgs s))"

text \<open>The case of the pool's own loop for a new head, which is remembered as the next old one.\<close>

definition on_chain_head :: "chain_header \<Rightarrow> chain_header option \<Rightarrow> chain_header \<times> sched_msg option" where
  "on_chain_head head ev = (case ev of None \<Rightarrow> (head, None) | Some new \<Rightarrow> (new, Some (ReqReset (Some head, Some new))))"

section \<open>Construction\<close>

text \<open>
  The struct literal of \<^verbatim>\<open>NewTxPool\<close> with its local accounts. \<open>st\<close> stands for the state before the
  first reset, which is nil.
\<close>

definition fresh_pool :: "pool_config \<Rightarrow> pool_state \<Rightarrow> pool" where
  "fresh_pool config st =
     \<lparr>tp_config = config, tp_gasPrice = uint (PriceLimit config), tp_istanbul = False, tp_state = st,
      tp_nonces = newTxNoncer (ps_nonce st), tp_maxGas = 0,
      tp_locals = foldl as_add (newAccountSet []) (pc_Locals config), tp_journal = None,
      tp_pending = Map.empty, tp_queue = Map.empty, tp_beats = Map.empty, tp_all = newTxLookup,
      tp_priced = newTxPricedList, tp_events = []\<rparr>"

text \<open>
  The end of an \<^verbatim>\<open>addTxs\<close> that waits for its run: the events queued so far go into it.
\<close>

definition await_run :: "'e pool_env \<Rightarrow> chain_env \<Rightarrow> pool \<times> pool_error option list \<times> account_set option
    \<Rightarrow> (pool \<times> pool_error option list) option" where
  "await_run E C = (\<lambda>(p, errs, dirty).
     (case dirty of
        None \<Rightarrow> Some (p, errs)
      | Some d \<Rightarrow>
          map_option (\<lambda>(p, sent). (p, errs))
            (runReorg E C None (Some d) (foldl (put_event E) Map.empty (tp_events p)) (p\<lparr>tp_events := []\<rparr>))))"

definition AddLocalsSync :: "'e pool_env \<Rightarrow> chain_env \<Rightarrow> pool \<Rightarrow> transaction list \<Rightarrow> pool option" where
  "AddLocalsSync E C p txs = map_option fst (AddLocals E txs p \<bind> await_run E C)"

definition AddRemotesSync :: "'e pool_env \<Rightarrow> chain_env \<Rightarrow> transaction list \<Rightarrow> pool \<Rightarrow> (pool \<times> pool_error option list) option" where
  "AddRemotesSync E C txs p = AddRemotes E txs p \<bind> await_run E C"

definition addRemoteSync :: "'e pool_env \<Rightarrow> chain_env \<Rightarrow> transaction \<Rightarrow> pool \<Rightarrow> (pool \<times> pool_error option) option" where
  "addRemoteSync E C tx p = map_option (\<lambda>(p, errs). (p, errs ! 0)) (AddRemotesSync E C [tx] p)"

definition NewTxPool :: "'e pool_env \<Rightarrow> chain_env \<Rightarrow> pool_config \<Rightarrow> pool_state \<Rightarrow> journal \<Rightarrow> pool option" where
  "NewTxPool E C config st files = do {
     let config = sanitize config;
     p \<leftarrow> reset E C None (Some (ce_Head C)) (fresh_pool config st);
     if \<not> pc_NoLocals config \<and> pc_Journal config \<noteq> ''''
     then do {
       (p, err) \<leftarrow> jn_load (pe_io E) (\<lambda>f p. p\<lparr>tp_journal := map_option f (tp_journal p)\<rparr>) (\<lambda>p. the (tp_journal p))
                    (AddLocalsSync E C) (p\<lparr>tp_journal := Some (newTxJournal (jn_disk files) (jn_next files))\<rparr>);
       Some (rejournal E (ce_locals C) p)
     }
     else Some p
   }"

end
