(* ===== verification/Tx_Pool_Inv.thy ===== *)
theory Tx_Pool_Inv
  imports Tx_Pool_Ops
begin

text \<open>
  The consistency of the pool. A transaction is known by its hash exactly if it stands in the
  pending or the queued list of its sender, under its nonce, and in one of them only. The
  operations pass through states in which some known transactions stand in no list: the
  invariant names them by a set of floating transactions, so that every step of an operation
  has a law of its own and the laws compose.
\<close>

section \<open>Taking transactions out of an account's list\<close>

definition tl_splits :: "tx_list \<Rightarrow> tx_list \<Rightarrow> transaction list \<Rightarrow> bool" where
  "tl_splits l l' txs \<longleftrightarrow> tl_inv l' \<and> tl_strict l' = tl_strict l \<and> tl_items l' \<subseteq>\<^sub>m tl_items l \<and> distinct txs
     \<and> set txs = {tx. tl_items l (tx_Nonce tx) = Some tx \<and> tl_items l' (tx_Nonce tx) = None}"

lemma distinct_flat:
  assumes "sm_keyed items"
  shows "distinct (sm_flat items)"
  using sorted_flat [OF assms] by (metis distinct_map distinct_sorted_list_of_set)

lemma tl_splitsI:
  assumes "tl_inv l" "tl_inv l'" "tl_strict l' = tl_strict l" "tl_items l' \<subseteq>\<^sub>m tl_items l"
    "mset txs + mset (sm_flat (tl_items l')) = mset (sm_flat (tl_items l))"
  shows "tl_splits l l' txs"
proof -
  note keyed = tl_invD(3) [OF assms(1)] tl_invD(3) [OF assms(2)]
  have eq: "mset (txs @ sm_flat (tl_items l')) = mset (sm_flat (tl_items l))" using assms(5) by simp
  have d: "distinct (txs @ sm_flat (tl_items l'))"
    using mset_eq_imp_distinct_iff [OF eq] distinct_flat [OF keyed(1)] by simp
  have s: "set txs \<union> set (sm_flat (tl_items l')) = set (sm_flat (tl_items l))"
    using mset_eq_setD [OF eq] by simp
  have "tx \<in> set txs \<longleftrightarrow> tl_items l (tx_Nonce tx) = Some tx \<and> tl_items l' (tx_Nonce tx) = None" for tx
  proof -
    have in_l: "tx \<in> set (sm_flat (tl_items l)) \<longleftrightarrow> tl_items l (tx_Nonce tx) = Some tx"
      by (rule set_flat [OF keyed(1)])
    have in_l': "tx \<in> set (sm_flat (tl_items l')) \<longleftrightarrow> tl_items l' (tx_Nonce tx) = Some tx"
      by (rule set_flat [OF keyed(2)])
    have sub: "tl_items l' (tx_Nonce tx) = None \<or> tl_items l' (tx_Nonce tx) = tl_items l (tx_Nonce tx)"
      using assms(4) by (metis domIff map_le_def)
    have "set txs \<inter> set (sm_flat (tl_items l')) = {}" using d by simp
    with s in_l in_l' sub show ?thesis by (metis (no_types, lifting) Un_iff disjoint_iff option.distinct(1))
  qed
  with d assms(2-4) show ?thesis by (auto simp: tl_splits_def)
qed

lemma restrict_le: "m |` S \<subseteq>\<^sub>m m"
  by (auto simp: map_le_def restrict_map_def split: if_splits)

lemma tl_Forward_splits:
  assumes "tl_inv l"
  shows "\<exists>l' olds. tl_Forward l t = Some (l', olds) \<and> tl_splits l l' olds \<and> tl_items l' = tl_items l |` {k. t \<le> k}"
proof -
  note inv = tl_invD [OF assms]
  obtain m' where m': "sm_Forward (tl_txs l) t = Some (m', filter (\<lambda>tx. tx_Nonce tx < t) (sm_flat (tl_items l)))"
    "sm_items m' = tl_items l |` {k. t \<le> k}" "sm_inv m'"
    using sm_Forward_correct [OF inv(1)] by blast
  have flat: "sm_flat (sm_items m') = filter (\<lambda>tx. t \<le> tx_Nonce tx) (sm_flat (tl_items l))"
    using sm_flat_filter [OF inv(3), of "\<lambda>k. t \<le> k"] by (simp add: m'(2))
  have "tl_splits l (l\<lparr>tl_txs := m'\<rparr>) (filter (\<lambda>tx. tx_Nonce tx < t) (sm_flat (tl_items l)))"
    using mset_filter_split [of "\<lambda>tx. tx_Nonce tx < t" "sm_flat (tl_items l)"] m'(2) flat
    by (intro tl_splitsI [OF assms tl_inv_sub [OF assms m'(3) m'(2)]])
      (simp_all add: restrict_le not_less)
  with m' show ?thesis by (auto simp: tl_Forward_def)
qed

lemma tl_Filter_strict: "tl_Filter rng l c g = (l', drops, invalids) \<Longrightarrow> tl_strict l' = tl_strict l"
  by (auto simp: tl_Filter_def Let_def split: if_splits prod.splits)

lemma tl_Filter_splits:
  assumes "map_order rng" "tl_inv l" "tl_Filter rng l c g = (l', drops, invalids)"
  shows "tl_splits l l' (drops @ invalids)"
  using tl_Filter_correct(2-4) [OF assms] tl_Filter_strict [OF assms(3)]
  by (intro tl_splitsI [OF assms(2)]) (simp_all add: restrict_le)

lemma tl_Filter_lax: "tl_Filter rng l c g = (l', drops, invalids) \<Longrightarrow> \<not> tl_strict l \<Longrightarrow> invalids = []"
  by (auto simp: tl_Filter_def Let_def split: if_splits prod.splits)

lemma tl_Cap_splits:
  assumes "tl_inv l" "0 \<le> n"
  shows "\<exists>l' caps. tl_Cap l n = Some (l', caps) \<and> tl_splits l l' caps
    \<and> sm_flat (tl_items l') = take (nat n) (sm_flat (tl_items l))
    \<and> caps = rev (drop (nat n) (sm_flat (tl_items l)))"
proof -
  note inv = tl_invD [OF assms(1)]
  obtain m' where m': "sm_Cap (tl_txs l) n = Some (m', rev (drop (nat n) (sm_flat (tl_items l))))"
    "sm_flat (sm_items m') = take (nat n) (sm_flat (tl_items l))"
    "sm_items m' = tl_items l |` set (take (nat n) (sorted_list_of_set (dom (tl_items l))))" "sm_inv m'"
    using sm_Cap_correct [OF inv(1) assms(2)] by blast
  have "tl_splits l (l\<lparr>tl_txs := m'\<rparr>) (rev (drop (nat n) (sm_flat (tl_items l))))"
  proof (rule tl_splitsI [OF assms(1) tl_inv_sub [OF assms(1) m'(4) m'(3)]])
    show "tl_items (l\<lparr>tl_txs := m'\<rparr>) \<subseteq>\<^sub>m tl_items l" by (simp add: m'(3) restrict_le)
    have "mset (drop (nat n) xs) + mset (take (nat n) xs) = mset xs" for xs :: "transaction list"
      by (metis append_take_drop_id mset_append union_commute)
    then show "mset (rev (drop (nat n) (sm_flat (tl_items l)))) + mset (sm_flat (tl_items (l\<lparr>tl_txs := m'\<rparr>)))
        = mset (sm_flat (tl_items l))" by (simp add: m'(2))
  qed simp
  with m'(1,2) show ?thesis by (auto simp: tl_Cap_def)
qed

lemma tl_Remove_strict: "tl_Remove rng l tx = (l', ok, invalids) \<Longrightarrow> tl_strict l' = tl_strict l"
  by (auto simp: tl_Remove_def Let_def split: if_splits prod.splits)

lemma tl_Remove_lax: "tl_Remove rng l tx = (l', ok, invalids) \<Longrightarrow> \<not> (ok \<and> tl_strict l) \<Longrightarrow> invalids = []"
  by (auto simp: tl_Remove_def Let_def split: if_splits prod.splits)

lemma tl_Remove_splits:
  assumes "map_order rng" "tl_inv l" "tl_items l (tx_Nonce tx) = Some tx"
    "tl_Remove rng l tx = (l', ok, invalids)"
  shows "ok" "tl_splits l l' (tx # invalids)"
proof -
  note r = tl_Remove_correct [OF assms(1,2,4)]
  note keyed = tl_invD(3) [OF assms(2)]
  show ok: "ok" using r(1) assms(3) by (simp add: domIff)
  have inv_set: "t \<in> set invalids \<longleftrightarrow> tl_strict l \<and> tl_items l (tx_Nonce t) = Some t \<and> tx_Nonce tx < tx_Nonce t" for t
    using r(3) ok set_flat [OF keyed, of t] mset_eq_setD [of invalids "filter (\<lambda>t. tx_Nonce t > tx_Nonce tx) (sm_flat (tl_items l))"]
    by (auto split: if_splits)
  have "distinct invalids"
    using r(3) ok distinct_flat [OF keyed]
      mset_eq_imp_distinct_iff [of invalids "filter (\<lambda>t. tx_Nonce t > tx_Nonce tx) (sm_flat (tl_items l))"]
    by (cases "tl_strict l") auto
  moreover have "tx \<notin> set invalids" by (auto simp: inv_set)
  moreover have "t \<in> set (tx # invalids) \<longleftrightarrow> tl_items l (tx_Nonce t) = Some t \<and> tl_items l' (tx_Nonce t) = None" for t
    using assms(3) ok
    by (cases "tx_Nonce t" "tx_Nonce tx" rule: linorder_cases) (auto simp: inv_set r(2) restrict_map_def)
  ultimately show "tl_splits l l' (tx # invalids)"
    using r(2,4) tl_Remove_strict [OF assms(4)] by (auto simp: tl_splits_def restrict_le)
qed

lemma tl_Remove_absent:
  assumes "map_order rng" "tl_inv l" "tl_items l (tx_Nonce tx) = None" "tl_Remove rng l tx = (l', ok, invalids)"
  shows "\<not> ok \<and> l' = l"
  using tl_Remove_correct(1) [OF assms(1,2,4)] assms(3,4)
  by (auto simp: domIff tl_Remove_def sm_Remove_def Let_def split: if_splits prod.splits)

lemma tl_Ready_splits:
  assumes "tl_inv l"
  shows "\<exists>l' ready. tl_Ready l n = Some (l', ready) \<and> tl_splits l l' ready"
proof -
  note inv = tl_invD [OF assms]
  let ?r = "readyNonces (tl_items l) n" and ?ks = "sorted_list_of_set (dom (tl_items l))"
  obtain m' where m': "sm_Ready (tl_txs l) n = Some (m', map (\<lambda>k. the (tl_items l k)) ?r)"
    "sm_items m' = tl_items l |` (- set ?r)" "sm_inv m'"
    using sm_Ready_correct [OF inv(1)] by blast
  have fin: "finite (dom (tl_items l))" using inv(3) by (simp add: sm_keyed_def)
  have pre: "\<exists>i. ?r = take i ?ks"
    using nonceRun_prefix [of "hd ?ks" ?ks] take_0 [of ?ks] unfolding readyNonces_def Let_def by metis
  then have d: "distinct ?r" by (metis distinct_sorted_list_of_set distinct_take)
  have sub: "set ?r \<subseteq> dom (tl_items l)"
    using pre fin by (metis set_sorted_list_of_set set_take_subset)
  have at: "tl_items l k = Some (the (tl_items l k)) \<and> tx_Nonce (the (tl_items l k)) = k" if "k \<in> set ?r" for k
  proof -
    from that sub obtain tx where "tl_items l k = Some tx" by blast
    then show ?thesis using inv(6) by auto
  qed
  have "distinct (map (\<lambda>k. the (tl_items l k)) ?r)"
    using d at by (auto simp: distinct_map intro!: inj_onI) metis
  moreover have "set (map (\<lambda>k. the (tl_items l k)) ?r) =
      {tx. tl_items l (tx_Nonce tx) = Some tx \<and> tl_items (l\<lparr>tl_txs := m'\<rparr>) (tx_Nonce tx) = None}"
  proof (rule set_eqI)
    fix tx
    have "tx \<in> set (map (\<lambda>k. the (tl_items l k)) ?r) \<longleftrightarrow> tx_Nonce tx \<in> set ?r \<and> tl_items l (tx_Nonce tx) = Some tx"
      using at by (auto simp: image_iff) (metis option.sel)+
    then show "tx \<in> set (map (\<lambda>k. the (tl_items l k)) ?r) \<longleftrightarrow>
      tx \<in> {tx. tl_items l (tx_Nonce tx) = Some tx \<and> tl_items (l\<lparr>tl_txs := m'\<rparr>) (tx_Nonce tx) = None}"
      by (auto simp: m'(2) restrict_map_def)
  qed
  ultimately have "tl_splits l (l\<lparr>tl_txs := m'\<rparr>) (map (\<lambda>k. the (tl_items l k)) ?r)"
    using tl_inv_sub [OF assms m'(3) m'(2)] by (auto simp: tl_splits_def m'(2) restrict_le)
  with m'(1) show ?thesis by (auto simp: tl_Ready_def)
qed

lemma tl_Flatten_flat:
  assumes "map_order rng" "tl_inv l" "tl_Flatten rng l = (l', txs)"
  shows "txs = sm_flat (tl_items l)" "tl_items l' = tl_items l" "tl_inv l'" "tl_strict l' = tl_strict l"
proof -
  obtain m where f: "sm_Flatten rng (tl_txs l) = (m, txs)" and l': "l' = l\<lparr>tl_txs := m\<rparr>"
    using assms(3) by (auto simp: tl_Flatten_def split: prod.splits)
  note r = sm_Flatten_correct [OF assms(1) tl_invD(1) [OF assms(2)] f]
  show "txs = sm_flat (tl_items l)" by (rule r(1))
  show "tl_items l' = tl_items l" "tl_strict l' = tl_strict l" by (simp_all add: l' r(2))
  show "tl_inv l'" using assms(2) r(2,3) by (simp add: tl_inv_def l')
qed

lemma tl_Len_flat: "tl_inv l \<Longrightarrow> tl_Len l = length (sm_flat (tl_items l))"
  by (simp add: tl_Len_def sm_Len_def sm_flat_def)

lemma tl_Empty_iff: "tl_inv l \<Longrightarrow> tl_Empty l \<longleftrightarrow> tl_items l = Map.empty"
  using tl_invD(3) [of l] by (auto simp: tl_Empty_def tl_Len_def sm_Len_def sm_keyed_def)

section \<open>The invariant\<close>

definition slot :: "'e pool_env \<Rightarrow> transaction \<Rightarrow> address \<times> u64" where
  "slot E tx = (sender E tx, tx_Nonce tx)"

definition listed :: "(address \<rightharpoonup> tx_list) \<Rightarrow> transaction set" where
  "listed m = {tx. \<exists>a l. m a = Some l \<and> tl_items l (tx_Nonce tx) = Some tx}"

definition lists_ok :: "'e pool_env \<Rightarrow> bool \<Rightarrow> (address \<rightharpoonup> tx_list) \<Rightarrow> bool" where
  "lists_ok E strict m \<longleftrightarrow> finite (dom m) \<and> (\<forall>a l. m a = Some l \<longrightarrow> tl_inv l \<and> tl_strict l = strict
     \<and> (\<forall>tx. tl_items l (tx_Nonce tx) = Some tx \<longrightarrow> sender E tx = a))"

definition known :: "pool \<Rightarrow> transaction set" where
  "known p = ran (lk_all (tp_all p))"

definition price_ok :: "transaction set \<Rightarrow> pool \<Rightarrow> bool" where
  "price_ok D p \<longleftrightarrow> lk_inv (tp_all p) \<and> is_heap priceLess (pl_items (tp_priced p))
     \<and> known p \<subseteq> set (pl_items (tp_priced p)) \<union> D"

text \<open>
  \<open>price_ok\<close>: the price heap holds every known transaction, up to those in \<open>D\<close>, which an
  operation has taken out of the heap and is about to remove. \<open>R\<close>: the known transactions; \<open>F\<close>: the floating ones among them.\<close>

definition placed :: "'e pool_env \<Rightarrow> transaction set \<Rightarrow> transaction set \<Rightarrow> (address \<rightharpoonup> tx_list) \<Rightarrow> (address \<rightharpoonup> tx_list) \<Rightarrow> bool" where
  "placed E R F P Q \<longleftrightarrow> inj_on (slot E) R \<and> lists_ok E True P \<and> lists_ok E False Q
     \<and> R = listed P \<union> listed Q \<union> F \<and> listed P \<inter> listed Q = {} \<and> F \<inter> (listed P \<union> listed Q) = {}"

definition pinv :: "'e pool_env \<Rightarrow> transaction set \<Rightarrow> transaction set \<Rightarrow> pool \<Rightarrow> bool" where
  "pinv E D F p \<longleftrightarrow> price_ok D p \<and> placed E (known p) F (tp_pending p) (tp_queue p)"

definition no_empty :: "(address \<rightharpoonup> tx_list) \<Rightarrow> bool" where
  "no_empty m \<longleftrightarrow> (\<forall>a l. m a = Some l \<longrightarrow> tl_items l \<noteq> Map.empty)"

definition no_empty_but :: "address \<Rightarrow> (address \<rightharpoonup> tx_list) \<Rightarrow> bool" where
  "no_empty_but a m \<longleftrightarrow> (\<forall>b l. b \<noteq> a \<longrightarrow> m b = Some l \<longrightarrow> tl_items l \<noteq> Map.empty)"

definition consistent_but :: "'e pool_env \<Rightarrow> transaction set \<Rightarrow> pool \<Rightarrow> bool" where
  "consistent_but E D p \<longleftrightarrow> pinv E D {} p \<and> no_empty (tp_pending p) \<and> no_empty (tp_queue p)"

definition consistent :: "'e pool_env \<Rightarrow> pool \<Rightarrow> bool" where
  "consistent E p \<longleftrightarrow> consistent_but E {} p"

lemma lists_okD:
  assumes "lists_ok E strict m" "m a = Some l"
  shows "tl_inv l" "tl_strict l = strict" "tl_items l (tx_Nonce tx) = Some tx \<Longrightarrow> sender E tx = a"
  using assms by (auto simp: lists_ok_def)

text \<open>Replacing the list of one account.\<close>

lemma listed_iff:
  assumes "lists_ok E strict m"
  shows "tx \<in> listed m \<longleftrightarrow> (\<exists>l. m (sender E tx) = Some l \<and> tl_items l (tx_Nonce tx) = Some tx)"
  using assms by (auto simp: listed_def lists_ok_def)

lemma put_splits:
  assumes ok: "lists_ok E strict m" and l: "m a = Some l" and sp: "tl_splits l l' txs"
  shows "lists_ok E strict (m(a \<mapsto> l'))" "listed (m(a \<mapsto> l')) \<union> set txs = listed m"
    "listed (m(a \<mapsto> l')) \<inter> set txs = {}"
proof -
  have sub: "tl_items l k = Some tx" if "tl_items l' k = Some tx" for k tx
    using sp that by (auto simp: tl_splits_def map_le_def dom_def)
  show ok': "lists_ok E strict (m(a \<mapsto> l'))"
    using ok l sp sub by (auto simp: lists_ok_def tl_splits_def)
  have mem: "tx \<in> set txs \<longleftrightarrow> tl_items l (tx_Nonce tx) = Some tx \<and> tl_items l' (tx_Nonce tx) = None" for tx
    using sp by (simp add: tl_splits_def)
  have "(tx \<in> listed (m(a \<mapsto> l')) \<longleftrightarrow> tx \<in> listed m \<and> tx \<notin> set txs) \<and> (tx \<in> set txs \<longrightarrow> tx \<in> listed m)" for tx
  proof (cases "sender E tx = a")
    case True
    have "tl_items l' (tx_Nonce tx) = None \<or> tl_items l' (tx_Nonce tx) = tl_items l (tx_Nonce tx)"
      using sp by (metis domIff map_le_def tl_splits_def)
    then show ?thesis using True l unfolding listed_iff [OF ok] listed_iff [OF ok'] mem by auto
  next
    case False
    then have "tx \<notin> set txs" using mem lists_okD(3) [OF ok l] by blast
    with False show ?thesis unfolding listed_iff [OF ok] listed_iff [OF ok'] by simp
  qed
  then show "listed (m(a \<mapsto> l')) \<union> set txs = listed m" "listed (m(a \<mapsto> l')) \<inter> set txs = {}" by blast+
qed

lemma put_adds:
  assumes ok: "lists_ok E strict m" and a: "a = sender E tx"
    and l': "tl_inv l'" "tl_strict l' = strict"
    and items: "tl_items l' = (case m a of None \<Rightarrow> Map.empty | Some l \<Rightarrow> tl_items l)(tx_Nonce tx \<mapsto> tx)"
  shows "lists_ok E strict (m(a \<mapsto> l'))"
    "listed (m(a \<mapsto> l')) = insert tx {t \<in> listed m. slot E t \<noteq> slot E tx}"
proof -
  show ok': "lists_ok E strict (m(a \<mapsto> l'))"
  proof -
    have "sender E t = a" if "tl_items l' (tx_Nonce t) = Some t" for t
    proof (cases "tx_Nonce t = tx_Nonce tx")
      case True
      with that show ?thesis by (simp add: items a)
    next
      case False
      with that obtain l where "m a = Some l" "tl_items l (tx_Nonce t) = Some t"
        unfolding items by (cases "m a") auto
      then show ?thesis by (rule lists_okD(3) [OF ok])
    qed
    then have "\<forall>b l. (m(a \<mapsto> l')) b = Some l \<longrightarrow> tl_inv l \<and> tl_strict l = strict
        \<and> (\<forall>t. tl_items l (tx_Nonce t) = Some t \<longrightarrow> sender E t = b)"
      using lists_okD [OF ok] l' by (simp split: if_splits)
    moreover have "finite (dom (m(a \<mapsto> l')))" using ok by (simp add: lists_ok_def)
    ultimately show ?thesis unfolding lists_ok_def by blast
  qed
  have "t \<in> listed (m(a \<mapsto> l')) \<longleftrightarrow> t = tx \<or> t \<in> listed m \<and> slot E t \<noteq> slot E tx" for t
    unfolding listed_iff [OF ok] listed_iff [OF ok']
    by (cases "m a") (auto simp: items a slot_def)
  then show "listed (m(a \<mapsto> l')) = insert tx {t \<in> listed m. slot E t \<noteq> slot E tx}" by blast
qed

lemma put_same:
  assumes "lists_ok E strict m" "m a = Some l" "tl_inv l'" "tl_strict l' = tl_strict l" "tl_items l' = tl_items l"
  shows "lists_ok E strict (m(a \<mapsto> l'))" "listed (m(a \<mapsto> l')) = listed m"
proof -
  show ok: "lists_ok E strict (m(a \<mapsto> l'))" using assms by (auto simp: lists_ok_def)
  have "tx \<in> listed (m(a \<mapsto> l')) \<longleftrightarrow> tx \<in> listed m" for tx
    unfolding listed_iff [OF ok] listed_iff [OF assms(1)] using assms(2,5) by auto
  then show "listed (m(a \<mapsto> l')) = listed m" by blast
qed

lemma drop_empty:
  assumes "lists_ok E strict m" "\<And>l. m a = Some l \<Longrightarrow> tl_items l = Map.empty"
  shows "lists_ok E strict (m(a := None))" "listed (m(a := None)) = listed m"
proof -
  show ok: "lists_ok E strict (m(a := None))" using assms(1) by (auto simp: lists_ok_def)
  have "tx \<in> listed (m(a := None)) \<longleftrightarrow> tx \<in> listed m" for tx
    unfolding listed_iff [OF ok] listed_iff [OF assms(1)] using assms(2) by auto
  then show "listed (m(a := None)) = listed m" by blast
qed

section \<open>Laws of the single steps\<close>

definition env_ok :: "'e pool_env \<Rightarrow> bool" where
  "env_ok E \<longleftrightarrow> map_order (pe_hashes E) \<and> map_order (pe_nonces E) \<and> map_order (pe_addrs E)"

lemma env_okD:
  "env_ok E \<Longrightarrow> map_order (pe_hashes E)" "env_ok E \<Longrightarrow> map_order (pe_nonces E)" "env_ok E \<Longrightarrow> map_order (pe_addrs E)"
  by (simp_all add: env_ok_def)

lemma pinv_frame [frame_simps]:
  "pinv E D F (p\<lparr>tp_gasPrice := a\<rparr>) = pinv E D F p" "pinv E D F (p\<lparr>tp_istanbul := b\<rparr>) = pinv E D F p"
  "pinv E D F (p\<lparr>tp_state := c\<rparr>) = pinv E D F p" "pinv E D F (p\<lparr>tp_nonces := d\<rparr>) = pinv E D F p"
  "pinv E D F (p\<lparr>tp_maxGas := e\<rparr>) = pinv E D F p" "pinv E D F (p\<lparr>tp_locals := f\<rparr>) = pinv E D F p"
  "pinv E D F (p\<lparr>tp_journal := g\<rparr>) = pinv E D F p" "pinv E D F (p\<lparr>tp_beats := h\<rparr>) = pinv E D F p"
  "pinv E D F (p\<lparr>tp_events := i\<rparr>) = pinv E D F p"
  by (simp_all add: pinv_def price_ok_def known_def)

lemma known_hash: "price_ok D p \<Longrightarrow> tx \<in> known p \<longleftrightarrow> lk_all (tp_all p) (tx_Hash tx) = Some tx"
  by (auto simp: price_ok_def lk_inv_def known_def ran_def)

lemma ran_keyed: "\<forall>h x. m h = Some x \<longrightarrow> f x = h \<Longrightarrow> x \<in> ran m \<longleftrightarrow> m (f x) = Some x"
  by (auto simp: ran_def)

lemma lk_Remove_known:
  assumes "price_ok D p" "tx \<in> known p"
  shows "\<exists>t. lk_Remove (tp_all p) (tx_Hash tx) = Some t \<and> price_ok D (p\<lparr>tp_all := t\<rparr>)
    \<and> known (p\<lparr>tp_all := t\<rparr>) = known p - {tx} \<and> lk_all t = (lk_all (tp_all p))(tx_Hash tx := None)"
proof -
  have at: "lk_all (tp_all p) (tx_Hash tx) = Some tx" using assms known_hash by blast
  then obtain t where t: "lk_Remove (tp_all p) (tx_Hash tx) = Some t"
    "lk_all t = (lk_all (tp_all p))(tx_Hash tx := None)" by (simp add: lk_Remove_def)
  have inv: "lk_inv t" using lk_inv_Remove [OF _ t(1)] assms(1) by (simp add: price_ok_def)
  have "known (p\<lparr>tp_all := t\<rparr>) = known p - {tx}"
  proof (rule set_eqI)
    fix x
    have keyed: "\<forall>h x. lk_all (tp_all p) h = Some x \<longrightarrow> tx_Hash x = h"
      using assms(1) by (simp add: price_ok_def lk_inv_def)
    then have keyed': "\<forall>h x. lk_all t h = Some x \<longrightarrow> tx_Hash x = h" by (simp add: t(2))
    show "x \<in> known (p\<lparr>tp_all := t\<rparr>) \<longleftrightarrow> x \<in> known p - {tx}"
      using at unfolding known_def by (simp add: ran_keyed [OF keyed] ran_keyed [OF keyed']) (auto simp: t(2))
  qed
  then show ?thesis using t inv assms(1) by (auto simp: price_ok_def)
qed

lemma pl_Removed_ok:
  assumes "map_order rng" "lk_inv all" "is_heap priceLess (pl_items l)"
  shows "is_heap priceLess (pl_items (pl_Removed rng all l n))"
    "set (pl_items (pl_Removed rng all l n)) = set (pl_items l) \<or> ran (lk_all all) \<subseteq> set (pl_items (pl_Removed rng all l n))"
proof -
  have fin: "finite (dom (lk_all all))" using assms(2) by (simp add: lk_inv_def)
  note h = price.Init_correct [of "lk_Range rng all"]
  have "set (heap_Init priceLess (lk_Range rng all)) = set (lk_Range rng all)"
    using h by (metis mset_eq_setD)
  moreover have "ran (lk_all all) \<subseteq> set (lk_Range rng all)"
    using map_orderD(2) [OF assms(1) fin] by (auto simp: lk_Range_def ran_def image_iff dom_def) (metis option.sel)
  ultimately show "is_heap priceLess (pl_items (pl_Removed rng all l n))"
    "set (pl_items (pl_Removed rng all l n)) = set (pl_items l) \<or> ran (lk_all all) \<subseteq> set (pl_items (pl_Removed rng all l n))"
    using assms(3) h by (auto simp: pl_Removed_def Let_def)
qed

lemma price_ok_Removed:
  assumes "env_ok E" "price_ok D p"
  shows "price_ok D (priced_Removed E n p)"
  using pl_Removed_ok [OF env_okD(1) [OF assms(1)], of "tp_all p" "tp_priced p" "int n"] assms(2)
  by (auto simp: price_ok_def priced_Removed_def known_def)

lemma priced_Removed_fields [simp]:
  "tp_all (priced_Removed E n p) = tp_all p" "tp_pending (priced_Removed E n p) = tp_pending p"
  "tp_queue (priced_Removed E n p) = tp_queue p" "tp_locals (priced_Removed E n p) = tp_locals p"
  "tp_config (priced_Removed E n p) = tp_config p" "tp_state (priced_Removed E n p) = tp_state p"
  "tp_nonces (priced_Removed E n p) = tp_nonces p" "tp_beats (priced_Removed E n p) = tp_beats p"
  "tp_maxGas (priced_Removed E n p) = tp_maxGas p" "known (priced_Removed E n p) = known p"
  by (simp_all add: priced_Removed_def known_def)

lemma pinv_Removed: "env_ok E \<Longrightarrow> pinv E D F p \<Longrightarrow> pinv E D F (priced_Removed E n p)"
  using price_ok_Removed [of E D p n] by (simp add: pinv_def)

lemma price_ok_Add:
  assumes "price_ok D p" "lk_all (tp_all p) (tx_Hash tx) = None"
  shows "price_ok D (all_Add tx p)" "known (all_Add tx p) = insert tx (known p)"
proof -
  have "set (heap_Push priceLess (pl_items (tp_priced p)) tx) = insert tx (set (pl_items (tp_priced p)))"
    "is_heap priceLess (heap_Push priceLess (pl_items (tp_priced p)) tx)"
    using price.Push_correct [of "pl_items (tp_priced p)" tx] assms(1)
      mset_eq_setD [of "heap_Push priceLess (pl_items (tp_priced p)) tx" "tx # pl_items (tp_priced p)"]
    by (simp_all add: price_ok_def)
  moreover show "known (all_Add tx p) = insert tx (known p)"
    using assms(2) by (simp add: known_def all_Add_def lk_Add_def)
  ultimately show "price_ok D (all_Add tx p)"
    using assms lk_inv_Add [of "tp_all p" tx]
    by (auto simp: price_ok_def all_Add_def pl_Put_def)
qed

lemma all_Add_fields [simp]:
  "tp_pending (all_Add tx p) = tp_pending p" "tp_queue (all_Add tx p) = tp_queue p"
  "tp_locals (all_Add tx p) = tp_locals p" "tp_config (all_Add tx p) = tp_config p"
  "tp_nonces (all_Add tx p) = tp_nonces p" "tp_beats (all_Add tx p) = tp_beats p" "tp_state (all_Add tx p) = tp_state p"
  by (simp_all add: all_Add_def)

text \<open>Taking transactions out of a list leaves them floating.\<close>

lemma placed_take:
  assumes "placed E R F P Q"
  shows "lists_ok E True P' \<Longrightarrow> listed P' \<union> S = listed P \<Longrightarrow> listed P' \<inter> S = {} \<Longrightarrow>
      placed E R (F \<union> S) P' Q \<and> S \<inter> F = {}"
    "lists_ok E False Q' \<Longrightarrow> listed Q' \<union> S = listed Q \<Longrightarrow> listed Q' \<inter> S = {} \<Longrightarrow>
      placed E R (F \<union> S) P Q' \<and> S \<inter> F = {}"
proof -
  have *: "R = P1 \<union> Q1 \<union> (F \<union> S) \<and> P1 \<inter> Q1 = {} \<and> (F \<union> S) \<inter> (P1 \<union> Q1) = {} \<and> S \<inter> F = {}"
    if "R = (P1 \<union> S) \<union> Q1 \<union> F" "(P1 \<union> S) \<inter> Q1 = {}" "F \<inter> ((P1 \<union> S) \<union> Q1) = {}" "P1 \<inter> S = {}"
    for P1 Q1 :: "transaction set"
    using that(2-4) unfolding that(1) by auto
  show "placed E R (F \<union> S) P' Q \<and> S \<inter> F = {}"
    if new: "lists_ok E True P'" "listed P' \<union> S = listed P" "listed P' \<inter> S = {}"
  proof -
    have "R = (listed P' \<union> S) \<union> listed Q \<union> F" "(listed P' \<union> S) \<inter> listed Q = {}"
      "F \<inter> ((listed P' \<union> S) \<union> listed Q) = {}"
      unfolding new(2) using assms by (simp_all add: placed_def)
    note * [OF this new(3)]
    then show ?thesis using assms new(1) unfolding placed_def by (elim conjE, intro conjI) assumption+
  qed
  show "placed E R (F \<union> S) P Q' \<and> S \<inter> F = {}"
    if new: "lists_ok E False Q'" "listed Q' \<union> S = listed Q" "listed Q' \<inter> S = {}"
  proof -
    have "R = (listed Q' \<union> S) \<union> listed P \<union> F" "(listed Q' \<union> S) \<inter> listed P = {}"
      "F \<inter> ((listed Q' \<union> S) \<union> listed P) = {}"
      unfolding new(2) using assms by (simp_all add: placed_def Un_ac Int_ac)
    from * [OF this new(3)]
    have "R = listed P \<union> listed Q' \<union> (F \<union> S) \<and> listed P \<inter> listed Q' = {}
      \<and> (F \<union> S) \<inter> (listed P \<union> listed Q') = {} \<and> S \<inter> F = {}" by (simp only: Un_ac Int_ac)
    then show ?thesis using assms new(1) unfolding placed_def by (elim conjE, intro conjI) assumption+
  qed
qed

lemma placed_forget:
  assumes "placed E R F P Q" "tx \<in> F"
  shows "placed E (R - {tx}) (F - {tx}) P Q"
proof -
  have "P1 \<union> Q1 \<union> F - {tx} = P1 \<union> Q1 \<union> (F - {tx})" if "F \<inter> (P1 \<union> Q1) = {}" for P1 Q1
    using that assms(2) by auto
  from this [of "listed P" "listed Q"] assms show ?thesis
    unfolding placed_def by (auto intro: inj_on_subset)
qed

lemma put_pending_law:
  assumes "pinv E D F p" "tp_pending p a = Some l" "tl_splits l l' txs"
  shows "pinv E D (F \<union> set txs) (put_pending a l' p)" "set txs \<inter> F = {}"
proof -
  have ok: "lists_ok E True (tp_pending p)" using assms(1) by (simp add: pinv_def placed_def)
  note put = put_splits [OF ok assms(2,3)]
  have "placed E (known p) (F \<union> set txs) ((tp_pending p)(a \<mapsto> l')) (tp_queue p) \<and> set txs \<inter> F = {}"
    using placed_take(1) [OF _ put] assms(1) unfolding pinv_def by blast
  then show "pinv E D (F \<union> set txs) (put_pending a l' p)" "set txs \<inter> F = {}"
    using assms(1) by (simp_all add: pinv_def put_pending_def known_def price_ok_def)
qed

lemma put_queue_law:
  assumes "pinv E D F p" "tp_queue p a = Some l" "tl_splits l l' txs"
  shows "pinv E D (F \<union> set txs) (put_queue a l' p)" "set txs \<inter> F = {}"
proof -
  have ok: "lists_ok E False (tp_queue p)" using assms(1) by (simp add: pinv_def placed_def)
  note put = put_splits [OF ok assms(2,3)]
  have "placed E (known p) (F \<union> set txs) (tp_pending p) ((tp_queue p)(a \<mapsto> l')) \<and> set txs \<inter> F = {}"
    using placed_take(2) [OF _ put] assms(1) unfolding pinv_def by blast
  then show "pinv E D (F \<union> set txs) (put_queue a l' p)" "set txs \<inter> F = {}"
    using assms(1) by (simp_all add: pinv_def put_queue_def known_def price_ok_def)
qed

text \<open>A floating transaction is forgotten.\<close>

lemma all_Remove_law:
  assumes "pinv E D F p" "tx \<in> F"
  shows "\<exists>t. all_Remove (tx_Hash tx) p = Some (p\<lparr>tp_all := t\<rparr>) \<and> pinv E D (F - {tx}) (p\<lparr>tp_all := t\<rparr>)
    \<and> known (p\<lparr>tp_all := t\<rparr>) = known p - {tx}"
proof -
  have "price_ok D p" "tx \<in> known p" using assms by (auto simp: pinv_def placed_def)
  then obtain t where t: "lk_Remove (tp_all p) (tx_Hash tx) = Some t" "price_ok D (p\<lparr>tp_all := t\<rparr>)"
    "known (p\<lparr>tp_all := t\<rparr>) = known p - {tx}" using lk_Remove_known by blast
  moreover have "placed E (known p - {tx}) (F - {tx}) (tp_pending p) (tp_queue p)"
    using assms(1) by (intro placed_forget [OF _ assms(2)]) (simp add: pinv_def)
  ultimately show ?thesis by (auto simp: all_Remove_def pinv_def)
qed

lemma all_RemoveTxs_law:
  assumes "pinv E D F p" "distinct txs" "set txs \<subseteq> F"
  shows "\<exists>t. all_RemoveTxs txs p = Some (p\<lparr>tp_all := t\<rparr>) \<and> pinv E D (F - set txs) (p\<lparr>tp_all := t\<rparr>)
    \<and> known (p\<lparr>tp_all := t\<rparr>) = known p - set txs"
  using assms
proof (induction txs arbitrary: p F)
  case Nil
  then show ?case by (intro exI [of _ "tp_all p"]) simp
next
  case (Cons tx txs)
  then obtain t where t: "all_Remove (tx_Hash tx) p = Some (p\<lparr>tp_all := t\<rparr>)" "pinv E D (F - {tx}) (p\<lparr>tp_all := t\<rparr>)"
    "known (p\<lparr>tp_all := t\<rparr>) = known p - {tx}" using all_Remove_law [of E D F p tx] by auto
  obtain t' where "all_RemoveTxs txs (p\<lparr>tp_all := t\<rparr>) = Some (p\<lparr>tp_all := t\<rparr>\<lparr>tp_all := t'\<rparr>)"
    "pinv E D (F - {tx} - set txs) (p\<lparr>tp_all := t\<rparr>\<lparr>tp_all := t'\<rparr>)"
    "known (p\<lparr>tp_all := t\<rparr>\<lparr>tp_all := t'\<rparr>) = known p - {tx} - set txs"
    using Cons.IH [OF t(2)] Cons.prems(2,3) unfolding t(3) by auto
  moreover have "F - {tx} - set txs = F - set (tx # txs)" "known p - {tx} - set txs = known p - set (tx # txs)" by auto
  ultimately show ?case by (intro exI [of _ t']) (simp add: t(1))
qed

text \<open>A transaction is put into an account's list.\<close>

lemma tl_Add_strict: "tl_Add l tx bump = (l', inserted, old) \<Longrightarrow> tl_strict l' = tl_strict l"
  by (auto simp: tl_Add_def Let_def split: if_splits)

lemma add_list:
  assumes ok: "lists_ok E strict m"
    and add: "tl_Add (case m (sender E tx) of None \<Rightarrow> newTxList strict | Some l \<Rightarrow> l) tx bump = (l', inserted, old)"
  shows "inserted \<Longrightarrow> lists_ok E strict (m(sender E tx \<mapsto> l'))
      \<and> listed (m(sender E tx \<mapsto> l')) = insert tx {t \<in> listed m. slot E t \<noteq> slot E tx}
      \<and> (\<forall>t. old = Some t \<longleftrightarrow> t \<in> listed m \<and> slot E t = slot E tx) \<and> tl_items l' \<noteq> Map.empty"
    "\<not> inserted \<Longrightarrow> m(sender E tx \<mapsto> l') = m \<and> (\<exists>t \<in> listed m. slot E t = slot E tx)"
proof -
  let ?l = "case m (sender E tx) of None \<Rightarrow> newTxList strict | Some l \<Rightarrow> l"
  let ?i = "case m (sender E tx) of None \<Rightarrow> Map.empty | Some l \<Rightarrow> tl_items l"
  have inv: "tl_inv ?l" and st: "tl_strict ?l = strict"
    using lists_okD [OF ok] tl_inv_new [of strict] by (auto split: option.splits simp: newTxList_def)
  have items: "tl_items ?l = ?i" by (auto simp: newTxList_def newTxSortedMap_def split: option.splits)
  note r = tl_Add_correct [OF inv add]
  have at: "?i (tx_Nonce tx) = Some t \<longleftrightarrow> t \<in> listed m \<and> slot E t = slot E tx" for t
  proof (cases "m (sender E tx)")
    case None
    then show ?thesis unfolding listed_iff [OF ok] by (auto simp: slot_def)
  next
    case (Some l)
    show ?thesis
      using lists_okD [OF ok Some] tl_invD(6) [OF lists_okD(1) [OF ok Some], of "tx_Nonce tx" t] Some
      unfolding listed_iff [OF ok] by (auto simp: slot_def)
  qed
  show "inserted \<Longrightarrow> lists_ok E strict (m(sender E tx \<mapsto> l'))
      \<and> listed (m(sender E tx \<mapsto> l')) = insert tx {t \<in> listed m. slot E t \<noteq> slot E tx}
      \<and> (\<forall>t. old = Some t \<longleftrightarrow> t \<in> listed m \<and> slot E t = slot E tx) \<and> tl_items l' \<noteq> Map.empty"
  proof -
    assume "inserted"
    with r(2) have i: "tl_items l' = ?i(tx_Nonce tx \<mapsto> tx)" "old = ?i (tx_Nonce tx)" by (simp_all add: items)
    have "tl_strict l' = strict" using tl_Add_strict [OF add] st by simp
    from put_adds [OF ok refl r(4) this i(1)] i at show ?thesis by auto
  qed
  show "m(sender E tx \<mapsto> l') = m \<and> (\<exists>t \<in> listed m. slot E t = slot E tx)" if not_ins: "\<not> inserted"
  proof -
    have l': "l' = ?l" using r(3) not_ins by simp
    obtain o' where o': "?i (tx_Nonce tx) = Some o'" using r(1) not_ins by (auto simp: items)
    then have "m (sender E tx) = Some ?l" by (auto split: option.splits)
    then show ?thesis using at o' by (auto simp: l')
  qed
qed

lemma placed_give:
  assumes "placed E R F P Q" "tx \<in> F"
  shows "{t \<in> listed P. slot E t \<noteq> slot E tx} = listed P" "{t \<in> listed Q. slot E t \<noteq> slot E tx} = listed Q"
    "lists_ok E True P' \<Longrightarrow> listed P' = insert tx (listed P) \<Longrightarrow> placed E R (F - {tx}) P' Q"
    "lists_ok E False Q' \<Longrightarrow> listed Q' = insert tx (listed Q) \<Longrightarrow> placed E R (F - {tx}) P Q'"
proof -
  have inj: "inj_on (slot E) R" using assms(1) unfolding placed_def by (rule conjunct1)
  have R: "R = listed P \<union> listed Q \<union> F" and dj: "F \<inter> (listed P \<union> listed Q) = {}"
    "listed P \<inter> listed Q = {}"
    and ok: "lists_ok E True P" "lists_ok E False Q"
    using assms(1) by (simp_all add: placed_def)
  have diff: "slot E t \<noteq> slot E tx" if "t \<in> listed P \<union> listed Q" for t
  proof
    assume "slot E t = slot E tx"
    moreover have "t \<in> R" "tx \<in> R" using that assms(2) by (auto simp: R)
    ultimately have "t = tx" using inj by (auto dest: inj_onD)
    with that assms(2) dj(1) show False by blast
  qed
  then show "{t \<in> listed P. slot E t \<noteq> slot E tx} = listed P" "{t \<in> listed Q. slot E t \<noteq> slot E tx} = listed Q"
    by blast+
  have notin: "tx \<notin> listed P" "tx \<notin> listed Q" using dj(1) assms(2) by blast+
  have new: "X \<union> Y \<union> F = insert tx X \<union> Y \<union> (F - {tx}) \<and> insert tx X \<inter> Y = {} \<and> (F - {tx}) \<inter> (insert tx X \<union> Y) = {}"
    if "F \<inter> (X \<union> Y) = {}" "X \<inter> Y = {}" for X Y
    using that assms(2) by auto
  show "placed E R (F - {tx}) P' Q" if "lists_ok E True P'" "listed P' = insert tx (listed P)"
    unfolding placed_def that(2) using that(1) ok(2) inj R new [OF dj] by (intro conjI) simp_all
  show "placed E R (F - {tx}) P Q'" if "lists_ok E False Q'" "listed Q' = insert tx (listed Q)"
    unfolding placed_def that(2) using that(1) ok(1) inj R new [of "listed Q" "listed P"] dj
    by (intro conjI) (simp_all add: Un_ac Int_ac)
qed

lemma floating_known: "pinv E D F p \<Longrightarrow> tx \<in> F \<Longrightarrow> lk_Get (tp_all p) (tx_Hash tx) = Some tx"
  using known_hash [of D p tx] by (auto simp: pinv_def placed_def lk_Get_def)

text \<open>A floating transaction goes into the queue, or into the pending list, and replaces nothing.\<close>

lemma enqueue_law:
  assumes "pinv E D F p" "tx \<in> F"
  shows "\<exists>l. enqueueTx E (tx_Hash tx) tx p = Some (put_queue (sender E tx) l p, Inr False)
    \<and> pinv E D (F - {tx}) (put_queue (sender E tx) l p) \<and> tl_items l \<noteq> Map.empty
    \<and> listed (tp_queue (put_queue (sender E tx) l p)) = insert tx (listed (tp_queue p))"
proof -
  have pl: "placed E (known p) F (tp_pending p) (tp_queue p)" and ok: "lists_ok E False (tp_queue p)"
    using assms(1) by (auto simp: pinv_def placed_def)
  obtain l inserted old where add: "tl_Add (case tp_queue p (sender E tx) of None \<Rightarrow> newTxList False | Some l \<Rightarrow> l)
      tx (PriceBump (tp_config p)) = (l, inserted, old)" by (metis prod_cases3)
  note give = placed_give [OF pl assms(2)]
  have ins: "inserted" using add_list(2) [OF ok add] give(2) by blast
  note a = add_list(1) [OF ok add ins]
  have listed: "listed ((tp_queue p)(sender E tx \<mapsto> l)) = insert tx (listed (tp_queue p))"
    using a give(2) by simp
  have old: "old = None" using a give(2) by (cases old) auto
  have "pinv E D (F - {tx}) (put_queue (sender E tx) l p)"
    using give(4) [OF _ listed] a assms(1)
    by (simp add: pinv_def put_queue_def price_ok_def known_def)
  then show ?thesis
    using add ins old floating_known [OF assms] listed a
    by (intro exI [of _ l]) (simp add: enqueueTx_def put_queue_def)
qed

lemma no_empty_put:
  "no_empty_but a m \<Longrightarrow> tl_items l \<noteq> Map.empty \<Longrightarrow> no_empty_but a (m(b \<mapsto> l))"
  "no_empty m \<Longrightarrow> tl_items l \<noteq> Map.empty \<Longrightarrow> no_empty (m(b \<mapsto> l))"
  "no_empty_but a m \<Longrightarrow> no_empty_but a (m(a \<mapsto> l))"
  "no_empty_but a m \<Longrightarrow> no_empty (m(a := None))"
  "no_empty m \<Longrightarrow> no_empty_but a m"
  by (auto simp: no_empty_def no_empty_but_def)

lemma no_empty_rest:
  assumes "no_empty_but a m" "m a = Some l" "tl_items l \<noteq> Map.empty"
  shows "no_empty m"
  using assms unfolding no_empty_def no_empty_but_def by (metis option.inject)

lemma enqueueTxs_law:
  assumes "pinv E D F p" "distinct txs" "set txs \<subseteq> F"
  shows "\<exists>q. enqueueTxs E txs p = Some (p\<lparr>tp_queue := q\<rparr>) \<and> pinv E D (F - set txs) (p\<lparr>tp_queue := q\<rparr>)
    \<and> listed q = listed (tp_queue p) \<union> set txs \<and> (\<forall>a. no_empty_but a (tp_queue p) \<longrightarrow> no_empty_but a q)
    \<and> (no_empty (tp_queue p) \<longrightarrow> no_empty q)"
  using assms
proof (induction txs arbitrary: p F)
  case Nil
  then show ?case by (intro exI [of _ "tp_queue p"]) simp
next
  case (Cons tx txs)
  let ?a = "sender E tx"
  from Cons.prems obtain l where l: "enqueueTx E (tx_Hash tx) tx p = Some (put_queue ?a l p, Inr False)"
    "pinv E D (F - {tx}) (put_queue ?a l p)" "tl_items l \<noteq> Map.empty"
    "listed (tp_queue (put_queue ?a l p)) = insert tx (listed (tp_queue p))"
    using enqueue_law [of E D F p tx] by auto
  obtain q where q: "enqueueTxs E txs (put_queue ?a l p) = Some ((put_queue ?a l p)\<lparr>tp_queue := q\<rparr>)"
    "pinv E D (F - {tx} - set txs) ((put_queue ?a l p)\<lparr>tp_queue := q\<rparr>)"
    "listed q = insert tx (listed (tp_queue p)) \<union> set txs"
    "\<forall>a. no_empty_but a (tp_queue (put_queue ?a l p)) \<longrightarrow> no_empty_but a q"
    "no_empty (tp_queue (put_queue ?a l p)) \<longrightarrow> no_empty q"
    using Cons.IH [OF l(2)] Cons.prems(2,3) unfolding l(4) by (auto simp del: fun_upd_apply)
  have "no_empty_but a (tp_queue p) \<Longrightarrow> no_empty_but a (tp_queue (put_queue ?a l p))" for a
    using no_empty_put(1) [OF _ l(3)] by (simp add: put_queue_def)
  moreover have "no_empty (tp_queue p) \<Longrightarrow> no_empty (tp_queue (put_queue ?a l p))"
    using no_empty_put(2) [OF _ l(3)] by (simp add: put_queue_def)
  moreover have "F - {tx} - set txs = F - set (tx # txs)" by auto
  ultimately show ?case using l(1) q by (intro exI [of _ q]) (simp add: put_queue_def)
qed

lemma promote_law:
  assumes "pinv E D F p" "tx \<in> F"
  shows "\<exists>l. promoteTx E (sender E tx) (tx_Hash tx) tx p =
      Some ((put_pending (sender E tx) l p)\<lparr>tp_beats := (tp_beats p)(sender E tx \<mapsto> pe_now E (tx_Hash tx)),
              tp_nonces := tn_set (tp_nonces p) (sender E tx) (tx_Nonce tx + 1)\<rparr>, True)
    \<and> pinv E D (F - {tx}) (put_pending (sender E tx) l p) \<and> tl_items l \<noteq> Map.empty
    \<and> listed (tp_pending (put_pending (sender E tx) l p)) = insert tx (listed (tp_pending p))"
proof -
  have pl: "placed E (known p) F (tp_pending p) (tp_queue p)" and ok: "lists_ok E True (tp_pending p)"
    using assms(1) by (auto simp: pinv_def placed_def)
  obtain l inserted old where add: "tl_Add (case tp_pending p (sender E tx) of None \<Rightarrow> newTxList True | Some l \<Rightarrow> l)
      tx (PriceBump (tp_config p)) = (l, inserted, old)" by (metis prod_cases3)
  note give = placed_give [OF pl assms(2)]
  have ins: "inserted" using add_list(2) [OF ok add] give(1) by blast
  note a = add_list(1) [OF ok add ins]
  have listed: "listed ((tp_pending p)(sender E tx \<mapsto> l)) = insert tx (listed (tp_pending p))"
    using a give(1) by simp
  have old: "old = None" using a give(1) by (cases old) auto
  have "pinv E D (F - {tx}) (put_pending (sender E tx) l p)"
    using give(3) [OF _ listed] a assms(1)
    by (simp add: pinv_def put_pending_def price_ok_def known_def)
  then show ?thesis
    using add ins old floating_known [OF assms] listed a
    by (intro exI [of _ l]) (simp add: promoteTx_def put_pending_def)
qed

text \<open>An empty list may be deleted.\<close>

lemma placed_cong:
  assumes "placed E R F P Q"
  shows "lists_ok E True P' \<Longrightarrow> listed P' = listed P \<Longrightarrow> placed E R F P' Q"
    "lists_ok E False Q' \<Longrightarrow> listed Q' = listed Q \<Longrightarrow> placed E R F P Q'"
  using assms unfolding placed_def by metis+

lemma drop_pending_law:
  assumes "pinv E D F p" "tp_pending p a = Some l" "tl_items l = Map.empty"
  shows "pinv E D F (p\<lparr>tp_pending := (tp_pending p)(a := None)\<rparr>)"
    "listed ((tp_pending p)(a := None)) = listed (tp_pending p)"
proof -
  have "lists_ok E True (tp_pending p)" using assms(1) by (simp add: pinv_def placed_def)
  note d = drop_empty [OF this, of a, simplified assms(2), simplified, OF assms(3)]
  show "listed ((tp_pending p)(a := None)) = listed (tp_pending p)" by (rule d(2))
  have "placed E (known p) F (tp_pending p) (tp_queue p)" using assms(1) by (simp add: pinv_def)
  from placed_cong(1) [OF this d] assms(1)
  show "pinv E D F (p\<lparr>tp_pending := (tp_pending p)(a := None)\<rparr>)"
    by (simp add: pinv_def price_ok_def known_def)
qed

lemma drop_queue_law:
  assumes "pinv E D F p" "tp_queue p a = Some l" "tl_items l = Map.empty"
  shows "pinv E D F (p\<lparr>tp_queue := (tp_queue p)(a := None)\<rparr>)"
    "listed ((tp_queue p)(a := None)) = listed (tp_queue p)"
proof -
  have "lists_ok E False (tp_queue p)" using assms(1) by (simp add: pinv_def placed_def)
  note d = drop_empty [OF this, of a, simplified assms(2), simplified, OF assms(3)]
  show "listed ((tp_queue p)(a := None)) = listed (tp_queue p)" by (rule d(2))
  have "placed E (known p) F (tp_pending p) (tp_queue p)" using assms(1) by (simp add: pinv_def)
  from placed_cong(2) [OF this d] assms(1)
  show "pinv E D F (p\<lparr>tp_queue := (tp_queue p)(a := None)\<rparr>)"
    by (simp add: pinv_def price_ok_def known_def)
qed

lemma pinvD:
  assumes "pinv E D F p"
  shows "lists_ok E True (tp_pending p)" "lists_ok E False (tp_queue p)" "price_ok D p"
    "known p = listed (tp_pending p) \<union> listed (tp_queue p) \<union> F"
    "listed (tp_pending p) \<inter> listed (tp_queue p) = {}" "inj_on (slot E) (known p)"
  using assms unfolding pinv_def placed_def by - (elim conjE, assumption)+

text \<open>Fields the operations on single transactions leave alone.\<close>

definition same_setup :: "pool \<Rightarrow> pool \<Rightarrow> bool" where
  "same_setup p p' \<longleftrightarrow> tp_config p' = tp_config p \<and> tp_locals p' = tp_locals p \<and> tp_state p' = tp_state p
     \<and> tp_maxGas p' = tp_maxGas p \<and> tp_gasPrice p' = tp_gasPrice p \<and> tp_istanbul p' = tp_istanbul p
     \<and> tp_journal p' = tp_journal p \<and> tp_events p' = tp_events p"

lemma all_Remove_put:
  "all_Remove h (put_queue a l p) = Some ((put_queue a l p)\<lparr>tp_all := t\<rparr>) \<Longrightarrow> all_Remove h p = Some (p\<lparr>tp_all := t\<rparr>)"
  "all_Remove h (put_pending a l p) = Some ((put_pending a l p)\<lparr>tp_all := t\<rparr>) \<Longrightarrow> all_Remove h p = Some (p\<lparr>tp_all := t\<rparr>)"
  by (auto simp: all_Remove_def put_queue_def put_pending_def dest: arg_cong [where f = tp_all])

section \<open>Removing a transaction\<close>

text \<open>
  What \<open>removeTx\<close> does to the lists: a queued transaction leaves the queue; a pending one leaves
  the pending list, and the later ones of its sender go back to the queue.
\<close>

definition followers :: "'e pool_env \<Rightarrow> pool \<Rightarrow> transaction \<Rightarrow> transaction set" where
  "followers E p tx = {t \<in> listed (tp_pending p). tx \<in> listed (tp_pending p) \<and> sender E t = sender E tx
     \<and> tx_Nonce tx < tx_Nonce t}"

definition removes :: "'e pool_env \<Rightarrow> transaction set \<Rightarrow> pool \<Rightarrow> pool \<Rightarrow> transaction \<Rightarrow> bool" where
  "removes E D p p' tx \<longleftrightarrow> consistent_but E D p' \<and> known p' = known p - {tx} \<and> same_setup p p'
     \<and> listed (tp_pending p') = listed (tp_pending p) - ({tx} \<union> followers E p tx)
     \<and> listed (tp_queue p') = (listed (tp_queue p) - {tx}) \<union> followers E p tx"

lemma pending_slot:
  assumes "pinv E D F p" "tx \<in> listed (tp_queue p)" "tp_pending p (sender E tx) = Some l"
  shows "tl_items l (tx_Nonce tx) = None"
proof (rule ccontr)
  assume "tl_items l (tx_Nonce tx) \<noteq> None"
  then obtain t where t: "tl_items l (tx_Nonce tx) = Some t" by blast
  note ok = lists_okD [OF pinvD(1) [OF assms(1)] assms(3)]
  have n: "tx_Nonce t = tx_Nonce tx" using tl_invD(6) [OF ok(1) t] .
  then have s: "sender E t = sender E tx" using ok(3) [of t] t by simp
  have "t \<in> listed (tp_pending p)" using t n assms(3) by (auto simp: listed_def)
  then have "t \<in> known p" "tx \<in> known p" "t \<noteq> tx" using assms(2) pinvD(4,5) [OF assms(1)] by auto
  with pinvD(6) [OF assms(1)] n s show False by (auto simp: inj_on_def slot_def)
qed

lemma remove_pending_law:
  assumes env: "env_ok E" and con: "consistent_but E D p" and tx: "tx \<in> listed (tp_pending p)"
  shows "\<exists>p'. removeTx E (tx_Hash tx) b p = Some p' \<and> removes E D p p' tx"
proof -
  let ?a = "sender E tx"
  have inv: "pinv E D {} p" and ne: "no_empty (tp_pending p)" "no_empty (tp_queue p)"
    using con by (simp_all add: consistent_but_def)
  obtain l where l: "tp_pending p ?a = Some l" "tl_items l (tx_Nonce tx) = Some tx"
    using tx listed_iff [OF pinvD(1) [OF inv]] by blast
  have tl: "tl_inv l" "tl_strict l" using lists_okD [OF pinvD(1) [OF inv] l(1)] by auto
  obtain l' ok invalids where r: "tl_Remove (pe_nonces E) l tx = (l', ok, invalids)" by (metis prod_cases3)
  note sp = tl_Remove_splits [OF env_okD(2) [OF env] tl(1) l(2) r]
  note put = put_pending_law [OF inv l(1) sp(2)]
  have inval: "set invalids = followers E p tx"
  proof -
    have "t \<in> set invalids \<longleftrightarrow> tl_items l (tx_Nonce t) = Some t \<and> tx_Nonce tx < tx_Nonce t" for t
      using tl_Remove_correct(3) [OF env_okD(2) [OF env] tl(1) r] sp(1) tl(2)
        set_flat [OF tl_invD(3) [OF tl(1)], of t]
        mset_eq_setD [of invalids "filter (\<lambda>t. tx_Nonce t > tx_Nonce tx) (sm_flat (tl_items l))"] by auto
    moreover have "t \<in> followers E p tx \<longleftrightarrow> tl_items l (tx_Nonce t) = Some t \<and> tx_Nonce tx < tx_Nonce t" for t
      using l lists_okD(3) [OF pinvD(1) [OF inv] l(1), of t]
      unfolding followers_def mem_Collect_eq listed_iff [OF pinvD(1) [OF inv]]
      by (cases "sender E t = ?a") auto
    ultimately show ?thesis by blast
  qed
  obtain t where t: "all_Remove (tx_Hash tx) (put_pending ?a l' p) = Some ((put_pending ?a l' p)\<lparr>tp_all := t\<rparr>)"
    "pinv E D (set (tx # invalids) - {tx}) ((put_pending ?a l' p)\<lparr>tp_all := t\<rparr>)"
    "known ((put_pending ?a l' p)\<lparr>tp_all := t\<rparr>) = known (put_pending ?a l' p) - {tx}"
    using all_Remove_law [OF put(1), of tx] by auto
  define p1 where "p1 = (let p = (put_pending ?a l' p)\<lparr>tp_all := t\<rparr> in if b then priced_Removed E 1 p else p)"
  have p1: "pinv E D (set (tx # invalids) - {tx}) p1" "tp_pending p1 = (tp_pending p)(?a \<mapsto> l')"
    "tp_queue p1 = tp_queue p" "known p1 = known p - {tx}"
    using t(2,3) pinv_Removed [OF env t(2)] by (auto simp: p1_def put_pending_def Let_def known_def)
  define p2 where "p2 = (if tl_Empty l' then p1\<lparr>tp_pending := (tp_pending p1)(?a := None),
      tp_beats := (tp_beats p1)(?a := None)\<rparr> else p1)"
  have d: "distinct (tx # invalids)" using sp(2) by (simp add: tl_splits_def)
  then have F: "set (tx # invalids) - {tx} = set invalids" by auto
  have E: "tl_Empty l' \<longleftrightarrow> tl_items l' = Map.empty" using sp(2) tl_Empty_iff by (auto simp: tl_splits_def)
  have p2: "pinv E D (set invalids) p2 \<and> listed (tp_pending p2) = listed ((tp_pending p)(?a \<mapsto> l'))
    \<and> tp_queue p2 = tp_queue p \<and> known p2 = known p - {tx}"
  proof (cases "tl_Empty l'")
    case True
    have "tp_pending p1 ?a = Some l'" by (simp add: p1(2))
    note drp = drop_pending_law [OF p1(1) this E [THEN iffD1, OF True]]
    show ?thesis using drp True p1(3,4) unfolding p2_def F p1(2)
      by (simp add: frame_simps known_def del: fun_upd_apply)
  next
    case False
    then show ?thesis using p1 unfolding p2_def F by simp
  qed
  have ne2: "no_empty (tp_pending p2)"
  proof (cases "tl_Empty l'")
    case True
    then show ?thesis using no_empty_put(4) [OF no_empty_put(3) [OF no_empty_put(5) [OF ne(1)]]]
      by (simp add: p2_def p1)
  next
    case False
    then show ?thesis using no_empty_put(2) [OF ne(1)] by (simp add: p2_def p1 E)
  qed
  obtain q where q: "enqueueTxs E invalids p2 = Some (p2\<lparr>tp_queue := q\<rparr>)" "pinv E D {} (p2\<lparr>tp_queue := q\<rparr>)"
    "listed q = listed (tp_queue p) \<union> set invalids" "no_empty q"
    using enqueueTxs_law [of E D "set invalids" p2 invalids] d ne(2) p2 by auto
  have all1: "lk_Get (tp_all p) (tx_Hash tx) = Some tx" "all_Remove (tx_Hash tx) p = Some (p\<lparr>tp_all := t\<rparr>)"
    using all_Remove_put(2) [OF t(1)] floating_known [OF put(1), of tx] by (simp_all add: put_pending_def)
  let ?p' = "p2\<lparr>tp_queue := q, tp_nonces := tn_setIfLower (tp_nonces p2) ?a (tx_Nonce tx)\<rparr>"
  define p0 where "p0 = (if b then priced_Removed E 1 (p\<lparr>tp_all := t\<rparr>) else p\<lparr>tp_all := t\<rparr>)"
  have p0: "tp_pending p0 = tp_pending p" "p0\<lparr>tp_pending := (tp_pending p)(?a \<mapsto> l')\<rparr> = p1"
    by (simp_all add: p0_def p1_def put_pending_def priced_Removed_def Let_def)
  have "remove_listed E ?a tx p0 = Some ?p'"
    unfolding remove_listed_def p0(1) l(1) option.case r Let_def prod.case p0(2) p2_def [symmetric]
    by (simp add: sp(1) q(1))
  then have "removeTx E (tx_Hash tx) b p = Some ?p'" unfolding removeTx_def all1 p0_def by simp
  moreover have "removes E D p ?p' tx"
  proof -
    have lp: "listed (tp_pending p2) \<union> set (tx # invalids) = listed (tp_pending p)"
      "listed (tp_pending p2) \<inter> set (tx # invalids) = {}"
      using put_splits [OF pinvD(1) [OF inv] l(1) sp(2)] by (simp_all add: p2)
    have "same_setup p p2" by (auto simp: same_setup_def p2_def p1_def put_pending_def priced_Removed_def Let_def)
    moreover have "tx \<notin> listed (tp_queue p)" using tx pinvD(5) [OF inv] by blast
    moreover have "listed (tp_pending p2) = listed (tp_pending p) - ({tx} \<union> set invalids)" using lp by auto
    moreover have "consistent_but E D ?p'" using q(2,4) ne2 by (simp add: consistent_but_def frame_simps)
    moreover have "known ?p' = known p - {tx}" using p2 by (simp add: known_def)
    ultimately show ?thesis using q(3) by (simp add: removes_def inval same_setup_def)
  qed
  ultimately show ?thesis by blast
qed

text \<open>A queued transaction leaves nothing else changed but the list of its sender.\<close>

definition queue_only :: "address \<Rightarrow> pool \<Rightarrow> pool \<Rightarrow> bool" where
  "queue_only a p p' \<longleftrightarrow> tp_pending p' = tp_pending p \<and> tp_beats p' = tp_beats p \<and> tp_nonces p' = tp_nonces p
     \<and> (\<forall>b. b \<noteq> a \<longrightarrow> tp_queue p' b = tp_queue p b)"

lemma remove_queue_only:
  assumes env: "env_ok E" and con: "consistent_but E D p" and tx: "tx \<in> listed (tp_queue p)"
  shows "\<exists>p'. removeTx E (tx_Hash tx) b p = Some p' \<and> removes E D p p' tx \<and> queue_only (sender E tx) p p'"
proof -
  let ?a = "sender E tx"
  have inv: "pinv E D {} p" and ne: "no_empty (tp_pending p)" "no_empty (tp_queue p)"
    using con by (simp_all add: consistent_but_def)
  obtain l where l: "tp_queue p ?a = Some l" "tl_items l (tx_Nonce tx) = Some tx"
    using tx listed_iff [OF pinvD(2) [OF inv]] by blast
  have tl: "tl_inv l" "\<not> tl_strict l" using lists_okD [OF pinvD(2) [OF inv] l(1)] by auto
  obtain l' ok invalids where r: "tl_Remove (pe_nonces E) l tx = (l', ok, invalids)" by (metis prod_cases3)
  note sp0 = tl_Remove_splits [OF env_okD(2) [OF env] tl(1) l(2) r]
  have sp: "tl_splits l l' [tx]" using sp0(2) tl_Remove_lax [OF r] tl(2) by simp
  note put = put_queue_law [OF inv l(1) sp]
  obtain t where t: "all_Remove (tx_Hash tx) (put_queue ?a l' p) = Some ((put_queue ?a l' p)\<lparr>tp_all := t\<rparr>)"
    "pinv E D {} ((put_queue ?a l' p)\<lparr>tp_all := t\<rparr>)"
    "known ((put_queue ?a l' p)\<lparr>tp_all := t\<rparr>) = known (put_queue ?a l' p) - {tx}"
    using all_Remove_law [OF put(1), of tx] by auto
  define p1 where "p1 = (let p = (put_queue ?a l' p)\<lparr>tp_all := t\<rparr> in if b then priced_Removed E 1 p else p)"
  have p1: "pinv E D {} p1" "tp_queue p1 = (tp_queue p)(?a \<mapsto> l')"
    "tp_pending p1 = tp_pending p" "known p1 = known p - {tx}"
    using t(2,3) pinv_Removed [OF env t(2)] by (auto simp: p1_def put_queue_def Let_def known_def)
  define p2 where "p2 = (if tl_Empty l' then p1\<lparr>tp_queue := (tp_queue p1)(?a := None)\<rparr> else p1)"
  have E: "tl_Empty l' \<longleftrightarrow> tl_items l' = Map.empty" using sp tl_Empty_iff by (auto simp: tl_splits_def)
  have p2: "pinv E D {} p2 \<and> listed (tp_queue p2) = listed ((tp_queue p)(?a \<mapsto> l'))
    \<and> tp_pending p2 = tp_pending p \<and> known p2 = known p - {tx}"
  proof (cases "tl_Empty l'")
    case True
    have "tp_queue p1 ?a = Some l'" by (simp add: p1(2))
    note drp = drop_queue_law [OF p1(1) this E [THEN iffD1, OF True]]
    show ?thesis using drp True p1(3,4) unfolding p2_def p1(2)
      by (simp add: frame_simps known_def del: fun_upd_apply)
  next
    case False
    then show ?thesis using p1 unfolding p2_def by simp
  qed
  have ne2: "no_empty (tp_queue p2)"
  proof (cases "tl_Empty l'")
    case True
    then show ?thesis using no_empty_put(4) [OF no_empty_put(3) [OF no_empty_put(5) [OF ne(2)]]]
      by (simp add: p2_def p1)
  next
    case False
    then show ?thesis using no_empty_put(2) [OF ne(2)] by (simp add: p2_def p1 E)
  qed
  have all1: "lk_Get (tp_all p) (tx_Hash tx) = Some tx" "all_Remove (tx_Hash tx) p = Some (p\<lparr>tp_all := t\<rparr>)"
    using all_Remove_put(1) [OF t(1)] floating_known [OF put(1), of tx] by (simp_all add: put_queue_def)
  define p0 where "p0 = (if b then priced_Removed E 1 (p\<lparr>tp_all := t\<rparr>) else p\<lparr>tp_all := t\<rparr>)"
  have p0: "tp_pending p0 = tp_pending p" "tp_queue p0 = tp_queue p" "p0\<lparr>tp_pending := tp_pending p\<rparr> = p0"
    "p0\<lparr>tp_queue := (tp_queue p)(?a \<mapsto> l')\<rparr> = p1"
    by (simp_all add: p0_def p1_def put_queue_def priced_Removed_def Let_def)
  have upd: "p0\<lparr>tp_queue := (tp_queue p)(?a := x)\<rparr> = p1\<lparr>tp_queue := (tp_queue p)(?a := x)\<rparr>" for x
    by (simp add: p0_def p1_def put_queue_def priced_Removed_def Let_def)
  have rq: "remove_queued E ?a tx p0 = p2"
    using l(1) r p0(4) upd [of None] unfolding remove_queued_def p0(2) p2_def by (simp add: p1(2))
  have "remove_listed E ?a tx p0 = Some p2"
  proof (cases "tp_pending p ?a")
    case None
    then show ?thesis using rq p0(1) by (simp add: remove_listed_def)
  next
    case (Some l1)
    have tl1: "tl_inv l1" using lists_okD [OF pinvD(1) [OF inv] Some] by simp
    obtain l1' ok1 inv1 where r1: "tl_Remove (pe_nonces E) l1 tx = (l1', ok1, inv1)" by (metis prod_cases3)
    note abs = tl_Remove_absent [OF env_okD(2) [OF env] tl1 pending_slot [OF inv tx Some] r1]
    have same: "(tp_pending p)(?a \<mapsto> l1) = tp_pending p" using Some by (simp add: fun_upd_idem)
    have abs': "\<not> ok1" "l1' = l1" using abs by auto
    show ?thesis unfolding remove_listed_def p0(1) Some option.case r1 Let_def prod.case abs'(2) same p0(3)
      by (simp add: abs'(1) rq)
  qed
  then have "removeTx E (tx_Hash tx) b p = Some p2" unfolding removeTx_def all1 p0_def by simp
  moreover have "removes E D p p2 tx"
  proof -
    have lp: "listed (tp_queue p2) \<union> {tx} = listed (tp_queue p)" "listed (tp_queue p2) \<inter> {tx} = {}"
      using put_splits [OF pinvD(2) [OF inv] l(1) sp] by (simp_all add: p2)
    have "same_setup p p2" by (auto simp: same_setup_def p2_def p1_def put_queue_def priced_Removed_def Let_def)
    moreover have "tx \<notin> listed (tp_pending p)" using tx pinvD(5) [OF inv] by blast
    moreover have "listed (tp_queue p2) = listed (tp_queue p) - {tx}" using lp by auto
    moreover have "consistent_but E D p2" using p2 ne2 ne(1) by (simp add: consistent_but_def)
    ultimately show ?thesis using p2 by (simp add: removes_def followers_def)
  qed
  moreover have "queue_only (sender E tx) p p2"
    using p2 by (auto simp: queue_only_def p2_def p1_def put_queue_def priced_Removed_def Let_def)
  ultimately show ?thesis by blast
qed

lemma remove_queue_law:
  assumes "env_ok E" "consistent_but E D p" "tx \<in> listed (tp_queue p)"
  shows "\<exists>p'. removeTx E (tx_Hash tx) b p = Some p' \<and> removes E D p p' tx"
  using remove_queue_only [OF assms, of b] by blast

lemma removeTx_known:
  assumes "env_ok E" "consistent_but E D p" "tx \<in> known p"
  shows "\<exists>p'. removeTx E (tx_Hash tx) b p = Some p' \<and> removes E D p p' tx"
proof -
  have "pinv E D {} p" using assms(2) by (simp add: consistent_but_def)
  then have "tx \<in> listed (tp_pending p) \<or> tx \<in> listed (tp_queue p)" using pinvD(4) assms(3) by blast
  then show ?thesis using remove_pending_law [OF assms(1,2)] remove_queue_law [OF assms(1,2)] by blast
qed

lemma removeTx_unknown: "lk_Get (tp_all p) h = None \<Longrightarrow> removeTx E h b p = Some p"
  by (simp add: removeTx_def)

lemma removeTx_law:
  assumes "env_ok E" "consistent_but E D p"
  shows "\<exists>p'. removeTx E h b p = Some p' \<and> consistent_but E D p' \<and> known p' = {t \<in> known p. tx_Hash t \<noteq> h} \<and> same_setup p p'"
proof -
  have pr: "price_ok D p" using assms(2) by (simp add: consistent_but_def pinv_def)
  show ?thesis
  proof (cases "lk_Get (tp_all p) h")
    case None
    then have "tx_Hash t \<noteq> h" if "t \<in> known p" for t
      using that known_hash [OF pr, of t] by (auto simp: lk_Get_def)
    then have "known p = {t \<in> known p. tx_Hash t \<noteq> h}" by blast
    then show ?thesis using removeTx_unknown [OF None] assms(2) by (auto simp: same_setup_def)
  next
    case (Some tx)
    have h: "tx_Hash tx = h" using Some pr by (auto simp: lk_Get_def price_ok_def lk_inv_def)
    have k: "tx \<in> known p" using Some h known_hash [OF pr] by (simp add: lk_Get_def)
    have "tx_Hash t = h \<longleftrightarrow> t = tx" if "t \<in> known p" for t
    proof -
      have "lk_all (tp_all p) (tx_Hash t) = Some t" using that known_hash [OF pr] by blast
      then show ?thesis using Some h by (metis lk_Get_def option.inject)
    qed
    then have "t \<in> known p - {tx} \<longleftrightarrow> t \<in> {t \<in> known p. tx_Hash t \<noteq> h}" for t
      by (cases "t \<in> known p") simp_all
    then have "known p - {tx} = {t \<in> known p. tx_Hash t \<noteq> h}" by (rule set_eqI)
    then show ?thesis using removeTx_known [OF assms k, of b] by (auto simp: removes_def h)
  qed
qed

section \<open>The price heap without an exact count of stale entries\<close>

text \<open>
  A transaction that is removed and comes back has two entries in the heap, both of them live:
  the count of stale entries is then off. No loop of the price list reads that count, so its
  laws hold without it.
\<close>

definition recount :: "tx_lookup \<Rightarrow> priced_list \<Rightarrow> priced_list" where
  "recount all l = l\<lparr>pl_stales := int (size {# tx \<in># mset (pl_items l). stale all tx #})\<rparr>"

lemma recount_simps [simp]:
  "pl_items (recount all l) = pl_items l" "live all (recount all l) = live all l"
  "is_heap priceLess (pl_items l) \<Longrightarrow> pl_inv all (recount all l)"
  by (simp_all add: recount_def live_def pl_inv_def)

lemma stales_items: "l\<lparr>pl_stales := s, pl_items := i\<rparr> = l\<lparr>pl_items := i, pl_stales := s\<rparr>"
  by simp

lemma pl_Discard_loop_stales:
  "pl_Discard_loop all isL slots (l\<lparr>pl_stales := s\<rparr>) d sv =
     (case pl_Discard_loop all isL slots l d sv of (l', d', sv') \<Rightarrow> (l'\<lparr>pl_stales := pl_stales l' + (s - pl_stales l)\<rparr>, d', sv'))"
proof (induction all isL slots l d sv arbitrary: s rule: pl_Discard_loop.induct)
  case (1 all isL slots l d sv)
  obtain tx items where pop: "heap_Pop priceLess (pl_items l) = (tx, items)" by fastforce
  show ?case
    using 1(1) [OF _ refl pop [symmetric] refl, of "s - 1"] 1(2) [OF _ refl pop [symmetric] refl, of s]
      1(3) [OF _ refl pop [symmetric] refl, of s]
    unfolding pl_Discard_loop.simps [of _ _ _ l] pl_Discard_loop.simps [of _ _ _ "l\<lparr>pl_stales := s\<rparr>"]
    by (auto simp: pop Let_def stales_items)
qed

lemma pl_Cap_loop_stales:
  "pl_Cap_loop all isL th (l\<lparr>pl_stales := s\<rparr>) d sv =
     (case pl_Cap_loop all isL th l d sv of (l', d', sv') \<Rightarrow> (l'\<lparr>pl_stales := pl_stales l' + (s - pl_stales l)\<rparr>, d', sv'))"
proof (induction all isL th l d sv arbitrary: s rule: pl_Cap_loop.induct)
  case (1 all isL th l d sv)
  obtain tx items where pop: "heap_Pop priceLess (pl_items l) = (tx, items)" by fastforce
  show ?case
    using 1(1) [OF _ refl pop [symmetric] refl, of "s - 1"] 1(2) [OF _ refl pop [symmetric] refl, of s]
      1(3) [OF _ refl pop [symmetric] refl, of s]
    unfolding pl_Cap_loop.simps [of _ _ _ l] pl_Cap_loop.simps [of _ _ _ "l\<lparr>pl_stales := s\<rparr>"]
    by (auto simp: pop Let_def stales_items)
qed

lemma pl_skip_stale_stales:
  "pl_skip_stale all (l\<lparr>pl_stales := s\<rparr>) =
     (pl_skip_stale all l)\<lparr>pl_stales := pl_stales (pl_skip_stale all l) + (s - pl_stales l)\<rparr>"
proof (induction all l arbitrary: s rule: pl_skip_stale.induct)
  case (1 all l)
  show ?case
    using 1(1) [of "s - 1"]
    unfolding pl_skip_stale.simps [of _ l] pl_skip_stale.simps [of _ "l\<lparr>pl_stales := s\<rparr>"]
    by (auto simp: Let_def stales_items)
qed

lemma pl_Discard_recount:
  assumes "pl_Discard all isL l slots = (l', dropped)"
  shows "\<exists>l''. pl_Discard all isL (recount all l) slots = (l'', dropped) \<and> pl_items l'' = pl_items l'"
  using assms unfolding pl_Discard_def recount_def pl_Discard_loop_stales
  by (auto split: prod.splits)

lemma pl_Cap_recount:
  assumes "pl_Cap all isL l th = (l', dropped)"
  shows "\<exists>l''. pl_Cap all isL (recount all l) th = (l'', dropped) \<and> pl_items l'' = pl_items l'"
  using assms unfolding pl_Cap_def recount_def pl_Cap_loop_stales
  by (auto split: prod.splits)

lemma pl_Underpriced_recount:
  assumes "pl_Underpriced all isL l tx = (l', res)"
  shows "\<exists>l''. pl_Underpriced all isL (recount all l) tx = (l'', res) \<and> pl_items l'' = pl_items l'"
  using assms unfolding pl_Underpriced_def recount_def pl_skip_stale_stales
  by (auto simp: Let_def split: if_splits)

lemma live_cong: "pl_items l = pl_items l' \<Longrightarrow> live all l = live all l'"
  by (simp add: live_def)

lemma pl_Discard_ok:
  assumes "is_heap priceLess (pl_items l)" "pl_Discard all isL l slots = (l', dropped)"
  shows "live all l = mset dropped + live all l'"
    "\<forall>tx \<in> set dropped. \<not> isL tx \<and> (\<forall>t \<in># live all l'. isL t \<or> \<not> priceLess t tx)"
    "slots \<le> slotsOf dropped \<or> (\<forall>t \<in># live all l'. isL t)"
    "is_heap priceLess (pl_items l')"
proof -
  obtain l'' where l'': "pl_Discard all isL (recount all l) slots = (l'', dropped)" "pl_items l'' = pl_items l'"
    using pl_Discard_recount [OF assms(2)] by blast
  note r = pl_Discard_correct [OF recount_simps(3) [OF assms(1)] l''(1)]
  show "live all l = mset dropped + live all l'"
    "\<forall>tx \<in> set dropped. \<not> isL tx \<and> (\<forall>t \<in># live all l'. isL t \<or> \<not> priceLess t tx)"
    "slots \<le> slotsOf dropped \<or> (\<forall>t \<in># live all l'. isL t)" "is_heap priceLess (pl_items l')"
    using r(1-3,5) live_cong [OF l''(2)] l''(2) by (simp_all add: pl_inv_def)
qed

lemma pl_Cap_ok:
  assumes "is_heap priceLess (pl_items l)" "pl_Cap all isL l th = (l', dropped)"
  shows "mset dropped = {# tx \<in># live all l. \<not> isL tx \<and> tx_GasPrice tx < th #}"
    "live all l' = live all l - mset dropped" "is_heap priceLess (pl_items l')"
proof -
  obtain l'' where l'': "pl_Cap all isL (recount all l) th = (l'', dropped)" "pl_items l'' = pl_items l'"
    using pl_Cap_recount [OF assms(2)] by blast
  note r = pl_Cap_correct [OF recount_simps(3) [OF assms(1)] l''(1)]
  show "mset dropped = {# tx \<in># live all l. \<not> isL tx \<and> tx_GasPrice tx < th #}"
    "live all l' = live all l - mset dropped" "is_heap priceLess (pl_items l')"
    using r live_cong [OF l''(2)] l''(2) by (simp_all add: pl_inv_def)
qed

lemma pl_Underpriced_ok:
  assumes "is_heap priceLess (pl_items l)" "pl_Underpriced all isL l tx = (l', res)"
  shows "res \<longleftrightarrow> \<not> isL tx \<and> live all l \<noteq> {#} \<and> (\<forall>t \<in># live all l. tx_GasPrice tx \<le> tx_GasPrice t)"
    "live all l' = live all l" "is_heap priceLess (pl_items l')"
proof -
  obtain l'' where l'': "pl_Underpriced all isL (recount all l) tx = (l'', res)" "pl_items l'' = pl_items l'"
    using pl_Underpriced_recount [OF assms(2)] by blast
  note r = pl_Underpriced_correct [OF recount_simps(3) [OF assms(1)] l''(1)]
  show "res \<longleftrightarrow> \<not> isL tx \<and> live all l \<noteq> {#} \<and> (\<forall>t \<in># live all l. tx_GasPrice tx \<le> tx_GasPrice t)"
    "live all l' = live all l" "is_heap priceLess (pl_items l')"
    using r live_cong [OF l''(2)] l''(2) by (simp_all add: pl_inv_def)
qed

text \<open>The live entries are the known transactions.\<close>

lemma live_known:
  assumes "price_ok {} p" "tx \<in> known p"
  shows "tx \<in># live (tp_all p) (tp_priced p)"
  using assms known_hash [OF assms(1), of tx] by (auto simp: price_ok_def live_def stale_def)

end
