(* ===== verification/Tx_Pool_Laws.thy ===== *)
theory Tx_Pool_Laws
  imports Tx_Pool_Inv
begin

text \<open>
  Laws of the pool's operations: adding, promoting, demoting and cutting keep the pool
  consistent and never panic, and what each of them does to the lists.
\<close>

section \<open>Removing several transactions\<close>

lemma known_frame [simp]:
  "known (p\<lparr>tp_priced := l\<rparr>) = known p" "known (p\<lparr>tp_pending := P\<rparr>) = known p" "known (p\<lparr>tp_queue := Q\<rparr>) = known p"
  "known (p\<lparr>tp_nonces := n\<rparr>) = known p" "known (p\<lparr>tp_locals := s\<rparr>) = known p" "known (p\<lparr>tp_journal := j\<rparr>) = known p"
  "known (p\<lparr>tp_beats := b\<rparr>) = known p" "known (p\<lparr>tp_events := v\<rparr>) = known p" "known (p\<lparr>tp_state := st\<rparr>) = known p"
  "known (p\<lparr>tp_maxGas := g\<rparr>) = known p" "known (p\<lparr>tp_gasPrice := pr\<rparr>) = known p" "known (p\<lparr>tp_istanbul := i\<rparr>) = known p"
  by (simp_all add: known_def)

lemma same_setup_Removed [simp]: "same_setup p (priced_Removed E n q) = same_setup p q"
  by (simp add: same_setup_def priced_Removed_def)

lemma same_setup_fields [simp]:
  "same_setup p (q\<lparr>tp_priced := l\<rparr>) = same_setup p q" "same_setup p (q\<lparr>tp_pending := P\<rparr>) = same_setup p q"
  "same_setup p (q\<lparr>tp_queue := Q\<rparr>) = same_setup p q" "same_setup p (q\<lparr>tp_nonces := n\<rparr>) = same_setup p q"
  "same_setup p (q\<lparr>tp_beats := b\<rparr>) = same_setup p q" "same_setup p (q\<lparr>tp_all := t\<rparr>) = same_setup p q"
  "same_setup (p\<lparr>tp_priced := l\<rparr>) q = same_setup p q" "same_setup (p\<lparr>tp_pending := P\<rparr>) q = same_setup p q"
  "same_setup (p\<lparr>tp_queue := Q\<rparr>) q = same_setup p q" "same_setup (p\<lparr>tp_nonces := n\<rparr>) q = same_setup p q"
  "same_setup (p\<lparr>tp_beats := b\<rparr>) q = same_setup p q" "same_setup (p\<lparr>tp_all := t\<rparr>) q = same_setup p q"
  by (simp_all add: same_setup_def)

lemma live_set: "set_mset (live all l) \<subseteq> set (pl_items l)"
  by (auto simp: live_def)

lemma same_setup_refl [simp]: "same_setup p p"
  by (simp add: same_setup_def)

lemma same_setup_trans: "same_setup p q \<Longrightarrow> same_setup q r \<Longrightarrow> same_setup p r"
  by (simp add: same_setup_def)

lemma removeTxs_law:
  assumes "env_ok E" "consistent_but E D p"
  shows "\<exists>p'. each (\<lambda>tx. removeTx E (tx_Hash tx) b) txs p = Some p' \<and> consistent_but E D p' \<and> same_setup p p'
    \<and> known p' = {t \<in> known p. tx_Hash t \<notin> tx_Hash ` set txs}"
  using assms(2)
proof (induction txs arbitrary: p)
  case (Cons tx txs)
  obtain p1 where p1: "removeTx E (tx_Hash tx) b p = Some p1" "consistent_but E D p1" "same_setup p p1"
    "known p1 = {t \<in> known p. tx_Hash t \<noteq> tx_Hash tx}"
    using removeTx_law [OF assms(1) Cons.prems] by blast
  obtain p' where p': "each (\<lambda>tx. removeTx E (tx_Hash tx) b) txs p1 = Some p'" "consistent_but E D p'"
    "same_setup p1 p'" "known p' = {t \<in> known p1. tx_Hash t \<notin> tx_Hash ` set txs}"
    using Cons.IH [OF p1(2)] by blast
  show ?case using p1(1) p' same_setup_trans [OF p1(3) p'(3)] by (auto simp: p1(4))
qed simp

lemma settle:
  assumes "consistent_but E D p" "known p \<inter> D = {}"
  shows "consistent E p"
  using assms by (auto simp: consistent_def consistent_but_def pinv_def price_ok_def)

lemma consistentD:
  assumes "consistent E p"
  shows "consistent_but E {} p" "pinv E {} {} p" "price_ok {} p" "no_empty (tp_pending p)" "no_empty (tp_queue p)"
    "known p = listed (tp_pending p) \<union> listed (tp_queue p)"
  using assms pinvD(3,4) [of E "{}" "{}" p] by (auto simp: consistent_def consistent_but_def)

lemma consistent_frame [frame_simps]:
  "consistent E (p\<lparr>tp_gasPrice := a\<rparr>) = consistent E p" "consistent E (p\<lparr>tp_istanbul := b\<rparr>) = consistent E p"
  "consistent E (p\<lparr>tp_state := c\<rparr>) = consistent E p" "consistent E (p\<lparr>tp_nonces := d\<rparr>) = consistent E p"
  "consistent E (p\<lparr>tp_maxGas := e\<rparr>) = consistent E p" "consistent E (p\<lparr>tp_locals := f\<rparr>) = consistent E p"
  "consistent E (p\<lparr>tp_journal := g\<rparr>) = consistent E p" "consistent E (p\<lparr>tp_beats := h\<rparr>) = consistent E p"
  "consistent E (p\<lparr>tp_events := i\<rparr>) = consistent E p"
  by (simp_all add: consistent_def consistent_but_def frame_simps)

text \<open>Transactions taken out of the price heap for removal.\<close>

lemma out_of_heap:
  assumes con: "consistent E p" and live: "set_mset (live (tp_all p) (tp_priced p)) \<subseteq> set dropped \<union> set (pl_items l)"
    and heap: "is_heap priceLess (pl_items l)"
  shows "consistent_but E (set dropped) (p\<lparr>tp_priced := l\<rparr>)"
proof -
  have "known p \<subseteq> set_mset (live (tp_all p) (tp_priced p))"
    using live_known [OF consistentD(3) [OF con]] by blast
  with live have "known p \<subseteq> set (pl_items l) \<union> set dropped" by blast
  then show ?thesis using con heap
    by (simp add: consistent_def consistent_but_def pinv_def price_ok_def known_def)
qed

lemma drop_live:
  assumes "env_ok E" "consistent E p" "is_heap priceLess (pl_items l)"
    "set_mset (live (tp_all p) (tp_priced p)) \<subseteq> set dropped \<union> set (pl_items l)"
  shows "\<exists>p'. each (\<lambda>tx. removeTx E (tx_Hash tx) b) dropped (p\<lparr>tp_priced := l\<rparr>) = Some p' \<and> consistent E p'
    \<and> same_setup p p' \<and> known p' = {t \<in> known p. tx_Hash t \<notin> tx_Hash ` set dropped}"
proof -
  obtain p' where p': "each (\<lambda>tx. removeTx E (tx_Hash tx) b) dropped (p\<lparr>tp_priced := l\<rparr>) = Some p'"
    "consistent_but E (set dropped) p'" "same_setup (p\<lparr>tp_priced := l\<rparr>) p'"
    "known p' = {t \<in> known p. tx_Hash t \<notin> tx_Hash ` set dropped}"
    using removeTxs_law [OF assms(1) out_of_heap [OF assms(2,4,3)], of b dropped] by auto
  have "known p' \<inter> set dropped = {}" unfolding p'(4) by blast
  from settle [OF p'(2) this] p' show ?thesis by auto
qed

section \<open>Adding\<close>

lemma make_room_law:
  assumes env: "env_ok E" and con: "consistent E p"
  shows "\<exists>p' room. make_room E tx isLocal p = Some (p', room) \<and> consistent E p' \<and> same_setup p p'
    \<and> known p' \<subseteq> known p"
proof (cases "(word_of_nat (lk_Count (tp_all p)) :: u64) \<ge> GlobalSlots (tp_config p) + GlobalQueue (tp_config p)")
  case False
  then show ?thesis using con by (auto simp: make_room_def)
next
  case full: True
  define r where "r = (if isLocal then (tp_priced p, False) else pl_Underpriced (tp_all p) (isLocalTx E p) (tp_priced p) tx)"
  obtain priced under where r: "r = (priced, under)" by fastforce
  have heap: "is_heap priceLess (pl_items (tp_priced p))" using consistentD(3) [OF con] by (simp add: price_ok_def)
  have priced: "is_heap priceLess (pl_items priced)" "live (tp_all p) priced = live (tp_all p) (tp_priced p)"
    using r pl_Underpriced_ok [OF heap] heap by (auto simp: r_def split: if_splits)
  let ?p = "p\<lparr>tp_priced := priced\<rparr>"
  have "set_mset (live (tp_all p) (tp_priced p)) \<subseteq> set [] \<union> set (pl_items priced)"
    using live_set [of "tp_all p" priced] by (simp add: priced(2))
  then have con1: "consistent E ?p"
    by (intro settle [OF out_of_heap [where dropped = "[]", OF con _ priced(1)]]) simp_all
  show ?thesis
  proof (cases under)
    case True
    then show ?thesis using con1 r full by (auto simp: make_room_def r_def Let_def same_setup_def known_def)
  next
    case False
    obtain l dropped where d: "pl_Discard (tp_all p) (isLocalTx E ?p) priced
        (lk_Slots (tp_all p) - sint (GlobalSlots (tp_config p) + GlobalQueue (tp_config p)) + numSlots tx) = (l, dropped)"
      by fastforce
    note o = pl_Discard_ok [OF priced(1) d]
    have "set_mset (live (tp_all p) priced) \<subseteq> set dropped \<union> set (pl_items l)"
      using live_set [of "tp_all p" l] by (auto simp: o(1))
    then obtain p' where "each (\<lambda>tx. removeTx E (tx_Hash tx) False) dropped (?p\<lparr>tp_priced := l\<rparr>) = Some p'"
      "consistent E p'" "same_setup ?p p'" "known p' = {t \<in> known ?p. tx_Hash t \<notin> tx_Hash ` set dropped}"
      using drop_live [OF env con1 o(4), of dropped False] by auto
    then show ?thesis using False r d full
      by (auto simp: make_room_def r_def [symmetric] Let_def same_setup_def known_def)
  qed
qed

text \<open>A transaction takes the place of the one in its slot, in the tables of the pool.\<close>

lemma swap_in:
  assumes env: "env_ok E" and pr: "price_ok {} p" and new: "lk_all (tp_all p) (tx_Hash tx) = None"
    and old: "\<And>o'. old = Some o' \<Longrightarrow> o' \<in> known p"
  shows "\<exists>p'. (case old of None \<Rightarrow> Some p | Some o' \<Rightarrow> map_option (priced_Removed E 1) (all_Remove (tx_Hash o') p)) = Some p'
    \<and> lk_Get (tp_all p') (tx_Hash tx) = None
    \<and> price_ok {} (all_Add tx p') \<and> known (all_Add tx p') = insert tx (known p - set_option old)
    \<and> tp_pending p' = tp_pending p \<and> tp_queue p' = tp_queue p \<and> same_setup p p'"
proof (cases old)
  case None
  then show ?thesis using price_ok_Add [OF pr new] new by (simp add: lk_Get_def)
next
  case (Some o')
  obtain t where t: "lk_Remove (tp_all p) (tx_Hash o') = Some t" "price_ok {} (p\<lparr>tp_all := t\<rparr>)"
    "known (p\<lparr>tp_all := t\<rparr>) = known p - {o'}" "lk_all t = (lk_all (tp_all p))(tx_Hash o' := None)"
    using lk_Remove_known [OF pr old [OF Some]] by blast
  let ?p = "priced_Removed E 1 (p\<lparr>tp_all := t\<rparr>)"
  have pr': "price_ok {} ?p" by (rule price_ok_Removed [OF env t(2)])
  have new': "lk_all (tp_all ?p) (tx_Hash tx) = None" by (simp add: t(4) new)
  show ?thesis using price_ok_Add [OF pr' new'] t new'
    by (simp add: Some all_Remove_def lk_Get_def del: One_nat_def)
qed

lemma placed_swap:
  assumes pl: "placed E R {} P Q"
  shows "lists_ok E True P' \<Longrightarrow> listed P' = insert tx {t \<in> listed P. slot E t \<noteq> slot E tx} \<Longrightarrow>
      \<forall>t \<in> listed Q. slot E t \<noteq> slot E tx \<Longrightarrow> placed E (insert tx {t \<in> R. slot E t \<noteq> slot E tx}) {} P' Q"
    "lists_ok E False Q' \<Longrightarrow> listed Q' = insert tx {t \<in> listed Q. slot E t \<noteq> slot E tx} \<Longrightarrow>
      \<forall>t \<in> listed P. slot E t \<noteq> slot E tx \<Longrightarrow> placed E (insert tx {t \<in> R. slot E t \<noteq> slot E tx}) {} P Q'"
proof -
  have inj: "inj_on (slot E) R" using pl unfolding placed_def by (rule conjunct1)
  have R: "R = listed P \<union> listed Q" and dj: "listed P \<inter> listed Q = {}"
    and ok: "lists_ok E True P" "lists_ok E False Q"
    using pl by (simp_all add: placed_def)
  have inj': "inj_on (slot E) (insert tx {t \<in> R. slot E t \<noteq> slot E tx})"
    using inj by (auto simp: inj_on_def)
  have sets: "insert tx {t \<in> X \<union> Y. slot E t \<noteq> slot E tx} = insert tx {t \<in> X. slot E t \<noteq> slot E tx} \<union> Y"
    "insert tx {t \<in> X. slot E t \<noteq> slot E tx} \<inter> Y = {}"
    if "\<forall>t \<in> Y. slot E t \<noteq> slot E tx" "X \<inter> Y = {}" for X Y
    using that by auto
  show "placed E (insert tx {t \<in> R. slot E t \<noteq> slot E tx}) {} P' Q"
    if new: "lists_ok E True P'" "listed P' = insert tx {t \<in> listed P. slot E t \<noteq> slot E tx}"
      "\<forall>t \<in> listed Q. slot E t \<noteq> slot E tx"
  proof -
    note s = sets [OF new(3) dj]
    show ?thesis using s(2) new(1) ok(2) inj' unfolding placed_def new(2) s(1) [symmetric] R by simp
  qed
  have dj': "listed Q \<inter> listed P = {}" using dj by blast
  show "placed E (insert tx {t \<in> R. slot E t \<noteq> slot E tx}) {} P Q'"
    if new: "lists_ok E False Q'" "listed Q' = insert tx {t \<in> listed Q. slot E t \<noteq> slot E tx}"
      "\<forall>t \<in> listed P. slot E t \<noteq> slot E tx"
  proof -
    note s = sets [OF new(3) dj', unfolded Un_commute [of "listed Q"]]
    have "insert tx {t \<in> R. slot E t \<noteq> slot E tx} = listed P \<union> insert tx {t \<in> listed Q. slot E t \<noteq> slot E tx} \<union> {}"
      unfolding R s(1) by blast
    moreover have "listed P \<inter> insert tx {t \<in> listed Q. slot E t \<noteq> slot E tx} = {}" using s(2) by blast
    ultimately show ?thesis using new(1) ok(1) inj' unfolding placed_def new(2) by blast
  qed
qed

lemma slot_free:
  assumes "inj_on (slot E) R" "\<forall>t. old = Some t \<longleftrightarrow> t \<in> S \<and> slot E t = slot E tx" "S \<subseteq> R"
    "\<forall>t \<in> R - S. slot E t \<noteq> slot E tx"
  shows "R - set_option old = {t \<in> R. slot E t \<noteq> slot E tx}"
proof -
  have "set_option old = {t \<in> S. slot E t = slot E tx}" using assms(2) by (auto simp: elem_set)
  then have "set_option old = {t \<in> R. slot E t = slot E tx}" using assms(3,4) by auto
  then show ?thesis by auto
qed

lemma validateTx_sender: "validateTx E p tx isLocal = None \<Longrightarrow> pe_Sender E tx = Some (sender E tx)"
  by (auto simp: validateTx_def sender_def split: if_splits option.splits)

text \<open>\<open>enqueueTx\<close> of a transaction that is not known and stands in no pending list's slot.\<close>

lemma enqueue_new:
  assumes env: "env_ok E" and con: "consistent E p" and new: "lk_Get (tp_all p) (tx_Hash tx) = None"
    and slot: "\<forall>t \<in> listed (tp_pending p). slot E t \<noteq> slot E tx"
  shows "\<exists>p' res. enqueueTx E (tx_Hash tx) tx p = Some (p', res) \<and> consistent E p' \<and> same_setup p p'
    \<and> tp_pending p' = tp_pending p \<and> known p' \<subseteq> insert tx (known p)
    \<and> (case res of Inl e \<Rightarrow> e = ErrReplaceUnderpriced \<and> p' = p
         | Inr b \<Rightarrow> known p' = insert tx {t \<in> known p. slot E t \<noteq> slot E tx}
             \<and> listed (tp_queue p') = insert tx {t \<in> listed (tp_queue p). slot E t \<noteq> slot E tx})"
proof -
  note c = consistentD [OF con]
  have ok: "lists_ok E False (tp_queue p)" by (rule pinvD(2) [OF c(2)])
  have pl: "placed E (known p) {} (tp_pending p) (tp_queue p)" using c(2) by (simp add: pinv_def)
  obtain l inserted old where add: "tl_Add (case tp_queue p (sender E tx) of None \<Rightarrow> newTxList False | Some l \<Rightarrow> l)
      tx (PriceBump (tp_config p)) = (l, inserted, old)" by (metis prod_cases3)
  show ?thesis
  proof (cases inserted)
    case False
    have same: "p\<lparr>tp_queue := (tp_queue p)(sender E tx \<mapsto> l)\<rparr> = p" using add_list(2) [OF ok add False] by simp
    have "enqueueTx E (tx_Hash tx) tx p = Some (p, Inl ErrReplaceUnderpriced)"
      unfolding enqueueTx_def add Let_def prod.case same using False by simp
    then show ?thesis using con by auto
  next
    case True
    note a = add_list(1) [OF ok add True]
    let ?p = "p\<lparr>tp_queue := (tp_queue p)(sender E tx \<mapsto> l)\<rparr>"
    have pr: "price_ok {} ?p" using c(3) by (simp add: price_ok_def)
    have old: "\<And>o'. old = Some o' \<Longrightarrow> o' \<in> known ?p" using a c(6) by auto
    obtain p' where p': "(case old of None \<Rightarrow> Some ?p | Some o' \<Rightarrow> map_option (priced_Removed E 1) (all_Remove (tx_Hash o') ?p)) = Some p'"
      "lk_Get (tp_all p') (tx_Hash tx) = None" "price_ok {} (all_Add tx p')"
      "known (all_Add tx p') = insert tx (known ?p - set_option old)"
      "tp_pending p' = tp_pending p" "tp_queue p' = tp_queue ?p" "same_setup p p'"
      using swap_in [OF env pr _ old, of tx old] new by (auto simp: lk_Get_def)
    have R: "known p - set_option old = {t \<in> known p. slot E t \<noteq> slot E tx}"
      using slot_free [OF pinvD(6) [OF c(2)], of old "listed (tp_queue p)" tx] a slot c(6) by blast
    have "placed E (insert tx {t \<in> known p. slot E t \<noteq> slot E tx}) {} (tp_pending p) ((tp_queue p)(sender E tx \<mapsto> l))"
      using placed_swap(2) [OF pl _ _ slot] a by blast
    then have "consistent E (all_Add tx p')"
      using p' R c(4) no_empty_put(2) [OF c(5)] a
      by (simp add: consistent_def consistent_but_def pinv_def)
    moreover have "enqueueTx E (tx_Hash tx) tx p = Some (all_Add tx p', Inr (old \<noteq> None))"
      unfolding enqueueTx_def add Let_def prod.case p'(1) using True p'(2) by simp
    moreover have "same_setup p (all_Add tx p')" using p'(7) by (simp add: same_setup_def all_Add_def)
    ultimately show ?thesis using p' R a by auto
  qed
qed

text \<open>\<open>add\<close>: a refused transaction leaves the pool consistent, an accepted one takes its slot.\<close>

lemma consistent_locals: "consistent E (journalTx E a tx p) = consistent E p"
  by (auto simp: journalTx_def frame_simps split: option.splits)

lemma journalTx_fields [simp]:
  "tp_pending (journalTx E a tx p) = tp_pending p" "tp_queue (journalTx E a tx p) = tp_queue p"
  "known (journalTx E a tx p) = known p" "tp_config (journalTx E a tx p) = tp_config p"
  "tp_state (journalTx E a tx p) = tp_state p" "tp_maxGas (journalTx E a tx p) = tp_maxGas p"
  by (auto simp: journalTx_def split: option.splits)

definition same_chain :: "pool \<Rightarrow> pool \<Rightarrow> bool" where
  "same_chain p p' \<longleftrightarrow> tp_config p' = tp_config p \<and> tp_state p' = tp_state p \<and> tp_maxGas p' = tp_maxGas p
     \<and> as_accounts (tp_locals p) \<subseteq> as_accounts (tp_locals p')"

lemma same_chain_refl [simp]: "same_chain p p"
  by (simp add: same_chain_def)

lemma same_chain_trans: "same_chain p q \<Longrightarrow> same_chain q r \<Longrightarrow> same_chain p r"
  by (auto simp: same_chain_def)

lemma same_setup_chain: "same_setup p p' \<Longrightarrow> same_chain p p'"
  by (simp add: same_setup_def same_chain_def)

definition takes_slot :: "'e pool_env \<Rightarrow> pool \<Rightarrow> pool \<Rightarrow> transaction \<Rightarrow> bool" where
  "takes_slot E p p' tx \<longleftrightarrow> tx \<in> known p' \<and> {t \<in> known p'. t \<noteq> tx} \<subseteq> {t \<in> known p. slot E t \<noteq> slot E tx}"

lemma add_queued_law:
  assumes env: "env_ok E" and con: "consistent E p" and new: "lk_Get (tp_all p) (tx_Hash tx) = None"
    and slot: "\<forall>t \<in> listed (tp_pending p). slot E t \<noteq> slot E tx"
  shows "\<exists>p' res. add_queued E tx isLocal p = Some (p', res) \<and> consistent E p' \<and> same_chain p p'
    \<and> known p' \<subseteq> insert tx (known p) \<and> (\<forall>e. res = Inl e \<longrightarrow> p' = p) \<and> (\<forall>b. res = Inr b \<longrightarrow> takes_slot E p p' tx)"
proof -
  obtain p1 res where p1: "enqueueTx E (tx_Hash tx) tx p = Some (p1, res)" "consistent E p1" "same_setup p p1"
    "known p1 \<subseteq> insert tx (known p)"
    "case res of Inl e \<Rightarrow> e = ErrReplaceUnderpriced \<and> p1 = p
       | Inr b \<Rightarrow> known p1 = insert tx {t \<in> known p. slot E t \<noteq> slot E tx}
           \<and> listed (tp_queue p1) = insert tx {t \<in> listed (tp_queue p). slot E t \<noteq> slot E tx}"
    using enqueue_new [OF env con new slot] by blast
  show ?thesis
  proof (cases res)
    case (Inl e)
    with p1 show ?thesis by (simp add: add_queued_def)
  next
    case (Inr b)
    let ?l = "if isLocal \<and> \<not> as_contains (tp_locals p1) (sender E tx) then p1\<lparr>tp_locals := as_add (tp_locals p1) (sender E tx)\<rparr> else p1"
    have "same_chain p (journalTx E (sender E tx) tx ?l)"
      using p1(3) by (auto simp: same_chain_def same_setup_def as_add_def journalTx_def split: option.splits)
    moreover have "add_queued E tx isLocal p = Some (journalTx E (sender E tx) tx ?l, Inr b)"
      by (simp add: add_queued_def p1(1) Inr Let_def)
    moreover have "consistent E (journalTx E (sender E tx) tx ?l)"
      using p1(2) by (simp add: consistent_locals frame_simps)
    moreover have known: "known (journalTx E (sender E tx) tx ?l) = insert tx {t \<in> known p. slot E t \<noteq> slot E tx}"
      using p1(5) Inr by simp
    moreover have "takes_slot E p (journalTx E (sender E tx) tx ?l) tx"
      unfolding takes_slot_def known by blast
    ultimately show ?thesis by auto
  qed
qed

lemma add_pending_law:
  assumes env: "env_ok E" and con: "consistent E p" and new: "lk_Get (tp_all p) (tx_Hash tx) = None"
    and l: "tp_pending p (sender E tx) = Some l" and ov: "tl_Overlaps l tx"
    and add: "tl_Add l tx (PriceBump (tp_config p)) = (l', inserted, old)"
  shows "\<not> inserted \<Longrightarrow> (tp_pending p)(sender E tx \<mapsto> l') = tp_pending p"
    "inserted \<Longrightarrow> \<exists>p'. (case old of None \<Rightarrow> Some (put_pending (sender E tx) l' p)
        | Some o' \<Rightarrow> map_option (priced_Removed E 1) (all_Remove (tx_Hash o') (put_pending (sender E tx) l' p))) = Some p'
      \<and> consistent E (all_Add tx p') \<and> same_setup p p' \<and> known (all_Add tx p') = insert tx {t \<in> known p. slot E t \<noteq> slot E tx}"
proof -
  note c = consistentD [OF con]
  have ok: "lists_ok E True (tp_pending p)" by (rule pinvD(1) [OF c(2)])
  have pl: "placed E (known p) {} (tp_pending p) (tp_queue p)" using c(2) by (simp add: pinv_def)
  have add': "tl_Add (case tp_pending p (sender E tx) of None \<Rightarrow> newTxList True | Some l \<Rightarrow> l) tx (PriceBump (tp_config p)) = (l', inserted, old)"
    using add l by simp
  show "\<not> inserted \<Longrightarrow> (tp_pending p)(sender E tx \<mapsto> l') = tp_pending p" using add_list(2) [OF ok add'] by simp
  assume inserted: "inserted"
  note a = add_list(1) [OF ok add' inserted]
  let ?p = "put_pending (sender E tx) l' p"
  obtain o' where o': "tl_items l (tx_Nonce tx) = Some o'" using ov by (auto simp: tl_Overlaps_def sm_Get_def)
  have o'': "tx_Nonce o' = tx_Nonce tx" "sender E o' = sender E tx"
    using lists_okD [OF ok l] tl_invD(6) [OF lists_okD(1) [OF ok l] o'] o' by auto
  have "o' \<in> listed (tp_pending p)" using o' o'' l by (auto simp: listed_def)
  then have free: "\<forall>t \<in> listed (tp_queue p). slot E t \<noteq> slot E tx"
  proof (intro ballI notI)
    fix t assume t: "t \<in> listed (tp_queue p)" "slot E t = slot E tx"
    then have "slot E t = slot E o'" using o'' by (simp add: slot_def)
    then have "t = o'" using inj_onD [OF pinvD(6) [OF c(2)]] t(1) \<open>o' \<in> listed (tp_pending p)\<close> c(6) by blast
    then show False using t(1) \<open>o' \<in> listed (tp_pending p)\<close> pinvD(5) [OF c(2)] by blast
  qed
  have pr: "price_ok {} ?p" using c(3) by (simp add: price_ok_def put_pending_def)
  have old: "\<And>o'. old = Some o' \<Longrightarrow> o' \<in> known ?p" using a c(6) by (auto simp: put_pending_def)
  obtain p' where p': "(case old of None \<Rightarrow> Some ?p | Some o' \<Rightarrow> map_option (priced_Removed E 1) (all_Remove (tx_Hash o') ?p)) = Some p'"
    "price_ok {} (all_Add tx p')" "known (all_Add tx p') = insert tx (known ?p - set_option old)"
    "tp_pending p' = tp_pending ?p" "tp_queue p' = tp_queue ?p" "same_setup ?p p'"
    using swap_in [OF env pr _ old, of tx old] new by (auto simp: lk_Get_def put_pending_def)
  have R: "known p - set_option old = {t \<in> known p. slot E t \<noteq> slot E tx}"
    using slot_free [OF pinvD(6) [OF c(2)], of old "listed (tp_pending p)" tx] a free c(6) by blast
  have "placed E (insert tx {t \<in> known p. slot E t \<noteq> slot E tx}) {} ((tp_pending p)(sender E tx \<mapsto> l')) (tp_queue p)"
    using placed_swap(1) [OF pl _ _ free] a by blast
  then have "consistent E (all_Add tx p')"
    using p' R c(5) no_empty_put(2) [OF c(4)] a
    by (simp add: consistent_def consistent_but_def pinv_def put_pending_def)
  then show "\<exists>p'. (case old of None \<Rightarrow> Some ?p
        | Some o' \<Rightarrow> map_option (priced_Removed E 1) (all_Remove (tx_Hash o') ?p)) = Some p'
      \<and> consistent E (all_Add tx p') \<and> same_setup p p' \<and> known (all_Add tx p') = insert tx {t \<in> known p. slot E t \<noteq> slot E tx}"
    using p' R by (auto simp: put_pending_def)
qed

lemma add_law:
  assumes env: "env_ok E" and con: "consistent E p"
  shows "\<exists>p' res. add E tx isLocal p = Some (p', res) \<and> consistent E p' \<and> same_chain p p'
    \<and> known p' \<subseteq> insert tx (known p) \<and> (\<forall>b. res = Inr b \<longrightarrow> takes_slot E p p' tx)
      \<and> (\<forall>e. res = Inl e \<longrightarrow> known p' \<subseteq> known p)"
proof (cases "lk_Get (tp_all p) (tx_Hash tx) = None \<and> validateTx E p tx isLocal = None")
  case False
  then show ?thesis using con by (auto simp: add_def split: option.splits)
next
  case True
  obtain p1 room where p1: "make_room E tx isLocal p = Some (p1, room)" "consistent E p1" "same_setup p p1" "known p1 \<subseteq> known p"
    using make_room_law [OF env con] by blast
  have fresh: "\<forall>t \<in> known p. tx_Hash t \<noteq> tx_Hash tx"
    using True known_hash [OF consistentD(3) [OF con]] by (metis lk_Get_def option.distinct(1))
  have new: "lk_Get (tp_all p1) (tx_Hash tx) = None"
  proof (rule ccontr)
    assume "lk_Get (tp_all p1) (tx_Hash tx) \<noteq> None"
    then obtain t where "lk_all (tp_all p1) (tx_Hash tx) = Some t" by (auto simp: lk_Get_def)
    moreover have "tx_Hash t = tx_Hash tx"
      using calculation consistentD(3) [OF p1(2)] by (simp add: price_ok_def lk_inv_def)
    ultimately have "t \<in> known p1" using known_hash [OF consistentD(3) [OF p1(2)], of t] by simp
    with fresh p1(4) \<open>tx_Hash t = tx_Hash tx\<close> show False by blast
  qed
  have take: "takes_slot E p1 p' tx \<Longrightarrow> takes_slot E p p' tx" for p' using p1(4) by (auto simp: takes_slot_def)
  have queued: "\<exists>p' res. add_queued E tx isLocal p1 = Some (p', res) \<and> consistent E p' \<and> same_chain p p'
      \<and> known p' \<subseteq> insert tx (known p) \<and> (\<forall>b. res = Inr b \<longrightarrow> takes_slot E p p' tx)
      \<and> (\<forall>e. res = Inl e \<longrightarrow> known p' \<subseteq> known p)"
    if free: "\<forall>t \<in> listed (tp_pending p1). slot E t \<noteq> slot E tx"
  proof -
    obtain p' res where p': "add_queued E tx isLocal p1 = Some (p', res)" "consistent E p'" "same_chain p1 p'"
      "known p' \<subseteq> insert tx (known p1)" "\<forall>b. res = Inr b \<longrightarrow> takes_slot E p1 p' tx"
      "\<forall>e. res = Inl e \<longrightarrow> p' = p1"
      using add_queued_law [OF env p1(2) new free] by blast
    have "same_chain p p'" using same_chain_trans [OF same_setup_chain [OF p1(3)] p'(3)] .
    then show ?thesis using p' p1(4) take by blast
  qed
  have ok: "lists_ok E True (tp_pending p1)" by (rule pinvD(1) [OF consistentD(2) [OF p1(2)]])
  show ?thesis
  proof (cases "room \<and> (\<exists>l. tp_pending p1 (sender E tx) = Some l \<and> tl_Overlaps l tx)")
    case False
    have "\<forall>t \<in> listed (tp_pending p1). slot E t \<noteq> slot E tx" if room
      using False that by (auto simp: listed_iff [OF ok] slot_def tl_Overlaps_def sm_Get_def)
    note free = this
    show ?thesis
    proof (cases room)
      case r: True
      have "add E tx isLocal p = add_queued E tx isLocal p1"
        using True p1(1) r False by (cases "tp_pending p1 (sender E tx)") (auto simp: add_def Let_def)
      then show ?thesis using queued [OF free [OF r]] by simp
    next
      case r: False
      then have "add E tx isLocal p = Some (p1, Inl ErrUnderpriced)" using True p1(1) by (simp add: add_def)
      then show ?thesis using p1 same_setup_chain [OF p1(3)] by auto
    qed
  next
    case ov: True
    then obtain l where l: "tp_pending p1 (sender E tx) = Some l" "tl_Overlaps l tx" by blast
    obtain l' inserted old where add: "tl_Add l tx (PriceBump (tp_config p1)) = (l', inserted, old)" by (metis prod_cases3)
    note pend = add_pending_law [OF env p1(2) new l add]
    show ?thesis
    proof (cases inserted)
      case False
      then have "add E tx isLocal p = Some (p1, Inl ErrReplaceUnderpriced)"
        using True p1(1) ov l add pend(1) unfolding add_def by simp
      then show ?thesis using p1 same_setup_chain [OF p1(3)] by auto
    next
      case ins: True
      obtain p' where p': "(case old of None \<Rightarrow> Some (put_pending (sender E tx) l' p1)
          | Some o' \<Rightarrow> map_option (priced_Removed E 1) (all_Remove (tx_Hash o') (put_pending (sender E tx) l' p1))) = Some p'"
        "consistent E (all_Add tx p')" "same_setup p1 p'"
        "known (all_Add tx p') = insert tx {t \<in> known p1. slot E t \<noteq> slot E tx}"
        using pend(2) [OF ins] by blast
      let ?q = "journalTx E (sender E tx) tx (all_Add tx p')"
      have "add E tx isLocal p = Some (?q\<lparr>tp_events := tp_events ?q @ [tx]\<rparr>, Inr (old \<noteq> None))"
        using True p1(1) ov l add ins p'(1) unfolding add_def put_pending_def by (simp add: Let_def)
      moreover have "same_chain p (?q\<lparr>tp_events := tp_events ?q @ [tx]\<rparr>)"
        using p1(3) p'(3) by (auto simp: same_chain_def same_setup_def all_Add_def journalTx_def split: option.splits)
      ultimately show ?thesis using p'(2,4) p1(4)
        by (auto simp: frame_simps consistent_locals takes_slot_def)
    qed
  qed
qed

lemma add_valid:
  assumes "add E tx isLocal p = Some (p', Inr b)"
  shows "lk_Get (tp_all p) (tx_Hash tx) = None" "validateTx E p tx isLocal = None"
  using assms by (auto simp: add_def split: if_splits option.splits)

section \<open>Batches and their errors\<close>

lemma addTxsLocked_loop_law:
  assumes "env_ok E" "consistent E p"
  shows "\<exists>p' es dirty'. addTxsLocked_loop E isLocal txs errs dirty p = Some (p', errs @ es, dirty') \<and> length es = length txs
    \<and> consistent E p' \<and> same_chain p p' \<and> known p' \<subseteq> known p \<union> set txs"
  using assms(2)
proof (induction txs arbitrary: p errs dirty)
  case (Cons tx txs)
  obtain p1 res where p1: "add E tx isLocal p = Some (p1, res)" "consistent E p1" "same_chain p p1" "known p1 \<subseteq> insert tx (known p)"
    using add_law [OF assms(1) Cons.prems] by blast
  define e where "e = (case res of Inl e \<Rightarrow> Some e | Inr _ \<Rightarrow> None)"
  define d where "d = (case res of Inl e \<Rightarrow> dirty | Inr replaced \<Rightarrow> if \<not> replaced then as_addTx (pe_Sender E) dirty tx else dirty)"
  obtain p' es dirty' where p': "addTxsLocked_loop E isLocal txs (errs @ [e]) d p1 = Some (p', (errs @ [e]) @ es, dirty')"
    "length es = length txs" "consistent E p'" "same_chain p1 p'" "known p' \<subseteq> known p1 \<union> set txs"
    using Cons.IH [OF p1(2)] by blast
  have "addTxsLocked_loop E isLocal (tx # txs) errs dirty p = addTxsLocked_loop E isLocal txs (errs @ [e]) d p1"
    using p1(1) by (cases res) (simp_all add: e_def d_def)
  then have "addTxsLocked_loop E isLocal (tx # txs) errs dirty p = Some (p', errs @ (e # es), dirty')"
    using p'(1) by simp
  then show ?case using p'(2,3,5) p1(4) same_chain_trans [OF p1(3) p'(4)]
    by (intro exI [of _ p'] exI [of _ "e # es"] exI [of _ dirty']) auto
qed auto

text \<open>
  The slots a batch leaves empty for the new errors, and where the loop puts them: an error
  that is nil leaves the slot empty, so the next error takes the same slot.
\<close>

fun fill_slots :: "'x option list \<Rightarrow> 'x list \<Rightarrow> 'x option list" where
  "fill_slots [] es = []"
| "fill_slots (Some e # errs) es = Some e # fill_slots errs es"
| "fill_slots (None # errs) [] = None # fill_slots errs []"
| "fill_slots (None # errs) (e # es) = Some e # fill_slots errs es"

fun some_errs :: "'x option list \<Rightarrow> 'x list" where
  "some_errs [] = []"
| "some_errs (None # errs) = some_errs errs"
| "some_errs (Some e # errs) = e # some_errs errs"

definition nil_slots :: "'x option list \<Rightarrow> nat" where
  "nil_slots errs = length (filter (\<lambda>e. e = None) errs)"

lemma nil_slots_simps [simp]:
  "nil_slots [] = 0" "nil_slots (None # errs) = Suc (nil_slots errs)" "nil_slots (Some e # errs) = nil_slots errs"
  "nil_slots (map Some es @ errs) = nil_slots errs"
  by (induction es) (simp_all add: nil_slots_def)

lemma next_nil_skip:
  "next_nil (pre @ map Some es @ errs) (length pre) = next_nil (pre @ map Some es @ errs) (length pre + length es)"
proof (induction es arbitrary: pre)
  case (Cons e es)
  have "next_nil (pre @ map Some (e # es) @ errs) (length pre) = next_nil (pre @ map Some (e # es) @ errs) (length pre + 1)"
    by (subst next_nil.simps) (simp add: nth_append)
  also have "\<dots> = next_nil ((pre @ [Some e]) @ map Some es @ errs) (length (pre @ [Some e]))" by simp
  also have "\<dots> = next_nil ((pre @ [Some e]) @ map Some es @ errs) (length (pre @ [Some e]) + length es)"
    by (rule Cons.IH)
  finally show ?case by simp
qed simp

lemma next_nil_first:
  "next_nil (pre @ map Some es @ None # errs) (length pre) = Some (length pre + length es)"
  unfolding next_nil_skip by (subst next_nil.simps) (simp add: nth_append)

lemma fill_slots_Some: "fill_slots (map Some es @ errs) new = map Some es @ fill_slots errs new"
  by (induction es) auto

lemma fill_slots_nil: "fill_slots errs [] = errs"
  by (induction errs "[] :: 'a list" rule: fill_slots.induct) simp_all

lemma split_first_nil:
  assumes "0 < nil_slots errs"
  shows "\<exists>es errs'. errs = map Some es @ None # errs'"
  using assms
proof (induction errs)
  case (Cons e errs)
  show ?case
  proof (cases e)
    case None
    then have "e # errs = map Some [] @ None # errs" by simp
    then show ?thesis by blast
  next
    case (Some x)
    with Cons obtain es errs' where "errs = map Some es @ None # errs'" by auto
    with Some have "e # errs = map Some (x # es) @ None # errs'" by simp
    then show ?thesis by blast
  qed
qed simp

lemma merge_errs_slots:
  assumes "length new \<le> nil_slots errs"
  shows "merge_errs (pre @ errs) (length pre) new = Some (pre @ fill_slots errs (some_errs new))"
  using assms
proof (induction new arbitrary: pre errs)
  case Nil
  then show ?case by (simp add: fill_slots_nil)
next
  case (Cons err new)
  have "0 < nil_slots errs" using Cons.prems by simp
  then obtain es errs' where errs: "errs = map Some es @ None # errs'" using split_first_nil by blast
  note nn = next_nil_first [of pre es errs', folded errs]
  have upd: "(pre @ errs)[length pre + length es := err] = (pre @ map Some es) @ err # errs'"
    by (simp add: errs list_update_append)
  have len: "length new \<le> nil_slots errs'" using Cons.prems by (simp add: errs)
  have step: "merge_errs (pre @ errs) (length pre) (err # new)
      = merge_errs ((pre @ map Some es) @ err # errs') (length (pre @ map Some es)) new"
    using nn upd by simp
  show ?case
  proof (cases err)
    case None
    have "merge_errs ((pre @ map Some es) @ None # errs') (length (pre @ map Some es)) new
        = Some ((pre @ map Some es) @ fill_slots (None # errs') (some_errs new))"
      using len by (intro Cons.IH) simp
    with None show ?thesis unfolding step by (simp add: errs fill_slots_Some)
  next
    case (Some e)
    let ?xs = "pre @ map Some es"
    have "merge_errs (?xs @ Some e # errs') (length ?xs) new = merge_errs ((?xs @ [Some e]) @ errs') (length (?xs @ [Some e])) new"
    proof (cases new)
      case (Cons n ns)
      have "next_nil (?xs @ Some e # errs') (length ?xs) = next_nil ((?xs @ [Some e]) @ errs') (length (?xs @ [Some e]))"
        using next_nil_skip [of ?xs "[e]" errs'] by simp
      with Cons show ?thesis by simp
    qed simp
    also have "\<dots> = Some ((?xs @ [Some e]) @ fill_slots errs' (some_errs new))" by (rule Cons.IH [OF len])
    finally show ?thesis using Some unfolding step by (simp add: errs fill_slots_Some)
  qed
qed

lemma fill_slots_counts:
  "length es \<le> nil_slots errs \<Longrightarrow> mset (some_errs (fill_slots errs es)) = mset (some_errs errs) + mset es"
  "length (fill_slots errs es) = length errs"
  by (induction errs es rule: fill_slots.induct) (simp_all add: fill_slots_nil)

lemma length_some_errs: "length (some_errs es) \<le> length es"
  by (induction es rule: some_errs.induct) simp_all

text \<open>The slots of a batch: known transactions are refused at once.\<close>

definition known_errs :: "pool \<Rightarrow> transaction list \<Rightarrow> pool_error option list" where
  "known_errs p = map (\<lambda>tx. if lk_Get (tp_all p) (tx_Hash tx) \<noteq> None then Some ErrAlreadyKnown else None)"

lemma nil_slots_known: "nil_slots (known_errs p txs) = length (filter (\<lambda>tx. lk_Get (tp_all p) (tx_Hash tx) = None) txs)"
  by (induction txs) (simp_all add: known_errs_def)

lemma addTxs_law:
  assumes "env_ok E" "consistent E p"
  shows "\<exists>p' errs dirty es. addTxs E txs isLocal p = Some (p', errs, dirty) \<and> consistent E p' \<and> same_chain p p'
    \<and> known p' \<subseteq> known p \<union> set txs \<and> errs = fill_slots (known_errs p txs) (some_errs es)
    \<and> length es = nil_slots (known_errs p txs)
    \<and> (nil_slots (known_errs p txs) \<noteq> 0 \<longrightarrow>
        (\<exists>d. addTxsLocked E (filter (\<lambda>tx. lk_Get (tp_all p) (tx_Hash tx) = None) txs) isLocal p = Some (p', es, d)))"
proof -
  let ?news = "filter (\<lambda>tx. lk_Get (tp_all p) (tx_Hash tx) = None) txs"
  obtain p' es d where p': "addTxsLocked_loop E isLocal ?news [] (newAccountSet []) p = Some (p', [] @ es, d)"
    "length es = length ?news" "consistent E p'" "same_chain p p'" "known p' \<subseteq> known p \<union> set ?news"
    using addTxsLocked_loop_law [OF assms] by blast
  have a: "addTxsLocked E ?news isLocal p = Some (p', es, d)" using p'(1) by (simp add: addTxsLocked_def)
  have n: "length es = nil_slots (known_errs p txs)" using p'(2) by (simp add: nil_slots_known)
  show ?thesis
  proof (cases "?news = []")
    case True
    then have z: "nil_slots (known_errs p txs) = 0" by (simp add: nil_slots_known)
    have "addTxs E txs isLocal p = Some (p, known_errs p txs, None)"
      using True by (simp add: addTxs_def known_errs_def Let_def)
    then show ?thesis using assms(2) z by (auto simp: fill_slots_nil intro!: exI [of _ "[]"])
  next
    case False
    have "addTxs E txs isLocal p = Some (p', fill_slots (known_errs p txs) (some_errs es), Some d)"
      using False a merge_errs_slots [of es "known_errs p txs" "[]"] n
      by (simp add: addTxs_def known_errs_def Let_def)
    then show ?thesis using p'(3-5) n a by auto
  qed
qed

end
