(* ===== verification/Tx_Pool_Run.thy ===== *)
theory Tx_Pool_Run
  imports Tx_Pool_Laws
begin

text \<open>
  Laws of the periodic work of the pool: promotion of the queue, demotion of the pending lists,
  the two truncations, eviction and the price threshold.
\<close>

section \<open>Promotion\<close>

lemma splits_le: "tl_splits l l' txs \<Longrightarrow> tl_items l' k = Some tx \<Longrightarrow> tl_items l k = Some tx"
  by (metis domI map_le_def tl_splits_def)

lemma splits_inv: "tl_splits l l' txs \<Longrightarrow> tl_inv l'" "tl_splits l l' txs \<Longrightarrow> tl_strict l' = tl_strict l"
  "tl_splits l l' txs \<Longrightarrow> distinct txs"
  by (simp_all add: tl_splits_def)

lemma splits_from: "tl_splits l l' txs \<Longrightarrow> tx \<in> set txs \<Longrightarrow> tl_items l (tx_Nonce tx) = Some tx"
  by (simp add: tl_splits_def)

lemma put_fields [simp]:
  "tp_queue (put_queue a l p) = (tp_queue p)(a \<mapsto> l)" "tp_pending (put_queue a l p) = tp_pending p"
  "tp_state (put_queue a l p) = tp_state p" "tp_maxGas (put_queue a l p) = tp_maxGas p"
  "tp_config (put_queue a l p) = tp_config p" "tp_locals (put_queue a l p) = tp_locals p"
  "tp_nonces (put_queue a l p) = tp_nonces p" "known (put_queue a l p) = known p"
  "same_setup q (put_queue a l p) = same_setup q p"
  "tp_pending (put_pending a l p) = (tp_pending p)(a \<mapsto> l)" "tp_queue (put_pending a l p) = tp_queue p"
  "tp_state (put_pending a l p) = tp_state p" "tp_maxGas (put_pending a l p) = tp_maxGas p"
  "tp_config (put_pending a l p) = tp_config p" "tp_locals (put_pending a l p) = tp_locals p"
  "tp_nonces (put_pending a l p) = tp_nonces p" "known (put_pending a l p) = known p"
  "same_setup q (put_pending a l p) = same_setup q p" "same_setup (put_queue a l p) q = same_setup p q"
  "same_setup (put_pending a l p) q = same_setup p q"
  by (simp_all add: put_queue_def put_pending_def)

text \<open>Taking transactions out of a queued list and forgetting them.\<close>

lemma forget_queued:
  assumes inv: "pinv E D F p" and l: "tp_queue p a = Some l" and sp: "tl_splits l l' txs"
  shows "\<exists>t. all_RemoveTxs txs (put_queue a l' p) = Some ((put_queue a l' p)\<lparr>tp_all := t\<rparr>)
    \<and> pinv E D F ((put_queue a l' p)\<lparr>tp_all := t\<rparr>) \<and> known ((put_queue a l' p)\<lparr>tp_all := t\<rparr>) = known p - set txs"
proof -
  note put = put_queue_law [OF inv l sp]
  have "F \<union> set txs - set txs = F" using put(2) by blast
  then show ?thesis using all_RemoveTxs_law [OF put(1) splits_inv(3) [OF sp]] by simp
qed

lemma forget_pending:
  assumes inv: "pinv E D F p" and l: "tp_pending p a = Some l" and sp: "tl_splits l l' txs"
  shows "\<exists>t. all_RemoveTxs txs (put_pending a l' p) = Some ((put_pending a l' p)\<lparr>tp_all := t\<rparr>)
    \<and> pinv E D F ((put_pending a l' p)\<lparr>tp_all := t\<rparr>) \<and> known ((put_pending a l' p)\<lparr>tp_all := t\<rparr>) = known p - set txs"
proof -
  note put = put_pending_law [OF inv l sp]
  have "F \<union> set txs - set txs = F" using put(2) by blast
  then show ?thesis using all_RemoveTxs_law [OF put(1) splits_inv(3) [OF sp]] by simp
qed

lemma promote_ready_law:
  assumes "pinv E D F p" "distinct txs" "set txs \<subseteq> F" "\<forall>tx \<in> set txs. sender E tx = a" "no_empty (tp_pending p)"
  shows "\<exists>p'. each (promote_ready E a) txs (p, promoted) = Some (p', promoted @ txs) \<and> pinv E D (F - set txs) p'
    \<and> same_setup p p' \<and> known p' = known p \<and> tp_queue p' = tp_queue p \<and> no_empty (tp_pending p')
    \<and> listed (tp_pending p') = listed (tp_pending p) \<union> set txs"
  using assms
proof (induction txs arbitrary: p F promoted)
  case (Cons tx txs)
  have s: "sender E tx = a" using Cons.prems(4) by simp
  obtain l where l: "promoteTx E a (tx_Hash tx) tx p =
      Some ((put_pending a l p)\<lparr>tp_beats := (tp_beats p)(a \<mapsto> pe_now E (tx_Hash tx)),
              tp_nonces := tn_set (tp_nonces p) a (tx_Nonce tx + 1)\<rparr>, True)"
    "pinv E D (F - {tx}) (put_pending a l p)" "tl_items l \<noteq> Map.empty"
    "listed ((tp_pending p)(a \<mapsto> l)) = insert tx (listed (tp_pending p))"
    using promote_law [OF Cons.prems(1), of tx] Cons.prems(3) s by auto
  let ?p = "(put_pending a l p)\<lparr>tp_beats := (tp_beats p)(a \<mapsto> pe_now E (tx_Hash tx)),
              tp_nonces := tn_set (tp_nonces p) a (tx_Nonce tx + 1)\<rparr>"
  have inv: "pinv E D (F - {tx}) ?p" using l(2) by (simp add: frame_simps)
  have ne: "no_empty (tp_pending ?p)" using no_empty_put(2) [OF Cons.prems(5) l(3)] by simp
  obtain p' where p': "each (promote_ready E a) txs (?p, promoted @ [tx]) = Some (p', (promoted @ [tx]) @ txs)"
    "pinv E D (F - {tx} - set txs) p'" "same_setup ?p p'" "known p' = known ?p" "tp_queue p' = tp_queue ?p"
    "no_empty (tp_pending p')" "listed (tp_pending p') = listed (tp_pending ?p) \<union> set txs"
    using Cons.IH [OF inv _ _ _ ne, of "promoted @ [tx]"] Cons.prems(2-4) by (auto simp del: fun_upd_apply)
  have F: "F - {tx} - set txs = F - set (tx # txs)" by auto
  have "same_setup p p'" using p'(3) by (simp add: same_setup_def put_pending_def)
  moreover have "each (promote_ready E a) (tx # txs) (p, promoted) = Some (p', promoted @ tx # txs)"
    using l(1) p'(1) by (simp add: promote_ready_def)
  ultimately show ?case using p' l(4) unfolding F by auto
qed simp

text \<open>What the state of the chain asks of a transaction.\<close>

definition payable :: "'e pool_env \<Rightarrow> pool \<Rightarrow> transaction \<Rightarrow> bool" where
  "payable E p tx \<longleftrightarrow> ps_nonce (tp_state p) (sender E tx) \<le> tx_Nonce tx
     \<and> tx_Cost tx \<le> ps_balance (tp_state p) (sender E tx) \<and> tx_Gas tx \<le> tp_maxGas p"

lemma tl_Filter_keeps:
  assumes "map_order rng" "tl_inv l" "tl_Filter rng l c g = (l', drops, invalids)" "tl_items l' k = Some tx"
  shows "tx_Cost tx \<le> c \<and> tx_Gas tx \<le> g"
  using tl_Filter_correct(2) [OF assms(1-3)] assms(4) by (auto simp: restrict_map_def split: if_splits)

definition promotes :: "'e pool_env \<Rightarrow> address \<Rightarrow> pool \<Rightarrow> pool \<Rightarrow> transaction list \<Rightarrow> bool" where
  "promotes E a p p' txs \<longleftrightarrow> consistent E p' \<and> same_setup p p'
     \<and> listed (tp_pending p') = listed (tp_pending p) \<union> set txs \<and> set txs \<subseteq> listed (tp_queue p)
     \<and> listed (tp_queue p') \<subseteq> listed (tp_queue p) - set txs
     \<and> {t \<in> listed (tp_queue p). sender E t \<noteq> a} \<subseteq> listed (tp_queue p')
     \<and> (\<forall>t \<in> set txs \<union> {t \<in> listed (tp_queue p'). sender E t = a}. sender E t = a \<and> payable E p t)
     \<and> (\<forall>l. tp_queue p' a = Some l \<longrightarrow> \<not> as_contains (tp_locals p) a \<longrightarrow> int (tl_Len l) \<le> sint (AccountQueue (tp_config p)))"

lemma promote_account_law:
  assumes env: "env_ok E" and con: "consistent E p" and lim: "0 \<le> sint (AccountQueue (tp_config p))"
  shows "\<exists>p' txs. promote_account E a (p, promoted) = Some (p', promoted @ txs) \<and> promotes E a p p' txs"
proof (cases "tp_queue p a")
  case None
  note c = consistentD [OF con]
  have "t \<notin> listed (tp_queue p)" if "sender E t = a" for t
    using that None by (simp add: listed_iff [OF pinvD(2) [OF c(2)]])
  then show ?thesis using None con by (auto simp: promote_account_def promotes_def)
next
  case (Some l)
  note c = consistentD [OF con]
  note ok = lists_okD [OF pinvD(2) [OF c(2)] Some]
  have lax: "\<not> tl_strict l" using ok(2) by simp
  let ?n = "ps_nonce (tp_state p) a" and ?bal = "ps_balance (tp_state p) a"
  obtain l1 forwards where fwd: "tl_Forward l ?n = Some (l1, forwards)" "tl_splits l l1 forwards"
    "tl_items l1 = tl_items l |` {k. ?n \<le> k}" using tl_Forward_splits [OF ok(1)] by blast
  obtain t1 where t1: "all_RemoveTxs forwards (put_queue a l1 p) = Some ((put_queue a l1 p)\<lparr>tp_all := t1\<rparr>)"
    "pinv E {} {} ((put_queue a l1 p)\<lparr>tp_all := t1\<rparr>)"
    "known ((put_queue a l1 p)\<lparr>tp_all := t1\<rparr>) = known p - set forwards"
    using forget_queued [OF c(2) Some fwd(2)] by blast
  define p1 where "p1 = (put_queue a l1 p)\<lparr>tp_all := t1\<rparr>"
  obtain l2 drops inval where flt: "tl_Filter (pe_nonces E) l1 ?bal (tp_maxGas p) = (l2, drops, inval)" by (metis prod_cases3)
  note inv1 = splits_inv [OF fwd(2)]
  have "inval = []" using tl_Filter_lax [OF flt] inv1(2) lax by simp
  then have sp2: "tl_splits l1 l2 drops" using tl_Filter_splits [OF env_okD(2) [OF env] inv1(1) flt] by simp
  have p1q: "tp_queue p1 a = Some l1" by (simp add: p1_def)
  obtain t2 where t2: "all_RemoveTxs drops (put_queue a l2 p1) = Some ((put_queue a l2 p1)\<lparr>tp_all := t2\<rparr>)"
    "pinv E {} {} ((put_queue a l2 p1)\<lparr>tp_all := t2\<rparr>)"
    using forget_queued [OF t1(2) [folded p1_def] p1q sp2] by blast
  define p2 where "p2 = (put_queue a l2 p1)\<lparr>tp_all := t2\<rparr>"
  obtain p2' n where non: "tp_Nonce p2 a = (p2', n)" by fastforce
  have p2': "p2' = p2\<lparr>tp_nonces := tp_nonces p2'\<rparr>" using non by (auto simp: tp_Nonce_def split: prod.splits)
  have inv2: "pinv E {} {} p2'" using t2(2) by (subst p2') (simp add: p2_def frame_simps)
  have p2f: "tp_queue p2' = (tp_queue p)(a \<mapsto> l2)" "tp_pending p2' = tp_pending p" "same_setup p p2'"
    by (subst p2', simp add: p2_def p1_def)+
  obtain l3 readies where rdy: "tl_Ready l2 n = Some (l3, readies)" "tl_splits l2 l3 readies"
    using tl_Ready_splits [OF splits_inv(1) [OF sp2]] by blast
  have p2q: "tp_queue p2' a = Some l2" by (simp add: p2f)
  note put3 = put_queue_law [OF inv2 p2q rdy(2)]
  have from_l: "tl_items l (tx_Nonce t) = Some t" if "tl_items l2 (tx_Nonce t) = Some t" for t
    using that splits_le [OF fwd(2)] splits_le [OF sp2] by blast
  have snd_r: "\<forall>t \<in> set readies. sender E t = a"
    using splits_from [OF rdy(2)] from_l ok(3) by blast
  obtain p3 where p3: "each (promote_ready E a) readies (put_queue a l3 p2', promoted) = Some (p3, promoted @ readies)"
    "pinv E {} {} p3" "same_setup p p3" "tp_queue p3 = (tp_queue p)(a \<mapsto> l3)" "no_empty (tp_pending p3)"
    "listed (tp_pending p3) = listed (tp_pending p) \<union> set readies"
    using promote_ready_law [OF put3(1) splits_inv(3) [OF rdy(2)] _ snd_r, of promoted] c(4) p2f
      same_setup_trans [OF p2f(3)] by (auto simp del: fun_upd_apply)
  have p3q: "tp_queue p3 a = Some l3" by (simp add: p3(4))
  have setup3: "tp_locals p3 = tp_locals p" "tp_config p3 = tp_config p" using p3(3) by (simp_all add: same_setup_def)
  have "\<exists>l4 caps. (if as_contains (tp_locals p) a then Some (l3, []) else tl_Cap l3 (sint (AccountQueue (tp_config p)))) = Some (l4, caps)
      \<and> tl_splits l3 l4 caps \<and> (\<not> as_contains (tp_locals p) a \<longrightarrow> int (tl_Len l4) \<le> sint (AccountQueue (tp_config p)))"
  proof (cases "as_contains (tp_locals p) a")
    case True
    have "tl_splits l3 l3 []" using splits_inv(1) [OF rdy(2)] by (auto simp: tl_splits_def)
    then show ?thesis using True by simp
  next
    case False
    obtain l4 caps where "tl_Cap l3 (sint (AccountQueue (tp_config p))) = Some (l4, caps)" "tl_splits l3 l4 caps"
      "sm_flat (tl_items l4) = take (nat (sint (AccountQueue (tp_config p)))) (sm_flat (tl_items l3))"
      using tl_Cap_splits [OF splits_inv(1) [OF rdy(2)] lim] by blast
    moreover from this have "int (tl_Len l4) \<le> sint (AccountQueue (tp_config p))"
      using lim splits_inv(1) tl_Len_flat by fastforce
    ultimately show ?thesis using False by auto
  qed
  then obtain l4 caps where cap: "(if as_contains (tp_locals p) a then Some (l3, []) else tl_Cap l3 (sint (AccountQueue (tp_config p)))) = Some (l4, caps)"
      "tl_splits l3 l4 caps" "\<not> as_contains (tp_locals p) a \<longrightarrow> int (tl_Len l4) \<le> sint (AccountQueue (tp_config p))" by blast
  obtain t4 where t4: "all_RemoveTxs caps (put_queue a l4 p3) = Some ((put_queue a l4 p3)\<lparr>tp_all := t4\<rparr>)"
    "pinv E {} {} ((put_queue a l4 p3)\<lparr>tp_all := t4\<rparr>)"
    using forget_queued [OF p3(2) p3q cap(2)] by blast
  define p4 where "p4 = priced_Removed E (length forwards + length drops + length caps) ((put_queue a l4 p3)\<lparr>tp_all := t4\<rparr>)"
  have p4: "pinv E {} {} p4" "tp_queue p4 = (tp_queue p)(a \<mapsto> l4)" "tp_pending p4 = tp_pending p3" "same_setup p p4"
    using pinv_Removed [OF env t4(2)] p3(3,4) by (simp_all add: p4_def)
  define p5 where "p5 = (if tl_Empty l4 then p4\<lparr>tp_queue := (tp_queue p4)(a := None)\<rparr> else p4)"
  have E: "tl_Empty l4 \<longleftrightarrow> tl_items l4 = Map.empty" by (rule tl_Empty_iff [OF splits_inv(1) [OF cap(2)]])
  have p5: "pinv E {} {} p5 \<and> listed (tp_queue p5) = listed ((tp_queue p)(a \<mapsto> l4)) \<and> no_empty (tp_queue p5)
    \<and> tp_pending p5 = tp_pending p3 \<and> same_setup p p5"
  proof (cases "tl_Empty l4")
    case True
    have "tp_queue p4 a = Some l4" by (simp add: p4(2))
    note drp = drop_queue_law [OF p4(1) this E [THEN iffD1, OF True]]
    have "no_empty ((tp_queue p4)(a := None))"
      unfolding p4(2) using no_empty_put(4) [OF no_empty_put(3) [OF no_empty_put(5) [OF c(5)]]] by blast
    then show ?thesis using drp True p4 by (simp add: p5_def del: fun_upd_apply)
  next
    case False
    then show ?thesis using p4 no_empty_put(2) [OF c(5), of l4 a] E by (simp add: p5_def)
  qed
  have p1f: "tp_state p1 = tp_state p" "tp_maxGas p1 = tp_maxGas p" by (simp_all add: p1_def)
  have "promote_account E a (p, promoted) = Some (p5, promoted @ readies)"
    unfolding promote_account_def prod.case Some option.case fwd(1) bind.bind_lunit t1(1) p1_def [symmetric] p1f flt Let_def
      t2(1) p2_def [symmetric] non rdy(1) p3(1) setup3 cap(1) t4(1) p4_def [symmetric]
    by (simp add: p5_def)
  moreover have "promotes E a p p5 readies"
  proof -
    have ok3: "lists_ok E False (tp_queue p)" and ok5: "lists_ok E False (tp_queue p5)"
      and ok4: "lists_ok E False ((tp_queue p)(a \<mapsto> l4))"
      using pinvD(2) [OF c(2)] pinvD(2) [of E "{}" "{}" p5] p5 pinvD(2) [OF p4(1)] by (auto simp: p4(2))
    have le4: "tl_items l3 k = Some t" if "tl_items l4 k = Some t" for k t using splits_le [OF cap(2) that] .
    have mem: "t \<in> listed (tp_queue p5) \<longleftrightarrow> (if sender E t = a then tl_items l4 (tx_Nonce t) = Some t else t \<in> listed (tp_queue p))" for t
      unfolding p5 [THEN conjunct2, THEN conjunct1] listed_iff [OF ok4] listed_iff [OF ok3] by simp
    have pay: "payable E p t" if "tl_items l2 (tx_Nonce t) = Some t" "sender E t = a" for t
    proof -
      have "tl_items l1 (tx_Nonce t) = Some t" by (rule splits_le [OF sp2 that(1)])
      then have "?n \<le> tx_Nonce t" by (auto simp: fwd(3) restrict_map_def split: if_splits)
      with tl_Filter_keeps [OF env_okD(2) [OF env] inv1(1) flt that(1)] that(2) show ?thesis by (simp add: payable_def)
    qed
    have r2: "tl_items l2 (tx_Nonce t) = Some t \<and> tl_items l3 (tx_Nonce t) = None" if "t \<in> set readies" for t
      using that rdy(2) by (simp add: tl_splits_def)
    have rq: "set readies \<subseteq> listed (tp_queue p)"
      using r2 from_l snd_r Some by (auto simp: listed_iff [OF ok3])
    have q5: "t \<in> listed (tp_queue p) - set readies" if "t \<in> listed (tp_queue p5)" for t
    proof (cases "sender E t = a")
      case True
      with that mem have i3: "tl_items l3 (tx_Nonce t) = Some t" using le4 by simp
      then have "tl_items l (tx_Nonce t) = Some t" using from_l splits_le [OF rdy(2)] by blast
      with True Some i3 r2 show ?thesis by (auto simp: listed_iff [OF ok3])
    next
      case False
      with that mem snd_r show ?thesis by auto
    qed
    have pay5: "payable E p t" if "t \<in> listed (tp_queue p5)" "sender E t = a" for t
      using that mem le4 splits_le [OF rdy(2)] pay by metis
    have cap5: "int (tl_Len l') \<le> sint (AccountQueue (tp_config p))"
      if "tp_queue p5 a = Some l'" "\<not> as_contains (tp_locals p) a" for l'
      using that cap(3) p4(2) by (auto simp: p5_def split: if_splits)
    have "consistent E p5" "same_setup p p5" "listed (tp_pending p5) = listed (tp_pending p) \<union> set readies"
      using p5 p3(5,6) by (simp_all add: consistent_def consistent_but_def)
    moreover have "listed (tp_queue p5) \<subseteq> listed (tp_queue p) - set readies" using q5 by blast
    moreover have "{t \<in> listed (tp_queue p). sender E t \<noteq> a} \<subseteq> listed (tp_queue p5)"
      using mem by (metis (mono_tags, lifting) mem_Collect_eq subsetI)
    moreover have "\<forall>t \<in> set readies \<union> {t \<in> listed (tp_queue p5). sender E t = a}. sender E t = a \<and> payable E p t"
      using snd_r pay r2 pay5 by blast
    ultimately show ?thesis using rq cap5 unfolding promotes_def by (intro conjI allI impI) assumption+
  qed
  ultimately show ?thesis by blast
qed

lemma promotesD:
  assumes "promotes E a p p' txs"
  shows "consistent E p'" "same_setup p p'" "listed (tp_pending p') = listed (tp_pending p) \<union> set txs"
    "set txs \<subseteq> listed (tp_queue p)" "listed (tp_queue p') \<subseteq> listed (tp_queue p) - set txs"
    "{t \<in> listed (tp_queue p). sender E t \<noteq> a} \<subseteq> listed (tp_queue p')"
    "\<forall>t \<in> set txs \<union> {t \<in> listed (tp_queue p'). sender E t = a}. sender E t = a \<and> payable E p t"
  using assms unfolding promotes_def by - (elim conjE, assumption)+

lemma promotes_trans_setup: "promotes E a p p' txs \<Longrightarrow> payable E p' t = payable E p t"
  using promotesD(2) [of E a p p' txs] by (simp add: same_setup_def payable_def)

text \<open>A round of promotion over several accounts.\<close>

lemma promoteExecutables_law:
  assumes env: "env_ok E" and con: "consistent E p" and lim: "0 \<le> sint (AccountQueue (tp_config p))"
  shows "\<exists>p' txs. promoteExecutables E accounts p = Some (p', txs) \<and> consistent E p' \<and> same_setup p p'
     \<and> listed (tp_pending p') = listed (tp_pending p) \<union> set txs \<and> set txs \<subseteq> listed (tp_queue p)
     \<and> listed (tp_queue p') \<subseteq> listed (tp_queue p) - set txs
     \<and> (\<forall>t \<in> set txs. payable E p t)
     \<and> (\<forall>t \<in> listed (tp_queue p'). sender E t \<in> set accounts \<longrightarrow> payable E p t)
     \<and> {t \<in> listed (tp_queue p). sender E t \<notin> set accounts} \<subseteq> listed (tp_queue p')"
proof -
  have "\<exists>p' txs. each (promote_account E) accounts (p, pr) = Some (p', pr @ txs) \<and> consistent E p' \<and> same_setup p p'
     \<and> listed (tp_pending p') = listed (tp_pending p) \<union> set txs \<and> set txs \<subseteq> listed (tp_queue p)
     \<and> listed (tp_queue p') \<subseteq> listed (tp_queue p) - set txs
     \<and> (\<forall>t \<in> set txs. payable E p t)
     \<and> (\<forall>t \<in> listed (tp_queue p'). sender E t \<in> set accounts \<longrightarrow> payable E p t)
     \<and> {t \<in> listed (tp_queue p). sender E t \<notin> set accounts} \<subseteq> listed (tp_queue p')" for pr
    using con lim
  proof (induction accounts arbitrary: p pr)
    case (Cons a accounts)
    obtain p1 txs1 where p1: "promote_account E a (p, pr) = Some (p1, pr @ txs1)" "promotes E a p p1 txs1"
      using promote_account_law [OF env Cons.prems] by blast
    have c1: "consistent E p1" "same_setup p p1" and s1: "tp_config p1 = tp_config p"
      using promotesD(1,2) [OF p1(2)] by (simp_all add: same_setup_def)
    obtain p' txs where p': "each (promote_account E) accounts (p1, pr @ txs1) = Some (p', (pr @ txs1) @ txs)"
      "consistent E p'" "same_setup p1 p'" "listed (tp_pending p') = listed (tp_pending p1) \<union> set txs"
      "set txs \<subseteq> listed (tp_queue p1)" "listed (tp_queue p') \<subseteq> listed (tp_queue p1) - set txs"
      "\<forall>t \<in> set txs. payable E p1 t" "\<forall>t \<in> listed (tp_queue p'). sender E t \<in> set accounts \<longrightarrow> payable E p1 t"
      "{t \<in> listed (tp_queue p1). sender E t \<notin> set accounts} \<subseteq> listed (tp_queue p')"
      using Cons.IH [OF c1(1), of "pr @ txs1"] Cons.prems(2) s1 by auto
    note pay = promotes_trans_setup [OF p1(2)]
    note d = promotesD(3-6) [OF p1(2)]
    have d7: "\<forall>t \<in> set txs1. payable E p t" "\<forall>t \<in> listed (tp_queue p1). sender E t = a \<longrightarrow> payable E p t"
      using promotesD(7) [OF p1(2)] by blast+
    have "each (promote_account E) (a # accounts) (p, pr) = Some (p', pr @ (txs1 @ txs))"
      using p1(1) p'(1) by simp
    moreover have "listed (tp_pending p') = listed (tp_pending p) \<union> set (txs1 @ txs)" using p'(4) d(1) by auto
    moreover have "set (txs1 @ txs) \<subseteq> listed (tp_queue p)" using p'(5) d(2,3) by auto
    moreover have "listed (tp_queue p') \<subseteq> listed (tp_queue p) - set (txs1 @ txs)" using p'(6) d(3) by auto
    moreover have "\<forall>t \<in> set (txs1 @ txs). payable E p t" using p'(7) d7(1) pay by auto
    moreover have "\<forall>t \<in> listed (tp_queue p'). sender E t \<in> set (a # accounts) \<longrightarrow> payable E p t"
      using p'(6,8) d7(2) pay by auto
    moreover have "{t \<in> listed (tp_queue p). sender E t \<notin> set (a # accounts)} \<subseteq> listed (tp_queue p')"
      using p'(9) d(4) by auto
    ultimately show ?case using p'(2) same_setup_trans [OF c1(2) p'(3)] by blast
  qed auto
  from this [of "[]"] show ?thesis by (auto simp: promoteExecutables_def)
qed

section \<open>Demotion\<close>

definition demotes :: "'e pool_env \<Rightarrow> address \<Rightarrow> pool \<Rightarrow> pool \<Rightarrow> bool" where
  "demotes E a p p' \<longleftrightarrow> consistent E p' \<and> same_setup p p'
     \<and> listed (tp_pending p') \<subseteq> listed (tp_pending p) \<and> listed (tp_queue p) \<subseteq> listed (tp_queue p')
     \<and> known p' \<subseteq> known p \<and> (\<forall>t \<in> known p - known p'. sender E t = a \<and> \<not> payable E p t)
     \<and> {t \<in> listed (tp_pending p). sender E t \<noteq> a} \<subseteq> listed (tp_pending p')
     \<and> (\<forall>t \<in> listed (tp_pending p'). sender E t = a \<longrightarrow> payable E p t)
     \<and> (\<forall>l. tp_pending p' a = Some l \<longrightarrow> tl_items l (ps_nonce (tp_state p) a) \<noteq> None)
     \<and> (\<forall>b. b \<noteq> a \<longrightarrow> tp_pending p' b = tp_pending p b)"

lemma demotesD:
  assumes "demotes E a p p'"
  shows "consistent E p'" "same_setup p p'"
     "listed (tp_pending p') \<subseteq> listed (tp_pending p)" "listed (tp_queue p) \<subseteq> listed (tp_queue p')"
     "known p' \<subseteq> known p" "\<forall>t \<in> known p - known p'. sender E t = a \<and> \<not> payable E p t"
     "{t \<in> listed (tp_pending p). sender E t \<noteq> a} \<subseteq> listed (tp_pending p')"
     "\<forall>t \<in> listed (tp_pending p'). sender E t = a \<longrightarrow> payable E p t"
     "\<forall>l. tp_pending p' a = Some l \<longrightarrow> tl_items l (ps_nonce (tp_state p) a) \<noteq> None"
     "\<forall>b. b \<noteq> a \<longrightarrow> tp_pending p' b = tp_pending p b"
  using assms unfolding demotes_def by - (elim conjE, assumption)+

lemma demote_account_law:
  assumes env: "env_ok E" and con: "consistent E p"
  shows "\<exists>p'. demote_account E a p = Some p' \<and> demotes E a p p'"
proof (cases "tp_pending p a")
  case None
  note c = consistentD [OF con]
  have "t \<notin> listed (tp_pending p)" if "sender E t = a" for t
    using that None by (simp add: listed_iff [OF pinvD(1) [OF c(2)]])
  then show ?thesis using None con by (auto simp: demote_account_def demotes_def)
next
  case (Some l)
  note c = consistentD [OF con]
  have ok0: "lists_ok E True (tp_pending p)" by (rule pinvD(1) [OF c(2)])
  note ok = lists_okD [OF ok0 Some]
  let ?n = "ps_nonce (tp_state p) a" and ?bal = "ps_balance (tp_state p) a"
  obtain l1 olds where fwd: "tl_Forward l ?n = Some (l1, olds)" "tl_splits l l1 olds"
    "tl_items l1 = tl_items l |` {k. ?n \<le> k}" using tl_Forward_splits [OF ok(1)] by blast
  obtain t1 where t1: "all_RemoveTxs olds (put_pending a l1 p) = Some ((put_pending a l1 p)\<lparr>tp_all := t1\<rparr>)"
    "pinv E {} {} ((put_pending a l1 p)\<lparr>tp_all := t1\<rparr>)"
    "known ((put_pending a l1 p)\<lparr>tp_all := t1\<rparr>) = known p - set olds"
    using forget_pending [OF c(2) Some fwd(2)] by blast
  define p1 where "p1 = (put_pending a l1 p)\<lparr>tp_all := t1\<rparr>"
  have p1f: "tp_state p1 = tp_state p" "tp_maxGas p1 = tp_maxGas p" "tp_pending p1 = (tp_pending p)(a \<mapsto> l1)"
    "tp_queue p1 = tp_queue p" "same_setup p p1" by (simp_all add: p1_def)
  obtain l2 drops inval where flt: "tl_Filter (pe_nonces E) l1 ?bal (tp_maxGas p) = (l2, drops, inval)" by (metis prod_cases3)
  note inv1 = splits_inv [OF fwd(2)]
  note sp2 = tl_Filter_splits [OF env_okD(2) [OF env] inv1(1) flt]
  have p1q: "tp_pending p1 a = Some l1" by (simp add: p1f)
  note put2 = put_pending_law [OF t1(2) [folded p1_def] p1q sp2]
  have dis2: "distinct drops" "distinct inval" "set drops \<inter> set inval = {}" using splits_inv(3) [OF sp2] by auto
  obtain t2 where t2: "all_RemoveTxs drops (put_pending a l2 p1) = Some ((put_pending a l2 p1)\<lparr>tp_all := t2\<rparr>)"
    "pinv E {} ({} \<union> set (drops @ inval) - set drops) ((put_pending a l2 p1)\<lparr>tp_all := t2\<rparr>)"
    "known ((put_pending a l2 p1)\<lparr>tp_all := t2\<rparr>) = known p1 - set drops"
    using all_RemoveTxs_law [OF put2(1) dis2(1)] by auto
  define p2 where "p2 = priced_Removed E (length olds + length drops) ((put_pending a l2 p1)\<lparr>tp_all := t2\<rparr>)"
  have F2: "{} \<union> set (drops @ inval) - set drops = set inval" using dis2(3) by auto
  have inv2: "pinv E {} (set inval) p2" unfolding p2_def using pinv_Removed [OF env t2(2)] by (simp only: F2)
  have p2f: "tp_pending p2 = (tp_pending p)(a \<mapsto> l2)" "tp_queue p2 = tp_queue p" "same_setup p p2"
    "known p2 = known p - set olds - set drops"
    using p1f t1(3) t2(3) by (simp_all add: p2_def p1_def [symmetric])
  obtain q3 where q3: "enqueueTxs E inval p2 = Some (p2\<lparr>tp_queue := q3\<rparr>)" "pinv E {} {} (p2\<lparr>tp_queue := q3\<rparr>)"
    "listed q3 = listed (tp_queue p) \<union> set inval" "no_empty q3"
    using enqueueTxs_law [OF inv2 dis2(2)] c(5) by (auto simp: p2f(2))
  define p3 where "p3 = p2\<lparr>tp_queue := q3\<rparr>"
  have p3f: "tp_pending p3 = (tp_pending p)(a \<mapsto> l2)" "tp_queue p3 = q3" "same_setup p p3" "known p3 = known p2"
    "pinv E {} {} p3"
    using q3(2) by (simp_all add: p3_def p2f)
  have "\<exists>l3 gapped. (if 0 < tl_Len l2 \<and> sm_Get (tl_txs l2) ?n = None then tl_Cap l2 0 else Some (l2, [])) = Some (l3, gapped)
      \<and> tl_splits l2 l3 gapped \<and> (tl_items l3 \<noteq> Map.empty \<longrightarrow> tl_items l3 ?n \<noteq> None)"
  proof (cases "0 < tl_Len l2 \<and> sm_Get (tl_txs l2) ?n = None")
    case True
    obtain l3 gapped where cap: "tl_Cap l2 0 = Some (l3, gapped)" "tl_splits l2 l3 gapped" "sm_flat (tl_items l3) = []"
      using tl_Cap_splits [OF splits_inv(1) [OF sp2], of 0] by auto
    have "tl_items l3 = Map.empty"
      using cap(3) tl_Len_flat [OF splits_inv(1) [OF cap(2)]] tl_Empty_iff [OF splits_inv(1) [OF cap(2)]] by (simp add: tl_Empty_def)
    with cap True show ?thesis by auto
  next
    case False
    have "tl_splits l2 l2 []" using splits_inv(1) [OF sp2] by (auto simp: tl_splits_def)
    moreover have "tl_items l2 \<noteq> Map.empty \<longrightarrow> tl_items l2 ?n \<noteq> None"
      using False tl_Empty_iff [OF splits_inv(1) [OF sp2]] by (auto simp: tl_Empty_def sm_Get_def)
    ultimately show ?thesis using False by auto
  qed
  then obtain l3 gapped where cap: "(if 0 < tl_Len l2 \<and> sm_Get (tl_txs l2) ?n = None then tl_Cap l2 0 else Some (l2, [])) = Some (l3, gapped)"
      "tl_splits l2 l3 gapped" "tl_items l3 \<noteq> Map.empty \<longrightarrow> tl_items l3 ?n \<noteq> None" by blast
  have p3q: "tp_pending p3 a = Some l2" by (simp add: p3f)
  note put3 = put_pending_law [OF p3f(5) p3q cap(2)]
  obtain q4 where q4: "enqueueTxs E gapped (put_pending a l3 p3) = Some ((put_pending a l3 p3)\<lparr>tp_queue := q4\<rparr>)"
    "pinv E {} {} ((put_pending a l3 p3)\<lparr>tp_queue := q4\<rparr>)" "listed q4 = listed q3 \<union> set gapped" "no_empty q4"
    using enqueueTxs_law [OF put3(1) splits_inv(3) [OF cap(2)]] q3(4) by (auto simp: p3f(2))
  define p4 where "p4 = (put_pending a l3 p3)\<lparr>tp_queue := q4\<rparr>"
  have p4f: "tp_pending p4 = (tp_pending p)(a \<mapsto> l3)" "tp_queue p4 = q4" "same_setup p p4" "known p4 = known p2"
    "pinv E {} {} p4"
    using q4(2) by (simp_all add: p4_def p3f)
  define p5 where "p5 = (if tl_Empty l3 then p4\<lparr>tp_pending := (tp_pending p4)(a := None), tp_beats := (tp_beats p4)(a := None)\<rparr> else p4)"
  have E: "tl_Empty l3 \<longleftrightarrow> tl_items l3 = Map.empty" by (rule tl_Empty_iff [OF splits_inv(1) [OF cap(2)]])
  have p5: "pinv E {} {} p5 \<and> listed (tp_pending p5) = listed ((tp_pending p)(a \<mapsto> l3)) \<and> no_empty (tp_pending p5)
    \<and> tp_queue p5 = q4 \<and> same_setup p p5 \<and> known p5 = known p2"
  proof (cases "tl_Empty l3")
    case True
    have "tp_pending p4 a = Some l3" by (simp add: p4f(1))
    note drp = drop_pending_law [OF p4f(5) this E [THEN iffD1, OF True]]
    have "no_empty ((tp_pending p4)(a := None))"
      unfolding p4f(1) using no_empty_put(4) [OF no_empty_put(3) [OF no_empty_put(5) [OF c(4)]]] by blast
    then show ?thesis using drp True p4f by (simp add: p5_def frame_simps del: fun_upd_apply)
  next
    case False
    then show ?thesis using p4f no_empty_put(2) [OF c(4), of l3 a] E by (simp add: p5_def)
  qed
  have "demote_account E a p = Some p5"
    unfolding demote_account_def Some option.case Let_def fwd(1) bind.bind_lunit prod.case t1(1) p1_def [symmetric] p1f(1,2) flt
      t2(1) p2_def [symmetric] q3(1) p3_def [symmetric] cap(1) q4(1) p4_def [symmetric]
    by (simp add: p5_def)
  moreover have "demotes E a p p5"
  proof -
    have ok4: "lists_ok E True ((tp_pending p)(a \<mapsto> l3))" using pinvD(1) [OF p4f(5)] by (simp add: p4f(1))
    have mem: "t \<in> listed (tp_pending p5) \<longleftrightarrow> (if sender E t = a then tl_items l3 (tx_Nonce t) = Some t else t \<in> listed (tp_pending p))" for t
      unfolding p5 [THEN conjunct2, THEN conjunct1] listed_iff [OF ok4] listed_iff [OF ok0] by simp
    have le: "tl_items l1 k = Some t" "tl_items l k = Some t" if "tl_items l2 k = Some t" for k t
      using splits_le [OF sp2 that] splits_le [OF fwd(2)] by blast+
    have le3: "tl_items l2 k = Some t" if "tl_items l3 k = Some t" for k t by (rule splits_le [OF cap(2) that])
    have pay: "payable E p t" if "tl_items l2 (tx_Nonce t) = Some t" "sender E t = a" for t
    proof -
      have "?n \<le> tx_Nonce t" using le(1) [OF that(1)] by (auto simp: fwd(3) restrict_map_def split: if_splits)
      with tl_Filter_keeps [OF env_okD(2) [OF env] inv1(1) flt that(1)] that(2) show ?thesis by (simp add: payable_def)
    qed
    have sub: "listed (tp_pending p5) \<subseteq> listed (tp_pending p)"
    proof
      fix t assume t: "t \<in> listed (tp_pending p5)"
      show "t \<in> listed (tp_pending p)"
      proof (cases "sender E t = a")
        case True
        then show ?thesis using t mem le(2) [OF le3] Some by (auto simp: listed_iff [OF ok0])
      next
        case False
        then show ?thesis using t mem by simp
      qed
    qed
    have old: "sender E t = a \<and> \<not> payable E p t" if "t \<in> set olds" for t
    proof -
      have "tl_items l (tx_Nonce t) = Some t" "tl_items l1 (tx_Nonce t) = None"
        using that fwd(2) by (auto simp: tl_splits_def)
      then show ?thesis using ok(3) [of t] by (auto simp: fwd(3) restrict_map_def payable_def split: if_splits)
    qed
    have drp: "sender E t = a \<and> \<not> payable E p t" if "t \<in> set drops" for t
    proof -
      have "tl_items l1 (tx_Nonce t) = Some t" using splits_from [OF sp2, of t] that by simp
      then have "sender E t = a" using splits_le [OF fwd(2)] ok(3) by blast
      moreover have "tx_Cost t > ?bal \<or> tx_Gas t > tp_maxGas p"
        using mset_eq_setD [OF tl_Filter_correct(1) [OF env_okD(2) [OF env] inv1(1) flt]] that by auto
      ultimately show ?thesis by (auto simp: payable_def)
    qed
    have "consistent E p5" "same_setup p p5" using p5 q4(4) by (simp_all add: consistent_def consistent_but_def)
    moreover have "listed (tp_queue p) \<subseteq> listed (tp_queue p5)" using p5 q4(3) q3(3) by auto
    moreover have "known p5 \<subseteq> known p" using p5 p2f(4) by auto
    moreover have "\<forall>t \<in> known p - known p5. sender E t = a \<and> \<not> payable E p t"
    proof
      fix t assume "t \<in> known p - known p5"
      then have "t \<in> set olds \<or> t \<in> set drops" using p5 p2f(4) by simp
      with old drp show "sender E t = a \<and> \<not> payable E p t" by blast
    qed
    moreover have "{t \<in> listed (tp_pending p). sender E t \<noteq> a} \<subseteq> listed (tp_pending p5)"
      using mem by (metis (mono_tags, lifting) mem_Collect_eq subsetI)
    moreover have "\<forall>t \<in> listed (tp_pending p5). sender E t = a \<longrightarrow> payable E p t"
      using mem le3 pay by (metis (no_types))
    moreover have "\<forall>l'. tp_pending p5 a = Some l' \<longrightarrow> tl_items l' ?n \<noteq> None"
      using cap(3) p4f(1) E by (auto simp: p5_def)
    moreover have "\<forall>b. b \<noteq> a \<longrightarrow> tp_pending p5 b = tp_pending p b" using p4f(1) by (simp add: p5_def)
    ultimately show ?thesis using sub unfolding demotes_def by (intro conjI) assumption+
  qed
  ultimately show ?thesis by blast
qed

text \<open>
  After demotion every pending list starts at the nonce the chain expects, and holds only what
  its account can pay; no transaction is lost that could still be paid.
\<close>

lemma demoteUnexecutables_law:
  assumes env: "env_ok E" and con: "consistent E p"
  shows "\<exists>p'. demoteUnexecutables E p = Some p' \<and> consistent E p' \<and> same_setup p p'
     \<and> known p' \<subseteq> known p \<and> (\<forall>t \<in> known p. payable E p t \<longrightarrow> t \<in> known p')
     \<and> listed (tp_pending p') \<subseteq> listed (tp_pending p) \<and> listed (tp_queue p) \<subseteq> listed (tp_queue p')
     \<and> (\<forall>t \<in> listed (tp_pending p'). payable E p t)
     \<and> (\<forall>a l. tp_pending p' a = Some l \<longrightarrow> tl_items l (ps_nonce (tp_state p) a) \<noteq> None)"
proof -
  have gen: "\<exists>p'. each (demote_account E) accounts p = Some p' \<and> consistent E p' \<and> same_setup p p'
     \<and> known p' \<subseteq> known p \<and> (\<forall>t \<in> known p. payable E p t \<longrightarrow> t \<in> known p')
     \<and> listed (tp_pending p') \<subseteq> listed (tp_pending p) \<and> listed (tp_queue p) \<subseteq> listed (tp_queue p')
     \<and> (\<forall>t \<in> listed (tp_pending p'). sender E t \<in> set accounts \<longrightarrow> payable E p t)
     \<and> (\<forall>a l. a \<in> set accounts \<longrightarrow> tp_pending p' a = Some l \<longrightarrow> tl_items l (ps_nonce (tp_state p) a) \<noteq> None)
     \<and> (\<forall>b. b \<notin> set accounts \<longrightarrow> tp_pending p' b = tp_pending p b)" if "distinct accounts" for accounts
    using con that
  proof (induction accounts arbitrary: p)
    case (Cons a accounts)
    obtain p1 where p1: "demote_account E a p = Some p1" "demotes E a p p1"
      using demote_account_law [OF env Cons.prems(1)] by blast
    note d = demotesD [OF p1(2)]
    have pay: "payable E p1 t = payable E p t" for t using d(2) by (simp add: payable_def same_setup_def)
    have st: "tp_state p1 = tp_state p" using d(2) by (simp add: same_setup_def)
    obtain p' where p': "each (demote_account E) accounts p1 = Some p'" "consistent E p'" "same_setup p1 p'"
      "known p' \<subseteq> known p1" "\<forall>t \<in> known p1. payable E p t \<longrightarrow> t \<in> known p'"
      "listed (tp_pending p') \<subseteq> listed (tp_pending p1)" "listed (tp_queue p1) \<subseteq> listed (tp_queue p')"
      "\<forall>t \<in> listed (tp_pending p'). sender E t \<in> set accounts \<longrightarrow> payable E p t"
      "\<forall>a l. a \<in> set accounts \<longrightarrow> tp_pending p' a = Some l \<longrightarrow> tl_items l (ps_nonce (tp_state p) a) \<noteq> None"
      "\<forall>b. b \<notin> set accounts \<longrightarrow> tp_pending p' b = tp_pending p1 b"
      using Cons.IH [OF d(1)] Cons.prems(2) unfolding pay st by auto
    have keep: "t \<in> known p1" if "t \<in> known p" "payable E p t" for t using d(6) that by blast
    have a: "a \<notin> set accounts" using Cons.prems(2) by simp
    show ?case
    proof (intro exI [of _ p'] conjI)
      show "each (demote_account E) (a # accounts) p = Some p'" using p1(1) p'(1) by simp
      show "same_setup p p'" by (rule same_setup_trans [OF d(2) p'(3)])
      show "known p' \<subseteq> known p" using p'(4) d(5) by blast
      show "\<forall>t \<in> known p. payable E p t \<longrightarrow> t \<in> known p'" using p'(5) keep by blast
      show "listed (tp_pending p') \<subseteq> listed (tp_pending p)" using p'(6) d(3) by blast
      show "listed (tp_queue p) \<subseteq> listed (tp_queue p')" using p'(7) d(4) by blast
      show "\<forall>t \<in> listed (tp_pending p'). sender E t \<in> set (a # accounts) \<longrightarrow> payable E p t"
        using p'(6,8) d(8) by auto
      show "\<forall>b l. b \<in> set (a # accounts) \<longrightarrow> tp_pending p' b = Some l \<longrightarrow> tl_items l (ps_nonce (tp_state p) b) \<noteq> None"
        using p'(9) d(9) p'(10) a by (metis set_ConsD)
      show "\<forall>b. b \<notin> set (a # accounts) \<longrightarrow> tp_pending p' b = tp_pending p b" using p'(10) d(10) by simp
    qed (rule p'(2))
  qed auto
  have fin: "finite (dom (tp_pending p))" using pinvD(1) [OF consistentD(2) [OF con]] by (simp add: lists_ok_def)
  note ord = map_orderD [OF env_okD(3) [OF env] fin]
  obtain p' where p': "each (demote_account E) (pe_addrs E (tp_pending p)) p = Some p'" "consistent E p'" "same_setup p p'"
     "known p' \<subseteq> known p" "\<forall>t \<in> known p. payable E p t \<longrightarrow> t \<in> known p'"
     "listed (tp_pending p') \<subseteq> listed (tp_pending p)" "listed (tp_queue p) \<subseteq> listed (tp_queue p')"
     "\<forall>t \<in> listed (tp_pending p'). sender E t \<in> dom (tp_pending p) \<longrightarrow> payable E p t"
     "\<forall>a l. a \<in> dom (tp_pending p) \<longrightarrow> tp_pending p' a = Some l \<longrightarrow> tl_items l (ps_nonce (tp_state p) a) \<noteq> None"
     "\<forall>b. b \<notin> dom (tp_pending p) \<longrightarrow> tp_pending p' b = tp_pending p b"
    using gen [OF ord(1)] unfolding ord(2) by blast
  have "sender E t \<in> dom (tp_pending p)" if "t \<in> listed (tp_pending p')" for t
    using p'(6) that listed_iff [OF pinvD(1) [OF consistentD(2) [OF con]], of t] by blast
  moreover have "a \<in> dom (tp_pending p)" if "tp_pending p' a = Some l" for a l
    using p'(10) that by (metis domIff option.distinct(1))
  ultimately show ?thesis using p' by (auto simp: demoteUnexecutables_def)
qed

end
