(* ===== verification/Tx_Pool_Trunc.thy ===== *)
theory Tx_Pool_Trunc
  imports Tx_Pool_Run
begin

text \<open>
  Laws of the truncations: the loops that bring the pending lists of the largest accounts down
  to each other and to the account limit end, never index an empty list, and reach the global
  limit or leave no remote account above its own.
\<close>

section \<open>The pending transactions of an account\<close>

definition ptxs :: "pool \<Rightarrow> address \<Rightarrow> transaction list" where
  "ptxs p a = (case tp_pending p a of None \<Rightarrow> [] | Some l \<Rightarrow> sm_flat (tl_items l))"

definition total :: "pool \<Rightarrow> nat" where
  "total p = (\<Sum>a \<in> dom (tp_pending p). length (ptxs p a))"

lemma pendingLen_ptxs: "lists_ok E s (tp_pending p) \<Longrightarrow> pendingLen p a = length (ptxs p a)"
  using lists_okD(1) [of E s "tp_pending p" a] tl_Len_flat
  by (auto simp: pendingLen_def ptxs_def split: option.splits)

lemma total_len_sum:
  assumes "env_ok E" "lists_ok E s m"
  shows "total_len E m = (\<Sum>a \<in> dom m. tl_Len (the (m a)))"
proof -
  have fin: "finite (dom m)" using assms(2) by (simp add: lists_ok_def)
  note o = map_orderD [OF env_okD(3) [OF assms(1)] fin]
  show ?thesis unfolding total_len_def by (simp add: o sum_list_distinct_conv_sum_set)
qed

lemma total_len_total:
  assumes "env_ok E" "lists_ok E s (tp_pending p)"
  shows "total_len E (tp_pending p) = total p"
  unfolding total_len_sum [OF assms] total_def
proof (rule sum.cong)
  fix a assume "a \<in> dom (tp_pending p)"
  then obtain l where "tp_pending p a = Some l" by blast
  then show "tl_Len (the (tp_pending p a)) = length (ptxs p a)"
    using tl_Len_flat [OF lists_okD(1) [OF assms(2)]] by (simp add: ptxs_def)
qed simp

text \<open>What a truncation keeps: a prefix of every list, and everything else.\<close>

definition trims :: "'e pool_env \<Rightarrow> address set \<Rightarrow> pool \<Rightarrow> pool \<Rightarrow> bool" where
  "trims E A p p' \<longleftrightarrow> consistent E p' \<and> same_setup p p' \<and> tp_queue p' = tp_queue p
     \<and> dom (tp_pending p') = dom (tp_pending p)
     \<and> (\<forall>a. \<exists>n. ptxs p' a = take n (ptxs p a)) \<and> (\<forall>a. a \<notin> A \<longrightarrow> ptxs p' a = ptxs p a)"

lemma trimsD:
  assumes "trims E A p p'"
  shows "consistent E p'" "same_setup p p'" "tp_queue p' = tp_queue p" "dom (tp_pending p') = dom (tp_pending p)"
    "\<exists>n. ptxs p' a = take n (ptxs p a)" "a \<notin> A \<Longrightarrow> ptxs p' a = ptxs p a"
  using assms by (simp_all add: trims_def)

lemma trims_refl: "consistent E p \<Longrightarrow> trims E A p p"
  by (simp add: trims_def) (metis order_refl take_all)

lemma trims_trans:
  assumes "trims E A p q" "trims E B q r"
  shows "trims E (A \<union> B) p r"
proof -
  have "\<exists>n. ptxs r a = take n (ptxs p a)" for a
    using trimsD(5) [OF assms(1), of a] trimsD(5) [OF assms(2), of a] by (metis take_take)
  then show ?thesis
    using trimsD(1-4) [OF assms(1)] trimsD(1-4) [OF assms(2)] trimsD(6) [OF assms(1)] trimsD(6) [OF assms(2)]
      same_setup_trans [of p q r]
    by (auto simp: trims_def)
qed

lemma trims_mono: "trims E A p q \<Longrightarrow> A \<subseteq> B \<Longrightarrow> trims E B p q"
  by (auto simp: trims_def)

lemma total_change:
  assumes "finite (dom (tp_pending p))" "dom (tp_pending p') = dom (tp_pending p)" "A \<subseteq> dom (tp_pending p)"
    "\<forall>a \<in> A. length (ptxs p' a) + 1 = length (ptxs p a)" "\<forall>a. a \<notin> A \<longrightarrow> ptxs p' a = ptxs p a"
  shows "total p' + card A = total p"
proof -
  have fA: "finite A" using assms(1,3) finite_subset by blast
  have "total p' + card A = (\<Sum>a \<in> dom (tp_pending p). length (ptxs p' a) + (if a \<in> A then 1 else 0))"
    using assms(1,3) fA by (simp add: total_def assms(2) sum.distrib sum.If_cases Int_absorb1)
  also have "\<dots> = total p" unfolding total_def by (rule sum.cong) (use assms(4,5) in auto)
  finally show ?thesis .
qed

lemma cap_one_law:
  assumes env: "env_ok E" and con: "consistent E p" and len: "2 \<le> length (ptxs p a)"
  shows "\<exists>p'. cap_one E a (p, pending) = Some (p', pending - 1) \<and> trims E {a} p p'
    \<and> length (ptxs p' a) + 1 = length (ptxs p a)"
proof -
  note c = consistentD [OF con]
  obtain l where l: "tp_pending p a = Some l" using len by (auto simp: ptxs_def split: option.splits)
  note ok = lists_okD [OF pinvD(1) [OF c(2)] l]
  have flat: "ptxs p a = sm_flat (tl_items l)" by (simp add: ptxs_def l)
  have n: "tl_Len l = length (ptxs p a)" using tl_Len_flat [OF ok(1)] by (simp add: flat)
  have "0 \<le> int (tl_Len l) - 1" using len n by linarith
  then obtain l' caps where cap: "tl_Cap l (int (tl_Len l) - 1) = Some (l', caps)" "tl_splits l l' caps"
    "sm_flat (tl_items l') = take (nat (int (tl_Len l) - 1)) (sm_flat (tl_items l))"
    "caps = rev (drop (nat (int (tl_Len l) - 1)) (sm_flat (tl_items l)))"
    using tl_Cap_splits [OF ok(1)] by blast
  have nat: "nat (int (tl_Len l) - 1) = length (ptxs p a) - 1" using n by simp
  have ne: "ptxs p a \<noteq> []" using len by fastforce
  have caps: "caps = [last (ptxs p a)]"
    using cap(4) ne unfolding nat flat
    by (metis append_butlast_last_id append_eq_conv_conj length_butlast rev_singleton_conv)
  let ?t = "last (ptxs p a)"
  note put = put_pending_law [OF c(2) l cap(2)]
  obtain t where t: "all_Remove (tx_Hash ?t) (put_pending a l' p) = Some ((put_pending a l' p)\<lparr>tp_all := t\<rparr>)"
    "pinv E {} {} ((put_pending a l' p)\<lparr>tp_all := t\<rparr>)"
    using all_Remove_law [OF put(1), of ?t] caps by auto
  let ?q = "(put_pending a l' p)\<lparr>tp_all := t\<rparr>"
  let ?r = "priced_Removed E (length caps) (?q\<lparr>tp_nonces := tn_setIfLower (tp_nonces p) a (tx_Nonce ?t)\<rparr>)"
  have "cap_one E a (p, pending) = Some (?r, pending - 1)"
    unfolding cap_one_def prod.case l option.case cap(1) bind.bind_lunit caps
    by (simp add: cap_nonce_def t(1))
  moreover have inv: "pinv E {} {} ?r" using t(2) by (intro pinv_Removed [OF env]) (simp add: frame_simps)
  have flat': "ptxs ?r b = (if b = a then take (length (ptxs p a) - 1) (ptxs p a) else ptxs p b)" for b
    by (simp add: ptxs_def cap(3) nat) (simp add: flat [symmetric] ptxs_def [symmetric])
  have "tl_items l' \<noteq> Map.empty"
  proof
    assume "tl_items l' = Map.empty"
    then have "sm_flat (tl_items l') = []" by (simp add: sm_flat_def)
    then show False using cap(3) len unfolding nat flat [symmetric] by auto
  qed
  then have "no_empty (tp_pending ?r)" using no_empty_put(2) [OF c(4)] by simp
  with inv c(5) have "consistent E ?r" by (simp add: consistent_def consistent_but_def)
  then have "trims E {a} p ?r"
  proof -
    have "\<exists>n. ptxs ?r b = take n (ptxs p b)" for b
    proof (cases "b = a")
      case False
      then have "ptxs ?r b = take (length (ptxs p b)) (ptxs p b)" using flat' by simp
      then show ?thesis by blast
    next
      case True
      then show ?thesis using flat' [of a] by auto
    qed
    then show ?thesis using l flat' \<open>consistent E ?r\<close> by (auto simp: trims_def)
  qed
  moreover have "length (ptxs ?r a) + 1 = length (ptxs p a)" using flat' len by simp
  ultimately show ?thesis by blast
qed

lemma cap_round:
  assumes env: "env_ok E" and con: "consistent E p" and d: "distinct as" and len: "\<forall>a \<in> set as. 2 \<le> length (ptxs p a)"
  shows "\<exists>p'. each (cap_one E) as (p, pending) = Some (p', pending - of_nat (length as)) \<and> trims E (set as) p p'
    \<and> (\<forall>a \<in> set as. length (ptxs p' a) + 1 = length (ptxs p a)) \<and> total p' + length as = total p"
proof -
  have "\<exists>p'. each (cap_one E) as (p, pending) = Some (p', pending - of_nat (length as)) \<and> trims E (set as) p p'
    \<and> (\<forall>a \<in> set as. length (ptxs p' a) + 1 = length (ptxs p a))"
    using con d len
  proof (induction as arbitrary: p pending)
    case Nil
    then show ?case by (simp add: trims_refl)
  next
    case (Cons a as)
    obtain p1 where p1: "cap_one E a (p, pending) = Some (p1, pending - 1)" "trims E {a} p p1"
      "length (ptxs p1 a) + 1 = length (ptxs p a)"
      using cap_one_law [OF env Cons.prems(1)] Cons.prems(3) by fastforce
    have same: "ptxs p1 b = ptxs p b" if "b \<in> set as" for b
      using trimsD(6) [OF p1(2), of b] that Cons.prems(2) by auto
    obtain p' where p': "each (cap_one E) as (p1, pending - 1) = Some (p', pending - 1 - of_nat (length as))"
      "trims E (set as) p1 p'" "\<forall>b \<in> set as. length (ptxs p' b) + 1 = length (ptxs p1 b)"
      using Cons.IH [OF trimsD(1) [OF p1(2)], of "pending - 1"] Cons.prems(2,3) same by auto
    have "ptxs p' a = ptxs p1 a" using trimsD(6) [OF p'(2)] Cons.prems(2) by simp
    moreover have "trims E (set (a # as)) p p'" using trims_trans [OF p1(2) p'(2)] by simp
    ultimately show ?case using p1 p' same by (auto simp: algebra_simps)
  qed
  then obtain p' where p': "each (cap_one E) as (p, pending) = Some (p', pending - of_nat (length as))"
    "trims E (set as) p p'" "\<forall>a \<in> set as. length (ptxs p' a) + 1 = length (ptxs p a)" by blast
  have "set as \<subseteq> dom (tp_pending p)" using len by (force simp: ptxs_def split: option.splits)
  then have "total p' + card (set as) = total p"
    using pinvD(1) [OF consistentD(2) [OF con]] trimsD(4,6) [OF p'(2)] p'(3)
    by (intro total_change) (auto simp: lists_ok_def)
  then show ?thesis using p' distinct_card [OF d] by auto
qed

section \<open>The loops over the offenders\<close>

text \<open>The counter agrees with the number of pending transactions.\<close>

definition counted :: "pool \<times> u64 \<Rightarrow> bool" where
  "counted s \<longleftrightarrow> total (fst s) < 2 ^ 64 \<and> snd s = of_nat (total (fst s))"

lemma counted_greater: "counted (p, pending) \<Longrightarrow> pending > G \<longleftrightarrow> unat G < total p"
  by (simp add: counted_def word_less_nat_alt unat_of_nat)

lemma counted_round: "counted (p, pending) \<Longrightarrow> total p' + n = total p \<Longrightarrow> counted (p', pending - of_nat n)"
proof -
  assume c: "counted (p, pending)" and t: "total p' + n = total p"
  have "(of_nat (total p) :: u64) = of_nat (total p') + of_nat n" by (simp flip: t)
  with c t show ?thesis by (simp add: counted_def)
qed

lemma ptxs_le_total: "finite (dom (tp_pending p)) \<Longrightarrow> length (ptxs p a) \<le> total p"
  unfolding total_def
  by (cases "a \<in> dom (tp_pending p)") (auto intro: member_le_sum simp: ptxs_def domIff)

text \<open>All offenders of a list have the same number of pending transactions.\<close>

definition level :: "pool \<Rightarrow> address list \<Rightarrow> nat \<Rightarrow> bool" where
  "level p as m \<longleftrightarrow> (\<forall>a \<in> set as. length (ptxs p a) = m)"

lemma level_round:
  assumes "env_ok E" "consistent E p" "distinct as" "level p as (Suc m)" "1 \<le> m" "counted (p, pending)"
  shows "\<exists>p'. each (cap_one E) as (p, pending) = Some (p', pending - of_nat (length as)) \<and> trims E (set as) p p'
    \<and> level p' as m \<and> counted (p', pending - of_nat (length as))"
proof -
  have "\<forall>a \<in> set as. 2 \<le> length (ptxs p a)" using assms(4,5) by (simp add: level_def)
  then obtain p' where p': "each (cap_one E) as (p, pending) = Some (p', pending - of_nat (length as))" "trims E (set as) p p'"
    "\<forall>a \<in> set as. length (ptxs p' a) + 1 = length (ptxs p a)" "total p' + length as = total p"
    using cap_round [OF assms(1-3)] by blast
  then have "level p' as m" using assms(4) by (auto simp: level_def)
  with p' counted_round [OF assms(6) p'(4)] show ?thesis by blast
qed

lemma pendingLen_consistent: "consistent E p \<Longrightarrow> pendingLen p a = length (ptxs p a)"
  using pendingLen_ptxs [OF pinvD(1) [OF consistentD(2)]] by blast

lemma equalize_law:
  assumes "env_ok E" "consistent E p" "distinct as" "as \<noteq> []" "level p as m" "T \<le> m" "1 \<le> T" "counted (p, pending)"
  shows "\<exists>p' pending' m'. equalize E T (as @ [b]) (p, pending) = Some (p', pending') \<and> trims E (set as) p p'
    \<and> level p' as m' \<and> T \<le> m' \<and> counted (p', pending') \<and> (m' = T \<or> total p' \<le> unat (GlobalSlots (tp_config p)))"
  using assms(2,5,6,8)
proof (induction "m - T" arbitrary: p m pending)
  case 0
  then have "m = T" by simp
  moreover have "pendingLen p (last as) = m"
    using 0 assms(4) by (simp add: pendingLen_consistent [OF 0(2)] level_def)
  ultimately have "equalize E T (as @ [b]) (p, pending) = Some (p, pending)"
    by (subst equalize.simps) simp
  then show ?case using 0 trims_refl [OF 0(2)] \<open>m = T\<close> trims_mono by blast
next
  case (Suc d)
  have last: "pendingLen p (last as) = m"
    using Suc.prems(2) assms(4) by (simp add: pendingLen_consistent [OF Suc.prems(1)] level_def)
  show ?case
  proof (cases "pending > GlobalSlots (tp_config p)")
    case False
    then have "equalize E T (as @ [b]) (p, pending) = Some (p, pending)" by (subst equalize.simps) simp
    moreover have "total p \<le> unat (GlobalSlots (tp_config p))"
      using False counted_greater [OF Suc.prems(4)] by simp
    ultimately show ?thesis using Suc.prems trims_refl [OF Suc.prems(1)] trims_mono by blast
  next
    case True
    obtain m1 where m1: "m = Suc m1" using Suc.hyps(2) by (cases m) auto
    have T: "T \<le> m1" "d = m1 - T" using Suc.hyps(2) m1 by auto
    obtain p1 where p1: "each (cap_one E) as (p, pending) = Some (p1, pending - of_nat (length as))" "trims E (set as) p p1"
      "level p1 as m1" "counted (p1, pending - of_nat (length as))"
      using level_round [OF assms(1) Suc.prems(1) assms(3) Suc.prems(2) [unfolded m1] _ Suc.prems(4)] T(1) assms(7) by auto
    obtain p' pending' m' where p': "equalize E T (as @ [b]) (p1, pending - of_nat (length as)) = Some (p', pending')"
      "trims E (set as) p1 p'" "level p' as m'" "T \<le> m'" "counted (p', pending')"
      "m' = T \<or> total p' \<le> unat (GlobalSlots (tp_config p1))"
      using Suc.hyps(1) [OF T(2) trimsD(1) [OF p1(2)] p1(3) T(1) p1(4)] by blast
    have "tp_config p1 = tp_config p" using trimsD(2) [OF p1(2)] by (simp add: same_setup_def)
    moreover have "equalize E T (as @ [b]) (p, pending) = Some (p', pending')"
      using True last p1(1) p'(1) T(1) m1 by (subst equalize.simps) simp
    ultimately show ?thesis using p' trims_trans [OF p1(2) p'(2)] by auto
  qed
qed

lemma shrink_all_law:
  assumes "env_ok E" "consistent E p" "distinct as" "as \<noteq> []" "level p as m" "1 \<le> AccountSlots (tp_config p)"
    "counted (p, pending)"
  shows "\<exists>p' pending' m'. shrink_all E as (p, pending) = Some (p', pending') \<and> trims E (set as) p p' \<and> level p' as m'
    \<and> counted (p', pending') \<and> (total p' \<le> unat (GlobalSlots (tp_config p)) \<or> m' \<le> unat (AccountSlots (tp_config p)))
    \<and> min m (unat (AccountSlots (tp_config p))) \<le> m'"
  using assms(2,5,6,7)
proof (induction m arbitrary: p pending)
  case 0
  have last: "pendingLen p (last as) = 0"
    using 0(2) assms(4) by (simp add: pendingLen_consistent [OF 0(1)] level_def)
  have "shrink_all E as (p, pending) = Some (p, pending)" by (subst shrink_all.simps) (simp add: last)
  then show ?case using 0 trims_mono [OF trims_refl [OF 0(1)]] by (metis empty_subsetI le0 min_0L)
next
  case (Suc m)
  have last: "pendingLen p (last as) = Suc m"
    using Suc.prems(2) assms(4) by (simp add: pendingLen_consistent [OF Suc.prems(1)] level_def)
  have fin: "finite (dom (tp_pending p))"
    using pinvD(1) [OF consistentD(2) [OF Suc.prems(1)]] by (simp add: lists_ok_def)
  have "Suc m \<le> total p"
    using ptxs_le_total [OF fin, of "last as"] last pendingLen_consistent [OF Suc.prems(1)] by simp
  then have "Suc m < 2 ^ 64" using Suc.prems(4) by (simp add: counted_def)
  then have acc: "(word_of_nat (Suc m) :: u64) > AccountSlots (tp_config p) \<longleftrightarrow> unat (AccountSlots (tp_config p)) < Suc m"
    by (simp add: word_less_nat_alt unat_of_nat del: of_nat_Suc)
  show ?case
  proof (cases "pending > GlobalSlots (tp_config p) \<and> unat (AccountSlots (tp_config p)) < Suc m")
    case False
    then have "shrink_all E as (p, pending) = Some (p, pending)"
      by (subst shrink_all.simps) (auto simp: last acc simp del: of_nat_Suc)
    moreover have "total p \<le> unat (GlobalSlots (tp_config p)) \<or> Suc m \<le> unat (AccountSlots (tp_config p))"
      using False counted_greater [OF Suc.prems(4), of "GlobalSlots (tp_config p)"] by linarith
    moreover have "trims E (set as) p p" by (rule trims_mono [OF trims_refl [OF Suc.prems(1)] empty_subsetI])
    moreover have "min (Suc m) (unat (AccountSlots (tp_config p))) \<le> Suc m" by simp
    ultimately show ?thesis using Suc.prems(2,4) by blast
  next
    case True
    have "1 \<le> unat (AccountSlots (tp_config p))" using Suc.prems(3) by (simp add: word_le_nat_alt)
    then have "1 \<le> m" using True by simp
    then obtain p1 where p1: "each (cap_one E) as (p, pending) = Some (p1, pending - of_nat (length as))" "trims E (set as) p p1"
      "level p1 as m" "counted (p1, pending - of_nat (length as))"
      using level_round [OF assms(1) Suc.prems(1) assms(3) Suc.prems(2) _ Suc.prems(4)] by blast
    have cfg: "tp_config p1 = tp_config p" using trimsD(2) [OF p1(2)] by (simp add: same_setup_def)
    obtain p' pending' m' where p': "shrink_all E as (p1, pending - of_nat (length as)) = Some (p', pending')"
      "trims E (set as) p1 p'" "level p' as m'" "counted (p', pending')"
      "total p' \<le> unat (GlobalSlots (tp_config p)) \<or> m' \<le> unat (AccountSlots (tp_config p))"
      "min m (unat (AccountSlots (tp_config p))) \<le> m'"
      using Suc.IH [OF trimsD(1) [OF p1(2)] p1(3) _ p1(4)] Suc.prems(3) unfolding cfg by blast
    have "shrink_all E as (p, pending) = Some (p', pending')"
      using True last acc p1(1) p'(1) by (subst shrink_all.simps) (simp del: of_nat_Suc)
    moreover have "min (Suc m) (unat (AccountSlots (tp_config p))) \<le> m'" using p'(6) True by auto
    ultimately show ?thesis using p' trims_trans [OF p1(2) p'(2)] by auto
  qed
qed

lemma trims_config: "trims E A p p' \<Longrightarrow> tp_config p' = tp_config p" "trims E A p p' \<Longrightarrow> tp_locals p' = tp_locals p"
  using trimsD(2) [of E A p p'] by (simp_all add: same_setup_def)

lemma penalize_law:
  assumes "env_ok E" "consistent E p" "counted (p, pending)" "distinct (offs @ sp)"
    "\<forall>a \<in> set offs \<union> set sp. B < length (ptxs p a)" "1 \<le> B"
    "sorted_wrt (\<lambda>a b. length (ptxs p b) \<le> length (ptxs p a)) sp"
    "offs \<noteq> [] \<Longrightarrow> level p offs m" "offs \<noteq> [] \<Longrightarrow> \<forall>a \<in> set sp. length (ptxs p a) \<le> m"
  shows "\<exists>offs' p' pending'. penalize E sp offs (p, pending) = Some (offs', (p', pending')) \<and> trims E (set offs \<union> set sp) p p'
    \<and> counted (p', pending') \<and> set offs' \<subseteq> set offs \<union> set sp
    \<and> (\<forall>a \<in> set offs \<union> set sp. B < length (ptxs p' a))
    \<and> (total p' \<le> unat (GlobalSlots (tp_config p)) \<or> offs' = offs @ sp \<and> (\<exists>m'. level p' offs' m'))"
  using assms(2-5,7-9)
proof (induction sp arbitrary: p pending offs m)
  case Nil
  have "\<exists>m'. level p offs m'" using Nil.prems(6) by (cases "offs = []") (auto simp: level_def)
  then show ?case using Nil trims_mono [OF trims_refl [OF Nil.prems(1)]] by auto
next
  case (Cons b sp)
  let ?G = "GlobalSlots (tp_config p)"
  note con = Cons.prems(1)
  show ?case
  proof (cases "pending > ?G")
    case False
    then have "penalize E (b # sp) offs (p, pending) = Some (offs, (p, pending))" by simp
    moreover have "total p \<le> unat ?G" using False counted_greater [OF Cons.prems(2), of ?G] by simp
    moreover have "trims E (set offs \<union> set (b # sp)) p p" by (rule trims_refl [OF con])
    ultimately show ?thesis using Cons.prems(2,4) by blast
  next
    case True
    have srt: "sorted_wrt (\<lambda>a b. length (ptxs p b) \<le> length (ptxs p a)) sp"
      "\<forall>a \<in> set sp. length (ptxs p a) \<le> length (ptxs p b)" using Cons.prems(5) by simp_all
    have "\<exists>p1 pending1. (if 1 < length (offs @ [b]) then equalize E (pendingLen p b) (offs @ [b]) (p, pending) else Some (p, pending))
        = Some (p1, pending1) \<and> trims E (set offs) p p1 \<and> counted (p1, pending1)
        \<and> (\<forall>a \<in> set offs. B < length (ptxs p1 a))
        \<and> (level p1 (offs @ [b]) (length (ptxs p b)) \<or> total p1 \<le> unat ?G)"
    proof (cases "offs = []")
      case True
      then show ?thesis using Cons.prems(2) trims_refl [OF con] trims_mono by (simp add: level_def)
    next
      case False
      let ?T = "length (ptxs p b)"
      have b: "b \<notin> set offs" using Cons.prems(3) by simp
      have T: "?T \<le> m" "1 \<le> ?T" "B < ?T" using Cons.prems(7) [OF False] Cons.prems(4) assms(6) by auto
      obtain p1 pending1 m1 where p1: "equalize E ?T (offs @ [b]) (p, pending) = Some (p1, pending1)" "trims E (set offs) p p1"
        "level p1 offs m1" "?T \<le> m1" "counted (p1, pending1)" "m1 = ?T \<or> total p1 \<le> unat ?G"
        using equalize_law [OF assms(1) con _ False Cons.prems(6) [OF False] T(1,2) Cons.prems(2), of b] Cons.prems(3) by auto
      have "ptxs p1 b = ptxs p b" using trimsD(6) [OF p1(2) b] .
      with p1 False T(3) pendingLen_consistent [OF con, of b] show ?thesis by (auto simp: level_def)
    qed
    then obtain p1 pending1 where p1: "(if 1 < length (offs @ [b]) then equalize E (pendingLen p b) (offs @ [b]) (p, pending) else Some (p, pending))
        = Some (p1, pending1)" "trims E (set offs) p p1" "counted (p1, pending1)" "\<forall>a \<in> set offs. B < length (ptxs p1 a)"
        "level p1 (offs @ [b]) (length (ptxs p b)) \<or> total p1 \<le> unat ?G" by blast
    have same: "ptxs p1 a = ptxs p a" if "a \<in> set (b # sp)" for a
      using trimsD(6) [OF p1(2)] Cons.prems(3) that by auto
    have step: "penalize E (b # sp) offs (p, pending) = penalize E sp (offs @ [b]) (p1, pending1)"
      using True p1(1) by (cases "1 < length (offs @ [b])") (simp_all add: Let_def del: length_append)
    have cfg: "tp_config p1 = tp_config p" by (rule trims_config(1) [OF p1(2)])
    show ?thesis
    proof (cases "total p1 \<le> unat ?G")
      case True
      have "penalize E sp (offs @ [b]) (p1, pending1) = Some (offs @ [b], (p1, pending1))"
        using True counted_greater [OF p1(3), of ?G] by (cases sp) (simp_all add: cfg)
      moreover have "trims E (set offs \<union> set (b # sp)) p p1" by (rule trims_mono [OF p1(2)]) auto
      ultimately show ?thesis using step p1(3,4) True same Cons.prems(4) by auto
    next
      case False
      have c1: "consistent E p1" by (rule trimsD(1) [OF p1(2)])
      have lev: "level p1 (offs @ [b]) (length (ptxs p b))" using p1(5) False by simp
      obtain offs' p' pending' where p': "penalize E sp (offs @ [b]) (p1, pending1) = Some (offs', (p', pending'))"
        "trims E (set (offs @ [b]) \<union> set sp) p1 p'" "counted (p', pending')" "set offs' \<subseteq> set (offs @ [b]) \<union> set sp"
        "\<forall>a \<in> set (offs @ [b]) \<union> set sp. B < length (ptxs p' a)"
        "total p' \<le> unat (GlobalSlots (tp_config p1)) \<or> offs' = (offs @ [b]) @ sp \<and> (\<exists>m'. level p' offs' m')"
      proof -
        have "sorted_wrt (\<lambda>a b. length (ptxs p1 b) \<le> length (ptxs p1 a)) sp"
          using srt(1) same by (auto elim!: sorted_wrt_mono_rel [rotated])
        moreover have "\<forall>a \<in> set (offs @ [b]) \<union> set sp. B < length (ptxs p1 a)" using p1(4) same Cons.prems(4) by auto
        moreover have "\<forall>a \<in> set sp. length (ptxs p1 a) \<le> length (ptxs p b)" using srt(2) same by simp
        moreover have "distinct ((offs @ [b]) @ sp)" using Cons.prems(3) by simp
        ultimately show ?thesis using Cons.IH [OF c1 p1(3), of "offs @ [b]"] lev that by blast
      qed
      have "trims E (set offs \<union> set (b # sp)) p p'"
        by (rule trims_mono [OF trims_trans [OF p1(2) p'(2)]]) auto
      then show ?thesis using p' unfolding step cfg by auto
    qed
  qed
qed

text \<open>What package prque promises: everything is handed out, the highest priority first.\<close>

definition pops_ok :: "((address \<times> int) list \<Rightarrow> address list) \<Rightarrow> bool" where
  "pops_ok pops \<longleftrightarrow> (\<forall>xs. distinct (map fst xs) \<longrightarrow> mset (pops xs) = mset (map fst xs)
     \<and> sorted_wrt (\<lambda>a b. the (map_of xs b) \<le> the (map_of xs a)) (pops xs))"

definition remote_above :: "pool \<Rightarrow> address set" where
  "remote_above p = {a. \<not> as_contains (tp_locals p) a \<and> unat (AccountSlots (tp_config p)) < length (ptxs p a)}"

lemma truncatePending_law:
  assumes env: "env_ok E" and con: "consistent E p" and slots: "1 \<le> AccountSlots (tp_config p)"
    and small: "total p < 2 ^ 64" and pops: "pops_ok pops"
  shows "\<exists>p'. truncatePending E pops p = Some p' \<and> trims E (remote_above p) p p'
    \<and> (\<forall>a. min (length (ptxs p a)) (unat (AccountSlots (tp_config p))) \<le> length (ptxs p' a))
    \<and> (total p' \<le> unat (GlobalSlots (tp_config p)) \<or> remote_above p' = {})
    \<and> (total p \<le> unat (GlobalSlots (tp_config p)) \<longrightarrow> p' = p)"
proof -
  let ?G = "GlobalSlots (tp_config p)" and ?B = "unat (AccountSlots (tp_config p))"
  let ?n = "word_of_nat (total p) :: u64"
  have ok: "lists_ok E True (tp_pending p)" by (rule pinvD(1) [OF consistentD(2) [OF con]])
  have fin: "finite (dom (tp_pending p))" using ok by (simp add: lists_ok_def)
  have cnt: "counted (p, ?n)" using small by (simp add: counted_def)
  have tot: "total_len E (tp_pending p) = total p" by (rule total_len_total [OF env ok])
  show ?thesis
  proof (cases "?n \<le> ?G")
    case True
    then have "total p \<le> unat ?G" using counted_greater [OF cnt, of ?G] by (metis not_le)
    then show ?thesis using True trims_refl [OF con] by (simp add: truncatePending_def tot)
  next
    case False
    then have over: "unat ?G < total p" using counted_greater [OF cnt, of ?G] by (metis not_le)
    let ?xs = "spammers E p"
    have above: "(word_of_nat (pendingLen p a) :: u64) > AccountSlots (tp_config p) \<longleftrightarrow> ?B < length (ptxs p a)" for a
    proof -
      have "length (ptxs p a) < 2 ^ 64" using ptxs_le_total [OF fin, of a] small by simp
      then show ?thesis by (simp add: pendingLen_consistent [OF con] word_less_nat_alt unat_of_nat)
    qed
    note o = map_orderD [OF env_okD(3) [OF env] fin]
    have keys: "map fst ?xs = filter (\<lambda>a. \<not> as_contains (tp_locals p) a \<and> ?B < length (ptxs p a)) (pe_addrs E (tp_pending p))"
      unfolding spammers_def above by (simp add: comp_def)
    have dk: "distinct (map fst ?xs)" unfolding keys using o(1) by simp
    have sk: "set (map fst ?xs) = remote_above p"
      unfolding keys using o(2) by (auto simp: remote_above_def ptxs_def split: option.splits)
    have prio: "the (map_of ?xs a) = int (length (ptxs p a))" if "a \<in> set (map fst ?xs)" for a
    proof -
      have "map_of ?xs a = Some (int (length (ptxs p a)))"
        using dk that by (intro map_of_is_SomeI) (auto simp: spammers_def pendingLen_consistent [OF con])
      then show ?thesis by simp
    qed
    let ?sp = "pops ?xs"
    have sp: "mset ?sp = mset (map fst ?xs)" "sorted_wrt (\<lambda>a b. the (map_of ?xs b) \<le> the (map_of ?xs a)) ?sp"
      using pops dk unfolding pops_ok_def by blast+
    have d: "distinct ?sp" using mset_eq_imp_distinct_iff [OF sp(1)] dk by simp
    have s: "set ?sp = remote_above p" using mset_eq_setD [OF sp(1)] sk by simp
    have srt: "sorted_wrt (\<lambda>a b. length (ptxs p b) \<le> length (ptxs p a)) ?sp"
      by (rule sorted_wrt_mono_rel [OF _ sp(2)]) (use prio s sk in simp)
    have B1: "1 \<le> ?B" using slots by (simp add: word_le_nat_alt)
    obtain offs p1 n1 where p1: "penalize E ?sp [] (p, ?n) = Some (offs, (p1, n1))" "trims E (remote_above p) p p1"
      "counted (p1, n1)" "\<forall>a \<in> remote_above p. ?B < length (ptxs p1 a)"
      "total p1 \<le> unat ?G \<or> offs = ?sp \<and> (\<exists>m. level p1 offs m)"
      using penalize_law [OF env con cnt, of "[]" ?sp ?B 0] d srt s B1 by (auto simp: remote_above_def)
    have c1: "consistent E p1" by (rule trimsD(1) [OF p1(2)])
    note cfg = trims_config [OF p1(2)]
    have keep: "min (length (ptxs p a)) ?B \<le> length (ptxs p1 a)" for a
      using p1(4) trimsD(6) [OF p1(2), of a] by (cases "a \<in> remote_above p") auto
    show ?thesis
    proof (cases "n1 > ?G \<and> 0 < length offs")
      case False
      have "total p1 \<le> unat ?G \<or> remote_above p1 = {}"
      proof (cases "n1 > ?G")
        case True
        then have "?sp = []" using False p1(5) counted_greater [OF p1(3), of ?G] by auto
        then have "remote_above p = {}" using s by simp
        then have "remote_above p1 = {}"
          using trimsD(6) [OF p1(2)] cfg by (auto simp: remote_above_def)
        then show ?thesis by simp
      next
        case False
        then show ?thesis using counted_greater [OF p1(3), of ?G] by simp
      qed
      moreover have "truncatePending E pops p = Some p1"
        using \<open>\<not> ?n \<le> ?G\<close> p1(1) False cfg(1) by (auto simp: truncatePending_def tot)
      ultimately show ?thesis using p1(2) keep over by auto
    next
      case True
      then have lv: "offs = ?sp" "\<exists>m. level p1 offs m" using p1(5) counted_greater [OF p1(3), of ?G] by auto
      then obtain m where m: "level p1 offs m" by blast
      have ne: "offs \<noteq> []" using True by simp
      obtain p2 n2 m2 where p2: "shrink_all E offs (p1, n1) = Some (p2, n2)" "trims E (set offs) p1 p2" "level p2 offs m2"
        "total p2 \<le> unat ?G \<or> m2 \<le> ?B" "min m ?B \<le> m2"
        using shrink_all_law [OF env c1 _ ne m _ p1(3)] d lv(1) slots unfolding cfg(1) by blast
      have so: "set offs = remote_above p" using lv(1) s by simp
      have tr: "trims E (remote_above p) p p2" using trims_trans [OF p1(2) p2(2)] so by simp
      have "?B < m" using m p1(4) ne so unfolding level_def by (metis hd_in_set)
      then have m2: "?B \<le> m2" using p2(5) by simp
      have "min (length (ptxs p a)) ?B \<le> length (ptxs p2 a)" for a
        using m2 p2(3) so trimsD(6) [OF tr, of a] by (cases "a \<in> remote_above p") (auto simp: level_def)
      moreover have "total p2 \<le> unat ?G \<or> remote_above p2 = {}"
      proof (cases "m2 \<le> ?B")
        case True
        have "a \<notin> remote_above p2" for a
          using True p2(3) so trimsD(6) [OF tr, of a] trims_config [OF tr]
          by (cases "a \<in> remote_above p") (auto simp: level_def remote_above_def)
        then show ?thesis by blast
      qed (use p2(4) in simp)
      moreover have "truncatePending E pops p = Some p2"
        using \<open>\<not> ?n \<le> ?G\<close> p1(1) True cfg(1) p2(1) by (simp add: truncatePending_def tot)
      ultimately show ?thesis using tr over by auto
    qed
  qed
qed

end
