(* ===== verification/Tx_Pool_Queue.thy ===== *)
theory Tx_Pool_Queue
  imports Tx_Pool_Trunc
begin

text \<open>
  Laws of the operations that take transactions out of the queue, and of the price threshold:
  what \<open>SetGasPrice\<close>, \<open>evict\<close> and \<open>truncateQueue\<close> drop and what they keep.
\<close>

section \<open>The price threshold\<close>

lemma SetGasPrice_law:
  assumes env: "env_ok E" and con: "consistent E p"
  shows "\<exists>p'. SetGasPrice E price p = Some p' \<and> consistent E p' \<and> same_setup (p\<lparr>tp_gasPrice := price\<rparr>) p'
    \<and> known p' \<subseteq> known p \<and> (\<forall>t \<in> known p'. isLocalTx E p t \<or> price \<le> tx_GasPrice t)
    \<and> (\<forall>t \<in> known p - known p'. \<exists>d. tx_Hash d = tx_Hash t \<and> \<not> isLocalTx E p d \<and> tx_GasPrice d < price)"
proof -
  let ?p = "p\<lparr>tp_gasPrice := price\<rparr>"
  have con': "consistent E ?p" using con by (simp add: frame_simps)
  have heap: "is_heap priceLess (pl_items (tp_priced p))" using consistentD(3) [OF con] by (simp add: price_ok_def)
  obtain l dropped where d: "pl_Cap (tp_all p) (isLocalTx E ?p) (tp_priced p) price = (l, dropped)" by fastforce
  have loc: "isLocalTx E ?p = isLocalTx E p" by (simp add: isLocalTx_def)
  note o = pl_Cap_ok [OF heap d]
  have dset: "set dropped = {t \<in> set_mset (live (tp_all p) (tp_priced p)). \<not> isLocalTx E p t \<and> tx_GasPrice t < price}"
    unfolding set_mset_mset [symmetric] o(1) loc by simp
  have "set_mset (live (tp_all p) (tp_priced p)) \<subseteq> set dropped \<union> set (pl_items l)"
  proof
    fix t assume t: "t \<in># live (tp_all p) (tp_priced p)"
    show "t \<in> set dropped \<union> set (pl_items l)"
    proof (cases "t \<in># mset dropped")
      case False
      then have "count (mset dropped) t = 0" by (simp add: count_list_0_iff flip: count_mset)
      with t have "t \<in># live (tp_all p) l" unfolding o(2) in_diff_count by (simp only: count_greater_zero_iff)
      then show ?thesis using live_set by blast
    qed simp
  qed
  then obtain p' where p': "each (\<lambda>tx. removeTx E (tx_Hash tx) False) dropped (?p\<lparr>tp_priced := l\<rparr>) = Some p'"
    "consistent E p'" "same_setup ?p p'" "known p' = {t \<in> known ?p. tx_Hash t \<notin> tx_Hash ` set dropped}"
    using drop_live [OF env con' o(3), of dropped False] by auto
  have "SetGasPrice E price p = Some p'" using p'(1) d by (simp add: SetGasPrice_def Let_def)
  moreover have "isLocalTx E p t \<or> price \<le> tx_GasPrice t" if "t \<in> known p'" for t
    using that live_known [OF consistentD(3) [OF con], of t] unfolding p'(4) by (auto simp: dset)
  moreover have "\<exists>d. tx_Hash d = tx_Hash t \<and> \<not> isLocalTx E p d \<and> tx_GasPrice d < price"
    if t: "t \<in> known p" "t \<notin> known p'" for t
  proof -
    obtain d where "d \<in> set dropped" "tx_Hash t = tx_Hash d" using t unfolding p'(4) by auto
    then show ?thesis using dset by (intro exI [of _ d]) simp
  qed
  ultimately show ?thesis using p'(2-4) by auto
qed

section \<open>Dropping queued transactions of one account\<close>

definition qtxs :: "pool \<Rightarrow> address \<Rightarrow> transaction list" where
  "qtxs p a = (case tp_queue p a of None \<Rightarrow> [] | Some l \<Rightarrow> sm_flat (tl_items l))"

lemma keyed_list: "lists_ok E s m \<Longrightarrow> m a = Some l \<Longrightarrow> sm_keyed (tl_items l)"
  by (drule (1) lists_okD(1)) (simp add: tl_inv_def sm_inv_def sm_core_def)

lemma flat_set: "sm_keyed items \<Longrightarrow> set (sm_flat items) = {tx. items (tx_Nonce tx) = Some tx}"
  using set_flat by blast

lemma flat_sorted:
  assumes "sm_keyed items"
  shows "sorted_wrt (\<lambda>x y. tx_Nonce x < tx_Nonce y) (sm_flat items)"
proof -
  have "map tx_Nonce (sm_flat items) = sorted_list_of_set (dom items)"
    using assms by (auto simp: sm_flat_def sm_keyed_def intro!: map_idI)
  then have "sorted_wrt (<) (map tx_Nonce (sm_flat items))" by simp
  then show ?thesis by (simp add: sorted_wrt_map)
qed

lemma strict_unique:
  assumes "sorted_wrt (\<lambda>x y. (f x :: 'b :: linorder) < f y) xs" "sorted_wrt (\<lambda>x y. f x < f y) ys" "set xs = set ys"
  shows "xs = ys"
proof -
  have s: "sorted_wrt (<) (map f zs) \<longleftrightarrow> sorted_wrt (\<lambda>x y. f x < f y) zs" for zs by (simp add: sorted_wrt_map)
  have m: "map f xs = map f ys"
    using assms s by (intro strict_sorted_equal) simp_all
  have "distinct (map f xs)" using assms(1) s strict_sorted_iff by blast
  then have "inj_on f (set xs \<union> set ys)" using assms(3) by (simp add: distinct_map)
  with m show ?thesis by (rule map_inj_on)
qed

lemma acct_set:
  fixes a :: address
  assumes ok: "lists_ok E s m"
  defines "xs \<equiv> (case m a of None \<Rightarrow> [] | Some l \<Rightarrow> sm_flat (tl_items l))"
  shows "set xs = {t \<in> listed m. sender E t = a}" "sorted_wrt (\<lambda>x y. tx_Nonce x < tx_Nonce y) xs" "distinct xs"
proof -
  show "set xs = {t \<in> listed m. sender E t = a}"
  proof (rule set_eqI)
    fix t
    show "t \<in> set xs \<longleftrightarrow> t \<in> {t \<in> listed m. sender E t = a}"
    proof (cases "m a")
      case None
      then show ?thesis using listed_iff [OF ok, of t] by (auto simp: xs_def)
    next
      case (Some l)
      then have "t \<in> set xs \<longleftrightarrow> tl_items l (tx_Nonce t) = Some t"
        by (simp add: xs_def flat_set [OF keyed_list [OF ok Some]])
      then show ?thesis using listed_iff [OF ok, of t] lists_okD(3) [OF ok Some, of t] Some by auto
    qed
  qed
  show srt: "sorted_wrt (\<lambda>x y. tx_Nonce x < tx_Nonce y) xs"
    using flat_sorted keyed_list [OF ok] by (cases "m a") (simp_all add: xs_def)
  have "sorted_wrt (<) (map tx_Nonce xs)" using srt by (simp add: sorted_wrt_map)
  then show "distinct xs" using strict_sorted_iff distinct_map by blast
qed

lemma acct_total:
  assumes ok: "lists_ok E s m"
  shows "(\<Sum>a \<in> dom m. length (case m a of None \<Rightarrow> [] | Some l \<Rightarrow> sm_flat (tl_items l))) = card (listed m)" "finite (listed m)"
proof -
  let ?xs = "\<lambda>a. (case m a of None \<Rightarrow> [] | Some l \<Rightarrow> sm_flat (tl_items l))"
  have fin: "finite (dom m)" using ok by (simp add: lists_ok_def)
  have "sender E t \<in> dom m" if "t \<in> listed m" for t using that listed_iff [OF ok, of t] by auto
  then have eq: "listed m = (\<Union>a \<in> dom m. set (?xs a))" unfolding acct_set(1) [OF ok] by blast
  show "finite (listed m)" unfolding eq by (rule finite_UN_I [OF fin]) (rule List.finite_set)
  have "card (listed m) = (\<Sum>a \<in> dom m. card (set (?xs a)))"
    unfolding eq
  proof (rule card_UN_disjoint [OF fin])
    show "\<forall>a \<in> dom m. finite (set (?xs a))" by (intro ballI List.finite_set)
    show "\<forall>a \<in> dom m. \<forall>b \<in> dom m. a \<noteq> b \<longrightarrow> set (?xs a) \<inter> set (?xs b) = {}"
      unfolding acct_set(1) [OF ok] by auto
  qed
  then show "(\<Sum>a \<in> dom m. length (?xs a)) = card (listed m)"
    using distinct_card [OF acct_set(3) [OF ok]] by simp
qed

lemma qtxs_set:
  assumes "consistent E p"
  shows "set (qtxs p a) = {t \<in> listed (tp_queue p). sender E t = a}"
    "sorted_wrt (\<lambda>x y. tx_Nonce x < tx_Nonce y) (qtxs p a)" "distinct (qtxs p a)"
  using acct_set [OF pinvD(2) [OF consistentD(2) [OF assms]], of a] unfolding qtxs_def by blast+

lemma ptxs_set:
  assumes "consistent E p"
  shows "set (ptxs p a) = {t \<in> listed (tp_pending p). sender E t = a}"
    "sorted_wrt (\<lambda>x y. tx_Nonce x < tx_Nonce y) (ptxs p a)" "distinct (ptxs p a)"
  using acct_set [OF pinvD(1) [OF consistentD(2) [OF assms]], of a] unfolding ptxs_def by blast+

lemma queue_only_trans: "queue_only a p q \<Longrightarrow> queue_only a q r \<Longrightarrow> queue_only a p r"
  by (simp add: queue_only_def)

lemma drop_queued_law:
  assumes env: "env_ok E" and con: "consistent E p" and tx: "tx \<in> listed (tp_queue p)" "sender E tx = a"
  shows "\<exists>p'. removeTx E (tx_Hash tx) b p = Some p' \<and> consistent E p' \<and> same_setup p p' \<and> queue_only a p p'
    \<and> listed (tp_queue p') = listed (tp_queue p) - {tx}"
proof -
  obtain p' where p': "removeTx E (tx_Hash tx) b p = Some p'" "removes E {} p p' tx" "queue_only a p p'"
    using remove_queue_only [OF env consistentD(1) [OF con] tx(1), of b] tx(2) by blast
  have "tx \<notin> listed (tp_pending p)" using tx(1) pinvD(5) [OF consistentD(2) [OF con]] by blast
  then have "followers E p tx = {}" by (simp add: followers_def)
  then show ?thesis using p' by (simp add: removes_def consistent_def)
qed

lemma dropTxs_law:
  assumes "env_ok E" "consistent E p" "distinct txs" "set txs \<subseteq> {t \<in> listed (tp_queue p). sender E t = a}"
  shows "\<exists>p'. each (\<lambda>tx. removeTx E (tx_Hash tx) b) txs p = Some p' \<and> consistent E p' \<and> same_setup p p'
    \<and> queue_only a p p' \<and> listed (tp_queue p') = listed (tp_queue p) - set txs"
  using assms(2-4)
proof (induction txs arbitrary: p)
  case Nil
  then show ?case by (simp add: queue_only_def)
next
  case (Cons tx txs)
  obtain p1 where p1: "removeTx E (tx_Hash tx) b p = Some p1" "consistent E p1" "same_setup p p1" "queue_only a p p1"
    "listed (tp_queue p1) = listed (tp_queue p) - {tx}"
    using drop_queued_law [OF assms(1) Cons.prems(1), of tx a b] Cons.prems(3) by auto
  have "set txs \<subseteq> {t \<in> listed (tp_queue p1). sender E t = a}" using Cons.prems(2,3) p1(5) by auto
  then obtain p' where p': "each (\<lambda>tx. removeTx E (tx_Hash tx) b) txs p1 = Some p'" "consistent E p'" "same_setup p1 p'"
    "queue_only a p1 p'" "listed (tp_queue p') = listed (tp_queue p1) - set txs"
    using Cons.IH [OF p1(2)] Cons.prems(2) by fastforce
  have "listed (tp_queue p') = listed (tp_queue p) - set (tx # txs)" using p'(5) p1(5) by auto
  then show ?case using p1(1) p' same_setup_trans [OF p1(3) p'(3)] queue_only_trans [OF p1(4) p'(4)] by simp
qed

text \<open>Filling the cache of a queued list.\<close>

lemma flatten_queued:
  assumes env: "env_ok E" and con: "consistent E p" and l: "tp_queue p a = Some l"
    and fl: "tl_Flatten (pe_nonces E) l = (l', txs)"
  shows "txs = qtxs p a" "consistent E (p\<lparr>tp_queue := (tp_queue p)(a \<mapsto> l')\<rparr>)"
    "listed ((tp_queue p)(a \<mapsto> l')) = listed (tp_queue p)"
    "queue_only a p (p\<lparr>tp_queue := (tp_queue p)(a \<mapsto> l')\<rparr>)"
proof -
  note ok = pinvD(2) [OF consistentD(2) [OF con]]
  note f = tl_Flatten_flat [OF env_okD(2) [OF env] lists_okD(1) [OF ok l] fl]
  note put = put_same [OF ok l f(3,4,2)]
  show "txs = qtxs p a" using f(1) l by (simp add: qtxs_def)
  show li: "listed ((tp_queue p)(a \<mapsto> l')) = listed (tp_queue p)" by (rule put(2))
  have "tl_items l' \<noteq> Map.empty" using consistentD(5) [OF con] l f(2) by (auto simp: no_empty_def)
  then have "no_empty ((tp_queue p)(a \<mapsto> l'))" using no_empty_put(2) [OF consistentD(5) [OF con]] by blast
  moreover have "pinv E {} {} (p\<lparr>tp_queue := (tp_queue p)(a \<mapsto> l')\<rparr>)"
    using placed_cong(2) [OF _ put] consistentD(2) [OF con] by (simp add: pinv_def price_ok_def known_def)
  ultimately show "consistent E (p\<lparr>tp_queue := (tp_queue p)(a \<mapsto> l')\<rparr>)"
    using consistentD(4) [OF con] by (simp add: consistent_def consistent_but_def)
  show "queue_only a p (p\<lparr>tp_queue := (tp_queue p)(a \<mapsto> l')\<rparr>)" by (simp add: queue_only_def)
qed

section \<open>Eviction\<close>

definition expired :: "int \<Rightarrow> pool \<Rightarrow> address \<Rightarrow> bool" where
  "expired now p a \<longleftrightarrow> \<not> as_contains (tp_locals p) a \<and> time_Sub now (beat p a) > Lifetime (tp_config p)"

lemma evict_account_law:
  assumes env: "env_ok E" and con: "consistent E p"
  shows "\<exists>p'. evict_account E now a p = Some p' \<and> consistent E p' \<and> same_setup p p' \<and> queue_only a p p'
    \<and> listed (tp_queue p') = {t \<in> listed (tp_queue p). \<not> (sender E t = a \<and> expired now p a)}"
proof (cases "tp_queue p a")
  case None
  then have "sender E t \<noteq> a" if "t \<in> listed (tp_queue p)" for t
    using that listed_iff [OF pinvD(2) [OF consistentD(2) [OF con]], of t] by auto
  then show ?thesis using None con by (auto simp: evict_account_def queue_only_def)
next
  case (Some l)
  show ?thesis
  proof (cases "expired now p a")
    case False
    then have "evict_account E now a p = Some p" using Some by (auto simp: evict_account_def expired_def)
    then show ?thesis using False con by (simp add: queue_only_def)
  next
    case True
    obtain l' txs where fl: "tl_Flatten (pe_nonces E) l = (l', txs)" by fastforce
    note f = flatten_queued [OF env con Some fl]
    let ?p = "p\<lparr>tp_queue := (tp_queue p)(a \<mapsto> l')\<rparr>"
    have txs: "distinct txs" "set txs = {t \<in> listed (tp_queue p). sender E t = a}"
      using qtxs_set [OF con, of a] f(1) by simp_all
    have "set txs \<subseteq> {t \<in> listed (tp_queue ?p). sender E t = a}" by (simp add: txs(2) f(3) del: fun_upd_apply)
    then obtain p' where p': "each (\<lambda>tx. removeTx E (tx_Hash tx) True) txs ?p = Some p'" "consistent E p'"
      "same_setup ?p p'" "queue_only a ?p p'" "listed (tp_queue p') = listed (tp_queue ?p) - set txs"
      using dropTxs_law [OF env f(2) txs(1), of a True] by blast
    have "evict_account E now a p = Some p'"
      using Some True fl p'(1) by (simp add: evict_account_def expired_def)
    moreover have "listed (tp_queue p') = {t \<in> listed (tp_queue p). \<not> (sender E t = a \<and> expired now p a)}"
    proof -
      have "listed (tp_queue p') = listed (tp_queue p) - set txs" using p'(5) f(3) by (simp del: fun_upd_apply)
      then show ?thesis using True txs(2) by auto
    qed
    ultimately show ?thesis using p'(2,3) queue_only_trans [OF f(4) p'(4)] by auto
  qed
qed

lemma expired_same:
  "same_setup p p' \<Longrightarrow> tp_beats p' = tp_beats p \<Longrightarrow> expired now p' = expired now p"
  by (rule ext) (simp add: expired_def same_setup_def beat_def)

lemma evict_each:
  assumes "env_ok E" "consistent E p"
  shows "\<exists>p'. each (evict_account E now) as p = Some p' \<and> consistent E p' \<and> same_setup p p'
    \<and> tp_pending p' = tp_pending p \<and> tp_beats p' = tp_beats p
    \<and> listed (tp_queue p') = {t \<in> listed (tp_queue p). \<not> (sender E t \<in> set as \<and> expired now p (sender E t))}"
  using assms(2)
proof (induction as arbitrary: p)
  case (Cons a as)
  obtain p1 where p1: "evict_account E now a p = Some p1" "consistent E p1" "same_setup p p1" "queue_only a p p1"
    "listed (tp_queue p1) = {t \<in> listed (tp_queue p). \<not> (sender E t = a \<and> expired now p a)}"
    using evict_account_law [OF assms(1) Cons.prems] by blast
  obtain p' where p': "each (evict_account E now) as p1 = Some p'" "consistent E p'" "same_setup p1 p'"
    "tp_pending p' = tp_pending p1" "tp_beats p' = tp_beats p1"
    "listed (tp_queue p') = {t \<in> listed (tp_queue p1). \<not> (sender E t \<in> set as \<and> expired now p1 (sender E t))}"
    using Cons.IH [OF p1(2)] by blast
  have ex: "expired now p1 = expired now p" using expired_same [OF p1(3)] p1(4) by (simp add: queue_only_def)
  have "listed (tp_queue p') = {t \<in> listed (tp_queue p). \<not> (sender E t \<in> set (a # as) \<and> expired now p (sender E t))}"
    unfolding p'(6) p1(5) ex by auto
  then show ?case using p1(1,4) p'(1-5) same_setup_trans [OF p1(3) p'(3)] by (simp add: queue_only_def)
qed simp

lemma evict_law:
  assumes "env_ok E" "consistent E p"
  shows "\<exists>p'. evict E now p = Some p' \<and> consistent E p' \<and> same_setup p p'
    \<and> tp_pending p' = tp_pending p \<and> listed (tp_queue p') = {t \<in> listed (tp_queue p). \<not> expired now p (sender E t)}"
proof -
  note ok = pinvD(2) [OF consistentD(2) [OF assms(2)]]
  have addrs: "set (pe_addrs E (tp_queue p)) = dom (tp_queue p)"
    using env_okD(3) [OF assms(1)] ok by (simp add: map_order_def lists_ok_def)
  have "sender E t \<in> dom (tp_queue p)" if "t \<in> listed (tp_queue p)" for t
    using that listed_iff [OF ok, of t] by auto
  then have "{t \<in> listed (tp_queue p). \<not> (sender E t \<in> set (pe_addrs E (tp_queue p)) \<and> expired now p (sender E t))}
      = {t \<in> listed (tp_queue p). \<not> expired now p (sender E t)}" unfolding addrs by blast
  then show ?thesis using evict_each [OF assms, of now "pe_addrs E (tp_queue p)"] by (auto simp: evict_def)
qed

section \<open>The limit of the queue\<close>

lemma drop_tail_law:
  assumes "env_ok E" "consistent E p" "distinct txs" "set txs \<subseteq> {t \<in> listed (tp_queue p). sender E t = a}"
  shows "\<exists>p'. drop_tail E txs todo p = Some (p', todo - of_nat (min (unat todo) (length txs))) \<and> consistent E p'
    \<and> same_setup p p' \<and> queue_only a p p' \<and> listed (tp_queue p') = listed (tp_queue p) - set (take (unat todo) txs)"
  using assms(2-4)
proof (induction txs arbitrary: p todo)
  case Nil
  then show ?case by (simp add: queue_only_def)
next
  case (Cons tx txs)
  show ?case
  proof (cases "todo = 0")
    case True
    then show ?thesis using Cons.prems(1) by (simp add: queue_only_def)
  next
    case False
    then have u: "unat todo = Suc (unat (todo - 1))" by (simp add: unat_minus_one unat_gt_0)
    obtain p1 where p1: "removeTx E (tx_Hash tx) True p = Some p1" "consistent E p1" "same_setup p p1" "queue_only a p p1"
      "listed (tp_queue p1) = listed (tp_queue p) - {tx}"
      using drop_queued_law [OF assms(1) Cons.prems(1), of tx a True] Cons.prems(3) by auto
    have "set txs \<subseteq> {t \<in> listed (tp_queue p1). sender E t = a}" using Cons.prems(2,3) p1(5) by auto
    then obtain p' where p': "drop_tail E txs (todo - 1) p1 = Some (p', todo - 1 - of_nat (min (unat (todo - 1)) (length txs)))"
      "consistent E p'" "same_setup p1 p'" "queue_only a p1 p'"
      "listed (tp_queue p') = listed (tp_queue p1) - set (take (unat (todo - 1)) txs)"
      using Cons.IH [OF p1(2)] Cons.prems(2) by fastforce
    have "listed (tp_queue p') = listed (tp_queue p) - set (take (unat todo) (tx # txs))"
      using p'(5) p1(5) by (auto simp: u)
    moreover have "drop_tail E (tx # txs) todo p = Some (p', todo - of_nat (min (unat todo) (length (tx # txs))))"
      using False p1(1) p'(1) by (simp add: u word_gt_0 algebra_simps)
    ultimately show ?thesis
      using p'(2) same_setup_trans [OF p1(3) p'(3)] queue_only_trans [OF p1(4) p'(4)] by blast
  qed
qed

lemma qtxs_after:
  assumes "consistent E p" "consistent E p'" "listed (tp_queue p') = listed (tp_queue p) - set (drop n (qtxs p a))"
  shows "qtxs p' a = take n (qtxs p a)"
proof (rule strict_unique)
  show "sorted_wrt (\<lambda>x y. tx_Nonce x < tx_Nonce y) (qtxs p' a)" by (rule qtxs_set(2) [OF assms(2)])
  show "sorted_wrt (\<lambda>x y. tx_Nonce x < tx_Nonce y) (take n (qtxs p a))"
    by (rule sorted_wrt_take [OF qtxs_set(2) [OF assms(1)]])
  have "distinct (take n (qtxs p a) @ drop n (qtxs p a))" using qtxs_set(3) [OF assms(1)] by simp
  then have dj: "set (take n (qtxs p a)) \<inter> set (drop n (qtxs p a)) = {}" by (simp only: distinct_append)
  have "set (qtxs p a) = set (take n (qtxs p a)) \<union> set (drop n (qtxs p a))"
    by (metis append_take_drop_id set_append)
  moreover have "set (qtxs p' a) = set (qtxs p a) - set (drop n (qtxs p a))"
    using qtxs_set(1) [OF assms(1), of a] qtxs_set(1) [OF assms(2), of a] by (auto simp: assms(3))
  ultimately show "set (qtxs p' a) = set (take n (qtxs p a))" using dj by blast
qed

text \<open>
  What the main loop leaves of the lists of the accounts it walks: a prefix of each, all of the
  earlier ones gone before a later one is touched, and as many dropped as asked for.
\<close>

definition drops_from :: "'e pool_env \<Rightarrow> address list \<Rightarrow> nat \<Rightarrow> pool \<Rightarrow> pool \<Rightarrow> bool" where
  "drops_from E as n p p' \<longleftrightarrow> consistent E p' \<and> same_setup p p' \<and> tp_pending p' = tp_pending p
     \<and> tp_beats p' = tp_beats p \<and> (\<forall>b. b \<notin> set as \<longrightarrow> tp_queue p' b = tp_queue p b)
     \<and> (\<forall>b. \<exists>k. qtxs p' b = take k (qtxs p b))
     \<and> (\<forall>i j. i < j \<longrightarrow> j < length as \<longrightarrow> qtxs p' (as ! j) \<noteq> qtxs p (as ! j) \<longrightarrow> qtxs p' (as ! i) = [])
     \<and> (\<Sum>b\<leftarrow>as. length (qtxs p' b)) + min n (\<Sum>b\<leftarrow>as. length (qtxs p b)) = (\<Sum>b\<leftarrow>as. length (qtxs p b))"

lemma drops_none: "consistent E p \<Longrightarrow> as = [] \<or> n = 0 \<Longrightarrow> drops_from E as n p p"
proof -
  have "\<exists>k. xs = take k xs" for xs :: "transaction list" by (rule exI [of _ "length xs"]) simp
  then show "consistent E p \<Longrightarrow> as = [] \<or> n = 0 \<Longrightarrow> drops_from E as n p p" by (auto simp: drops_from_def)
qed

lemma qtxs_cong: "tp_queue p' b = tp_queue p b \<Longrightarrow> qtxs p' b = qtxs p b"
  by (simp add: qtxs_def)

lemma sum_list_tight:
  assumes "\<And>x. f x \<le> (g x :: nat)" "(\<Sum>x\<leftarrow>xs. f x) = (\<Sum>x\<leftarrow>xs. g x)" "x \<in> set xs"
  shows "f x = g x"
  using assms(2,3)
proof (induction xs)
  case (Cons y ys)
  have "(\<Sum>x\<leftarrow>ys. f x) \<le> (\<Sum>x\<leftarrow>ys. g x)" by (rule sum_list_mono) (rule assms(1))
  then have "f y = g y" "(\<Sum>x\<leftarrow>ys. f x) = (\<Sum>x\<leftarrow>ys. g x)" using Cons.prems(1) assms(1) [of y] by auto
  then show ?case using Cons.IH Cons.prems(2) by auto
qed simp

lemma drops_step:
  assumes first: "consistent E p1" "same_setup p p1" "queue_only a p p1" "qtxs p1 a = take k (qtxs p a)"
    and rest: "drops_from E as (n - (length (qtxs p a) - k)) p1 p'" and k: "k \<le> length (qtxs p a)"
    "length (qtxs p a) - k \<le> n" "k = 0 \<or> n = length (qtxs p a) - k" and dist: "distinct (a # as)"
  shows "drops_from E (a # as) n p p'"
proof -
  have other: "qtxs p1 b = qtxs p b" if "b \<noteq> a" for b using first(3) that by (simp add: queue_only_def qtxs_def)
  have others: "(\<Sum>b\<leftarrow>as. length (qtxs p1 b)) = (\<Sum>b\<leftarrow>as. length (qtxs p b))"
  proof (rule arg_cong [of _ _ sum_list], rule map_cong [OF refl])
    fix b assume "b \<in> set as"
    then have "b \<noteq> a" using dist by auto
    then show "length (qtxs p1 b) = length (qtxs p b)" by (simp add: other)
  qed
  have a': "qtxs p' a = take k (qtxs p a)" using rest dist first(4) qtxs_cong [of p' a p1] by (simp add: drops_from_def)
  have same: "qtxs p' b = qtxs p b" if "b \<in> set as" "k \<noteq> 0" for b
  proof -
    have z: "n - (length (qtxs p a) - k) = 0" using k(3) that(2) by simp
    have "(\<Sum>b\<leftarrow>as. length (qtxs p' b)) = (\<Sum>b\<leftarrow>as. length (qtxs p1 b))"
      using rest unfolding drops_from_def z by simp
    moreover have "length (qtxs p' b) \<le> length (qtxs p1 b)" for b
    proof -
      obtain k where "qtxs p' b = take k (qtxs p1 b)" using rest unfolding drops_from_def by blast
      then show ?thesis by simp
    qed
    ultimately have "length (qtxs p' b) = length (qtxs p1 b)" by (intro sum_list_tight [where f = "\<lambda>b. length (qtxs p' b)" and xs = as, OF _ _ that(1)])
    moreover obtain k where "qtxs p' b = take k (qtxs p1 b)" using rest unfolding drops_from_def by blast
    ultimately have "qtxs p' b = qtxs p1 b" by simp
    moreover have "b \<noteq> a" using dist that(1) by auto
    ultimately show ?thesis by (simp add: other)
  qed
  have "\<exists>k. qtxs p' b = take k (qtxs p b)" for b
  proof (cases "b = a")
    case False
    obtain m where "qtxs p' b = take m (qtxs p1 b)" using rest unfolding drops_from_def by blast
    with False show ?thesis by (auto simp: other)
  qed (use a' in blast)
  moreover have "qtxs p' ((a # as) ! i) = []"
    if "i < j" "j < length (a # as)" "qtxs p' ((a # as) ! j) \<noteq> qtxs p ((a # as) ! j)" for i j
  proof -
    from that(1) obtain j' where j: "j = Suc j'" by (cases j) auto
    have mem: "as ! j' \<in> set as" using that(2) j by simp
    then have k0: "k = 0" using same that(3) j by auto
    show ?thesis
    proof (cases i)
      case 0
      then show ?thesis using a' k0 by simp
    next
      case (Suc i')
      have "as ! j' \<noteq> a" using dist mem by auto
      then have "qtxs p1 (as ! j') = qtxs p (as ! j')" by (rule other)
      then show ?thesis using rest that j Suc unfolding drops_from_def by auto
    qed
  qed
  moreover have "(\<Sum>b\<leftarrow>a # as. length (qtxs p' b)) + min n (\<Sum>b\<leftarrow>a # as. length (qtxs p b))
      = (\<Sum>b\<leftarrow>a # as. length (qtxs p b))"
  proof -
    have "(\<Sum>b\<leftarrow>as. length (qtxs p' b)) + min (n - (length (qtxs p a) - k)) (\<Sum>b\<leftarrow>as. length (qtxs p b))
      = (\<Sum>b\<leftarrow>as. length (qtxs p b))" using rest others by (simp add: drops_from_def)
    then show ?thesis using k by (auto simp: a' min_def split: if_splits)
  qed
  ultimately show ?thesis
    using rest first(2,3) same_setup_trans [OF first(2)] by (simp add: drops_from_def queue_only_def)
qed

lemma drop_accounts_law:
  assumes "env_ok E" "consistent E p" "distinct as" "\<forall>a \<in> set as. tp_queue p a \<noteq> None"
    "\<forall>a \<in> set as. length (qtxs p a) < 2 ^ 64"
  shows "\<exists>p'. drop_accounts E as todo p = Some p' \<and> drops_from E as (unat todo) p p'"
  using assms(2-5)
proof (induction as arbitrary: p todo)
  case Nil
  then show ?case using drops_none [of E p "[]"] by auto
next
  case (Cons a as)
  show ?case
  proof (cases "todo = 0")
    case True
    then show ?thesis using drops_none [OF Cons.prems(1)] by auto
  next
    case False
    obtain l where l: "tp_queue p a = Some l" using Cons.prems(3) by auto
    obtain l' txs where fl: "tl_Flatten (pe_nonces E) l = (l', txs)" by fastforce
    note f = flatten_queued [OF assms(1) Cons.prems(1) l fl]
    let ?p = "p\<lparr>tp_queue := (tp_queue p)(a \<mapsto> l')\<rparr>"
    have txs: "distinct txs" "set txs = {t \<in> listed (tp_queue p). sender E t = a}"
      using qtxs_set [OF Cons.prems(1), of a] f(1) by simp_all
    have sub: "set txs \<subseteq> {t \<in> listed (tp_queue ?p). sender E t = a}" by (simp add: txs(2) f(3) del: fun_upd_apply)
    have len: "tl_Len l = length txs"
      using tl_Len_flat lists_okD(1) [OF pinvD(2) [OF consistentD(2) [OF Cons.prems(1)]] l] f(1) l by (simp add: qtxs_def)
    have small: "length txs < 2 ^ 64" using Cons.prems(4) f(1) by simp
    have size: "unat (word_of_nat (tl_Len l) :: u64) = length txs" using small by (simp add: len unat_of_nat take_bit_nat_eq_self)
    have next_ok: "\<forall>b \<in> set as. tp_queue q b \<noteq> None" "\<forall>b \<in> set as. length (qtxs q b) < 2 ^ 64" if "queue_only a p q" for q
      using that Cons.prems(2-4) by (auto simp: queue_only_def qtxs_def)
    show ?thesis
    proof (cases "(word_of_nat (tl_Len l) :: u64) \<le> todo")
      case True
      then have le: "length txs \<le> unat todo" unfolding word_le_nat_alt size .
      obtain p1 where p1: "each (\<lambda>tx. removeTx E (tx_Hash tx) True) txs ?p = Some p1" "consistent E p1"
        "same_setup ?p p1" "queue_only a ?p p1" "listed (tp_queue p1) = listed (tp_queue ?p) - set txs"
        using dropTxs_law [OF assms(1) f(2) txs(1) sub, of True] by blast
      have q1: "queue_only a p p1" by (rule queue_only_trans [OF f(4) p1(4)])
      have "listed (tp_queue p1) = listed (tp_queue p) - set (drop 0 (qtxs p a))"
        using p1(5) f(1,3) by (simp del: fun_upd_apply)
      note q = qtxs_after [OF Cons.prems(1) p1(2) this]
      obtain p' where p': "drop_accounts E as (todo - word_of_nat (tl_Len l)) p1 = Some p'"
        "drops_from E as (unat (todo - word_of_nat (tl_Len l))) p1 p'"
        using Cons.IH [OF p1(2) _ next_ok [OF q1]] Cons.prems(2) by auto
      have "unat (todo - word_of_nat (tl_Len l)) = unat todo - length txs" using True by (simp only: unat_sub size)
      then have "drops_from E (a # as) (unat todo) p p'"
        using p'(2) le p1(3) Cons.prems(2) f(1) by (intro drops_step [OF p1(2) _ q1 q]) simp_all
      then show ?thesis using False l fl True p1(1) p'(1) by (simp add: Let_def word_gt_0)
    next
      case less: False
      then have lt: "unat todo < length txs" unfolding word_le_nat_alt size by simp
      have "set (rev txs) \<subseteq> {t \<in> listed (tp_queue ?p). sender E t = a}" using sub by simp
      then obtain p1 where p1: "drop_tail E (rev txs) todo ?p = Some (p1, todo - of_nat (min (unat todo) (length (rev txs))))"
        "consistent E p1" "same_setup ?p p1" "queue_only a ?p p1"
        "listed (tp_queue p1) = listed (tp_queue ?p) - set (take (unat todo) (rev txs))"
        using drop_tail_law [OF assms(1) f(2), of "rev txs" a todo] txs(1) by auto
      have q1: "queue_only a p p1" by (rule queue_only_trans [OF f(4) p1(4)])
      let ?k = "length txs - unat todo"
      have "set (take (unat todo) (rev txs)) = set (drop ?k (qtxs p a))" by (simp add: take_rev f(1))
      then have "listed (tp_queue p1) = listed (tp_queue p) - set (drop ?k (qtxs p a))"
        using p1(5) f(3) by (simp del: fun_upd_apply)
      note q = qtxs_after [OF Cons.prems(1) p1(2) this]
      have z: "todo - of_nat (min (unat todo) (length (rev txs))) = 0" using lt by simp
      have "drops_from E (a # as) (unat todo) p p1"
        using lt p1(3) Cons.prems(2) f(1) drops_none [OF p1(2)]
        by (intro drops_step [OF p1(2) _ q1 q]) simp_all
      moreover have "drop_accounts E as 0 p1 = Some p1" by (cases as) simp_all
      ultimately show ?thesis using False l fl less p1(1) unfolding z by (simp add: Let_def word_gt_0)
    qed
  qed
qed

text \<open>What \<^verbatim>\<open>sort.Sort\<close> promises: the same accounts, in the order of their heartbeats.\<close>

definition sort_ok :: "((address \<times> int) list \<Rightarrow> (address \<times> int) list) \<Rightarrow> bool" where
  "sort_ok srt \<longleftrightarrow> (\<forall>xs. mset (srt xs) = mset xs \<and> sorted_wrt (\<lambda>x y. snd x \<le> snd y) (srt xs))"

definition qtotal :: "pool \<Rightarrow> nat" where
  "qtotal p = (\<Sum>a \<in> dom (tp_queue p). length (qtxs p a))"

lemma qtotal_over:
  assumes "finite D" "dom (tp_queue p) \<subseteq> D"
  shows "qtotal p = (\<Sum>a \<in> D. length (qtxs p a))"
  unfolding qtotal_def using assms by (intro sum.mono_neutral_left) (auto simp: qtxs_def domIff)

lemma total_len_qtotal:
  assumes "env_ok E" "consistent E p"
  shows "total_len E (tp_queue p) = qtotal p"
proof -
  note ok = pinvD(2) [OF consistentD(2) [OF assms(2)]]
  show ?thesis unfolding total_len_sum [OF assms(1) ok] qtotal_def
    by (intro sum.cong) (auto simp: qtxs_def tl_Len_flat [OF lists_okD(1) [OF ok]])
qed

lemma qtxs_le_qtotal: "finite (dom (tp_queue p)) \<Longrightarrow> length (qtxs p a) \<le> qtotal p"
proof -
  assume fin: "finite (dom (tp_queue p))"
  show ?thesis
  proof (cases "a \<in> dom (tp_queue p)")
    case True
    then show ?thesis unfolding qtotal_def using fin by (intro member_le_sum) auto
  next
    case False
    then show ?thesis by (simp add: qtxs_def domIff)
  qed
qed

lemma truncateQueue_law:
  assumes env: "env_ok E" and con: "consistent E p" and small: "qtotal p < 2 ^ 64" and srt: "sort_ok srt"
  shows "\<exists>p'. truncateQueue E srt p = Some p' \<and> consistent E p' \<and> same_setup p p' \<and> tp_pending p' = tp_pending p
    \<and> (\<forall>a. \<exists>k. qtxs p' a = take k (qtxs p a)) \<and> (\<forall>a. as_contains (tp_locals p) a \<longrightarrow> qtxs p' a = qtxs p a)
    \<and> (\<forall>a b. \<not> as_contains (tp_locals p) b \<longrightarrow> beat p a < beat p b \<longrightarrow> qtxs p' a \<noteq> qtxs p a \<longrightarrow> qtxs p' b = [])
    \<and> (qtotal p' \<le> unat (GlobalQueue (tp_config p)) \<or> (\<forall>a. \<not> as_contains (tp_locals p) a \<longrightarrow> qtxs p' a = []))
    \<and> min (qtotal p) (unat (GlobalQueue (tp_config p))) \<le> qtotal p'"
proof -
  let ?G = "GlobalQueue (tp_config p)" and ?q = "word_of_nat (qtotal p) :: u64"
  note ok = pinvD(2) [OF consistentD(2) [OF con]]
  have fin: "finite (dom (tp_queue p))" using ok by (simp add: lists_ok_def)
  have q: "unat ?q = qtotal p" using small by (simp add: unat_of_nat take_bit_nat_eq_self)
  show ?thesis
  proof (cases "?q \<le> ?G")
    case True
    have "\<exists>k. qtxs p a = take k (qtxs p a)" for a by (rule exI [of _ "length (qtxs p a)"]) simp
    moreover have "qtotal p \<le> unat ?G" using True unfolding word_le_nat_alt q .
    ultimately show ?thesis using True con by (simp add: truncateQueue_def total_len_qtotal [OF env con] Let_def)
  next
    case False
    then have over: "unat ?G < qtotal p" unfolding word_le_nat_alt q by simp
    have todo: "unat (?q - ?G) = qtotal p - unat ?G" using False by (subst unat_sub) (auto simp only: q not_le less_imp_le)
    let ?remote = "filter (\<lambda>addr. \<not> as_contains (tp_locals p) addr) (pe_addrs E (tp_queue p))"
    define xs where "xs = srt (map (\<lambda>addr. (addr, beat p addr)) ?remote)"
    define as where "as = map fst (rev xs)"
    have ms: "mset xs = mset (map (\<lambda>addr. (addr, beat p addr)) ?remote)" and sorted: "sorted_wrt (\<lambda>x y. snd x \<le> snd y) xs"
      using srt by (simp_all add: xs_def sort_ok_def)
    have addrs: "distinct (pe_addrs E (tp_queue p))" "set (pe_addrs E (tp_queue p)) = dom (tp_queue p)"
      using env_okD(3) [OF env] fin by (auto simp: map_order_def)
    have "mset as = image_mset fst (mset xs)" by (simp add: as_def)
    then have mas: "mset as = mset ?remote" by (simp add: ms multiset.map_comp comp_def flip: mset_map)
    have das: "distinct as" using mset_eq_imp_distinct_iff [OF mas] addrs(1) by simp
    have sas: "set as = {a \<in> dom (tp_queue p). \<not> as_contains (tp_locals p) a}"
      using mset_eq_setD [OF mas] addrs(2) by auto
    have xb: "snd x = beat p (fst x)" if "x \<in> set xs" for x using mset_eq_setD [OF ms] that by auto
    have sb: "sorted_wrt (\<lambda>a b. beat p b \<le> beat p a) as"
      using sorted unfolding as_def sorted_wrt_map sorted_wrt_rev
      by (rule sorted_wrt_mono_rel [rotated]) (simp add: xb)
    obtain p' where p': "drop_accounts E as (?q - ?G) p = Some p'" "drops_from E as (unat (?q - ?G)) p p'"
    proof -
      have "\<forall>a \<in> set as. length (qtxs p a) < 2 ^ 64" using qtxs_le_qtotal [OF fin] small le_less_trans by blast
      moreover have "\<forall>a \<in> set as. tp_queue p a \<noteq> None" using sas by auto
      ultimately show ?thesis using drop_accounts_law [OF env con das] that by blast
    qed
    have run: "truncateQueue E srt p = Some p'"
      using False p'(1) by (simp add: truncateQueue_def total_len_qtotal [OF env con] Let_def as_def xs_def)
    have d: "consistent E p'" "same_setup p p'" "tp_pending p' = tp_pending p" "\<forall>b. b \<notin> set as \<longrightarrow> tp_queue p' b = tp_queue p b"
      "\<forall>b. \<exists>k. qtxs p' b = take k (qtxs p b)"
      "\<forall>i j. i < j \<longrightarrow> j < length as \<longrightarrow> qtxs p' (as ! j) \<noteq> qtxs p (as ! j) \<longrightarrow> qtxs p' (as ! i) = []"
      "(\<Sum>b\<leftarrow>as. length (qtxs p' b)) + min (qtotal p - unat ?G) (\<Sum>b\<leftarrow>as. length (qtxs p b)) = (\<Sum>b\<leftarrow>as. length (qtxs p b))"
      using p'(2) unfolding drops_from_def todo by - (elim conjE, assumption)+
    have same: "qtxs p' a = qtxs p a" if "a \<notin> set as" for a by (rule qtxs_cong) (use d(4) that in blast)
    have "dom (tp_queue p') \<subseteq> dom (tp_queue p)" using d(4) sas by (fastforce simp: dom_def)
    note qt' = qtotal_over [OF fin this]
    have split: "(\<Sum>a \<in> dom (tp_queue p). length (qtxs r a))
        = (\<Sum>b\<leftarrow>as. length (qtxs r b)) + (\<Sum>a \<in> dom (tp_queue p) - set as. length (qtxs r a))" for r
    proof -
      have "dom (tp_queue p) = set as \<union> (dom (tp_queue p) - set as)" using sas by auto
      then have "(\<Sum>a \<in> dom (tp_queue p). length (qtxs r a))
          = (\<Sum>a \<in> set as. length (qtxs r a)) + (\<Sum>a \<in> dom (tp_queue p) - set as. length (qtxs r a))"
        using fin by (metis (no_types, lifting) Diff_disjoint List.finite_set finite_Diff sum.union_disjoint)
      then show ?thesis by (simp add: sum_list_distinct_conv_sum_set [OF das])
    qed
    have rest: "(\<Sum>a \<in> dom (tp_queue p) - set as. length (qtxs p' a)) = (\<Sum>a \<in> dom (tp_queue p) - set as. length (qtxs p a))"
      by (intro sum.cong) (auto simp: same)
    have c: "qtotal p' \<le> unat ?G \<or> (\<Sum>b\<leftarrow>as. length (qtxs p' b)) = 0" "unat ?G \<le> qtotal p'"
      using d(7) split [of p] split [of p'] rest over qt' qtotal_def [of p] by linarith+
    have c1: "qtxs p' a = []" if "(\<Sum>b\<leftarrow>as. length (qtxs p' b)) = 0" "\<not> as_contains (tp_locals p) a" for a
    proof (cases "a \<in> set as")
      case True
      then show ?thesis using that(1) by (simp add: sum_list_eq_0_iff)
    next
      case False
      then show ?thesis using same sas that(2) by (auto simp: qtxs_def domIff)
    qed
    have c2: "qtxs p' b = []"
      if "\<not> as_contains (tp_locals p) b" "beat p a < beat p b" "qtxs p' a \<noteq> qtxs p a" for a b
    proof (cases "b \<in> set as")
      case False
      then show ?thesis using same sas that(1) by (auto simp: qtxs_def domIff)
    next
      case True
      have "a \<in> set as" using same that(3) by blast
      then obtain j i where ij: "j < length as" "as ! j = a" "i < length as" "as ! i = b"
        using True by (metis in_set_conv_nth)
      have "i < j"
      proof (rule ccontr)
        assume "\<not> i < j"
        then have "j < i \<or> i = j" by auto
        then have "beat p b \<le> beat p a" using sorted_wrt_nth_less [OF sb, of j i] ij by auto
        then show False using that(2) by simp
      qed
      then show ?thesis using d(6) ij that(3) by auto
    qed
    have c3: "qtxs p' a = qtxs p a" if "as_contains (tp_locals p) a" for a using same sas that by auto
    show ?thesis
    proof (intro exI [of _ p'] conjI allI impI run d(1-3) d(5) [rule_format] min.coboundedI2 [OF c(2)])
      show "qtotal p' \<le> unat ?G \<or> (\<forall>a. \<not> as_contains (tp_locals p) a \<longrightarrow> qtxs p' a = [])"
        using c(1) c1 by blast
    qed (use c2 c3 in blast)+
  qed
qed

text \<open>The sizes of the collections are bounded by the number of known transactions.\<close>

lemma totals_known:
  assumes "consistent E p"
  shows "total p \<le> card (known p)" "qtotal p \<le> card (known p)" "finite (known p)"
proof -
  note inv = consistentD(2) [OF assms]
  note t = acct_total [OF pinvD(1) [OF inv]] and q = acct_total [OF pinvD(2) [OF inv]]
  note k = consistentD(6) [OF assms]
  show fin: "finite (known p)" unfolding k using t(2) q(2) by simp
  show "total p \<le> card (known p)" unfolding total_def ptxs_def t(1) by (rule card_mono [OF fin]) (simp add: k)
  show "qtotal p \<le> card (known p)" unfolding qtotal_def qtxs_def q(1) by (rule card_mono [OF fin]) (simp add: k)
qed

end
