(* ===== verification/Tx_Pool_Reorg_Laws.thy ===== *)
theory Tx_Pool_Reorg_Laws
  imports Tx_Pool_Reorg Tx_Pool_Queue
begin

text \<open>
  Laws of the reset and of a run: the walks over the two branches of a reorganisation end and
  collect the transactions down to the common ancestor, and a run leaves the pool consistent
  and within its limits, whatever the reset and the events.
\<close>

section \<open>The walks\<close>

text \<open>\<^verbatim>\<open>GetBlock\<close> returns the block it is asked for, and there is none below the genesis block.\<close>

definition chain_ok :: "chain_env \<Rightarrow> bool" where
  "chain_ok C \<longleftrightarrow> (\<forall>h n b. ce_GetBlock C h n = Some b \<longrightarrow> bl_Hash b = h \<and> bl_Number b = n) \<and> (\<forall>h. ce_GetBlock C h (- 1) = None)"

lemma chain_okD:
  "chain_ok C \<Longrightarrow> ce_GetBlock C h n = Some b \<Longrightarrow> bl_Hash b = h" "chain_ok C \<Longrightarrow> ce_GetBlock C h n = Some b \<Longrightarrow> bl_Number b = n"
  "chain_ok C \<Longrightarrow> ce_GetBlock C h (- 1) = None"
  by (auto simp: chain_ok_def)

text \<open>The \<open>k\<close>-th block before \<open>b\<close> on its branch, and the transactions of the \<open>k\<close> blocks from \<open>b\<close> on.\<close>

definition before :: "chain_env \<Rightarrow> chain_block \<Rightarrow> chain_block option" where
  "before C b = ce_GetBlock C (bl_Parent b) (bl_Number b - 1)"

fun nth_before :: "chain_env \<Rightarrow> chain_block \<Rightarrow> nat \<Rightarrow> chain_block option" where
  "nth_before C b 0 = Some b"
| "nth_before C b (Suc k) = before C b \<bind> (\<lambda>b. nth_before C b k)"

fun branch_txs :: "chain_env \<Rightarrow> chain_block \<Rightarrow> nat \<Rightarrow> transaction list" where
  "branch_txs C b 0 = []"
| "branch_txs C b (Suc k) = bl_Txs b @ (case before C b of None \<Rightarrow> [] | Some b' \<Rightarrow> branch_txs C b' k)"

lemma before_number:
  assumes "chain_ok C" "before C b = Some b'"
  shows "unat (bl_Number b) = Suc (unat (bl_Number b'))"
proof -
  have "bl_Number b \<noteq> 0" using assms by (auto simp: before_def chain_ok_def)
  then have "unat (bl_Number b) = Suc (unat (bl_Number b - 1))" by (simp add: unat_minus_one unat_gt_0)
  then show ?thesis using chain_okD(2) [OF assms(1)] assms(2) by (simp add: before_def)
qed

lemma nth_before_number:
  assumes "chain_ok C" "nth_before C b k = Some a"
  shows "unat (bl_Number b) = unat (bl_Number a) + k"
  using assms(2)
proof (induction k arbitrary: b)
  case (Suc k)
  obtain b' where b': "before C b = Some b'" "nth_before C b' k = Some a"
    using Suc.prems by (auto simp: bind_eq_Some_conv)
  show ?case using before_number [OF assms(1) b'(1)] Suc.IH [OF b'(2)] by simp
qed simp

lemma walk_down_reaches:
  assumes chain: "chain_ok C" and a: "nth_before C b k = Some a" and n: "bl_Number a = n"
  shows "walk_down C n b txs = Some (Some (a, txs @ branch_txs C b k))"
  using a
proof (induction k arbitrary: b txs)
  case 0
  then show ?case using n by (subst walk_down.simps) simp
next
  case (Suc k)
  obtain b' where b': "before C b = Some b'" "nth_before C b' k = Some a"
    using Suc.prems by (auto simp: bind_eq_Some_conv)
  have "unat n < unat (bl_Number b)" using nth_before_number [OF chain Suc.prems] n by simp
  then have "n < bl_Number b" by (simp add: word_less_nat_alt)
  then have "walk_down C n b txs = walk_down C n b' (txs @ bl_Txs b)"
    using b'(1) by (subst walk_down.simps) (simp add: before_def)
  then show ?case using Suc.IH [OF b'(2)] b'(1) by simp
qed

lemma walk_down_ends:
  assumes chain: "chain_ok C"
  shows "\<exists>r. walk_down C n b txs = Some r \<and> (\<forall>b' t. r = Some (b', t) \<longrightarrow> bl_Number b' \<le> n \<and> (n \<le> bl_Number b \<longrightarrow> bl_Number b' = n))"
proof (induction "unat (bl_Number b)" arbitrary: b txs rule: less_induct)
  case less
  show ?case
  proof (cases "bl_Number b > n")
    case False
    then show ?thesis by (subst walk_down.simps) auto
  next
    case True
    show ?thesis
    proof (cases "before C b")
      case None
      then show ?thesis using True by (subst walk_down.simps) (simp add: before_def)
    next
      case (Some b')
      have num: "unat (bl_Number b) = Suc (unat (bl_Number b'))" by (rule before_number [OF chain Some])
      then have "n \<le> bl_Number b'" using True by (simp add: word_less_nat_alt word_le_nat_alt)
      moreover have "walk_down C n b txs = walk_down C n b' (txs @ bl_Txs b)"
        using True Some by (subst walk_down.simps) (simp add: before_def)
      moreover obtain r where "walk_down C n b' (txs @ bl_Txs b) = Some r"
        "\<forall>c t. r = Some (c, t) \<longrightarrow> bl_Number c \<le> n \<and> (n \<le> bl_Number b' \<longrightarrow> bl_Number c = n)"
        using less [of b' "txs @ bl_Txs b"] num by auto
      ultimately show ?thesis by auto
    qed
  qed
qed

lemma walk_both_reaches:
  assumes chain: "chain_ok C" and a: "nth_before C rem i = Some a" "nth_before C new i = Some b" and eq: "bl_Hash a = bl_Hash b"
    and first: "\<forall>j < i. bl_Hash (the (nth_before C rem j)) \<noteq> bl_Hash (the (nth_before C new j))"
  shows "walk_both C rem new d t = Some (Some (d @ branch_txs C rem i, t @ branch_txs C new i))"
  using a first
proof (induction i arbitrary: rem new d t)
  case 0
  then show ?case using eq by (subst walk_both.simps) simp
next
  case (Suc i)
  obtain rem' where r: "before C rem = Some rem'" "nth_before C rem' i = Some a"
    using Suc.prems(1) by (auto simp: bind_eq_Some_conv)
  obtain new' where w: "before C new = Some new'" "nth_before C new' i = Some b"
    using Suc.prems(2) by (auto simp: bind_eq_Some_conv)
  have "bl_Hash rem \<noteq> bl_Hash new" using Suc.prems(3) [rule_format, of 0] by simp
  then have "walk_both C rem new d t = walk_both C rem' new' (d @ bl_Txs rem) (t @ bl_Txs new)"
    using r(1) w(1) by (subst walk_both.simps) (simp add: before_def)
  moreover have "\<forall>j < i. bl_Hash (the (nth_before C rem' j)) \<noteq> bl_Hash (the (nth_before C new' j))"
  proof (intro allI impI)
    fix j assume "j < i"
    then show "bl_Hash (the (nth_before C rem' j)) \<noteq> bl_Hash (the (nth_before C new' j))"
      using Suc.prems(3) [rule_format, of "Suc j"] r(1) w(1) by simp
  qed
  ultimately show ?case using Suc.IH [OF r(2) w(2)] r(1) w(1) by simp
qed

lemma walk_both_ends:
  assumes "chain_ok C"
  shows "walk_both C rem new d t \<noteq> None"
proof (induction "unat (bl_Number rem)" arbitrary: rem new d t rule: less_induct)
  case less
  show ?case
  proof (cases "bl_Hash rem = bl_Hash new \<or> before C rem = None \<or> before C new = None")
    case True
    then show ?thesis by (subst walk_both.simps) (auto simp: before_def split: option.splits)
  next
    case False
    then obtain rem' new' where b: "before C rem = Some rem'" "before C new = Some new'" by auto
    have "walk_both C rem new d t = walk_both C rem' new' (d @ bl_Txs rem) (t @ bl_Txs new)"
      using False b by (subst walk_both.simps) (simp add: before_def)
    then show ?thesis using less [of rem'] before_number [OF assms b(1)] by simp
  qed
qed

lemma walk_reorg_ends:
  assumes "chain_ok C"
  shows "walk_reorg C rem new \<noteq> None"
proof -
  obtain r where r: "walk_down C (bl_Number new) rem [] = Some r" using walk_down_ends [OF assms] by blast
  show ?thesis
  proof (cases r)
    case None
    then show ?thesis using r by (simp add: walk_reorg_def)
  next
    case (Some bt)
    obtain rem' d where bt: "bt = (rem', d)" by fastforce
    obtain r2 where r2: "walk_down C (bl_Number rem') new [] = Some r2" using walk_down_ends [OF assms] by blast
    show ?thesis
    proof (cases r2)
      case None
      then show ?thesis using r r2 Some bt by (simp add: walk_reorg_def)
    next
      case (Some bt2)
      obtain new' t where bt2: "bt2 = (new', t)" by fastforce
      obtain w where "walk_both C rem' new' d t = Some w" using walk_both_ends [OF assms] by blast
      then show ?thesis using r r2 \<open>r = Some bt\<close> bt Some bt2 by (simp add: walk_reorg_def)
    qed
  qed
qed

text \<open>
  The branches are walked to the same height, \<open>k\<close> blocks down the old and \<open>m\<close> down the new one,
  and then together until they meet, \<open>i\<close> blocks further down.
\<close>

lemma walk_reorg_reaches:
  assumes chain: "chain_ok C" and rem': "nth_before C rem k = Some rem'" and new': "nth_before C new m = Some new'"
    and level: "bl_Number rem' = bl_Number new'" and top: "k = 0 \<or> m = 0"
    and a: "nth_before C rem' i = Some a" "nth_before C new' i = Some b" and eq: "bl_Hash a = bl_Hash b"
    and first: "\<forall>j < i. bl_Hash (the (nth_before C rem' j)) \<noteq> bl_Hash (the (nth_before C new' j))"
  shows "walk_reorg C rem new = Some (Some (ce_Difference C
      (branch_txs C rem k @ branch_txs C rem' i) (branch_txs C new m @ branch_txs C new' i)))"
proof -
  note both = walk_both_reaches [OF chain a eq first]
  have stay: "walk_down C n b [] = Some (Some (b, []))" if "bl_Number b \<le> n" for n b
    by (subst walk_down.simps) (simp add: leD [OF that])
  show ?thesis
  proof (cases "k = 0")
    case True
    then have "rem' = rem" using rem' by simp
    have "unat (bl_Number rem) \<le> unat (bl_Number new)" using nth_before_number [OF chain new'] level \<open>rem' = rem\<close> by simp
    then have "walk_down C (bl_Number new) rem [] = Some (Some (rem, []))" by (intro stay) (simp add: word_le_nat_alt)
    moreover have "walk_down C (bl_Number rem) new [] = Some (Some (new', [] @ branch_txs C new m))"
      by (rule walk_down_reaches [OF chain new']) (simp add: level [symmetric] \<open>rem' = rem\<close>)
    ultimately show ?thesis using both True \<open>rem' = rem\<close> by (simp add: walk_reorg_def)
  next
    case False
    then have "m = 0" using top by simp
    then have "new' = new" using new' by simp
    have "walk_down C (bl_Number new) rem [] = Some (Some (rem', [] @ branch_txs C rem k))"
      by (rule walk_down_reaches [OF chain rem']) (simp add: level \<open>new' = new\<close>)
    moreover have "walk_down C (bl_Number rem') new [] = Some (Some (new, []))" by (rule stay) (simp add: level \<open>new' = new\<close>)
    ultimately show ?thesis using both \<open>m = 0\<close> \<open>new' = new\<close> by (simp add: walk_reorg_def)
  qed
qed

text \<open>Below \<open>2^53\<close> a float is exact, and the depth is the distance of the two numbers.\<close>

lemma f64_exact: "\<bar>n\<bar> < 2 ^ 53 \<Longrightarrow> f64 n = n"
  using bitlen_le_iff_power [of "\<bar>n\<bar>" 53] by (simp add: f64_def Let_def)

lemma reorg_depth_exact:
  assumes "uint a < 2 ^ 53" "uint b < 2 ^ 53"
  shows "reorg_depth C a b = word_of_int \<bar>uint a - uint b\<bar>"
proof -
  have r: "0 \<le> uint a" "0 \<le> uint b" by simp_all
  have "f64 (uint a) = uint a" "f64 (uint b) = uint b" using assms r by (intro f64_exact; simp)+
  moreover have "\<bar>uint a - uint b\<bar> < 2 ^ 53" using assms r by linarith
  moreover then have "f64 (uint a - uint b) = uint a - uint b" by (rule f64_exact)
  ultimately show ?thesis by (simp add: reorg_depth_def Let_def)
qed

section \<open>The reset\<close>

definition reinjected :: "transaction list option \<Rightarrow> transaction set" where
  "reinjected r = (case r of None \<Rightarrow> {} | Some txs \<Rightarrow> set txs)"

definition same_limits :: "pool \<Rightarrow> pool \<Rightarrow> bool" where
  "same_limits p p' \<longleftrightarrow> tp_config p' = tp_config p \<and> as_accounts (tp_locals p) \<subseteq> as_accounts (tp_locals p')"

lemma same_limits_refl [simp]: "same_limits p p"
  by (simp add: same_limits_def)

lemma same_limits_trans: "same_limits p q \<Longrightarrow> same_limits q r \<Longrightarrow> same_limits p r"
  by (auto simp: same_limits_def)

lemma same_limitsI: "same_setup p p' \<Longrightarrow> same_limits p p'" "same_chain p p' \<Longrightarrow> same_limits p p'"
  by (simp_all add: same_limits_def same_setup_def same_chain_def)

lemma reset_law:
  assumes env: "env_ok E" and con: "consistent E p" and r: "reset_reinject C oldHead newHead = Some r"
  shows "\<exists>p'. reset E C oldHead newHead p = Some p' \<and> consistent E p' \<and> same_limits p p'
    \<and> known p' \<subseteq> known p \<union> reinjected r"
proof (cases r)
  case None
  then show ?thesis using con r by (simp add: reset_def reinjected_def)
next
  case (Some txs)
  define new where "new = (case newHead of None \<Rightarrow> ce_Head C | Some h \<Rightarrow> h)"
  show ?thesis
  proof (cases "ce_StateAt C (hd_Root new)")
    case None
    then show ?thesis using con r Some by (auto simp: reset_def new_def [symmetric] Let_def)
  next
    case (Some st)
    let ?p = "p\<lparr>tp_state := st, tp_nonces := newTxNoncer (ps_nonce st), tp_maxGas := hd_GasLimit new\<rparr>"
    have con': "consistent E ?p" using con by (simp add: frame_simps)
    obtain p' es d where p': "addTxsLocked_loop E False txs [] (newAccountSet []) ?p = Some (p', [] @ es, d)"
      "consistent E p'" "same_chain ?p p'" "known p' \<subseteq> known ?p \<union> set txs"
      using addTxsLocked_loop_law [OF env con'] by blast
    let ?p' = "p'\<lparr>tp_istanbul := ce_IsIstanbul C (hd_Number new + 1)\<rparr>"
    have "reset E C oldHead newHead p = Some ?p'"
      using r Some \<open>r = Some txs\<close> p'(1) by (simp add: reset_def new_def [symmetric] addTxsLocked_def Let_def)
    moreover have "consistent E ?p'" using p'(2) by (simp add: frame_simps)
    moreover have "same_limits p ?p'" using p'(3) by (simp add: same_limits_def same_chain_def)
    ultimately show ?thesis using p'(4) \<open>r = Some txs\<close> by (simp add: reinjected_def)
  qed
qed

section \<open>Events and nonces\<close>

definition events_ok :: "tx_events \<Rightarrow> bool" where
  "events_ok events \<longleftrightarrow> (\<forall>a m. events a = Some m \<longrightarrow> sm_inv m)"

lemma tp_Nonce_frame:
  assumes "tp_Nonce p a = (p', n)"
  shows "\<exists>ns. p' = p\<lparr>tp_nonces := ns\<rparr>"
  using assms by (auto simp: tp_Nonce_def split: prod.splits)

lemma tp_Nonce_value:
  "snd (tp_Nonce p a) = (case tn_nonces (tp_nonces p) a of None \<Rightarrow> tn_fallback (tp_nonces p) a | Some n \<Rightarrow> n)"
  by (auto simp: tp_Nonce_def tn_get_def tn_fill_def Let_def split: option.splits)

lemma prune_events_law:
  assumes "consistent E p" "events_ok events"
  shows "\<exists>ns events'. each prune_event as (p, events) = Some (p\<lparr>tp_nonces := ns\<rparr>, events') \<and> events_ok events'"
  using assms
proof (induction as arbitrary: p events)
  case Nil
  then show ?case by (auto intro!: exI [of _ "tp_nonces p"])
next
  case (Cons a as)
  show ?case
  proof (cases "events a")
    case None
    then show ?thesis using Cons by (simp add: prune_event_def)
  next
    case (Some m)
    obtain p1 n where n: "tp_Nonce p a = (p1, n)" by fastforce
    obtain ns0 where fr: "p1 = p\<lparr>tp_nonces := ns0\<rparr>" using tp_Nonce_frame [OF n] by blast
    have "sm_inv m" using Cons.prems(2) Some by (simp add: events_ok_def)
    then obtain m' old where m': "sm_Forward m n = Some (m', old)" "sm_inv m'" using sm_Forward_correct by blast
    define ev where "ev = (if sm_Len m' = 0 then events(a := None) else events(a \<mapsto> m'))"
    have ev: "events_ok ev" using Cons.prems(2) m'(2) by (auto simp: ev_def events_ok_def)
    have step: "prune_event a (p, events) = Some (p1, ev)" using Some n m'(1) by (simp add: prune_event_def ev_def)
    have "consistent E p1" unfolding fr using Cons.prems(1) by (simp add: frame_simps)
    then obtain ns ev' where "each prune_event as (p1, ev) = Some (p1\<lparr>tp_nonces := ns\<rparr>, ev')" "events_ok ev'"
      using Cons.IH [OF _ ev] by blast
    moreover have "p1\<lparr>tp_nonces := ns\<rparr> = p\<lparr>tp_nonces := ns\<rparr>" by (simp add: fr)
    ultimately show ?thesis using step by auto
  qed
qed

lemma flatten_pending:
  assumes env: "env_ok E" and con: "consistent E p" and l: "tp_pending p a = Some l"
    and fl: "tl_Flatten (pe_nonces E) l = (l', txs)"
  shows "txs = ptxs p a" "txs \<noteq> []" "consistent E (put_pending a l' p)" "ptxs (put_pending a l' p) b = ptxs p b"
    "listed (tp_pending (put_pending a l' p)) = listed (tp_pending p)" "tl_items l' = tl_items l"
proof -
  note ok = pinvD(1) [OF consistentD(2) [OF con]]
  note f = tl_Flatten_flat [OF env_okD(2) [OF env] lists_okD(1) [OF ok l] fl]
  note put = put_same [OF ok l f(3,4,2)]
  have ne: "tl_items l \<noteq> Map.empty" using consistentD(4) [OF con] l by (simp add: no_empty_def)
  show txs: "txs = ptxs p a" using f(1) l by (simp add: ptxs_def)
  show "txs \<noteq> []" unfolding f(1) using ne keyed_list [OF ok l] by (simp add: sm_flat_def sm_keyed_def)
  show "listed (tp_pending (put_pending a l' p)) = listed (tp_pending p)" using put(2) by simp
  show "tl_items l' = tl_items l" by (rule f(2))
  show "ptxs (put_pending a l' p) b = ptxs p b" using l f(2) by (simp add: ptxs_def)
  have "no_empty ((tp_pending p)(a \<mapsto> l'))" using no_empty_put(2) [OF consistentD(4) [OF con]] ne f(2) by simp
  moreover have "pinv E {} {} (put_pending a l' p)"
    using placed_cong(1) [OF _ put] consistentD(2) [OF con] by (simp add: put_pending_def pinv_def price_ok_def known_def)
  ultimately show "consistent E (put_pending a l' p)"
    using consistentD(5) [OF con] by (simp add: consistent_def consistent_but_def)
qed

text \<open>The pending nonce of every account walked is the one after its last pending transaction.\<close>

definition nonce_set :: "pool \<Rightarrow> address \<Rightarrow> bool" where
  "nonce_set p a \<longleftrightarrow> snd (tp_Nonce p a) = tx_Nonce (last (ptxs p a)) + 1"

lemma set_nonces_each:
  assumes env: "env_ok E" and con: "consistent E p" and as: "set as \<subseteq> dom (tp_pending p)"
  shows "\<exists>p'. each (set_nonce E) as p = Some p' \<and> consistent E p' \<and> same_setup p p' \<and> tp_queue p' = tp_queue p
    \<and> dom (tp_pending p') = dom (tp_pending p) \<and> (\<forall>b. ptxs p' b = ptxs p b) \<and> known p' = known p
    \<and> listed (tp_pending p') = listed (tp_pending p)
    \<and> (\<forall>b. nonce_set p b \<or> b \<in> set as \<longrightarrow> nonce_set p' b)"
  using con as
proof (induction as arbitrary: p)
  case (Cons a as)
  obtain l where l: "tp_pending p a = Some l" using Cons.prems(2) by auto
  obtain l' txs where fl: "tl_Flatten (pe_nonces E) l = (l', txs)" by fastforce
  note f = flatten_pending [OF env Cons.prems(1) l fl]
  define p1 where "p1 = (put_pending a l' p)\<lparr>tp_nonces := tn_set (tp_nonces p) a (tx_Nonce (last txs) + 1)\<rparr>"
  have step: "set_nonce E a p = Some p1" using l fl f(2) by (simp add: set_nonce_def p1_def Let_def)
  have con1: "consistent E p1" unfolding p1_def using f(3) by (simp add: frame_simps)
  have pt: "ptxs p1 b = ptxs p b" for b using f(4) [of b] by (simp add: p1_def ptxs_def)
  have ns: "nonce_set p b \<or> b = a \<longrightarrow> nonce_set p1 b" for b
  proof -
    have "snd (tp_Nonce p1 b) = (if b = a then tx_Nonce (last (ptxs p a)) + 1 else snd (tp_Nonce p b))"
      by (cases "tn_nonces (tp_nonces p) b") (simp_all add: p1_def tp_Nonce_value tn_set_def f(1))
    then show ?thesis by (auto simp: nonce_set_def pt)
  qed
  have fields: "same_setup p p1" "tp_queue p1 = tp_queue p" "dom (tp_pending p1) = dom (tp_pending p)" "known p1 = known p"
    "listed (tp_pending p1) = listed (tp_pending p)"
    using l f(5) by (auto simp: p1_def)
  have "set as \<subseteq> dom (tp_pending p1)" using Cons.prems(2) fields(3) by simp
  from Cons.IH [OF con1 this] obtain p' where p': "each (set_nonce E) as p1 = Some p'" "consistent E p'" "same_setup p1 p'"
    "tp_queue p' = tp_queue p1" "dom (tp_pending p') = dom (tp_pending p1)" "\<forall>b. ptxs p' b = ptxs p1 b" "known p' = known p1"
    "listed (tp_pending p') = listed (tp_pending p1)" "\<forall>b. nonce_set p1 b \<or> b \<in> set as \<longrightarrow> nonce_set p' b" by blast
  have "\<forall>b. nonce_set p b \<or> b \<in> set (a # as) \<longrightarrow> nonce_set p' b" using p'(9) ns by auto
  then show ?case using step p'(1-8) fields pt same_setup_trans [OF fields(1) p'(3)] by simp
qed simp

lemma set_nonces_law:
  assumes env: "env_ok E" and con: "consistent E p"
  shows "\<exists>p'. set_nonces E p = Some p' \<and> consistent E p' \<and> same_setup p p' \<and> tp_queue p' = tp_queue p
    \<and> dom (tp_pending p') = dom (tp_pending p) \<and> (\<forall>b. ptxs p' b = ptxs p b) \<and> known p' = known p
    \<and> listed (tp_pending p') = listed (tp_pending p) \<and> (\<forall>b \<in> dom (tp_pending p'). nonce_set p' b)"
proof -
  have "finite (dom (tp_pending p))" using pinvD(1) [OF consistentD(2) [OF con]] by (simp add: lists_ok_def)
  then have s: "set (pe_addrs E (tp_pending p)) = dom (tp_pending p)" using env_okD(3) [OF env] by (simp add: map_order_def)
  show ?thesis using set_nonces_each [OF env con, of "pe_addrs E (tp_pending p)"] unfolding s set_nonces_def by auto
qed

section \<open>A run\<close>

definition in_limits :: "pool \<Rightarrow> bool" where
  "in_limits p \<longleftrightarrow>
     (total p \<le> unat (GlobalSlots (tp_config p)) \<or> remote_above p = {})
     \<and> (qtotal p \<le> unat (GlobalQueue (tp_config p)) \<or> (\<forall>a. \<not> as_contains (tp_locals p) a \<longrightarrow> qtxs p a = []))"

text \<open>Every pending list starts at the nonce the chain expects, with transactions its account can pay.\<close>

definition executable :: "'e pool_env \<Rightarrow> pool \<Rightarrow> bool" where
  "executable E p \<longleftrightarrow> (\<forall>a \<in> dom (tp_pending p). ptxs p a \<noteq> [] \<and> tx_Nonce (hd (ptxs p a)) = ps_nonce (tp_state p) a)
     \<and> (\<forall>t \<in> listed (tp_pending p). payable E p t)"

definition config_ok :: "pool_config \<Rightarrow> bool" where
  "config_ok c \<longleftrightarrow> 1 \<le> AccountSlots c \<and> 0 \<le> sint (AccountQueue c)"

definition orders_ok :: "chain_env \<Rightarrow> bool" where
  "orders_ok C \<longleftrightarrow> pops_ok (ce_pops C) \<and> sort_ok (ce_sort C)"

lemma ptxs_nonempty:
  assumes "consistent E p" "a \<in> dom (tp_pending p)"
  shows "ptxs p a \<noteq> []"
proof -
  obtain l where l: "tp_pending p a = Some l" using assms(2) by blast
  have "tl_items l \<noteq> Map.empty" using consistentD(4) [OF assms(1)] l by (simp add: no_empty_def)
  then show ?thesis using keyed_list [OF pinvD(1) [OF consistentD(2) [OF assms(1)]] l] l
    by (simp add: ptxs_def sm_flat_def sm_keyed_def)
qed

lemma executable_demoted:
  assumes con: "consistent E p" and pay: "\<forall>t \<in> listed (tp_pending p). payable E p t"
    and first: "\<forall>a l. tp_pending p a = Some l \<longrightarrow> tl_items l (ps_nonce (tp_state p) a) \<noteq> None"
  shows "executable E p"
proof -
  have "tx_Nonce (hd (ptxs p a)) = ps_nonce (tp_state p) a" if a: "a \<in> dom (tp_pending p)" for a
  proof -
    note ok = pinvD(1) [OF consistentD(2) [OF con]]
    obtain l where l: "tp_pending p a = Some l" using a by blast
    obtain t where t: "tl_items l (ps_nonce (tp_state p) a) = Some t" using first l by blast
    then have n: "tx_Nonce t = ps_nonce (tp_state p) a" using keyed_list [OF ok l] by (simp add: sm_keyed_def)
    then have "t \<in> set (ptxs p a)" using t l flat_set [OF keyed_list [OF ok l]] by (simp add: ptxs_def)
    then obtain x xs where xs: "ptxs p a = x # xs" by (cases "ptxs p a") auto
    have "x \<in> listed (tp_pending p)" "sender E x = a" using ptxs_set(1) [OF con, of a] xs by auto
    then have "ps_nonce (tp_state p) a \<le> tx_Nonce x" using pay by (auto simp: payable_def)
    moreover have "tx_Nonce x \<le> tx_Nonce t"
      using \<open>t \<in> set (ptxs p a)\<close> ptxs_set(2) [OF con, of a] xs by (auto intro: less_imp_le)
    ultimately show ?thesis using n xs by simp
  qed
  then show ?thesis using ptxs_nonempty [OF con] pay by (simp add: executable_def)
qed

lemma executable_keeps:
  assumes ex: "executable E p" and con: "consistent E p" "consistent E p'" and st: "same_setup p p'"
    and dom: "dom (tp_pending p') = dom (tp_pending p)" and pre: "\<And>a. \<exists>n. ptxs p' a = take n (ptxs p a)"
  shows "executable E p'"
proof -
  have "tx_Nonce (hd (ptxs p' a)) = ps_nonce (tp_state p') a" if a: "a \<in> dom (tp_pending p')" for a
  proof -
    obtain n where n: "ptxs p' a = take n (ptxs p a)" using pre by blast
    have "hd (ptxs p' a) = hd (ptxs p a)" using ptxs_nonempty [OF con(2) a] n by (simp add: hd_take)
    then show ?thesis using ex a dom st by (auto simp: executable_def same_setup_def)
  qed
  moreover have "payable E p' t" if t: "t \<in> listed (tp_pending p')" for t
  proof -
    obtain n where n: "ptxs p' (sender E t) = take n (ptxs p (sender E t))" using pre by blast
    have "t \<in> set (ptxs p (sender E t))"
      using t ptxs_set(1) [OF con(2), of "sender E t"] n in_set_takeD [of t n] by auto
    then have "t \<in> listed (tp_pending p)" using ptxs_set(1) [OF con(1)] by blast
    then show ?thesis using ex st by (auto simp: executable_def payable_def same_setup_def)
  qed
  ultimately show ?thesis using ptxs_nonempty [OF con(2)] by (simp add: executable_def)
qed

lemma in_limits_same:
  assumes "same_setup p p'" "tp_queue p' = tp_queue p" "dom (tp_pending p') = dom (tp_pending p)" "\<And>b. ptxs p' b = ptxs p b"
  shows "in_limits p' = in_limits p"
proof -
  have "total p' = total p" "qtotal p' = qtotal p" "\<And>a. qtxs p' a = qtxs p a" "remote_above p' = remote_above p"
    using assms by (simp_all add: total_def qtotal_def qtxs_def remote_above_def same_setup_def)
  then show ?thesis using assms(1) by (simp add: in_limits_def same_setup_def)
qed

text \<open>The two truncations and the nonces, on a consistent pool.\<close>

lemma run_tail:
  assumes env: "env_ok E" and ord: "orders_ok C" and con: "consistent E p" and conf: "config_ok (tp_config p)"
    and small: "card (known p) < 2 ^ 64"
  shows "\<exists>p'. (do { p \<leftarrow> truncatePending E (ce_pops C) p; p \<leftarrow> truncateQueue E (ce_sort C) p; set_nonces E p }) = Some p'
    \<and> consistent E p' \<and> same_setup p p' \<and> in_limits p' \<and> known p' \<subseteq> known p
    \<and> (\<forall>a \<in> dom (tp_pending p'). nonce_set p' a) \<and> (executable E p \<longrightarrow> executable E p')"
proof -
  have pops: "pops_ok (ce_pops C)" and slots: "1 \<le> AccountSlots (tp_config p)"
    using ord conf by (simp_all add: orders_ok_def config_ok_def)
  have s: "total p < 2 ^ 64" using totals_known(1) [OF con] small by simp
  obtain p1 where p1: "truncatePending E (ce_pops C) p = Some p1" "trims E (remote_above p) p p1"
    "total p1 \<le> unat (GlobalSlots (tp_config p)) \<or> remote_above p1 = {}"
    using truncatePending_law [OF env con slots s pops] by blast
  note t1 = trimsD [OF p1(2)]
  have k1: "known p1 \<subseteq> known p"
  proof -
    have "listed (tp_pending p1) \<subseteq> listed (tp_pending p)"
    proof
      fix t assume t: "t \<in> listed (tp_pending p1)"
      obtain n where "ptxs p1 (sender E t) = take n (ptxs p (sender E t))" using t1(5) by blast
      then have "t \<in> set (ptxs p (sender E t))"
        using t ptxs_set(1) [OF t1(1), of "sender E t"] in_set_takeD [of t n] by auto
      then show "t \<in> listed (tp_pending p)" using ptxs_set(1) [OF con] by blast
    qed
    then show ?thesis unfolding consistentD(6) [OF con] consistentD(6) [OF t1(1)] t1(3) by blast
  qed
  have "card (known p1) < 2 ^ 64" using card_mono [OF totals_known(3) [OF con] k1] small by simp
  then have q: "qtotal p1 < 2 ^ 64" using totals_known(2) [OF t1(1)] by simp
  obtain p2 where p2: "truncateQueue E (ce_sort C) p1 = Some p2" "consistent E p2" "same_setup p1 p2" "tp_pending p2 = tp_pending p1"
    "\<forall>a. \<exists>k. qtxs p2 a = take k (qtxs p1 a)"
    "qtotal p2 \<le> unat (GlobalQueue (tp_config p1)) \<or> (\<forall>a. \<not> as_contains (tp_locals p1) a \<longrightarrow> qtxs p2 a = [])"
    using truncateQueue_law [OF env t1(1) q, of "ce_sort C"] ord unfolding orders_ok_def by blast
  have k2: "known p2 \<subseteq> known p1"
  proof -
    have "listed (tp_queue p2) \<subseteq> listed (tp_queue p1)"
    proof
      fix t assume t: "t \<in> listed (tp_queue p2)"
      obtain n where "qtxs p2 (sender E t) = take n (qtxs p1 (sender E t))" using p2(5) by blast
      then have "t \<in> set (qtxs p1 (sender E t))"
        using t qtxs_set(1) [OF p2(2), of "sender E t"] in_set_takeD [of t n] by auto
      then show "t \<in> listed (tp_queue p1)" using qtxs_set(1) [OF t1(1)] by blast
    qed
    then show ?thesis unfolding consistentD(6) [OF t1(1)] consistentD(6) [OF p2(2)] p2(4) by blast
  qed
  obtain p3 where p3: "set_nonces E p2 = Some p3" "consistent E p3" "same_setup p2 p3" "tp_queue p3 = tp_queue p2"
    "dom (tp_pending p3) = dom (tp_pending p2)" "\<forall>b. ptxs p3 b = ptxs p2 b" "known p3 = known p2"
    "\<forall>b \<in> dom (tp_pending p3). nonce_set p3 b"
    using set_nonces_law [OF env p2(2)] by blast
  have pt: "ptxs p2 a = ptxs p1 a" for a using p2(4) by (simp add: ptxs_def)
  have "total p2 = total p1" "remote_above p2 = remote_above p1"
    using p2(3,4) pt by (simp_all add: total_def remote_above_def same_setup_def)
  then have "in_limits p2" using p1(3) p2(3,6) t1(2) by (simp add: in_limits_def same_setup_def)
  then have lim: "in_limits p3" using in_limits_same [OF p3(3-5)] p3(6) by simp
  have st: "same_setup p p3" using same_setup_trans t1(2) p2(3) p3(3) by blast
  have ex: "executable E p3" if "executable E p"
    using executable_keeps [OF that con p3(2) st] t1(4,5) p2(4) p3(5,6) pt by simp
  show ?thesis using p1(1) p2(1) p3(1,2,7,8) st lim k1 k2 ex by auto
qed

text \<open>The request of a reset, what it puts back, and that it does not panic.\<close>

definition request_ok :: "chain_env \<Rightarrow> reset_request option \<Rightarrow> bool" where
  "request_ok C req = (case req of None \<Rightarrow> True | Some (oldHead, newHead) \<Rightarrow> reset_reinject C oldHead newHead \<noteq> None)"

definition put_back :: "chain_env \<Rightarrow> reset_request option \<Rightarrow> transaction set" where
  "put_back C req = (case req of None \<Rightarrow> {} | Some (oldHead, newHead) \<Rightarrow> reinjected (the (reset_reinject C oldHead newHead)))"

lemma run_head:
  assumes env: "env_ok E" and con: "consistent E p" and ev: "events_ok events" and req: "request_ok C req"
  shows "\<exists>p' events' addrs. (case req of
         None \<Rightarrow> Some (p, events, promoteAddrs)
       | Some (oldHead, newHead) \<Rightarrow> do {
           p \<leftarrow> reset E C oldHead newHead p;
           (p, events) \<leftarrow> each prune_event (ce_events C events) (p, events);
           Some (p, events, pe_addrs E (tp_queue p))
         }) = Some (p', events', addrs)
    \<and> consistent E p' \<and> same_limits p p' \<and> known p' \<subseteq> known p \<union> put_back C req"
proof (cases req)
  case None
  then show ?thesis using con by (simp add: put_back_def)
next
  case (Some r)
  obtain oldHead newHead where r: "r = (oldHead, newHead)" by fastforce
  obtain x where x: "reset_reinject C oldHead newHead = Some x" using req Some r by (auto simp: request_ok_def)
  obtain p1 where p1: "reset E C oldHead newHead p = Some p1" "consistent E p1" "same_limits p p1" "known p1 \<subseteq> known p \<union> reinjected x"
    using reset_law [OF env con x] by blast
  obtain ns events' where e: "each prune_event (ce_events C events) (p1, events) = Some (p1\<lparr>tp_nonces := ns\<rparr>, events')"
    using prune_events_law [OF p1(2) ev] by blast
  have "consistent E (p1\<lparr>tp_nonces := ns\<rparr>)" "same_limits p (p1\<lparr>tp_nonces := ns\<rparr>)"
    using p1(2,3) by (simp_all add: frame_simps same_limits_def)
  then show ?thesis using Some r p1(1,4) e x by (simp add: put_back_def)
qed

lemma runReorg_law:
  assumes env: "env_ok E" and ord: "orders_ok C" and con: "consistent E p" and conf: "config_ok (tp_config p)"
    and ev: "events_ok events" and req: "request_ok C req" and small: "card (known p \<union> put_back C req) < 2 ^ 64"
  shows "\<exists>p' sent. runReorg E C req dirty events p = Some (p', sent) \<and> consistent E p' \<and> same_limits p p' \<and> in_limits p'
    \<and> known p' \<subseteq> known p \<union> put_back C req \<and> (\<forall>a \<in> dom (tp_pending p'). nonce_set p' a)
    \<and> (req \<noteq> None \<longrightarrow> executable E p')"
proof -
  define addrs where "addrs = (case dirty of None \<Rightarrow> [] | Some d \<Rightarrow> snd (as_flatten (pe_set E) d))"
  obtain p1 events1 addrs1 where h: "(case req of
         None \<Rightarrow> Some (p, events, addrs)
       | Some (oldHead, newHead) \<Rightarrow> do {
           p \<leftarrow> reset E C oldHead newHead p;
           (p, events) \<leftarrow> each prune_event (ce_events C events) (p, events);
           Some (p, events, pe_addrs E (tp_queue p))
         }) = Some (p1, events1, addrs1)"
    and p1: "consistent E p1" "same_limits p p1" "known p1 \<subseteq> known p \<union> put_back C req"
    using run_head [OF env con ev req] by blast
  have conf1: "tp_config p1 = tp_config p" using p1(2) by (simp add: same_limits_def)
  have lim1: "0 \<le> sint (AccountQueue (tp_config p1))" using conf conf1 by (simp add: config_ok_def)
  obtain p2 txs where p2: "promoteExecutables E addrs1 p1 = Some (p2, txs)" "consistent E p2" "same_setup p1 p2"
    "listed (tp_pending p2) = listed (tp_pending p1) \<union> set txs" "set txs \<subseteq> listed (tp_queue p1)"
    "listed (tp_queue p2) \<subseteq> listed (tp_queue p1) - set txs"
    using promoteExecutables_law [OF env p1(1) lim1, of addrs1] by blast
  have k2: "known p2 \<subseteq> known p1" unfolding consistentD(6) [OF p1(1)] consistentD(6) [OF p2(2)] using p2(4-6) by blast
  obtain p3 where p3: "(if req \<noteq> None then demoteUnexecutables E p2 else Some p2) = Some p3" "consistent E p3" "same_setup p2 p3"
    "known p3 \<subseteq> known p2" "req \<noteq> None \<longrightarrow> executable E p3"
  proof (cases "req = None")
    case True
    then show ?thesis using that p2(2) by simp
  next
    case False
    obtain q where q: "demoteUnexecutables E p2 = Some q" "consistent E q" "same_setup p2 q" "known q \<subseteq> known p2"
      "\<forall>t \<in> listed (tp_pending q). payable E p2 t"
      "\<forall>a l. tp_pending q a = Some l \<longrightarrow> tl_items l (ps_nonce (tp_state p2) a) \<noteq> None"
      using demoteUnexecutables_law [OF env p2(2)] by blast
    have st: "tp_state q = tp_state p2" "tp_maxGas q = tp_maxGas p2" using q(3) by (simp_all add: same_setup_def)
    have "executable E q" using q(5,6) by (intro executable_demoted [OF q(2)]) (simp_all add: st payable_def)
    then show ?thesis using that [of q] False q by simp
  qed
  have fin: "finite (known p \<union> put_back C req)"
    using totals_known(3) [OF con] by (auto simp: put_back_def reinjected_def split: option.splits prod.splits)
  have sub: "known p3 \<subseteq> known p \<union> put_back C req" using p3(4) k2 p1(3) by blast
  have small3: "card (known p3) < 2 ^ 64" using card_mono [OF fin sub] small by simp
  have conf3: "config_ok (tp_config p3)" using conf conf1 p2(3) p3(3) by (simp add: same_setup_def)
  obtain p4 where p4: "(do { p \<leftarrow> truncatePending E (ce_pops C) p3; p \<leftarrow> truncateQueue E (ce_sort C) p; set_nonces E p }) = Some p4"
    "consistent E p4" "same_setup p3 p4" "in_limits p4" "known p4 \<subseteq> known p3" "\<forall>a \<in> dom (tp_pending p4). nonce_set p4 a"
    "executable E p3 \<longrightarrow> executable E p4"
    using run_tail [OF env ord p3(2) conf3 small3] by blast
  obtain q r where tail: "truncatePending E (ce_pops C) p3 = Some q" "truncateQueue E (ce_sort C) q = Some r" "set_nonces E r = Some p4"
    using p4(1) by (auto simp: bind_eq_Some_conv)
  have "runReorg E C req dirty events p = Some (p4, event_txs E C (foldl (put_event E) events1 txs))"
    unfolding runReorg_def addrs_def [symmetric] Let_def h bind.bind_lunit prod.case p2(1) p3(1) tail ..
  moreover have "same_limits p p4"
    using p1(2) same_limitsI(1) [OF p2(3)] same_limitsI(1) [OF p3(3)] same_limitsI(1) [OF p4(3)] same_limits_trans by blast
  ultimately show ?thesis using p4 p3(5) sub by auto
qed

end
