(* ===== verification/Tx_Pool_Life.thy ===== *)
theory Tx_Pool_Life
  imports Tx_Pool_Reorg_Laws
begin

text \<open>
  The life of a pool: its construction, and any sequence of the operations its interface and
  its background loops run under the lock. No operation panics, and the pool stays consistent.
\<close>

section \<open>The operations\<close>

datatype pool_op =
    OpAddLocals "transaction list"
  | OpAddRemotes "transaction list"
  | OpSetGasPrice int
  | OpEvict int
  | OpReorg "reset_request option" "account_set option" tx_events
  | OpRejournal
  | OpNonce address
  | OpPending
  | OpContent
  | OpLocals
  | OpStop

definition pool_exec :: "'e pool_env \<Rightarrow> chain_env \<Rightarrow> pool_op \<Rightarrow> pool \<Rightarrow> pool option" where
  "pool_exec E C op p =
     (case op of
        OpAddLocals txs \<Rightarrow> map_option fst (AddLocals E txs p)
      | OpAddRemotes txs \<Rightarrow> map_option fst (AddRemotes E txs p)
      | OpSetGasPrice price \<Rightarrow> SetGasPrice E price p
      | OpEvict now \<Rightarrow> evict E now p
      | OpReorg req dirty events \<Rightarrow> map_option fst (runReorg E C req dirty events p)
      | OpRejournal \<Rightarrow> Some (rejournal E (ce_locals C) p)
      | OpNonce addr \<Rightarrow> Some (fst (tp_Nonce p addr))
      | OpPending \<Rightarrow> Some (fst (Pending E p))
      | OpContent \<Rightarrow> Some (fst (Content E p))
      | OpLocals \<Rightarrow> Some (fst (Locals E p))
      | OpStop \<Rightarrow> Some (tp_Stop E p))"

text \<open>
  \<open>U\<close>: the transactions that ever reach the pool. The requests of a run name existing heads.
\<close>

definition op_ok :: "chain_env \<Rightarrow> transaction set \<Rightarrow> pool_op \<Rightarrow> bool" where
  "op_ok C U op =
     (case op of
        OpAddLocals txs \<Rightarrow> set txs \<subseteq> U
      | OpAddRemotes txs \<Rightarrow> set txs \<subseteq> U
      | OpReorg req dirty events \<Rightarrow> request_ok C req \<and> put_back C req \<subseteq> U \<and> events_ok events
      | _ \<Rightarrow> True)"

definition pool_ok :: "'e pool_env \<Rightarrow> pool_config \<Rightarrow> transaction set \<Rightarrow> pool \<Rightarrow> bool" where
  "pool_ok E c U p \<longleftrightarrow> consistent E p \<and> tp_config p = c \<and> known p \<subseteq> U"

lemma pool_okI:
  "consistent E p' \<Longrightarrow> same_setup p p' \<Longrightarrow> known p' \<subseteq> known p \<Longrightarrow> pool_ok E c U p \<Longrightarrow> pool_ok E c U p'"
  by (auto simp: pool_ok_def same_setup_def)

lemma pool_ok_frame [frame_simps]:
  "pool_ok E c U (p\<lparr>tp_nonces := ns\<rparr>) = pool_ok E c U p" "pool_ok E c U (p\<lparr>tp_locals := s\<rparr>) = pool_ok E c U p"
  "pool_ok E c U (p\<lparr>tp_journal := j\<rparr>) = pool_ok E c U p" "pool_ok E c U (p\<lparr>tp_events := ev\<rparr>) = pool_ok E c U p"
  "pool_ok E c U (p\<lparr>tp_gasPrice := g\<rparr>) = pool_ok E c U p"
  by (simp_all add: pool_ok_def frame_simps)

section \<open>Flattening all lists\<close>

lemma flatten_all_law:
  assumes env: "env_ok E" and ok: "lists_ok E s m" and f: "flatten_all E m = (m', txs)"
  shows "lists_ok E s m'" "listed m' = listed m" "no_empty m' = no_empty m"
    "txs a = map_option (\<lambda>l. sm_flat (tl_items l)) (m a)"
proof -
  have l: "tl_items (fst (tl_Flatten (pe_nonces E) l)) = tl_items l \<and> tl_inv (fst (tl_Flatten (pe_nonces E) l))
      \<and> tl_strict (fst (tl_Flatten (pe_nonces E) l)) = tl_strict l \<and> snd (tl_Flatten (pe_nonces E) l) = sm_flat (tl_items l)"
    if "m a = Some l" for a l
  proof -
    obtain l' xs where fl: "tl_Flatten (pe_nonces E) l = (l', xs)" by fastforce
    show ?thesis using tl_Flatten_flat [OF env_okD(2) [OF env] lists_okD(1) [OF ok that] fl] fl by simp
  qed
  have m': "m' = map_option (\<lambda>l. fst (tl_Flatten (pe_nonces E) l)) \<circ> m"
    and txs: "txs = map_option (\<lambda>l. snd (tl_Flatten (pe_nonces E) l)) \<circ> m" using f by (simp_all add: flatten_all_def)
  show "txs a = map_option (\<lambda>l. sm_flat (tl_items l)) (m a)" using l by (cases "m a") (simp_all add: txs)
  have at: "(m' a = Some l') = (\<exists>l. m a = Some l \<and> l' = fst (tl_Flatten (pe_nonces E) l))" for a l'
    by (cases "m a") (auto simp: m')
  have "dom m' = dom m" by (auto simp: m')
  then show "lists_ok E s m'" using ok l unfolding lists_ok_def at by force
  show "listed m' = listed m" unfolding listed_def at using l by force
  show "no_empty m' = no_empty m" unfolding no_empty_def at using l by force
qed

lemma Pending_law:
  assumes env: "env_ok E" and con: "consistent E p"
  shows "consistent E (fst (Pending E p)) \<and> same_setup p (fst (Pending E p)) \<and> known (fst (Pending E p)) = known p
    \<and> snd (Pending E p) a = (if tp_pending p a = None then None else Some (ptxs p a))"
proof -
  obtain m txs where f: "flatten_all E (tp_pending p) = (m, txs)" by fastforce
  note fl = flatten_all_law [OF env pinvD(1) [OF consistentD(2) [OF con]] f]
  have "pinv E {} {} (p\<lparr>tp_pending := m\<rparr>)"
    using placed_cong(1) [OF _ fl(1,2)] consistentD(2) [OF con] by (simp add: pinv_def price_ok_def known_def)
  then have "consistent E (p\<lparr>tp_pending := m\<rparr>)"
    using fl(3) consistentD(4,5) [OF con] by (simp add: consistent_def consistent_but_def)
  then show ?thesis using f fl(4) by (auto simp: Pending_def ptxs_def)
qed

lemma Content_law:
  assumes env: "env_ok E" and con: "consistent E p"
  shows "consistent E (fst (Content E p)) \<and> same_setup p (fst (Content E p)) \<and> known (fst (Content E p)) = known p"
proof -
  obtain m txs where f: "flatten_all E (tp_pending p) = (m, txs)" by fastforce
  obtain m' txs' where f': "flatten_all E (tp_queue p) = (m', txs')" by fastforce
  note fl = flatten_all_law [OF env pinvD(1) [OF consistentD(2) [OF con]] f]
    and fl' = flatten_all_law [OF env pinvD(2) [OF consistentD(2) [OF con]] f']
  have "pinv E {} {} (p\<lparr>tp_pending := m, tp_queue := m'\<rparr>)"
    using placed_cong(2) [OF placed_cong(1) [OF _ fl(1,2)] fl'(1,2)] consistentD(2) [OF con]
    by (simp add: pinv_def price_ok_def known_def)
  then have "consistent E (p\<lparr>tp_pending := m, tp_queue := m'\<rparr>)"
    using fl(3) fl'(3) consistentD(4,5) [OF con] by (simp add: consistent_def consistent_but_def)
  then show ?thesis using f f' by (simp add: Content_def)
qed

section \<open>Every operation\<close>

lemma addTxs_keeps:
  assumes "env_ok E" "pool_ok E c U p" "set txs \<subseteq> U"
  shows "\<exists>p' errs dirty. addTxs E txs isLocal p = Some (p', errs, dirty) \<and> pool_ok E c U p'"
  using addTxs_law [OF assms(1), of p txs isLocal] assms(2,3) unfolding pool_ok_def same_chain_def by blast

lemma runReorg_keeps:
  assumes env: "env_ok E" and ord: "orders_ok C" and ok: "pool_ok E c U p" and conf: "config_ok c"
    and U: "finite U" "card U < 2 ^ 64"
    and req: "request_ok C req" "put_back C req \<subseteq> U" and ev: "events_ok events"
  shows "\<exists>p' sent. runReorg E C req dirty events p = Some (p', sent) \<and> pool_ok E c U p'"
proof -
  have p: "consistent E p" "tp_config p = c" "known p \<subseteq> U" using ok by (simp_all add: pool_ok_def)
  have sub: "known p \<union> put_back C req \<subseteq> U" using p(3) req(2) by blast
  have "card (known p \<union> put_back C req) < 2 ^ 64" using card_mono [OF U(1) sub] U(2) by simp
  then obtain p' sent where p': "runReorg E C req dirty events p = Some (p', sent)" "consistent E p'" "same_limits p p'"
    "known p' \<subseteq> known p \<union> put_back C req"
    using runReorg_law [OF env ord p(1) _ ev req(1)] conf p(2) by blast
  have "tp_config p' = c" using p'(3) p(2) by (simp add: same_limits_def)
  then show ?thesis using p' sub unfolding pool_ok_def by blast
qed

lemma rejournal_keeps: "pool_ok E c U p \<Longrightarrow> pool_ok E c U (rejournal E rng p)"
  by (simp add: rejournal_def frame_simps split: option.splits)

lemma pool_exec_law:
  assumes env: "env_ok E" and ord: "orders_ok C" and ok: "pool_ok E c U p" and conf: "config_ok c"
    and U: "finite U" "card U < 2 ^ 64" and op: "op_ok C U op"
  shows "\<exists>p'. pool_exec E C op p = Some p' \<and> pool_ok E c U p'"
proof -
  have con: "consistent E p" using ok by (simp add: pool_ok_def)
  show ?thesis
  proof (cases op)
    case (OpAddLocals txs)
    then have "set txs \<subseteq> U" using op by (simp add: op_ok_def)
    then obtain p' errs d where "addTxs E txs (\<not> pc_NoLocals (tp_config p)) p = Some (p', errs, d)" "pool_ok E c U p'"
      using addTxs_keeps [OF env ok] by blast
    then show ?thesis using OpAddLocals by (simp add: pool_exec_def AddLocals_def)
  next
    case (OpAddRemotes txs)
    then have "set txs \<subseteq> U" using op by (simp add: op_ok_def)
    then obtain p' errs d where "addTxs E txs False p = Some (p', errs, d)" "pool_ok E c U p'"
      using addTxs_keeps [OF env ok] by blast
    then show ?thesis using OpAddRemotes by (simp add: pool_exec_def AddRemotes_def)
  next
    case (OpSetGasPrice price)
    obtain p' where p': "SetGasPrice E price p = Some p'" "consistent E p'" "same_setup (p\<lparr>tp_gasPrice := price\<rparr>) p'" "known p' \<subseteq> known p"
      using SetGasPrice_law [OF env con] by blast
    have "pool_ok E c U p'" using pool_okI [OF p'(2,3)] p'(4) ok by (simp add: frame_simps)
    then show ?thesis using p'(1) OpSetGasPrice by (simp add: pool_exec_def)
  next
    case (OpEvict now)
    obtain p' where p': "evict E now p = Some p'" "consistent E p'" "same_setup p p'" "tp_pending p' = tp_pending p"
      "listed (tp_queue p') = {t \<in> listed (tp_queue p). \<not> expired now p (sender E t)}"
      using evict_law [OF env con] by blast
    have "known p' \<subseteq> known p" unfolding consistentD(6) [OF con] consistentD(6) [OF p'(2)] p'(4,5) by blast
    then show ?thesis using p'(1) pool_okI [OF p'(2,3) _ ok] OpEvict by (simp add: pool_exec_def)
  next
    case (OpReorg req dirty events)
    then obtain p' sent where "runReorg E C req dirty events p = Some (p', sent)" "pool_ok E c U p'"
      using runReorg_keeps [OF env ord ok conf U] op by (fastforce simp: op_ok_def)
    then show ?thesis using OpReorg by (simp add: pool_exec_def)
  next
    case OpRejournal
    then show ?thesis using rejournal_keeps [OF ok] by (simp add: pool_exec_def)
  next
    case (OpNonce addr)
    obtain ns where "fst (tp_Nonce p addr) = p\<lparr>tp_nonces := ns\<rparr>" using tp_Nonce_frame [of p addr] by (metis prod.collapse)
    then show ?thesis using ok OpNonce by (simp add: pool_exec_def frame_simps)
  next
    case OpPending
    then show ?thesis using pool_okI [OF _ _ _ ok] Pending_law [OF env con] by (simp add: pool_exec_def)
  next
    case OpContent
    then show ?thesis using pool_okI [OF _ _ _ ok] Content_law [OF env con] by (simp add: pool_exec_def)
  next
    case OpLocals
    then show ?thesis using ok by (simp add: pool_exec_def Locals_def frame_simps split: prod.splits)
  next
    case OpStop
    then show ?thesis using ok by (simp add: pool_exec_def tp_Stop_def frame_simps)
  qed
qed

lemma pool_execs_law:
  assumes "env_ok E" "orders_ok C" "pool_ok E c U p" "config_ok c" "finite U" "card U < 2 ^ 64" "\<forall>op \<in> set ops. op_ok C U op"
  shows "\<exists>p'. each (pool_exec E C) ops p = Some p' \<and> pool_ok E c U p'"
  using assms(3,7)
proof (induction ops arbitrary: p)
  case (Cons op ops)
  obtain p1 where p1: "pool_exec E C op p = Some p1" "pool_ok E c U p1"
    using pool_exec_law [OF assms(1,2) Cons.prems(1) assms(4-6)] Cons.prems(2) by auto
  then show ?case using Cons.IH [OF p1(2)] Cons.prems(2) by simp
qed simp

section \<open>Construction\<close>

lemma sanitize_positive:
  "1 \<le> AccountSlots (sanitize c)" "1 \<le> GlobalSlots (sanitize c)" "1 \<le> AccountQueue (sanitize c)" "1 \<le> GlobalQueue (sanitize c)"
  "1 \<le> PriceLimit (sanitize c)" "1 \<le> PriceBump (sanitize c)" "1 \<le> Lifetime (sanitize c)" "second \<le> pc_Rejournal (sanitize c)"
proof -
  define c1 where "c1 = (if pc_Rejournal c < second then c\<lparr>pc_Rejournal := second\<rparr> else c)"
  define c2 where "c2 = (if PriceLimit c1 < 1 then c1\<lparr>PriceLimit := PriceLimit DefaultTxPoolConfig\<rparr> else c1)"
  define c3 where "c3 = (if PriceBump c2 < 1 then c2\<lparr>PriceBump := PriceBump DefaultTxPoolConfig\<rparr> else c2)"
  define c4 where "c4 = (if AccountSlots c3 < 1 then c3\<lparr>AccountSlots := AccountSlots DefaultTxPoolConfig\<rparr> else c3)"
  define c5 where "c5 = (if GlobalSlots c4 < 1 then c4\<lparr>GlobalSlots := GlobalSlots DefaultTxPoolConfig\<rparr> else c4)"
  define c6 where "c6 = (if AccountQueue c5 < 1 then c5\<lparr>AccountQueue := AccountQueue DefaultTxPoolConfig\<rparr> else c5)"
  define c7 where "c7 = (if GlobalQueue c6 < 1 then c6\<lparr>GlobalQueue := GlobalQueue DefaultTxPoolConfig\<rparr> else c6)"
  define c8 where "c8 = (if Lifetime c7 < 1 then c7\<lparr>Lifetime := Lifetime DefaultTxPoolConfig\<rparr> else c7)"
  have c8: "sanitize c = c8"
    unfolding sanitize_def Let_def [of c] c1_def [symmetric] Let_def [of c1] c2_def [symmetric] Let_def [of c2]
      c3_def [symmetric] Let_def [of c3] c4_def [symmetric] Let_def [of c4] c5_def [symmetric] Let_def [of c5]
      c6_def [symmetric] Let_def [of c6] c7_def [symmetric] Let_def [of c7] c8_def [symmetric] Let_def [of c8] ..
  note d = DefaultTxPoolConfig_def
  have n: "1 \<le> x \<longleftrightarrow> x \<noteq> 0" for x :: u64 by (simp add: linorder_not_less [symmetric])
  show "second \<le> pc_Rejournal (sanitize c)" by (simp add: c8 c8_def c7_def c6_def c5_def c4_def c3_def c2_def c1_def)
  show "1 \<le> PriceLimit (sanitize c)" by (simp add: c8 c8_def c7_def c6_def c5_def c4_def c3_def c2_def d n)
  show "1 \<le> PriceBump (sanitize c)" by (simp add: c8 c8_def c7_def c6_def c5_def c4_def c3_def d n)
  show "1 \<le> AccountSlots (sanitize c)" by (simp add: c8 c8_def c7_def c6_def c5_def c4_def d n)
  show "1 \<le> GlobalSlots (sanitize c)" by (simp add: c8 c8_def c7_def c6_def c5_def d n)
  show "1 \<le> AccountQueue (sanitize c)" by (simp add: c8 c8_def c7_def c6_def d n)
  show "1 \<le> GlobalQueue (sanitize c)" by (simp add: c8 c8_def c7_def d n)
  show "1 \<le> Lifetime (sanitize c)" by (simp add: c8 c8_def d second_def)
qed

lemma fresh_ok: "consistent E (fresh_pool c st)" "known (fresh_pool c st) = {}"
proof -
  have l: "listed Map.empty = {}" "lists_ok E s Map.empty" for s by (simp_all add: listed_def lists_ok_def)
  show k: "known (fresh_pool c st) = {}" by (simp add: known_def fresh_pool_def newTxLookup_def)
  have "price_ok {} (fresh_pool c st)"
    using lk_inv_new k by (simp add: price_ok_def fresh_pool_def newTxPricedList_def price.pq.queue_Nil)
  then show "consistent E (fresh_pool c st)"
    by (simp add: consistent_def consistent_but_def pinv_def placed_def k) (simp add: l fresh_pool_def no_empty_def)
qed

lemma put_event_ok: "events_ok ev \<Longrightarrow> events_ok (put_event E ev tx)"
proof -
  assume ev: "events_ok ev"
  have "sm_core (case ev (sender E tx) of None \<Rightarrow> newTxSortedMap | Some m \<Rightarrow> m)"
    using ev by (auto simp: events_ok_def sm_inv_def newTxSortedMap_def sm_core_def sm_keyed_def nonce.pq.queue_Nil split: option.splits)
  then have "sm_inv (sm_Put (case ev (sender E tx) of None \<Rightarrow> newTxSortedMap | Some m \<Rightarrow> m) tx)"
    using sm_Put_correct by blast
  then show ?thesis using ev by (auto simp: events_ok_def put_event_def Let_def)
qed

lemma put_events_ok: "events_ok ev \<Longrightarrow> events_ok (foldl (put_event E) ev txs)"
  by (induction txs arbitrary: ev) (simp_all add: put_event_ok)

lemma AddLocalsSync_keeps:
  assumes "env_ok E" "orders_ok C" "pool_ok E c U p" "config_ok c" "finite U" "card U < 2 ^ 64" "set txs \<subseteq> U"
  shows "\<exists>p'. AddLocalsSync E C p txs = Some p' \<and> pool_ok E c U p'"
proof -
  obtain p1 errs d where p1: "addTxs E txs (\<not> pc_NoLocals (tp_config p)) p = Some (p1, errs, d)" "pool_ok E c U p1"
    using addTxs_keeps [OF assms(1,3,7)] by blast
  show ?thesis
  proof (cases d)
    case None
    then show ?thesis using p1 by (simp add: AddLocalsSync_def AddLocals_def await_run_def)
  next
    case (Some dirty)
    let ?ev = "foldl (put_event E) Map.empty (tp_events p1)"
    have none: "request_ok C None" "put_back C None \<subseteq> U" by (simp_all add: request_ok_def put_back_def)
    have "events_ok ?ev" by (rule put_events_ok) (simp add: events_ok_def)
    moreover have "pool_ok E c U (p1\<lparr>tp_events := []\<rparr>)" using p1(2) by (simp add: frame_simps)
    ultimately obtain p' sent where "runReorg E C None (Some dirty) ?ev (p1\<lparr>tp_events := []\<rparr>) = Some (p', sent)" "pool_ok E c U p'"
      using runReorg_keeps [OF assms(1,2) _ assms(4-6) none] by blast
    then show ?thesis using Some p1(1) by (simp add: AddLocalsSync_def AddLocals_def await_run_def)
  qed
qed

lemma load_loop_keeps:
  assumes step: "\<And>s b. I s \<Longrightarrow> set b \<subseteq> U \<Longrightarrow> \<exists>s'. f s b = Some s' \<and> I s'"
    and "I s" "set txs \<subseteq> U" "set batch \<subseteq> U"
  shows "\<exists>s'. load_loop f txs batch s = Some s' \<and> I s'"
  using assms(2-4)
proof (induction txs arbitrary: batch s)
  case Nil
  then show ?case using step [OF Nil(1,3)] by simp
next
  case (Cons tx txs)
  have b: "set (batch @ [tx]) \<subseteq> U" using Cons.prems(2,3) by simp
  obtain s1 where s1: "f s (batch @ [tx]) = Some s1" "I s1" using step [OF Cons.prems(1) b] by blast
  show ?case
    using s1 Cons.IH [OF s1(2), of "[]"] Cons.IH [OF Cons.prems(1) _ b] Cons.prems(2) by simp
qed

lemma sint_nonneg:
  fixes x :: u64
  assumes "unat x < 2 ^ 63"
  shows "0 \<le> sint x"
proof -
  define k where "k = unat x"
  have "k < 2 ^ 63" using assms by (simp add: k_def)
  then have "signed_take_bit 63 (int k) = int k" by (intro signed_take_bit_int_eq_self) auto
  then have "sint (word_of_nat k :: u64) = int k" by (simp add: signed_of_nat)
  moreover have "(word_of_nat k :: u64) = x" by (simp add: k_def)
  ultimately show ?thesis by (metis of_nat_0_le_iff)
qed

lemma NewTxPool_law:
  assumes env: "env_ok E" and ord: "orders_ok C" and conf: "unat (AccountQueue (sanitize c)) < 2 ^ 63"
    and U: "finite U" "card U < 2 ^ 64"
    and disk: "\<forall>f. jn_disk files = Some f \<longrightarrow> set (fst (io_Stream (pe_io E) f)) \<subseteq> U"
  shows "\<exists>p. NewTxPool E C c st files = Some p \<and> pool_ok E (sanitize c) U p \<and> config_ok (sanitize c)"
proof -
  let ?c = "sanitize c"
  have cok: "config_ok ?c" using sanitize_positive(1) sint_nonneg [OF conf] by (simp add: config_ok_def)
  have "reset_reinject C None (Some (ce_Head C)) = Some (Some [])" by (simp add: reset_reinject_def)
  then obtain p0 where p0: "reset E C None (Some (ce_Head C)) (fresh_pool ?c st) = Some p0" "consistent E p0"
    "same_limits (fresh_pool ?c st) p0" "known p0 \<subseteq> known (fresh_pool ?c st) \<union> reinjected (Some [])"
    using reset_law [OF env fresh_ok(1)] by blast
  have ok0: "pool_ok E ?c U p0"
    using p0(2-4) fresh_ok(2) by (auto simp: pool_ok_def same_limits_def reinjected_def fresh_pool_def)
  show ?thesis
  proof (cases "\<not> pc_NoLocals ?c \<and> pc_Journal ?c \<noteq> ''''")
    case False
    then have "NewTxPool E C c st files = Some p0"
      unfolding NewTxPool_def Let_def p0(1) bind.bind_lunit by (rule if_not_P)
    then show ?thesis using ok0 cok by simp
  next
    case True
    define upd :: "(journal \<Rightarrow> journal) \<Rightarrow> pool \<Rightarrow> pool" where "upd = (\<lambda>f p. p\<lparr>tp_journal := map_option f (tp_journal p)\<rparr>)"
    let ?p = "p0\<lparr>tp_journal := Some (newTxJournal (jn_disk files) (jn_next files))\<rparr>"
    have ok: "pool_ok E ?c U ?p" using ok0 by (simp add: frame_simps)
    have upd: "pool_ok E ?c U (upd f p) = pool_ok E ?c U p" for f p by (simp add: upd_def frame_simps)
    have "\<exists>p' err. jn_load (pe_io E) upd (\<lambda>p. the (tp_journal p)) (AddLocalsSync E C) ?p = Some (p', err) \<and> pool_ok E ?c U p'"
    proof (cases "jn_disk files")
      case None
      then show ?thesis using ok by (simp add: jn_load_def newTxJournal_def)
    next
      case (Some f)
      obtain txs failure where st: "io_Stream (pe_io E) f = (txs, failure)" by fastforce
      have "set txs \<subseteq> U" using disk Some st by auto
      have step: "\<exists>s'. AddLocalsSync E C s b = Some s' \<and> pool_ok E ?c U s'" if "pool_ok E ?c U s" "set b \<subseteq> U" for s b
        by (rule AddLocalsSync_keeps [OF env ord that(1) cok U that(2)])
      have okd: "pool_ok E ?c U (upd (jn_writer_update (\<lambda>_. Some devNull)) ?p)" unfolding upd by (rule ok)
      have nil: "set [] \<subseteq> U" by simp
      obtain p' where "load_loop (AddLocalsSync E C) txs [] (upd (jn_writer_update (\<lambda>_. Some devNull)) ?p) = Some p'"
        "pool_ok E ?c U p'"
        using load_loop_keeps [where I = "pool_ok E ?c U" and U = U and f = "AddLocalsSync E C",
            OF step okd \<open>set txs \<subseteq> U\<close> nil] by blast
      then show ?thesis using ok st Some by (auto simp: jn_load_def newTxJournal_def upd)
    qed
    then obtain p' err where "jn_load (pe_io E) upd (\<lambda>p. the (tp_journal p)) (AddLocalsSync E C) ?p = Some (p', err)" "pool_ok E ?c U p'"
      by blast
    then show ?thesis using p0(1) True cok rejournal_keeps by (auto simp: NewTxPool_def Let_def upd_def)
  qed
qed

end
