(* ===== verification/Tx_Pool_Sched.thy ===== *)
theory Tx_Pool_Sched
  imports Tx_Pool_Life
begin

text \<open>
  The scheduling of runs: whatever the order of the messages, one run at a time is under way,
  and every request and every event reaches a run or waits for the next one.
\<close>

section \<open>What runs are asked for and given\<close>

definition dirty_of :: "account_set option \<Rightarrow> address set" where
  "dirty_of d = (case d of None \<Rightarrow> {} | Some s \<Rightarrow> as_accounts s)"

definition event_slots :: "tx_events \<Rightarrow> (address \<times> u64) set" where
  "event_slots ev = {(a, n). \<exists>m. ev a = Some m \<and> sm_items m n \<noteq> None}"

definition event_set :: "tx_events \<Rightarrow> transaction set" where
  "event_set ev = {tx. \<exists>a m n. ev a = Some m \<and> sm_items m n = Some tx}"

lemma put_event_slots: "event_slots (put_event E ev tx) = insert (slot E tx) (event_slots ev)"
  by (cases "ev (sender E tx)")
    (auto simp: event_slots_def put_event_def sm_Put_def slot_def newTxSortedMap_def Let_def split: if_splits)

lemma put_event_set: "event_set (put_event E ev tx) \<subseteq> insert tx (event_set ev)"
  by (cases "ev (sender E tx)")
    (auto simp: event_set_def put_event_def sm_Put_def newTxSortedMap_def Let_def split: if_splits)

definition promoted_by :: "sched_msg list \<Rightarrow> address set" where
  "promoted_by msgs = (\<Union>d \<in> {d. ReqPromote d \<in> set msgs}. as_accounts d)"

definition queued_by :: "sched_msg list \<Rightarrow> transaction set" where
  "queued_by msgs = {tx. QueueTx tx \<in> set msgs}"

fun resets_in :: "sched_msg list \<Rightarrow> reset_request list" where
  "resets_in [] = []"
| "resets_in (ReqReset r # msgs) = r # resets_in msgs"
| "resets_in (_ # msgs) = resets_in msgs"

definition dones :: "sched_msg list \<Rightarrow> nat" where
  "dones msgs = length (filter (\<lambda>m. m = RunDone) msgs)"

definition served :: "sched_run list \<Rightarrow> reset_request option \<Rightarrow> reset_request list" where
  "served runs waiting = concat (map (\<lambda>(r, _, _). (case r of None \<Rightarrow> [] | Some r \<Rightarrow> [r])) runs)
     @ (case waiting of None \<Rightarrow> [] | Some r \<Rightarrow> [r])"

text \<open>Consecutive resets merged into one: from the first old head to the last new one.\<close>

definition merged :: "reset_request list \<Rightarrow> reset_request" where
  "merged g = (fst (hd g), snd (last g))"

definition waits :: "reset_request list \<Rightarrow> reset_request option \<Rightarrow> bool" where
  "waits g w \<longleftrightarrow> w = (if g = [] then None else Some (merged g))"

definition cur_run :: "scheduler \<Rightarrow> nat" where
  "cur_run s = (if sc_cur s then 1 else 0)"

text \<open>What the head of the loop hands over.\<close>

definition conserves :: "'e pool_env \<Rightarrow> scheduler \<Rightarrow> sched_msg list \<Rightarrow> sched_run list \<Rightarrow> scheduler \<Rightarrow> bool" where
  "conserves E s msgs runs s' \<longleftrightarrow>
     dirty_of (sc_dirty s) \<union> promoted_by msgs = (\<Union>(_, d, _) \<in> set runs. dirty_of d) \<union> dirty_of (sc_dirty s')
     \<and> event_slots (sc_events s) \<union> slot E ` queued_by msgs
         = (\<Union>(_, _, ev) \<in> set runs. event_slots ev) \<union> event_slots (sc_events s')
     \<and> (\<Union>(_, _, ev) \<in> set runs. event_set ev) \<union> event_set (sc_events s') \<subseteq> event_set (sc_events s) \<union> queued_by msgs
     \<and> cur_run s + length runs = dones msgs + cur_run s'
     \<and> (\<forall>g. waits g (sc_reset s) \<longrightarrow> (\<exists>gs. concat gs = g @ resets_in msgs \<and> [] \<notin> set gs \<and> served runs (sc_reset s') = map merged gs))"

lemma conservesD:
  assumes "conserves E s msgs runs s'"
  shows "dirty_of (sc_dirty s) \<union> promoted_by msgs = (\<Union>(_, d, _) \<in> set runs. dirty_of d) \<union> dirty_of (sc_dirty s')"
    "event_slots (sc_events s) \<union> slot E ` queued_by msgs
       = (\<Union>(_, _, ev) \<in> set runs. event_slots ev) \<union> event_slots (sc_events s')"
    "(\<Union>(_, _, ev) \<in> set runs. event_set ev) \<union> event_set (sc_events s') \<subseteq> event_set (sc_events s) \<union> queued_by msgs"
    "cur_run s + length runs = dones msgs + cur_run s'"
    "waits g (sc_reset s) \<Longrightarrow> \<exists>gs. concat gs = g @ resets_in msgs \<and> [] \<notin> set gs \<and> served runs (sc_reset s') = map merged gs"
proof -
  note c = assms [unfolded conserves_def] and r = conjunct2
  show "dirty_of (sc_dirty s) \<union> promoted_by msgs = (\<Union>(_, d, _) \<in> set runs. dirty_of d) \<union> dirty_of (sc_dirty s')"
    by (rule conjunct1 [OF c])
  show "event_slots (sc_events s) \<union> slot E ` queued_by msgs
       = (\<Union>(_, _, ev) \<in> set runs. event_slots ev) \<union> event_slots (sc_events s')"
    by (rule conjunct1 [OF r [OF c]])
  show "(\<Union>(_, _, ev) \<in> set runs. event_set ev) \<union> event_set (sc_events s') \<subseteq> event_set (sc_events s) \<union> queued_by msgs"
    by (rule conjunct1 [OF r [OF r [OF c]]])
  show "cur_run s + length runs = dones msgs + cur_run s'" by (rule conjunct1 [OF r [OF r [OF r [OF c]]]])
  show "waits g (sc_reset s) \<Longrightarrow> \<exists>gs. concat gs = g @ resets_in msgs \<and> [] \<notin> set gs \<and> served runs (sc_reset s') = map merged gs"
    by (rule r [OF r [OF r [OF r [OF c]]], rule_format])
qed

lemma empty_events [simp]: "event_slots Map.empty = {}" "event_set Map.empty = {}" "dirty_of None = {}"
  by (simp_all add: event_slots_def event_set_def dirty_of_def)

lemma conserves_refl: "conserves E s [] [] s"
proof -
  have "\<exists>gs. concat gs = g \<and> [] \<notin> set gs \<and> served [] (sc_reset s) = map merged gs" if "waits g (sc_reset s)" for g
    using that by (intro exI [of _ "if g = [] then [] else [g]"]) (auto simp: waits_def served_def)
  then show ?thesis by (auto simp: conserves_def promoted_by_def queued_by_def dones_def)
qed

lemma conserves_launch:
  assumes n: "sched_next s = (s1, run)" and c: "conserves E s1 msgs runs s'"
  shows "conserves E s msgs ((case run of None \<Rightarrow> [] | Some r \<Rightarrow> [r]) @ runs) s'"
proof (cases "\<not> sc_cur s \<and> sc_launch s")
  case False
  then have "s1 = s" "run = None" using n by (auto simp: sched_next_def split: if_splits)
  then show ?thesis using c by simp
next
  case True
  then have run: "run = Some (sc_reset s, sc_dirty s, sc_events s)"
    and s1: "s1 = \<lparr>sc_cur = True, sc_launch = False, sc_reset = None, sc_dirty = None, sc_events = Map.empty\<rparr>"
    using n by (simp_all add: sched_next_def)
  have reset: "\<exists>gs. concat gs = g @ resets_in msgs \<and> [] \<notin> set gs \<and> served (the run # runs) (sc_reset s') = map merged gs"
    if g: "waits g (sc_reset s)" for g
  proof -
    have "waits [] (sc_reset s1)" by (simp add: s1 waits_def)
    then obtain gs where gs: "concat gs = resets_in msgs" "[] \<notin> set gs" "served runs (sc_reset s') = map merged gs"
      using c unfolding conserves_def by (metis append_Nil)
    then show ?thesis using g
      by (intro exI [of _ "if g = [] then gs else g # gs"]) (auto simp: waits_def served_def run)
  qed
  show ?thesis using c reset True unfolding conserves_def
    by (auto simp: run s1 cur_run_def)
qed

lemma conserves_recv:
  assumes r: "sched_recv E msg s = Some (Some s1)" and c: "conserves E s1 msgs runs s'"
  shows "conserves E s (msg # msgs) runs s'"
proof -
  have p: "promoted_by (msg # msgs) = (case msg of ReqPromote d \<Rightarrow> as_accounts d | _ \<Rightarrow> {}) \<union> promoted_by msgs"
    by (cases msg) (auto simp: promoted_by_def)
  have q: "queued_by (msg # msgs) = (case msg of QueueTx tx \<Rightarrow> {tx} | _ \<Rightarrow> {}) \<union> queued_by msgs"
    by (cases msg) (auto simp: queued_by_def)
  have d: "dones (msg # msgs) = (if msg = RunDone then 1 else 0) + dones msgs" by (simp add: dones_def)
  show ?thesis
  proof (cases msg)
    case (ReqReset req)
    define w where "w = (case sc_reset s of None \<Rightarrow> req | Some (oldHead, _) \<Rightarrow> (oldHead, snd req))"
    have s1: "s1 = s\<lparr>sc_reset := Some w, sc_launch := True\<rparr>" using r ReqReset by (simp add: sched_recv_def w_def)
    have reset: "\<exists>gs. concat gs = g @ resets_in (msg # msgs) \<and> [] \<notin> set gs \<and> served runs (sc_reset s') = map merged gs"
      if g: "waits g (sc_reset s)" for g
    proof -
      have "waits (g @ [req]) (sc_reset s1)" using g by (cases g) (auto simp: waits_def merged_def s1 w_def)
      from conservesD(5) [OF c this] obtain gs
        where "concat gs = (g @ [req]) @ resets_in msgs" "[] \<notin> set gs" "served runs (sc_reset s') = map merged gs" by blast
      then show ?thesis using ReqReset by auto
    qed
    have same: "sc_dirty s1 = sc_dirty s" "sc_events s1 = sc_events s" "cur_run s1 = cur_run s" by (simp_all add: s1 cur_run_def)
    show ?thesis using conservesD(1-4) [OF c] reset unfolding conserves_def same p q d by (simp add: ReqReset)
  next
    case (ReqPromote req)
    define w where "w = (case sc_dirty s of None \<Rightarrow> req | Some d \<Rightarrow> as_merge d req)"
    have s1: "s1 = s\<lparr>sc_dirty := Some w, sc_launch := True\<rparr>" using r ReqPromote by (simp add: sched_recv_def w_def)
    have w: "dirty_of (sc_dirty s1) = dirty_of (sc_dirty s) \<union> as_accounts req"
      by (cases "sc_dirty s") (simp_all add: s1 w_def dirty_of_def as_merge_def)
    have same: "sc_reset s1 = sc_reset s" "sc_events s1 = sc_events s" "cur_run s1 = cur_run s" by (simp_all add: s1 cur_run_def)
    have "resets_in (msg # msgs) = resets_in msgs" by (simp add: ReqPromote)
    then show ?thesis using conservesD [OF c] unfolding conserves_def same p q d w by (simp add: ReqPromote Un_assoc)
  next
    case (QueueTx tx)
    have s1: "s1 = s\<lparr>sc_events := put_event E (sc_events s) tx\<rparr>" using r QueueTx by (simp add: sched_recv_def)
    have "event_set (sc_events s1) \<subseteq> insert tx (event_set (sc_events s))" by (simp add: s1 put_event_set)
    moreover have "event_slots (sc_events s1) = insert (slot E tx) (event_slots (sc_events s))" by (simp add: s1 put_event_slots)
    moreover have "sc_dirty s1 = sc_dirty s" "sc_reset s1 = sc_reset s" "cur_run s1 = cur_run s" by (simp_all add: s1 cur_run_def)
    moreover have "resets_in (msg # msgs) = resets_in msgs" by (simp add: QueueTx)
    ultimately show ?thesis using conservesD [OF c] unfolding conserves_def p q d by (auto simp: QueueTx)
  next
    case RunDone
    then have s1: "s1 = s\<lparr>sc_cur := False\<rparr>" "sc_cur s" using r by (auto simp: sched_recv_def split: if_splits)
    then have same: "sc_reset s1 = sc_reset s" "sc_events s1 = sc_events s" "sc_dirty s1 = sc_dirty s" "cur_run s = 1" "cur_run s1 = 0"
      by (simp_all add: cur_run_def)
    have "resets_in (msg # msgs) = resets_in msgs" by (simp add: RunDone)
    then show ?thesis using conservesD [OF c] unfolding conserves_def same p q d by (simp add: RunDone)
  next
    case Shutdown
    then show ?thesis using r by (simp add: sched_recv_def)
  qed
qed

lemma sched_conserves:
  "sched_loop E msgs s = Some (runs, Some s') \<Longrightarrow> conserves E s msgs runs s'"
proof (induction msgs arbitrary: s runs)
  case Nil
  then show ?case using conserves_refl by simp
next
  case (Cons msg msgs)
  obtain s1 run where n: "sched_next s = (s1, run)" by fastforce
  obtain s2 rs where r: "sched_recv E msg s1 = Some (Some s2)" "sched_loop E msgs s2 = Some (rs, Some s')"
    and runs: "runs = (case run of None \<Rightarrow> [] | Some r \<Rightarrow> [r]) @ rs"
    using Cons.prems n by (auto simp: Let_def split: option.splits)
  show ?case unfolding runs
    by (rule conserves_launch [OF n conserves_recv [OF r(1) Cons.IH [OF r(2)]]])
qed

text \<open>
  C40: the background loop of the pool. However resets, promotions, new transactions and ends of
  runs are interleaved, at most one run is under way at any time, every account to promote is
  in the set of a run or of the next one, every queued transaction has its account and nonce in
  the events of a run or of the next one (a later transaction with the same account and nonce
  replaces it), and the resets are served in order, those that wait together as one reset from
  the first old head to the last new head.
\<close>

theorem scheduler_loses_nothing:
  assumes "sched_loop E msgs sched_init = Some (runs, Some s)"
  shows "promoted_by msgs = (\<Union>(_, d, _) \<in> set runs. dirty_of d) \<union> dirty_of (sc_dirty s)
    \<and> slot E ` queued_by msgs = (\<Union>(_, _, ev) \<in> set runs. event_slots ev) \<union> event_slots (sc_events s)
    \<and> (\<Union>(_, _, ev) \<in> set runs. event_set ev) \<subseteq> queued_by msgs
    \<and> length runs = dones msgs + (if sc_cur s then 1 else 0)
    \<and> (\<exists>gs. concat gs = resets_in msgs \<and> [] \<notin> set gs \<and> served runs (sc_reset s) = map merged gs)"
proof -
  have c: "conserves E sched_init msgs runs s" by (rule sched_conserves [OF assms])
  have "waits [] (sc_reset sched_init)" by (simp add: waits_def sched_init_def)
  then have "\<exists>gs. concat gs = [] @ resets_in msgs \<and> [] \<notin> set gs \<and> served runs (sc_reset s) = map merged gs"
    using c unfolding conserves_def by blast
  then show ?thesis using c unfolding conserves_def by (simp add: sched_init_def cur_run_def)
qed

end
