(* ===== verification/Tx_Pool_Props.thy ===== *)
theory Tx_Pool_Props
  imports Tx_Pool_Sched
begin

text \<open>
  The properties of the transaction pool, over a small environment and chain that show their
  hypotheses hold together: one account, a genesis block and two rival blocks on it.
\<close>

section \<open>An environment and a chain\<close>

definition small_env :: "unit pool_env" where
  "small_env = \<lparr>pe_Sender = (\<lambda>_. Some 7), pe_Value = (\<lambda>_. 0), pe_Data = (\<lambda>_. []), pe_Creates = (\<lambda>_. False),
     pe_gas = demo_params, pe_now = (\<lambda>_. 0), pe_hashes = (\<lambda>m. sorted_list_of_set (dom m)),
     pe_nonces = (\<lambda>m. sorted_list_of_set (dom m)), pe_addrs = (\<lambda>m. sorted_list_of_set (dom m)),
     pe_set = sorted_list_of_set,
     pe_io = \<lparr>io_Open = None, io_Close = None, io_Create = None, io_Write = (\<lambda>_. ([], None)), io_Rename = None,
       io_Append = None, io_Stream = (\<lambda>_. ([], None))\<rparr>\<rparr>"

definition rich_state :: pool_state where
  "rich_state = \<lparr>ps_nonce = (\<lambda>_. 0), ps_balance = (\<lambda>_. 10 ^ 18)\<rparr>"

definition small_blocks :: "chain_block list" where
  "small_blocks = [\<lparr>bl_Hash = 1, bl_Number = 0, bl_Parent = 0, bl_Txs = []\<rparr>,
     \<lparr>bl_Hash = 2, bl_Number = 1, bl_Parent = 1, bl_Txs = [demo_tx 0 5]\<rparr>,
     \<lparr>bl_Hash = 3, bl_Number = 1, bl_Parent = 1, bl_Txs = []\<rparr>]"

definition old_head :: chain_header where
  "old_head = \<lparr>hd_Hash = 2, hd_ParentHash = 1, hd_Number = 1, hd_Root = 0, hd_GasLimit = 8000000\<rparr>"

definition new_head :: chain_header where
  "new_head = \<lparr>hd_Hash = 3, hd_ParentHash = 1, hd_Number = 1, hd_Root = 0, hd_GasLimit = 8000000\<rparr>"

definition small_chain :: chain_env where
  "small_chain = \<lparr>ce_GetBlock = (\<lambda>h n. find (\<lambda>b. bl_Hash b = h \<and> bl_Number b = n) small_blocks),
     ce_StateAt = (\<lambda>_. Some rich_state), ce_Head = old_head, ce_IsIstanbul = (\<lambda>_. True),
     ce_Difference = (\<lambda>a b. filter (\<lambda>t. t \<notin> set b) a),
     ce_pops = (\<lambda>xs. rev (map fst (sort_key snd xs))), ce_sort = sort_key snd,
     ce_events = (\<lambda>m. sorted_list_of_set (dom m)), ce_locals = (\<lambda>_. []), ce_wide = (\<lambda>_. 0)\<rparr>"

lemma small_env_ok: "env_ok small_env"
  by (simp add: env_ok_def map_order_def small_env_def)


lemma small_chain_ok: "chain_ok small_chain"
  by (auto simp: chain_ok_def small_chain_def find_Some_iff small_blocks_def)

section \<open>The life of a pool\<close>



section \<open>Adding\<close>


text \<open>A fresh pool on the state of the chain, for the witnesses.\<close>

definition small_pool :: pool where
  "small_pool = (fresh_pool DefaultTxPoolConfig rich_state)\<lparr>tp_maxGas := 8000000\<rparr>"

lemma small_pool_ok: "consistent small_env small_pool" "known small_pool = {}" "tp_config small_pool = DefaultTxPoolConfig"
proof -
  show "consistent small_env small_pool" using fresh_ok(1) by (simp add: small_pool_def frame_simps)
  show "known small_pool = {}" using fresh_ok(2) by (simp add: small_pool_def)
  show "tp_config small_pool = DefaultTxPoolConfig" by (simp add: small_pool_def fresh_pool_def)
qed


text \<open>
  C35: what a batch returns. There is one slot for each transaction; those already known have
  their error, and the errors of the others fill the free slots from the left, in order,
  whichever transactions they belong to. No error is lost and none is made up, the pool is
  consistent, and holds nothing but what it held and the batch.
\<close>

theorem batch_errors:
  assumes "env_ok E" "consistent E p"
  shows "\<exists>p' errs dirty es. addTxs E txs isLocal p = Some (p', errs, dirty) \<and> consistent E p' \<and> known p' \<subseteq> known p \<union> set txs
    \<and> length errs = length txs \<and> errs = fill_slots (known_errs p txs) (some_errs es)
    \<and> mset (some_errs errs) = mset (some_errs (known_errs p txs)) + mset (some_errs es)
    \<and> (dirty \<noteq> None \<longrightarrow> (\<exists>d. addTxsLocked E (filter (\<lambda>tx. lk_Get (tp_all p) (tx_Hash tx) = None) txs) isLocal p = Some (p', es, d)))"
proof -
  obtain p' errs dirty es where a: "addTxs E txs isLocal p = Some (p', errs, dirty)" "consistent E p'"
    "known p' \<subseteq> known p \<union> set txs" "errs = fill_slots (known_errs p txs) (some_errs es)"
    "length es = nil_slots (known_errs p txs)"
    "nil_slots (known_errs p txs) \<noteq> 0 \<longrightarrow>
        (\<exists>d. addTxsLocked E (filter (\<lambda>tx. lk_Get (tp_all p) (tx_Hash tx) = None) txs) isLocal p = Some (p', es, d))"
    using addTxs_law [OF assms, of txs isLocal] by (elim exE conjE) (rule that)
  have "length (some_errs es) \<le> nil_slots (known_errs p txs)" using length_some_errs [of es] a(5) by simp
  then have m: "mset (some_errs errs) = mset (some_errs (known_errs p txs)) + mset (some_errs es)"
    unfolding a(4) by (rule fill_slots_counts(1))
  have l: "length errs = length txs" by (simp add: a(4) known_errs_def fill_slots_counts(2))
  have "nil_slots (known_errs p txs) \<noteq> 0" if "dirty \<noteq> None"
  proof
    assume "nil_slots (known_errs p txs) = 0"
    then have "addTxs E txs isLocal p = Some (p, known_errs p txs, None)"
      unfolding nil_slots_known by (simp add: addTxs_def known_errs_def Let_def)
    then show False using a(1) that by simp
  qed
  then have ex: "dirty \<noteq> None \<longrightarrow>
      (\<exists>d. addTxsLocked E (filter (\<lambda>tx. lk_Get (tp_all p) (tx_Hash tx) = None) txs) isLocal p = Some (p', es, d))"
    using a(6) by (rule_tac impI) (erule mp, assumption)
  show ?thesis
    by (rule exI [of _ p'], rule exI [of _ errs], rule exI [of _ dirty], rule exI [of _ es]) (intro conjI a(1-4) l m ex)
qed

theorem batch_errors_witness:
  "\<exists>p' errs dirty. addTxs small_env [demo_tx 0 100, demo_tx 1 90] False small_pool = Some (p', errs, dirty)
     \<and> consistent small_env p' \<and> length errs = 2 \<and> known p' \<subseteq> {demo_tx 0 100, demo_tx 1 90}"
  using batch_errors [OF small_env_ok small_pool_ok(1), of "[demo_tx 0 100, demo_tx 1 90]" False] small_pool_ok(2) by auto

text \<open>The error of the second of two new transactions is reported for the first.\<close>

lemma error_of_the_wrong_transaction: "merge_errs [None, None] 0 [None, Some e] = Some [Some e, None]"
  by (simp add: next_nil.simps [of _ 0])

section \<open>The reset\<close>

text \<open>
  C36: the transactions a reset puts back. When the new head does not follow the old one and is
  no more than 64 blocks away, the walk over the two branches ends, and if they meet, \<open>k + i\<close>
  blocks below the old head and \<open>m + i\<close> below the new one, the transactions put back are those
  of all blocks of the old branch above the meeting point that are in none of the new branch.
  The walk panics on neither branch.
\<close>

theorem reorg_reinjects:
  assumes "chain_ok C" "hd_Hash old \<noteq> hd_ParentHash new"
    and "reorg_depth C (word_of_int (hd_Number old)) (word_of_int (hd_Number new)) \<le> 64"
    and "ce_GetBlock C (hd_Hash old) (word_of_int (hd_Number old)) = Some rem"
    and "ce_GetBlock C (hd_Hash new) (word_of_int (hd_Number new)) = Some head"
  shows "reset_reinject C (Some old) (Some new) \<noteq> None
    \<and> (\<forall>k m i rem' head' a b. nth_before C rem k = Some rem' \<and> nth_before C head m = Some head' \<and> bl_Number rem' = bl_Number head'
        \<and> (k = 0 \<or> m = 0) \<and> nth_before C rem' i = Some a \<and> nth_before C head' i = Some b \<and> bl_Hash a = bl_Hash b
        \<and> (\<forall>j < i. bl_Hash (the (nth_before C rem' j)) \<noteq> bl_Hash (the (nth_before C head' j)))
        \<longrightarrow> reset_reinject C (Some old) (Some new) = Some (Some (ce_Difference C
              (branch_txs C rem k @ branch_txs C rem' i) (branch_txs C head m @ branch_txs C head' i))))"
proof -
  have "\<not> 64 < reorg_depth C (word_of_int (hd_Number old)) (word_of_int (hd_Number new))" using assms(3) by (rule leD)
  then have r: "reset_reinject C (Some old) (Some new) = walk_reorg C rem head"
    using assms(2,4,5) by (simp add: reset_reinject_def Let_def)
  show ?thesis unfolding r
    using walk_reorg_ends [OF assms(1), of rem head] walk_reorg_reaches [OF assms(1), of rem _ _ head] by blast
qed

lemma small_walk:
  "ce_GetBlock small_chain 2 1 = Some \<lparr>bl_Hash = 2, bl_Number = 1, bl_Parent = 1, bl_Txs = [demo_tx 0 5]\<rparr>"
  "ce_GetBlock small_chain 3 1 = Some \<lparr>bl_Hash = 3, bl_Number = 1, bl_Parent = 1, bl_Txs = []\<rparr>"
  "ce_GetBlock small_chain 1 0 = Some \<lparr>bl_Hash = 1, bl_Number = 0, bl_Parent = 0, bl_Txs = []\<rparr>"
  by (simp_all add: small_chain_def small_blocks_def)


theorem reorg_reinjects_witness:
  "reset_reinject small_chain (Some old_head) (Some new_head) = Some (Some [demo_tx 0 5])"
proof -
  let ?rem = "\<lparr>bl_Hash = 2, bl_Number = 1, bl_Parent = 1, bl_Txs = [demo_tx 0 5]\<rparr> :: chain_block"
    and ?head = "\<lparr>bl_Hash = 3, bl_Number = 1, bl_Parent = 1, bl_Txs = []\<rparr> :: chain_block"
    and ?root = "\<lparr>bl_Hash = 1, bl_Number = 0, bl_Parent = 0, bl_Txs = []\<rparr> :: chain_block"
  have "reorg_depth small_chain (word_of_int (hd_Number old_head)) (word_of_int (hd_Number new_head)) \<le> 64"
    by (simp add: old_head_def new_head_def reorg_depth_exact)
  note r = reorg_reinjects [OF small_chain_ok _ this, of ?rem ?head]
  have h: "hd_Hash old_head \<noteq> hd_ParentHash new_head" "ce_GetBlock small_chain (hd_Hash old_head) (word_of_int (hd_Number old_head)) = Some ?rem"
    "ce_GetBlock small_chain (hd_Hash new_head) (word_of_int (hd_Number new_head)) = Some ?head"
    by (simp_all add: old_head_def new_head_def small_walk)
  have b: "before small_chain ?rem = Some ?root" "before small_chain ?head = Some ?root" by (simp_all add: before_def small_walk)
  have "reset_reinject small_chain (Some old_head) (Some new_head)
      = Some (Some (ce_Difference small_chain (branch_txs small_chain ?rem 0 @ branch_txs small_chain ?rem 1)
          (branch_txs small_chain ?head 0 @ branch_txs small_chain ?head 1)))"
    using conjunct2 [OF r [OF h], rule_format, of 0 ?rem 0 ?head 1 ?root ?root] b by simp
  then show ?thesis using b by (simp add: small_chain_def)
qed

text \<open>A reset to a head whose block is missing dereferences nil, a missing old head does not.\<close>

lemma missing_head_panics:
  assumes "hd_Hash old \<noteq> hd_ParentHash new" "reorg_depth C (word_of_int (hd_Number old)) (word_of_int (hd_Number new)) \<le> 64"
    "ce_GetBlock C (hd_Hash old) (word_of_int (hd_Number old)) = Some rem"
    "ce_GetBlock C (hd_Hash new) (word_of_int (hd_Number new)) = None"
  shows "reset_reinject C (Some old) (Some new) = None"
  using assms leD [OF assms(2)] by (simp add: reset_reinject_def Let_def)

section \<open>A run\<close>



section \<open>Dropping\<close>



text \<open>
  C39: eviction and the price threshold. Eviction drops exactly the queued transactions of remote
  accounts whose heartbeat is older than the lifetime, and no pending one. A new price threshold
  leaves no remote transaction below it, and drops none whose hash is not that of such a
  transaction. Neither panics, and both leave the pool consistent.
\<close>

theorem evict_and_price:
  assumes "env_ok E" "consistent E p"
  shows "(\<exists>p'. evict E now p = Some p' \<and> consistent E p' \<and> tp_pending p' = tp_pending p
      \<and> listed (tp_queue p') = {tx \<in> listed (tp_queue p).
          as_contains (tp_locals p) (sender E tx) \<or> time_Sub now (beat p (sender E tx)) \<le> Lifetime (tp_config p)})
    \<and> (\<exists>p'. SetGasPrice E price p = Some p' \<and> consistent E p' \<and> tp_gasPrice p' = price \<and> known p' \<subseteq> known p
      \<and> (\<forall>tx \<in> known p'. isLocalTx E p tx \<or> price \<le> tx_GasPrice tx)
      \<and> (\<forall>tx \<in> known p - known p'. \<exists>d. tx_Hash d = tx_Hash tx \<and> \<not> isLocalTx E p d \<and> tx_GasPrice d < price))"
proof -
  obtain p1 where p1: "evict E now p = Some p1" "consistent E p1" "tp_pending p1 = tp_pending p"
    "listed (tp_queue p1) = {t \<in> listed (tp_queue p). \<not> expired now p (sender E t)}"
    using evict_law [OF assms] by blast
  have q: "listed (tp_queue p1) = {tx \<in> listed (tp_queue p).
          as_contains (tp_locals p) (sender E tx) \<or> time_Sub now (beat p (sender E tx)) \<le> Lifetime (tp_config p)}"
    by (simp add: p1(4) expired_def not_less)
  obtain p2 where p2: "SetGasPrice E price p = Some p2" "consistent E p2" "same_setup (p\<lparr>tp_gasPrice := price\<rparr>) p2" "known p2 \<subseteq> known p"
    "\<forall>tx \<in> known p2. isLocalTx E p tx \<or> price \<le> tx_GasPrice tx"
    "\<forall>tx \<in> known p - known p2. \<exists>d. tx_Hash d = tx_Hash tx \<and> \<not> isLocalTx E p d \<and> tx_GasPrice d < price"
    using SetGasPrice_law [OF assms] by blast
  have g: "tp_gasPrice p2 = price" using p2(3) by (simp add: same_setup_def)
  show ?thesis
    by (rule conjI, rule exI [of _ p1], intro conjI p1(1-3) q, rule exI [of _ p2], intro conjI p2(1,2,4-6) g)
qed

theorem evict_and_price_witness:
  "\<exists>p'. SetGasPrice small_env 50 small_pool = Some p' \<and> tp_gasPrice p' = 50 \<and> known p' = {}"
  using evict_and_price [OF small_env_ok small_pool_ok(1), of 0 50] small_pool_ok(2) by blast

text \<open>
  The heartbeat is set when a transaction of the account is promoted, and an account without one
  counts as having stopped at the zero time: what it queues is evicted at the next tick.
\<close>

lemma queued_only_accounts_expire:
  assumes "tp_beats p a = None" "\<not> as_contains (tp_locals p) a" "Lifetime (tp_config p) < now" "Lifetime (tp_config p) < 2 ^ 63 - 1"
  shows "expired now p a"
  using assms by (simp add: expired_def beat_def time_Sub_def)

section \<open>Scheduling\<close>

theorem scheduler_witness:
  "\<exists>runs s. sched_loop small_env [ReqPromote (newAccountSet [7]), QueueTx (demo_tx 0 100), ReqReset (Some old_head, Some new_head), RunDone]
       sched_init = Some (runs, Some s) \<and> length runs = 1 + (if sc_cur s then 1 else 0)
     \<and> slot small_env ` {demo_tx 0 100} = (\<Union>(_, _, ev) \<in> set runs. event_slots ev) \<union> event_slots (sc_events s)"
proof -
  let ?msgs = "[ReqPromote (newAccountSet [7]), QueueTx (demo_tx 0 100), ReqReset (Some old_head, Some new_head), RunDone]"
  have "sched_loop small_env ?msgs sched_init \<noteq> None \<and> (\<forall>runs. sched_loop small_env ?msgs sched_init \<noteq> Some (runs, None))"
    by (simp add: sched_next_def sched_recv_def sched_init_def Let_def)
  then obtain runs s where r: "sched_loop small_env ?msgs sched_init = Some (runs, Some s)" by force
  have d: "dones ?msgs = 1" by (simp add: dones_def)
  have q: "queued_by ?msgs = {demo_tx 0 100}" by (simp add: queued_by_def)
  note l = scheduler_loses_nothing [OF r]
  show ?thesis
    by (rule exI [of _ runs], rule exI [of _ s], intro conjI r)
      (use l in \<open>simp only: d q\<close>)+
qed

end
