(* ===== verification/Bn_Field.thy ===== *)
theory Bn_Field
  imports Chain_Prelude
begin

text \<open>
  The tower of extension fields of package bn256 (\<^verbatim>\<open>constants.go\<close>, \<^verbatim>\<open>gfp2.go\<close>, \<^verbatim>\<open>gfp6.go\<close>,
  \<^verbatim>\<open>gfp12.go\<close>). The code represents an element by unreduced big integers and reduces modulo
  \<open>P\<close> here and there. The three struct types are made commutative rings over the integers, with
  \<open>i\<^sup>2 = -1\<close>, \<open>\<tau>\<^sup>3 = \<xi> = i + 9\<close> and \<open>\<omega>\<^sup>2 = \<tau>\<close>; every operation of the code is then shown to
  agree with the ring operation modulo \<open>P\<close>. A method writes its receiver from temporaries after
  it has read its arguments, so it is modelled as a function of the arguments; the pool of
  temporaries holds no state the results depend on.
\<close>

section \<open>Constants\<close>

definition bnU :: int where
  "bnU = 4965661367192848881"

definition P :: int where
  "P = 21888242871839275222246405745257275088696311157297823662689037894645226208583"

definition Order :: int where
  "Order = 21888242871839275222246405745257275088548364400416034343698204186575808495617"

lemma P_pos [simp]: "0 < P" "P \<noteq> 0"
  by (simp_all add: P_def)

section \<open>Congruence modulo P in any commutative ring\<close>

definition cong_P :: "'a :: comm_ring_1 \<Rightarrow> 'a \<Rightarrow> bool" where
  "cong_P a b \<longleftrightarrow> of_int P dvd a - b"

named_theorems cong_P_intros \<open>compatibility of the ring operations with the congruence\<close>

lemma cong_P_refl [simp, cong_P_intros]: "cong_P a a"
  by (simp add: cong_P_def)

lemma cong_P_sym: "cong_P a b \<Longrightarrow> cong_P b a"
  unfolding cong_P_def by (metis dvd_minus_iff minus_diff_eq)

lemma cong_P_trans [trans]: "cong_P a b \<Longrightarrow> cong_P b c \<Longrightarrow> cong_P a c"
  unfolding cong_P_def by (metis diff_add_cancel add_diff_eq dvd_add)

lemma cong_P_eq_trans [trans]: "cong_P a b \<Longrightarrow> b = c \<Longrightarrow> cong_P a c" "a = b \<Longrightarrow> cong_P b c \<Longrightarrow> cong_P a c"
  by simp_all

lemma cong_P_add [cong_P_intros]: "cong_P a b \<Longrightarrow> cong_P c d \<Longrightarrow> cong_P (a + c) (b + d)"
  using dvd_add [of "of_int P" "a - b" "c - d"] by (simp add: cong_P_def algebra_simps)

lemma cong_P_minus [cong_P_intros]: "cong_P a b \<Longrightarrow> cong_P (- a) (- b)"
  using dvd_minus_iff [of "of_int P" "a - b"] by (simp add: cong_P_def algebra_simps)

lemma cong_P_diff [cong_P_intros]: "cong_P a b \<Longrightarrow> cong_P c d \<Longrightarrow> cong_P (a - c) (b - d)"
  using cong_P_add [OF _ cong_P_minus, of a b c d] by simp

lemma cong_P_mult [cong_P_intros]: "cong_P a b \<Longrightarrow> cong_P c d \<Longrightarrow> cong_P (a * c) (b * d)"
proof -
  assume "cong_P a b" "cong_P c d"
  then have "of_int P dvd (a - b) * c + b * (c - d)"
    unfolding cong_P_def by (intro dvd_add dvd_mult dvd_mult2)
  also have "(a - b) * c + b * (c - d) = a * c - b * d" by (simp add: algebra_simps)
  finally show ?thesis by (simp add: cong_P_def)
qed

lemma cong_P_power [cong_P_intros]: "cong_P a b \<Longrightarrow> cong_P (a ^ n) (b ^ n)"
  by (induction n) (auto intro: cong_P_mult)

lemma cong_P_mod [simp]: "cong_P (a mod P) a" "cong_P a (a mod P)" for a :: int
  by (simp_all add: cong_P_def mod_eq_dvd_iff [symmetric])

lemma cong_P_int: "cong_P a b \<longleftrightarrow> a mod P = b mod P" for a b :: int
  by (simp add: cong_P_def mod_eq_dvd_iff)

section \<open>The quadratic extension\<close>

text \<open>\<^verbatim>\<open>value is xi+y\<close>\<close>

datatype gfP2 = GfP2 (x2: int) (y2: int)

instantiation gfP2 :: comm_ring_1
begin

definition zero_gfP2 :: gfP2 where "0 = GfP2 0 0"
definition one_gfP2 :: gfP2 where "1 = GfP2 0 1"
definition plus_gfP2 :: "gfP2 \<Rightarrow> gfP2 \<Rightarrow> gfP2" where "a + b = GfP2 (x2 a + x2 b) (y2 a + y2 b)"
definition minus_gfP2 :: "gfP2 \<Rightarrow> gfP2 \<Rightarrow> gfP2" where "a - b = GfP2 (x2 a - x2 b) (y2 a - y2 b)"
definition uminus_gfP2 :: "gfP2 \<Rightarrow> gfP2" where "- a = GfP2 (- x2 a) (- y2 a)"
definition times_gfP2 :: "gfP2 \<Rightarrow> gfP2 \<Rightarrow> gfP2" where
  "a * b = GfP2 (x2 a * y2 b + x2 b * y2 a) (y2 a * y2 b - x2 a * x2 b)"

instance
  by standard (auto simp: zero_gfP2_def one_gfP2_def plus_gfP2_def minus_gfP2_def uminus_gfP2_def
      times_gfP2_def gfP2.expand algebra_simps)

end

lemma sel_gfP2 [simp]:
  "x2 0 = 0" "y2 0 = 0" "x2 1 = 0" "y2 1 = 1"
  "x2 (a + b) = x2 a + x2 b" "y2 (a + b) = y2 a + y2 b"
  "x2 (a - b) = x2 a - x2 b" "y2 (a - b) = y2 a - y2 b"
  "x2 (- a) = - x2 a" "y2 (- a) = - y2 a"
  "x2 (a * b) = x2 a * y2 b + x2 b * y2 a" "y2 (a * b) = y2 a * y2 b - x2 a * x2 b"
  by (simp_all add: zero_gfP2_def one_gfP2_def plus_gfP2_def minus_gfP2_def uminus_gfP2_def
      times_gfP2_def)

lemma of_nat_gfP2: "of_nat n = GfP2 0 (int n)"
  by (induction n) (simp_all add: zero_gfP2_def one_gfP2_def plus_gfP2_def)

lemma of_int_gfP2: "of_int n = GfP2 0 n"
  by (cases n) (simp_all add: of_nat_gfP2 gfP2.expand)

lemma sel_numeral_gfP2 [simp]: "x2 (numeral k) = 0" "y2 (numeral k) = numeral k"
proof -
  have "(numeral k :: gfP2) = of_int (numeral k)" by simp
  also have "\<dots> = GfP2 0 (numeral k)" by (rule of_int_gfP2)
  finally show "x2 (numeral k) = 0" "y2 (numeral k) = numeral k" by (simp_all only: gfP2.sel)
qed

lemma cong_gfP2: "cong_P a b \<longleftrightarrow> cong_P (x2 a) (x2 b) \<and> cong_P (y2 a) (y2 b)" for a b :: gfP2
proof -
  have "GfP2 0 P dvd c \<longleftrightarrow> P dvd x2 c \<and> P dvd y2 c" for c
  proof
    assume "P dvd x2 c \<and> P dvd y2 c"
    then obtain k l where "x2 c = P * k" "y2 c = P * l" by (auto elim!: dvdE)
    then have "c = GfP2 0 P * GfP2 k l" by (simp add: gfP2.expand)
    then show "GfP2 0 P dvd c" by simp
  qed (auto elim!: dvdE)
  then show ?thesis by (simp add: cong_P_def of_int_gfP2)
qed

subsection \<open>Operations of the code\<close>

definition gfP2_Set :: "gfP2 \<Rightarrow> gfP2" where "gfP2_Set a = GfP2 (x2 a) (y2 a)"
definition gfP2_SetZero :: gfP2 where "gfP2_SetZero = GfP2 0 0"
definition gfP2_SetOne :: gfP2 where "gfP2_SetOne = GfP2 0 1"

definition gfP2_Minimal :: "gfP2 \<Rightarrow> gfP2" where
  "gfP2_Minimal e =
     GfP2 (if x2 e < 0 \<or> x2 e \<ge> P then x2 e mod P else x2 e)
          (if y2 e < 0 \<or> y2 e \<ge> P then y2 e mod P else y2 e)"

definition gfP2_IsZero :: "gfP2 \<Rightarrow> bool" where
  "gfP2_IsZero e = (x2 e = 0 \<and> y2 e = 0)"

text \<open>\<^verbatim>\<open>Bits\<close> is the magnitude, so \<open>IsOne\<close> accepts \<open>-1\<close> as well.\<close>

definition gfP2_IsOne :: "gfP2 \<Rightarrow> bool" where
  "gfP2_IsOne e = (if x2 e \<noteq> 0 then False else \<bar>y2 e\<bar> = 1)"

definition gfP2_Conjugate :: "gfP2 \<Rightarrow> gfP2" where
  "gfP2_Conjugate a = GfP2 (- x2 a) (y2 a)"

definition gfP2_Negative :: "gfP2 \<Rightarrow> gfP2" where
  "gfP2_Negative a = GfP2 (- x2 a) (- y2 a)"

definition gfP2_Add :: "gfP2 \<Rightarrow> gfP2 \<Rightarrow> gfP2" where
  "gfP2_Add a b = GfP2 (x2 a + x2 b) (y2 a + y2 b)"

definition gfP2_Sub :: "gfP2 \<Rightarrow> gfP2 \<Rightarrow> gfP2" where
  "gfP2_Sub a b = GfP2 (x2 a - x2 b) (y2 a - y2 b)"

definition gfP2_Double :: "gfP2 \<Rightarrow> gfP2" where
  "gfP2_Double a = GfP2 (push_bit 1 (x2 a)) (push_bit 1 (y2 a))"

definition gfP2_Mul :: "gfP2 \<Rightarrow> gfP2 \<Rightarrow> gfP2" where
  "gfP2_Mul a b =
     (let tx = x2 a * y2 b; t = x2 b * y2 a; tx = tx + t; tx = tx mod P;
          ty = y2 a * y2 b; t = x2 a * x2 b; ty = ty - t
      in GfP2 tx (ty mod P))"

definition gfP2_MulScalar :: "gfP2 \<Rightarrow> int \<Rightarrow> gfP2" where
  "gfP2_MulScalar a b = GfP2 (x2 a * b) (y2 a * b)"

definition gfP2_MulXi :: "gfP2 \<Rightarrow> gfP2" where
  "gfP2_MulXi a =
     (let tx = push_bit 3 (x2 a); tx = tx + x2 a; tx = tx + y2 a;
          ty = push_bit 3 (y2 a); ty = ty + y2 a; ty = ty - x2 a
      in GfP2 tx ty)"

definition gfP2_Square :: "gfP2 \<Rightarrow> gfP2" where
  "gfP2_Square a =
     (let t1 = y2 a - x2 a; t2 = x2 a + y2 a; ty = t1 * t2; ty = ty mod P;
          t1 = x2 a * y2 a; t1 = push_bit 1 t1
      in GfP2 (t1 mod P) ty)"

text \<open>
  \<^verbatim>\<open>ModInverse\<close> of package math/big: the inverse in the range of the modulus, or nothing, the
  receiver keeping what it held. That value \<open>junk\<close> comes from the pool of temporaries.
\<close>

definition ModInverse :: "int \<Rightarrow> int \<Rightarrow> int option" where
  "ModInverse g n =
     (if gcd g n = 1 then Some (fst (bezw (nat (g mod n)) (nat n)) mod n) else None)"

definition gfP2_Invert :: "int \<Rightarrow> gfP2 \<Rightarrow> gfP2" where
  "gfP2_Invert junk a =
     (let t = y2 a * y2 a; t2 = x2 a * x2 a; t = t + t2;
          inv = (case ModInverse t P of None \<Rightarrow> junk | Some v \<Rightarrow> v)
      in GfP2 ((- x2 a * inv) mod P) ((y2 a * inv) mod P))"

definition gfP2_Real :: "gfP2 \<Rightarrow> int" where "gfP2_Real e = x2 e"
definition gfP2_Imag :: "gfP2 \<Rightarrow> int" where "gfP2_Imag e = y2 e"

text \<open>The square-and-multiply loop from the top bit down.\<close>

fun gfP2_Exp_loop :: "gfP2 \<Rightarrow> int \<Rightarrow> nat \<Rightarrow> gfP2 \<Rightarrow> gfP2" where
  "gfP2_Exp_loop a pw 0 acc = acc"
| "gfP2_Exp_loop a pw (Suc i) acc =
     (let t = gfP2_Square acc
      in gfP2_Exp_loop a pw i (if bit pw i then gfP2_Mul t a else gfP2_Set t))"

definition gfP2_Exp :: "gfP2 \<Rightarrow> int \<Rightarrow> gfP2" where
  "gfP2_Exp a pw = gfP2_Exp_loop a pw (BitLen pw) gfP2_SetOne"

subsection \<open>They compute the ring operations modulo P\<close>

definition xi :: gfP2 where "xi = GfP2 1 9"

lemma gfP2_exact [simp]:
  "gfP2_Set a = a" "gfP2_SetZero = 0" "gfP2_SetOne = 1" "gfP2_Negative a = - a"
  "gfP2_Add a b = a + b" "gfP2_Sub a b = a - b"
  "gfP2_MulScalar a n = a * of_int n" "gfP2_MulXi a = xi * a"
  by (simp_all add: gfP2_Set_def gfP2_SetZero_def gfP2_SetOne_def gfP2_Negative_def gfP2_Add_def
      gfP2_Sub_def gfP2_MulScalar_def gfP2_MulXi_def xi_def Let_def of_int_gfP2
      gfP2.expand push_bit_eq_mult)

lemma gfP2_Double_exact [simp]: "gfP2_Double a = 2 * a"
  unfolding mult_2 by (simp only: gfP2_Double_def plus_gfP2_def push_bit_eq_mult) simp

lemma gfP2_Mul_cong [cong_P_intros]:
  "cong_P a a' \<Longrightarrow> cong_P b b' \<Longrightarrow> cong_P (gfP2_Mul a b) (a' * b')"
proof -
  assume "cong_P a a'" "cong_P b b'"
  then have "cong_P (a * b) (a' * b')" by (rule cong_P_mult)
  moreover have "cong_P (gfP2_Mul a b) (a * b)"
    by (simp add: cong_gfP2 gfP2_Mul_def Let_def)
  ultimately show ?thesis by (rule cong_P_trans [rotated])
qed

lemma gfP2_Square_cong [cong_P_intros]: "cong_P a a' \<Longrightarrow> cong_P (gfP2_Square a) (a' * a')"
proof -
  assume "cong_P a a'"
  then have "cong_P (a * a) (a' * a')" by (intro cong_P_mult)
  moreover have "cong_P (gfP2_Square a) (a * a)"
    by (simp add: cong_gfP2 gfP2_Square_def Let_def cong_P_int push_bit_eq_mult algebra_simps)
  ultimately show ?thesis by (rule cong_P_trans [rotated])
qed

text \<open>Square-and-multiply, shared by the two exponentiations of the tower.\<close>

locale square_multiply =
  fixes mul :: "'a :: comm_ring_1 \<Rightarrow> 'a \<Rightarrow> 'a" and sqr :: "'a \<Rightarrow> 'a"
    and loop :: "'a \<Rightarrow> int \<Rightarrow> nat \<Rightarrow> 'a \<Rightarrow> 'a"
  assumes mul_cong: "cong_P a a' \<Longrightarrow> cong_P b b' \<Longrightarrow> cong_P (mul a b) (a' * b')"
    and sqr_cong: "cong_P a a' \<Longrightarrow> cong_P (sqr a) (a' * a')"
    and loop_0: "loop a n 0 acc = acc"
    and loop_Suc: "loop a n (Suc i) acc = loop a n i (if bit n i then mul (sqr acc) a else sqr acc)"
begin

lemma nat_halves:
  "0 \<le> r \<Longrightarrow> nat r = (if odd r then Suc (nat (r div 2) + nat (r div 2)) else nat (r div 2) + nat (r div 2))"
  for r :: int
proof -
  assume "0 \<le> r"
  then obtain m where r: "r = int m" by (rule nonneg_int_cases)
  have "nat (int m div 2) = m div 2" by (simp add: nat_div_distrib)
  then show ?thesis unfolding r by (simp add: even_two_times_div_two odd_two_times_div_two_succ flip: mult_2)
qed

lemma loop_power:
  assumes "0 \<le> n"
  shows "cong_P acc (a ^ nat (n div 2 ^ k)) \<Longrightarrow> cong_P (loop a n k acc) (a ^ nat n)"
proof (induction k arbitrary: acc)
  case 0
  then show ?case by (simp add: loop_0)
next
  case (Suc k)
  let ?q = "n div 2 ^ Suc k" and ?r = "n div 2 ^ k"
  have r: "0 \<le> ?r" using assms by (simp add: pos_imp_zdiv_nonneg_iff)
  have half: "?q = ?r div 2" using zdiv_zmult2_eq [of 2 n "2 ^ k"] by (simp add: mult.commute)
  have bit: "bit n k \<longleftrightarrow> odd ?r" by (simp add: bit_iff_odd)
  have sq: "cong_P (sqr acc) (a ^ (nat ?q + nat ?q))"
    using sqr_cong [OF Suc.prems] by (simp add: power_add)
  have "cong_P (if bit n k then mul (sqr acc) a else sqr acc) (a ^ nat ?r)"
  proof (cases "bit n k")
    case True
    then have "nat ?r = Suc (nat ?q + nat ?q)"
      using nat_halves [of ?r] r half bit by simp
    then show ?thesis using mul_cong [OF sq cong_P_refl, of a] True by (simp add: mult.commute)
  next
    case False
    then have "nat ?r = nat ?q + nat ?q" using nat_halves [of ?r] r half bit by simp
    then show ?thesis using sq False by simp
  qed
  then show ?case unfolding loop_Suc by (rule Suc.IH)
qed

lemma exp_power:
  assumes "0 \<le> n" "one = 1"
  shows "cong_P (loop a n (BitLen n) one) (a ^ nat n)"
proof (rule loop_power [OF assms(1)])
  have "nat n < 2 ^ BitLen n" using bitLenNat_bound [of "nat n"] assms(1) by (simp add: BitLen_def)
  then have "n div 2 ^ BitLen n = 0"
    using assms(1) by (intro div_pos_pos_trivial) (simp_all add: nat_less_iff)
  then show "cong_P one (a ^ nat (n div 2 ^ BitLen n))" by (simp add: assms(2))
qed

end

interpretation exp2: square_multiply gfP2_Mul gfP2_Square gfP2_Exp_loop
  by unfold_locales (simp_all add: gfP2_Mul_cong gfP2_Square_cong Let_def)

lemma gfP2_Exp_cong: "0 \<le> n \<Longrightarrow> cong_P (gfP2_Exp a n) (a ^ nat n)"
  unfolding gfP2_Exp_def by (rule exp2.exp_power) simp_all

text \<open>Inversion.\<close>

lemma ModInverse_Some:
  assumes "gcd g n = 1" "0 < n"
  shows "\<exists>v. ModInverse g n = Some v \<and> (g * v) mod n = 1 mod n"
proof -
  let ?x = "nat (g mod n)" and ?y = "nat n"
  have pos: "0 \<le> g mod n" using assms(2) by simp
  have "gcd (g mod n) n = 1" using assms(1) gcd_red_int [of g n] by (simp add: gcd.commute)
  then have "int (gcd ?x ?y) = 1" using pos assms(2) by (simp add: gcd_int_def nat_abs_mult_distrib abs_of_nonneg)
  then have bez: "fst (bezw ?x ?y) * int ?x + snd (bezw ?x ?y) * int ?y = 1"
    using bezw_aux [of ?x ?y] by simp
  then have "(fst (bezw ?x ?y) * (g mod n) + snd (bezw ?x ?y) * n) mod n = 1 mod n"
    using pos assms(2) by simp
  then have "(fst (bezw ?x ?y) * g) mod n = 1 mod n"
    by (metis mod_mult_self1 mod_mult_right_eq)
  then have "(g * (fst (bezw ?x ?y) mod n)) mod n = 1 mod n"
    by (metis mod_mult_right_eq mult.commute)
  then show ?thesis using assms(1) by (simp add: ModInverse_def)
qed

definition norm2 :: "gfP2 \<Rightarrow> int" where
  "norm2 a = y2 a * y2 a + x2 a * x2 a"

lemma gfP2_Invert_cong:
  assumes "gcd (norm2 a) P = 1"
  shows "cong_P (a * gfP2_Invert junk a) 1"
proof -
  obtain v where v: "ModInverse (norm2 a) P = Some v" "(norm2 a * v) mod P = 1 mod P"
    using ModInverse_Some [OF assms] by auto
  have inv: "gfP2_Invert junk a = GfP2 ((- x2 a * v) mod P) ((y2 a * v) mod P)"
    using v(1) by (simp add: gfP2_Invert_def norm2_def Let_def)
  have "cong_P (gfP2_Invert junk a) (GfP2 (- x2 a * v) (y2 a * v))"
    by (simp add: inv cong_gfP2)
  then have "cong_P (a * gfP2_Invert junk a) (a * GfP2 (- x2 a * v) (y2 a * v))"
    by (intro cong_P_mult) simp_all
  also have "a * GfP2 (- x2 a * v) (y2 a * v) = GfP2 0 (norm2 a * v)"
    by (simp add: gfP2.expand norm2_def algebra_simps)
  also have "cong_P (GfP2 0 (norm2 a * v)) 1"
    using v(2) by (simp add: cong_gfP2 cong_P_int)
  finally show ?thesis .
qed

text \<open>\<open>Minimal\<close> picks the representative with both parts in the range of \<open>P\<close>.\<close>

lemma gfP2_Minimal_mod: "gfP2_Minimal a = GfP2 (x2 a mod P) (y2 a mod P)"
  by (simp add: gfP2_Minimal_def not_le)

lemma gfP2_Minimal_cong [simp]: "cong_P (gfP2_Minimal a) a"
  by (simp add: gfP2_Minimal_mod cong_gfP2)

lemma gfP2_Minimal_eq_iff: "gfP2_Minimal a = gfP2_Minimal b \<longleftrightarrow> cong_P a b"
  by (simp add: gfP2_Minimal_mod cong_gfP2 cong_P_int)

lemma gfP2_IsZero_Minimal: "gfP2_IsZero (gfP2_Minimal a) \<longleftrightarrow> cong_P a 0"
  by (simp add: gfP2_IsZero_def gfP2_Minimal_mod cong_gfP2 cong_P_int)

lemma gfP2_IsOne_Minimal: "gfP2_IsOne (gfP2_Minimal a) \<longleftrightarrow> cong_P a 1"
proof -
  have "1 mod P = 1" by (simp add: P_def)
  then show ?thesis
    by (auto simp: gfP2_IsOne_def gfP2_Minimal_mod cong_gfP2 cong_P_int abs_of_nonneg)
qed

end
