(* ===== verification/Bn_Tower.thy ===== *)
theory Bn_Tower
  imports Bn_Field
begin

text \<open>
  The cubic and the quadratic extension above \<open>gfP2\<close> (\<^verbatim>\<open>gfp6.go\<close>, \<^verbatim>\<open>gfp12.go\<close>) and the Frobenius
  constants of \<^verbatim>\<open>constants.go\<close>. The struct types are the rings in \<open>\<tau>\<close> with \<open>\<tau>\<^sup>3 = \<xi>\<close> and in \<open>\<omega>\<close>
  with \<open>\<omega>\<^sup>2 = \<tau>\<close>; the code's Karatsuba multiplications, complex squarings, inversions and
  exponentiation are shown to agree with the ring operations modulo \<open>P\<close>.
\<close>

section \<open>The cubic extension\<close>

text \<open>\<^verbatim>\<open>value is x\<tau>\<close>\<open>\<^sup>2\<close>\<^verbatim>\<open> + y\<tau> + z\<close>\<close>

datatype gfP6 = GfP6 (x6: gfP2) (y6: gfP2) (z6: gfP2)

instantiation gfP6 :: comm_ring_1
begin

definition zero_gfP6 :: gfP6 where "0 = GfP6 0 0 0"
definition one_gfP6 :: gfP6 where "1 = GfP6 0 0 1"
definition plus_gfP6 :: "gfP6 \<Rightarrow> gfP6 \<Rightarrow> gfP6" where
  "a + b = GfP6 (x6 a + x6 b) (y6 a + y6 b) (z6 a + z6 b)"
definition minus_gfP6 :: "gfP6 \<Rightarrow> gfP6 \<Rightarrow> gfP6" where
  "a - b = GfP6 (x6 a - x6 b) (y6 a - y6 b) (z6 a - z6 b)"
definition uminus_gfP6 :: "gfP6 \<Rightarrow> gfP6" where
  "- a = GfP6 (- x6 a) (- y6 a) (- z6 a)"
definition times_gfP6 :: "gfP6 \<Rightarrow> gfP6 \<Rightarrow> gfP6" where
  "a * b = GfP6 (x6 a * z6 b + y6 a * y6 b + z6 a * x6 b)
                (y6 a * z6 b + z6 a * y6 b + xi * (x6 a * x6 b))
                (z6 a * z6 b + xi * (x6 a * y6 b + y6 a * x6 b))"

instance
  by standard (auto simp: zero_gfP6_def one_gfP6_def plus_gfP6_def minus_gfP6_def uminus_gfP6_def
      times_gfP6_def gfP6.expand algebra_simps)

end

lemma sel_gfP6 [simp]:
  "x6 0 = 0" "y6 0 = 0" "z6 0 = 0" "x6 1 = 0" "y6 1 = 0" "z6 1 = 1"
  "x6 (a + b) = x6 a + x6 b" "y6 (a + b) = y6 a + y6 b" "z6 (a + b) = z6 a + z6 b"
  "x6 (a - b) = x6 a - x6 b" "y6 (a - b) = y6 a - y6 b" "z6 (a - b) = z6 a - z6 b"
  "x6 (- a) = - x6 a" "y6 (- a) = - y6 a" "z6 (- a) = - z6 a"
  "x6 (a * b) = x6 a * z6 b + y6 a * y6 b + z6 a * x6 b"
  "y6 (a * b) = y6 a * z6 b + z6 a * y6 b + xi * (x6 a * x6 b)"
  "z6 (a * b) = z6 a * z6 b + xi * (x6 a * y6 b + y6 a * x6 b)"
  by (simp_all add: zero_gfP6_def one_gfP6_def plus_gfP6_def minus_gfP6_def uminus_gfP6_def
      times_gfP6_def)

lemma of_nat_gfP6: "of_nat n = GfP6 0 0 (of_nat n)"
  by (induction n) (simp_all add: zero_gfP6_def one_gfP6_def plus_gfP6_def)

lemma of_int_gfP6: "of_int n = GfP6 0 0 (of_int n)"
  by (cases n) (simp_all add: of_nat_gfP6 gfP6.expand)

lemma cong_gfP6:
  "cong_P a b \<longleftrightarrow> cong_P (x6 a) (x6 b) \<and> cong_P (y6 a) (y6 b) \<and> cong_P (z6 a) (z6 b)" for a b :: gfP6
proof -
  let ?p = "of_int P :: gfP2"
  have "GfP6 0 0 ?p dvd c \<longleftrightarrow> ?p dvd x6 c \<and> ?p dvd y6 c \<and> ?p dvd z6 c" for c
  proof
    assume "?p dvd x6 c \<and> ?p dvd y6 c \<and> ?p dvd z6 c"
    then obtain k l m where "x6 c = ?p * k" "y6 c = ?p * l" "z6 c = ?p * m" by (auto elim!: dvdE)
    then have "c = GfP6 0 0 ?p * GfP6 k l m" by (simp add: gfP6.expand)
    then show "GfP6 0 0 ?p dvd c" by simp
  qed (auto elim!: dvdE)
  then show ?thesis by (simp add: cong_P_def of_int_gfP6)
qed

subsection \<open>Operations of the code\<close>

definition xiToPMinus1Over6 :: gfP2 where
  "xiToPMinus1Over6 =
     GfP2 16469823323077808223889137241176536799009286646108169935659301613961712198316
          8376118865763821496583973867626364092589906065868298776909617916018768340080"

definition xiToPMinus1Over3 :: gfP2 where
  "xiToPMinus1Over3 =
     GfP2 10307601595873709700152284273816112264069230130616436755625194854815875713954
          21575463638280843010398324269430826099269044274347216827212613867836435027261"

definition xiToPMinus1Over2 :: gfP2 where
  "xiToPMinus1Over2 =
     GfP2 3505843767911556378687030309984248845540243509899259641013678093033130930403
          2821565182194536844548159561693502659359617185244120367078079554186484126554"

definition xiToPSquaredMinus1Over3 :: int where
  "xiToPSquaredMinus1Over3 =
     21888242871839275220042445260109153167277707414472061641714758635765020556616"

definition xiTo2PSquaredMinus2Over3 :: int where
  "xiTo2PSquaredMinus2Over3 = 2203960485148121921418603742825762020974279258880205651966"

definition xiToPSquaredMinus1Over6 :: int where
  "xiToPSquaredMinus1Over6 =
     21888242871839275220042445260109153167277707414472061641714758635765020556617"

definition xiTo2PMinus2Over3 :: gfP2 where
  "xiTo2PMinus2Over3 =
     GfP2 19937756971775647987995932169929341994314640652964949448313374472400716661030
          2581911344467009335267311115468803099551665605076196740867805258568234346338"

definition gfP6_Set :: "gfP6 \<Rightarrow> gfP6" where
  "gfP6_Set a = GfP6 (gfP2_Set (x6 a)) (gfP2_Set (y6 a)) (gfP2_Set (z6 a))"

definition gfP6_SetZero :: gfP6 where
  "gfP6_SetZero = GfP6 gfP2_SetZero gfP2_SetZero gfP2_SetZero"

definition gfP6_SetOne :: gfP6 where
  "gfP6_SetOne = GfP6 gfP2_SetZero gfP2_SetZero gfP2_SetOne"

definition gfP6_Minimal :: "gfP6 \<Rightarrow> gfP6" where
  "gfP6_Minimal e = GfP6 (gfP2_Minimal (x6 e)) (gfP2_Minimal (y6 e)) (gfP2_Minimal (z6 e))"

definition gfP6_IsZero :: "gfP6 \<Rightarrow> bool" where
  "gfP6_IsZero e = (gfP2_IsZero (x6 e) \<and> gfP2_IsZero (y6 e) \<and> gfP2_IsZero (z6 e))"

definition gfP6_IsOne :: "gfP6 \<Rightarrow> bool" where
  "gfP6_IsOne e = (gfP2_IsZero (x6 e) \<and> gfP2_IsZero (y6 e) \<and> gfP2_IsOne (z6 e))"

definition gfP6_Negative :: "gfP6 \<Rightarrow> gfP6" where
  "gfP6_Negative a = GfP6 (gfP2_Negative (x6 a)) (gfP2_Negative (y6 a)) (gfP2_Negative (z6 a))"

definition gfP6_Frobenius :: "gfP6 \<Rightarrow> gfP6" where
  "gfP6_Frobenius a =
     (let x = gfP2_Conjugate (x6 a); y = gfP2_Conjugate (y6 a); z = gfP2_Conjugate (z6 a)
      in GfP6 (gfP2_Mul x xiTo2PMinus2Over3) (gfP2_Mul y xiToPMinus1Over3) z)"

definition gfP6_FrobeniusP2 :: "gfP6 \<Rightarrow> gfP6" where
  "gfP6_FrobeniusP2 a =
     GfP6 (gfP2_MulScalar (x6 a) xiTo2PSquaredMinus2Over3)
          (gfP2_MulScalar (y6 a) xiToPSquaredMinus1Over3) (gfP2_Set (z6 a))"

definition gfP6_Add :: "gfP6 \<Rightarrow> gfP6 \<Rightarrow> gfP6" where
  "gfP6_Add a b = GfP6 (gfP2_Add (x6 a) (x6 b)) (gfP2_Add (y6 a) (y6 b)) (gfP2_Add (z6 a) (z6 b))"

definition gfP6_Sub :: "gfP6 \<Rightarrow> gfP6 \<Rightarrow> gfP6" where
  "gfP6_Sub a b = GfP6 (gfP2_Sub (x6 a) (x6 b)) (gfP2_Sub (y6 a) (y6 b)) (gfP2_Sub (z6 a) (z6 b))"

definition gfP6_Double :: "gfP6 \<Rightarrow> gfP6" where
  "gfP6_Double a = GfP6 (gfP2_Double (x6 a)) (gfP2_Double (y6 a)) (gfP2_Double (z6 a))"

definition gfP6_Mul :: "gfP6 \<Rightarrow> gfP6 \<Rightarrow> gfP6" where
  "gfP6_Mul a b =
     (let v0 = gfP2_Mul (z6 a) (z6 b);
          v1 = gfP2_Mul (y6 a) (y6 b);
          v2 = gfP2_Mul (x6 a) (x6 b);
          t0 = gfP2_Add (x6 a) (y6 a);
          t1 = gfP2_Add (x6 b) (y6 b);
          tz = gfP2_Mul t0 t1;
          tz = gfP2_Sub tz v1;
          tz = gfP2_Sub tz v2;
          tz = gfP2_MulXi tz;
          tz = gfP2_Add tz v0;
          t0 = gfP2_Add (y6 a) (z6 a);
          t1 = gfP2_Add (y6 b) (z6 b);
          ty = gfP2_Mul t0 t1;
          ty = gfP2_Sub ty v0;
          ty = gfP2_Sub ty v1;
          t0 = gfP2_MulXi v2;
          ty = gfP2_Add ty t0;
          t0 = gfP2_Add (x6 a) (z6 a);
          t1 = gfP2_Add (x6 b) (z6 b);
          tx = gfP2_Mul t0 t1;
          tx = gfP2_Sub tx v0;
          tx = gfP2_Add tx v1;
          tx = gfP2_Sub tx v2
      in GfP6 tx ty tz)"

definition gfP6_MulScalar :: "gfP6 \<Rightarrow> gfP2 \<Rightarrow> gfP6" where
  "gfP6_MulScalar a b = GfP6 (gfP2_Mul (x6 a) b) (gfP2_Mul (y6 a) b) (gfP2_Mul (z6 a) b)"

definition gfP6_MulGFP :: "gfP6 \<Rightarrow> int \<Rightarrow> gfP6" where
  "gfP6_MulGFP a b =
     GfP6 (gfP2_MulScalar (x6 a) b) (gfP2_MulScalar (y6 a) b) (gfP2_MulScalar (z6 a) b)"

definition gfP6_MulTau :: "gfP6 \<Rightarrow> gfP6" where
  "gfP6_MulTau a =
     (let tz = gfP2_MulXi (x6 a); ty = gfP2_Set (y6 a)
      in GfP6 (gfP2_Set ty) (gfP2_Set (z6 a)) (gfP2_Set tz))"

definition gfP6_Square :: "gfP6 \<Rightarrow> gfP6" where
  "gfP6_Square a =
     (let v0 = gfP2_Square (z6 a); v1 = gfP2_Square (y6 a); v2 = gfP2_Square (x6 a);
          c0 = gfP2_Add (x6 a) (y6 a);
          c0 = gfP2_Square c0;
          c0 = gfP2_Sub c0 v1;
          c0 = gfP2_Sub c0 v2;
          c0 = gfP2_MulXi c0;
          c0 = gfP2_Add c0 v0;
          c1 = gfP2_Add (y6 a) (z6 a);
          c1 = gfP2_Square c1;
          c1 = gfP2_Sub c1 v0;
          c1 = gfP2_Sub c1 v1;
          xiV2 = gfP2_MulXi v2;
          c1 = gfP2_Add c1 xiV2;
          c2 = gfP2_Add (x6 a) (z6 a);
          c2 = gfP2_Square c2;
          c2 = gfP2_Sub c2 v0;
          c2 = gfP2_Add c2 v1;
          c2 = gfP2_Sub c2 v2
      in GfP6 c2 c1 c0)"

definition gfP6_Invert :: "int \<Rightarrow> gfP6 \<Rightarrow> gfP6" where
  "gfP6_Invert junk a =
     (let A = gfP2_Square (z6 a);
          t1 = gfP2_Mul (x6 a) (y6 a);
          t1 = gfP2_MulXi t1;
          A = gfP2_Sub A t1;
          B = gfP2_Square (x6 a);
          B = gfP2_MulXi B;
          t1 = gfP2_Mul (y6 a) (z6 a);
          B = gfP2_Sub B t1;
          C = gfP2_Square (y6 a);
          t1 = gfP2_Mul (x6 a) (z6 a);
          C = gfP2_Sub C t1;
          F = gfP2_Mul C (y6 a);
          F = gfP2_MulXi F;
          t1 = gfP2_Mul A (z6 a);
          F = gfP2_Add F t1;
          t1 = gfP2_Mul B (x6 a);
          t1 = gfP2_MulXi t1;
          F = gfP2_Add F t1;
          F = gfP2_Invert junk F
      in GfP6 (gfP2_Mul C F) (gfP2_Mul B F) (gfP2_Mul A F))"

subsection \<open>They compute the ring operations modulo P\<close>

definition tau :: gfP6 where "tau = GfP6 0 1 0"

definition embed6 :: "gfP2 \<Rightarrow> gfP6" where "embed6 b = GfP6 0 0 b"

lemma gfP6_exact [simp]:
  "gfP6_Set a = a" "gfP6_SetZero = 0" "gfP6_SetOne = 1" "gfP6_Negative a = - a"
  "gfP6_Add a b = a + b" "gfP6_Sub a b = a - b" "gfP6_MulGFP a n = a * of_int n"
  "gfP6_MulTau a = tau * a"
  by (simp_all add: gfP6_Set_def gfP6_SetZero_def gfP6_SetOne_def gfP6_Negative_def gfP6_Add_def
      gfP6_Sub_def gfP6_MulGFP_def gfP6_MulTau_def tau_def Let_def of_int_gfP6 gfP6.expand)

lemma gfP6_Double_exact [simp]: "gfP6_Double a = 2 * a"
  unfolding mult_2 by (simp only: gfP6_Double_def plus_gfP6_def gfP2_Double_exact mult_2)

lemma cong_P_xi [cong_P_intros]: "cong_P a b \<Longrightarrow> cong_P (xi * a) (xi * b)"
  by (intro cong_P_mult cong_P_refl)

lemma gfP6_Mul_self: "cong_P (gfP6_Mul a b) (a * b)"
proof -
  let ?v0 = "z6 a * z6 b" and ?v1 = "y6 a * y6 b" and ?v2 = "x6 a * x6 b"
  have "cong_P (gfP6_Mul a b)
      (GfP6 ((x6 a + z6 a) * (x6 b + z6 b) - ?v0 + ?v1 - ?v2)
            ((y6 a + z6 a) * (y6 b + z6 b) - ?v0 - ?v1 + xi * ?v2)
            (xi * ((x6 a + y6 a) * (x6 b + y6 b) - ?v1 - ?v2) + ?v0))"
    unfolding gfP6_Mul_def Let_def gfP2_exact cong_gfP6 gfP6.sel
    by (intro conjI cong_P_add cong_P_diff cong_P_xi gfP2_Mul_cong cong_P_refl)
  also have "\<dots> = a * b"
    by (simp add: gfP6.expand algebra_simps)
  finally show ?thesis .
qed

lemma gfP6_Mul_cong [cong_P_intros]:
  "cong_P a a' \<Longrightarrow> cong_P b b' \<Longrightarrow> cong_P (gfP6_Mul a b) (a' * b')"
  by (rule cong_P_trans [OF gfP6_Mul_self cong_P_mult])

lemma gfP6_Square_self: "cong_P (gfP6_Square a) (a * a)"
proof -
  let ?v0 = "z6 a * z6 a" and ?v1 = "y6 a * y6 a" and ?v2 = "x6 a * x6 a"
  have "cong_P (gfP6_Square a)
      (GfP6 ((x6 a + z6 a) * (x6 a + z6 a) - ?v0 + ?v1 - ?v2)
            ((y6 a + z6 a) * (y6 a + z6 a) - ?v0 - ?v1 + xi * ?v2)
            (xi * ((x6 a + y6 a) * (x6 a + y6 a) - ?v1 - ?v2) + ?v0))"
    unfolding gfP6_Square_def Let_def gfP2_exact cong_gfP6 gfP6.sel
    by (intro conjI cong_P_add cong_P_diff cong_P_xi gfP2_Square_cong cong_P_refl)
  also have "\<dots> = a * a"
    by (simp add: gfP6.expand algebra_simps)
  finally show ?thesis .
qed

lemma gfP6_Square_cong [cong_P_intros]: "cong_P a a' \<Longrightarrow> cong_P (gfP6_Square a) (a' * a')"
  by (rule cong_P_trans [OF gfP6_Square_self cong_P_mult])

lemma gfP6_MulScalar_cong [cong_P_intros]:
  "cong_P a a' \<Longrightarrow> cong_P b b' \<Longrightarrow> cong_P (gfP6_MulScalar a b) (a' * embed6 b')"
  by (simp add: cong_gfP6 gfP6_MulScalar_def embed6_def gfP2_Mul_cong)

text \<open>The norm to \<open>gfP2\<close>, as the comment in \<open>Invert\<close> derives it.\<close>

definition conj6 :: "gfP6 \<Rightarrow> gfP6" where
  "conj6 a = GfP6 (y6 a * y6 a - x6 a * z6 a) (xi * (x6 a * x6 a) - y6 a * z6 a)
                  (z6 a * z6 a - xi * (x6 a * y6 a))"

definition norm6 :: "gfP6 \<Rightarrow> gfP2" where
  "norm6 a = xi * (x6 (conj6 a) * y6 a) + z6 (conj6 a) * z6 a + xi * (y6 (conj6 a) * x6 a)"

lemma mult_conj6: "a * conj6 a = embed6 (norm6 a)"
  by (simp add: gfP6.expand embed6_def norm6_def conj6_def algebra_simps)

lemma norm2_cong: "cong_P a b \<Longrightarrow> cong_P (norm2 a) (norm2 b)"
  unfolding norm2_def by (simp add: cong_gfP2 cong_P_add cong_P_mult)

lemma gcd_cong_P: "cong_P a b \<Longrightarrow> gcd a P = gcd b P" for a b :: int
  by (metis cong_P_int gcd.commute gcd_red_int)

lemma gfP6_Invert_cong:
  assumes "gcd (norm2 (norm6 a)) P = 1"
  shows "cong_P (a * gfP6_Invert junk a) 1"
proof -
  define C B A where "C = gfP2_Sub (gfP2_Square (y6 a)) (gfP2_Mul (x6 a) (z6 a))"
    and "B = gfP2_Sub (gfP2_MulXi (gfP2_Square (x6 a))) (gfP2_Mul (y6 a) (z6 a))"
    and "A = gfP2_Sub (gfP2_Square (z6 a)) (gfP2_MulXi (gfP2_Mul (x6 a) (y6 a)))"
  define F where "F = gfP2_Add (gfP2_Add (gfP2_MulXi (gfP2_Mul C (y6 a))) (gfP2_Mul A (z6 a)))
    (gfP2_MulXi (gfP2_Mul B (x6 a)))"
  let ?i = "gfP2_Invert junk F"
  have inv: "gfP6_Invert junk a = GfP6 (gfP2_Mul C ?i) (gfP2_Mul B ?i) (gfP2_Mul A ?i)"
    by (simp only: gfP6_Invert_def Let_def C_def B_def A_def F_def)
  have abc: "cong_P C (x6 (conj6 a))" "cong_P B (y6 (conj6 a))" "cong_P A (z6 (conj6 a))"
    unfolding C_def B_def A_def conj6_def gfP6.sel gfP2_exact
    by (intro cong_P_diff cong_P_xi gfP2_Mul_cong gfP2_Square_cong cong_P_refl)+
  have F: "cong_P F (norm6 a)"
    unfolding F_def norm6_def gfP2_exact
    by (intro cong_P_add cong_P_xi gfP2_Mul_cong abc cong_P_refl)
  have "gcd (norm2 F) P = 1"
    using gcd_cong_P [OF norm2_cong [OF F]] assms by simp
  then have i: "cong_P (F * ?i) 1" by (rule gfP2_Invert_cong)
  have "cong_P (gfP6_Invert junk a) (conj6 a * embed6 ?i)"
    unfolding inv cong_gfP6 by (simp add: embed6_def gfP2_Mul_cong abc)
  then have "cong_P (a * gfP6_Invert junk a) (a * (conj6 a * embed6 ?i))"
    by (intro cong_P_mult cong_P_refl)
  also have "a * (conj6 a * embed6 ?i) = embed6 (norm6 a * ?i)"
    using mult_conj6 [of a] by (simp add: mult.assoc [symmetric] embed6_def gfP6.expand)
  also have "cong_P (embed6 (norm6 a * ?i)) 1"
    using cong_P_trans [OF cong_P_mult [OF cong_P_sym [OF F] cong_P_refl] i]
    by (simp add: cong_gfP6 embed6_def)
  finally show ?thesis .
qed

lemma gfP6_Minimal_cong [simp]: "cong_P (gfP6_Minimal a) a"
  by (simp add: gfP6_Minimal_def cong_gfP6)

lemma gfP6_Minimal_eq_iff: "gfP6_Minimal a = gfP6_Minimal b \<longleftrightarrow> cong_P a b"
  by (simp add: gfP6_Minimal_def cong_gfP6 gfP2_Minimal_eq_iff)

lemma gfP6_IsZero_Minimal: "gfP6_IsZero (gfP6_Minimal a) \<longleftrightarrow> cong_P a 0"
  by (simp add: gfP6_IsZero_def gfP6_Minimal_def cong_gfP6 gfP2_IsZero_Minimal)

lemma gfP6_IsOne_Minimal: "gfP6_IsOne (gfP6_Minimal a) \<longleftrightarrow> cong_P a 1"
  by (simp add: gfP6_IsOne_def gfP6_Minimal_def cong_gfP6 gfP2_IsZero_Minimal gfP2_IsOne_Minimal)

section \<open>The quadratic extension above it\<close>

text \<open>\<^verbatim>\<open>value is x\<omega> + y\<close>\<close>

datatype gfP12 = GfP12 (x12: gfP6) (y12: gfP6)

instantiation gfP12 :: comm_ring_1
begin

definition zero_gfP12 :: gfP12 where "0 = GfP12 0 0"
definition one_gfP12 :: gfP12 where "1 = GfP12 0 1"
definition plus_gfP12 :: "gfP12 \<Rightarrow> gfP12 \<Rightarrow> gfP12" where
  "a + b = GfP12 (x12 a + x12 b) (y12 a + y12 b)"
definition minus_gfP12 :: "gfP12 \<Rightarrow> gfP12 \<Rightarrow> gfP12" where
  "a - b = GfP12 (x12 a - x12 b) (y12 a - y12 b)"
definition uminus_gfP12 :: "gfP12 \<Rightarrow> gfP12" where
  "- a = GfP12 (- x12 a) (- y12 a)"
definition times_gfP12 :: "gfP12 \<Rightarrow> gfP12 \<Rightarrow> gfP12" where
  "a * b = GfP12 (x12 a * y12 b + x12 b * y12 a) (y12 a * y12 b + tau * (x12 a * x12 b))"

instance
  by standard (auto simp: zero_gfP12_def one_gfP12_def plus_gfP12_def minus_gfP12_def
      uminus_gfP12_def times_gfP12_def algebra_simps)

end

lemma sel_gfP12 [simp]:
  "x12 0 = 0" "y12 0 = 0" "x12 1 = 0" "y12 1 = 1"
  "x12 (a + b) = x12 a + x12 b" "y12 (a + b) = y12 a + y12 b"
  "x12 (a - b) = x12 a - x12 b" "y12 (a - b) = y12 a - y12 b"
  "x12 (- a) = - x12 a" "y12 (- a) = - y12 a"
  "x12 (a * b) = x12 a * y12 b + x12 b * y12 a"
  "y12 (a * b) = y12 a * y12 b + tau * (x12 a * x12 b)"
  by (simp_all add: zero_gfP12_def one_gfP12_def plus_gfP12_def minus_gfP12_def uminus_gfP12_def
      times_gfP12_def)

lemma of_nat_gfP12: "of_nat n = GfP12 0 (of_nat n)"
  by (induction n) (simp_all add: zero_gfP12_def one_gfP12_def plus_gfP12_def)

lemma of_int_gfP12: "of_int n = GfP12 0 (of_int n)"
  by (cases n) (simp_all add: of_nat_gfP12 gfP12.expand)

lemma cong_gfP12: "cong_P a b \<longleftrightarrow> cong_P (x12 a) (x12 b) \<and> cong_P (y12 a) (y12 b)" for a b :: gfP12
proof -
  let ?p = "of_int P :: gfP6"
  have "GfP12 0 ?p dvd c \<longleftrightarrow> ?p dvd x12 c \<and> ?p dvd y12 c" for c
  proof
    assume "?p dvd x12 c \<and> ?p dvd y12 c"
    then obtain k l where "x12 c = ?p * k" "y12 c = ?p * l" by (auto elim!: dvdE)
    then have "c = GfP12 0 ?p * GfP12 k l" by (simp add: gfP12.expand mult.commute)
    then show "GfP12 0 ?p dvd c" by simp
  qed (auto elim!: dvdE)
  then show ?thesis by (simp add: cong_P_def of_int_gfP12)
qed

subsection \<open>Operations of the code\<close>

definition gfP12_Set :: "gfP12 \<Rightarrow> gfP12" where
  "gfP12_Set a = GfP12 (gfP6_Set (x12 a)) (gfP6_Set (y12 a))"

definition gfP12_SetZero :: gfP12 where
  "gfP12_SetZero = GfP12 gfP6_SetZero gfP6_SetZero"

definition gfP12_SetOne :: gfP12 where
  "gfP12_SetOne = GfP12 gfP6_SetZero gfP6_SetOne"

definition gfP12_Minimal :: "gfP12 \<Rightarrow> gfP12" where
  "gfP12_Minimal e = GfP12 (gfP6_Minimal (x12 e)) (gfP6_Minimal (y12 e))"

text \<open>\<open>IsZero\<close> and \<open>IsOne\<close> reduce their receiver first; the result comes with it.\<close>

definition gfP12_IsZero :: "gfP12 \<Rightarrow> gfP12 \<times> bool" where
  "gfP12_IsZero e = (let e = gfP12_Minimal e in (e, gfP6_IsZero (x12 e) \<and> gfP6_IsZero (y12 e)))"

definition gfP12_IsOne :: "gfP12 \<Rightarrow> gfP12 \<times> bool" where
  "gfP12_IsOne e = (let e = gfP12_Minimal e in (e, gfP6_IsZero (x12 e) \<and> gfP6_IsOne (y12 e)))"

text \<open>\<open>Conjugate\<close> writes the conjugate to its receiver and returns its argument: both results.\<close>

definition gfP12_Conjugate :: "gfP12 \<Rightarrow> gfP12 \<times> gfP12" where
  "gfP12_Conjugate a = (GfP12 (gfP6_Negative (x12 a)) (gfP6_Set (y12 a)), a)"

definition gfP12_Negative :: "gfP12 \<Rightarrow> gfP12" where
  "gfP12_Negative a = GfP12 (gfP6_Negative (x12 a)) (gfP6_Negative (y12 a))"

definition gfP12_Frobenius :: "gfP12 \<Rightarrow> gfP12" where
  "gfP12_Frobenius a =
     (let x = gfP6_Frobenius (x12 a); y = gfP6_Frobenius (y12 a)
      in GfP12 (gfP6_MulScalar x xiToPMinus1Over6) y)"

definition gfP12_FrobeniusP2 :: "gfP12 \<Rightarrow> gfP12" where
  "gfP12_FrobeniusP2 a =
     (let x = gfP6_FrobeniusP2 (x12 a); x = gfP6_MulGFP x xiToPSquaredMinus1Over6
      in GfP12 x (gfP6_FrobeniusP2 (y12 a)))"

definition gfP12_Add :: "gfP12 \<Rightarrow> gfP12 \<Rightarrow> gfP12" where
  "gfP12_Add a b = GfP12 (gfP6_Add (x12 a) (x12 b)) (gfP6_Add (y12 a) (y12 b))"

definition gfP12_Sub :: "gfP12 \<Rightarrow> gfP12 \<Rightarrow> gfP12" where
  "gfP12_Sub a b = GfP12 (gfP6_Sub (x12 a) (x12 b)) (gfP6_Sub (y12 a) (y12 b))"

definition gfP12_Mul :: "gfP12 \<Rightarrow> gfP12 \<Rightarrow> gfP12" where
  "gfP12_Mul a b =
     (let tx = gfP6_Mul (x12 a) (y12 b);
          t = gfP6_Mul (x12 b) (y12 a);
          tx = gfP6_Add tx t;
          ty = gfP6_Mul (y12 a) (y12 b);
          t = gfP6_Mul (x12 a) (x12 b);
          t = gfP6_MulTau t
      in GfP12 (gfP6_Set tx) (gfP6_Add ty t))"

text \<open>\<open>MulScalar\<close> scales its receiver \<open>e\<close>; the argument \<open>a\<close> is not read.\<close>

definition gfP12_MulScalar :: "gfP12 \<Rightarrow> gfP12 \<Rightarrow> gfP6 \<Rightarrow> gfP12" where
  "gfP12_MulScalar e a b = GfP12 (gfP6_Mul (x12 e) b) (gfP6_Mul (y12 e) b)"

definition gfP12_Square :: "gfP12 \<Rightarrow> gfP12" where
  "gfP12_Square a =
     (let v0 = gfP6_Mul (x12 a) (y12 a);
          t = gfP6_MulTau (x12 a);
          t = gfP6_Add (y12 a) t;
          ty = gfP6_Add (x12 a) (y12 a);
          ty = gfP6_Mul ty t;
          ty = gfP6_Sub ty v0;
          t = gfP6_MulTau v0;
          ty = gfP6_Sub ty t
      in GfP12 (gfP6_Double v0) (gfP6_Set ty))"

fun gfP12_Exp_loop :: "gfP12 \<Rightarrow> int \<Rightarrow> nat \<Rightarrow> gfP12 \<Rightarrow> gfP12" where
  "gfP12_Exp_loop a pw 0 acc = acc"
| "gfP12_Exp_loop a pw (Suc i) acc =
     (let t = gfP12_Square acc
      in gfP12_Exp_loop a pw i (if bit pw i then gfP12_Mul t a else gfP12_Set t))"

definition gfP12_Exp :: "gfP12 \<Rightarrow> int \<Rightarrow> gfP12" where
  "gfP12_Exp a pw = gfP12_Exp_loop a pw (BitLen pw) gfP12_SetOne"

definition gfP12_Invert :: "int \<Rightarrow> gfP12 \<Rightarrow> gfP12" where
  "gfP12_Invert junk a =
     (let t1 = gfP6_Square (x12 a);
          t2 = gfP6_Square (y12 a);
          t1 = gfP6_MulTau t1;
          t1 = gfP6_Sub t2 t1;
          t2 = gfP6_Invert junk t1;
          e = GfP12 (gfP6_Negative (x12 a)) (gfP6_Set (y12 a))
      in gfP12_MulScalar e e t2)"

subsection \<open>They compute the ring operations modulo P\<close>

lemma gfP12_exact [simp]:
  "gfP12_Set a = a" "gfP12_SetZero = 0" "gfP12_SetOne = 1" "gfP12_Negative a = - a"
  "gfP12_Add a b = a + b" "gfP12_Sub a b = a - b"
  by (simp_all add: gfP12_Set_def gfP12_SetZero_def gfP12_SetOne_def gfP12_Negative_def
      gfP12_Add_def gfP12_Sub_def gfP12.expand)

lemma gfP12_Mul_self: "cong_P (gfP12_Mul a b) (a * b)"
  unfolding gfP12_Mul_def Let_def gfP6_exact cong_gfP12 gfP12.sel sel_gfP12
  by (intro conjI cong_P_add cong_P_mult [OF cong_P_refl] gfP6_Mul_cong cong_P_refl)

lemma gfP12_Mul_cong [cong_P_intros]:
  "cong_P a a' \<Longrightarrow> cong_P b b' \<Longrightarrow> cong_P (gfP12_Mul a b) (a' * b')"
  by (rule cong_P_trans [OF gfP12_Mul_self cong_P_mult])

lemma gfP12_Square_self: "cong_P (gfP12_Square a) (a * a)"
proof -
  let ?v = "x12 a * y12 a"
  have "cong_P (gfP12_Square a)
      (GfP12 (2 * ?v) ((x12 a + y12 a) * (y12 a + tau * x12 a) - ?v - tau * ?v))"
    unfolding gfP12_Square_def Let_def gfP6_exact gfP6_Double_exact cong_gfP12 gfP12.sel
    by (intro conjI cong_P_diff cong_P_mult [OF cong_P_refl] gfP6_Mul_cong cong_P_refl)
  also have "\<dots> = a * a"
    by (simp add: times_gfP12_def algebra_simps)
  finally show ?thesis .
qed

lemma gfP12_Square_cong [cong_P_intros]: "cong_P a a' \<Longrightarrow> cong_P (gfP12_Square a) (a' * a')"
  by (rule cong_P_trans [OF gfP12_Square_self cong_P_mult])

interpretation exp12: square_multiply gfP12_Mul gfP12_Square gfP12_Exp_loop
  by unfold_locales (simp_all add: gfP12_Mul_cong gfP12_Square_cong Let_def)

lemma gfP12_Exp_cong: "0 \<le> n \<Longrightarrow> cong_P (gfP12_Exp a n) (a ^ nat n)"
  unfolding gfP12_Exp_def by (rule exp12.exp_power) simp_all

definition norm12 :: "gfP12 \<Rightarrow> gfP6" where
  "norm12 a = y12 a * y12 a - tau * (x12 a * x12 a)"

lemma norm6_cong: "cong_P a b \<Longrightarrow> cong_P (norm6 a) (norm6 b)"
  unfolding norm6_def conj6_def gfP6.sel
  by (intro cong_P_intros) (auto simp: cong_gfP6)

text \<open>An element is invertible when its norm down to the integers is prime to \<open>P\<close>.\<close>

definition invertible12 :: "gfP12 \<Rightarrow> bool" where
  "invertible12 a \<longleftrightarrow> gcd (norm2 (norm6 (norm12 a))) P = 1"

lemma gfP12_Invert_cong:
  assumes "invertible12 a"
  shows "cong_P (a * gfP12_Invert junk a) 1"
proof -
  define t where "t = gfP6_Sub (gfP6_Square (y12 a)) (gfP6_MulTau (gfP6_Square (x12 a)))"
  let ?i = "gfP6_Invert junk t"
  have inv: "gfP12_Invert junk a = GfP12 (gfP6_Mul (- x12 a) ?i) (gfP6_Mul (y12 a) ?i)"
    by (simp add: gfP12_Invert_def gfP12_MulScalar_def Let_def t_def)
  have t: "cong_P t (norm12 a)"
    unfolding t_def norm12_def gfP6_exact
    by (intro cong_P_diff cong_P_mult [OF cong_P_refl] gfP6_Square_cong cong_P_refl)
  have "gcd (norm2 (norm6 t)) P = 1"
    using gcd_cong_P [OF norm2_cong [OF norm6_cong [OF t]]] assms by (simp add: invertible12_def)
  then have i: "cong_P (t * ?i) 1" by (rule gfP6_Invert_cong)
  have "cong_P (gfP12_Invert junk a) (GfP12 (- x12 a * ?i) (y12 a * ?i))"
    unfolding inv cong_gfP12 gfP12.sel by (intro conjI gfP6_Mul_cong cong_P_refl)
  then have "cong_P (a * gfP12_Invert junk a) (a * GfP12 (- x12 a * ?i) (y12 a * ?i))"
    by (intro cong_P_mult cong_P_refl)
  also have "a * GfP12 (- x12 a * ?i) (y12 a * ?i) = GfP12 0 (norm12 a * ?i)"
    by (simp add: times_gfP12_def norm12_def algebra_simps)
  also have "cong_P (GfP12 0 (norm12 a * ?i)) 1"
    using cong_P_trans [OF cong_P_mult [OF cong_P_sym [OF t] cong_P_refl] i] by (simp add: cong_gfP12)
  finally show ?thesis .
qed

lemma gfP12_Minimal_cong [simp]: "cong_P (gfP12_Minimal a) a"
  by (simp add: gfP12_Minimal_def cong_gfP12)

lemma gfP12_Minimal_eq_iff: "gfP12_Minimal a = gfP12_Minimal b \<longleftrightarrow> cong_P a b"
  by (simp add: gfP12_Minimal_def cong_gfP12 gfP6_Minimal_eq_iff)

lemma gfP12_IsZero_iff: "gfP12_IsZero a = (gfP12_Minimal a, cong_P a 0)"
  by (simp add: gfP12_IsZero_def gfP12_Minimal_def cong_gfP12 gfP6_IsZero_Minimal)

lemma gfP12_IsOne_iff: "gfP12_IsOne a = (gfP12_Minimal a, cong_P a 1)"
  by (simp add: gfP12_IsOne_def gfP12_Minimal_def cong_gfP12 gfP6_IsZero_Minimal gfP6_IsOne_Minimal)

section \<open>The Frobenius maps\<close>

text \<open>The relations between the constants that make the maps multiplicative.\<close>

lemmas constant_defs = xiToPMinus1Over6_def xiToPMinus1Over3_def xiToPMinus1Over2_def
  xiTo2PMinus2Over3_def xiToPSquaredMinus1Over3_def xiTo2PSquaredMinus2Over3_def
  xiToPSquaredMinus1Over6_def

lemma cong_gfP2I:
  "x2 a = x2 b + P * k \<Longrightarrow> y2 a = y2 b + P * l \<Longrightarrow> cong_P a b"
  by (simp add: cong_gfP2 cong_P_int)

lemma cong_intI: "a = b + P * k \<Longrightarrow> cong_P a b" for a b :: int
  by (simp add: cong_P_int)

text \<open>The quotients by \<open>P\<close> are given, so that checking a relation is multiplication only.\<close>

lemma constant_relations:
  "cong_P (xiToPMinus1Over3 * xiToPMinus1Over3) xiTo2PMinus2Over3"
  "cong_P (xiToPMinus1Over6 * xiToPMinus1Over6) xiToPMinus1Over3"
  "cong_P (xi * (xiToPMinus1Over3 * xiTo2PMinus2Over3)) (gfP2_Conjugate xi)"
  "cong_P (xiToPMinus1Over6 * xiToPMinus1Over3) xiToPMinus1Over2"
proof -
  show "cong_P (xiToPMinus1Over3 * xiToPMinus1Over3) xiTo2PMinus2Over3"
    by (rule cong_gfP2I [where k = "20320615476702375430506860014609115530950080671171966475629169588660202602626"
        and l = "16413102808253533008374809259677643694336274653055880065433411063678693431749"]) (simp_all add: constant_defs P_def)
  show "cong_P (xiToPMinus1Over6 * xiToPMinus1Over6) xiToPMinus1Over3"
    by (rule cong_gfP2I [where k = "12605232741611732518200907597562414454486712087715537939239625467614142821682"
        and l = "-9187384945308540462265023572126888483200558142639355961218014603309264129099"]) (simp_all add: constant_defs P_def)
  show "cong_P (xiToPMinus1Over6 * xiToPMinus1Over3) xiToPMinus1Over2"
    by (rule cong_gfP2I [where k = "20178950544824406101271420337966227911472077371318223123757831118210307163071"
        and l = "500463692477757900954161665112178192989236327137508280708310586254961056914"]) (simp_all add: constant_defs P_def)
  let ?w = "GfP2 1601578746719946967481444322823703055270461791997401731416271065461845820140
    7474034151359752514913406839843947591262155029321208079942598305488613827322"
  have "cong_P (xiToPMinus1Over3 * xiTo2PMinus2Over3) ?w"
    by (rule cong_gfP2I [where k = "20868722388663586771216471853804206497738549446064308860017416297575311548074"
        and l = "-6844063368985085211477186942865170631928887993777921354683322128447853411828"]) (simp_all add: constant_defs P_def)
  then have "cong_P (xi * (xiToPMinus1Over3 * xiTo2PMinus2Over3)) (xi * ?w)"
    by (intro cong_P_mult cong_P_refl)
  also have "cong_P (xi * ?w) (gfP2_Conjugate xi)"
    by (rule cong_gfP2I [where k = "1" and l = "3"])
       (simp_all add: xi_def gfP2_Conjugate_def P_def)
  finally show "cong_P (xi * (xiToPMinus1Over3 * xiTo2PMinus2Over3)) (gfP2_Conjugate xi)" .
qed

lemma constant_relations_squared:
  "cong_P (xiToPSquaredMinus1Over3 * xiToPSquaredMinus1Over3) xiTo2PSquaredMinus2Over3"
  "cong_P (xiToPSquaredMinus1Over3 * xiTo2PSquaredMinus2Over3) 1"
  "cong_P (xiToPSquaredMinus1Over6 * xiToPSquaredMinus1Over6) xiToPSquaredMinus1Over3"
proof -
  show "cong_P (xiToPSquaredMinus1Over3 * xiToPSquaredMinus1Over3) xiTo2PSquaredMinus2Over3"
    by (rule cong_intI [where k = "21888242871839275217838484774961031246081023806968983599271420891293677114030"])
       (simp add: constant_defs P_def)
  show "cong_P (xiToPSquaredMinus1Over3 * xiTo2PSquaredMinus2Over3) 1"
    by (rule cong_intI [where k = "2203960485148121921196683607503078042443337744471343442585"]) (simp add: constant_defs P_def)
  show "cong_P (xiToPSquaredMinus1Over6 * xiToPSquaredMinus1Over6) xiToPSquaredMinus1Over3"
    by (rule cong_intI [where k = "21888242871839275217838484774961031246081023806968983599271420891293677114031"])
       (simp add: constant_defs P_def)
qed

lemma bn_parameters:
  "P = 36 * bnU ^ 4 + 36 * bnU ^ 3 + 24 * bnU ^ 2 + 6 * bnU + 1"
  "Order = 36 * bnU ^ 4 + 36 * bnU ^ 3 + 18 * bnU ^ 2 + 6 * bnU + 1"
  by (simp_all add: P_def Order_def bnU_def)

lemma Conjugate_hom [simp]:
  "gfP2_Conjugate (a + b) = gfP2_Conjugate a + gfP2_Conjugate b"
  "gfP2_Conjugate (a - b) = gfP2_Conjugate a - gfP2_Conjugate b"
  "gfP2_Conjugate (a * b) = gfP2_Conjugate a * gfP2_Conjugate b"
  by (simp_all add: gfP2_Conjugate_def gfP2.expand algebra_simps)

text \<open>A map that twists the coefficients by \<open>c1\<close> and \<open>c2\<close> after the ring map \<open>f\<close>.\<close>

definition twist6 :: "(gfP2 \<Rightarrow> gfP2) \<Rightarrow> gfP2 \<Rightarrow> gfP2 \<Rightarrow> gfP6 \<Rightarrow> gfP6" where
  "twist6 f c2 c1 a = GfP6 (f (x6 a) * c2) (f (y6 a) * c1) (f (z6 a))"

lemma twist6_mult:
  assumes f: "\<And>a b. f (a + b) = f a + f b" "\<And>a b. f (a * b) = f a * f b"
    and c: "cong_P (c1 * c1) c2" "cong_P (xi * (c1 * c2)) (f xi)"
  shows "cong_P (twist6 f c2 c1 (a * b)) (twist6 f c2 c1 a * twist6 f c2 c1 b)"
proof -
  let ?xa = "f (x6 a)" and ?ya = "f (y6 a)" and ?za = "f (z6 a)"
  let ?xb = "f (x6 b)" and ?yb = "f (y6 b)" and ?zb = "f (z6 b)"
  have q: "cong_P (f xi * c1) (xi * (c2 * c2))"
  proof -
    have "cong_P (f xi * c1) (xi * (c1 * c2) * c1)" by (intro cong_P_mult cong_P_sym [OF c(2)] cong_P_refl)
    also have "xi * (c1 * c2) * c1 = xi * (c1 * c1 * c2)" by (simp add: algebra_simps)
    also have "cong_P \<dots> (xi * (c2 * c2))" by (intro cong_P_xi cong_P_mult c cong_P_refl)
    finally show ?thesis .
  qed
  have "cong_P (twist6 f c2 c1 (a * b))
     (GfP6 ((?xa * ?zb + ?za * ?xb) * c2 + ?ya * ?yb * (c1 * c1))
           ((?ya * ?zb + ?za * ?yb) * c1 + ?xa * ?xb * (xi * (c2 * c2)))
           (?za * ?zb + (?xa * ?yb + ?ya * ?xb) * (xi * (c1 * c2))))"
    unfolding cong_gfP6 gfP6.sel twist6_def sel_gfP6 f distrib_right
  proof (intro conjI, goal_cases)
    case 1
    have "?xa * ?zb * c2 + ?ya * ?yb * c2 + ?za * ?xb * c2
        = ?xa * ?zb * c2 + ?za * ?xb * c2 + ?ya * ?yb * c2" by (simp add: algebra_simps)
    also have "cong_P \<dots> (?xa * ?zb * c2 + ?za * ?xb * c2 + ?ya * ?yb * (c1 * c1))"
      by (intro cong_P_add cong_P_mult cong_P_sym [OF c(1)] cong_P_refl)
    finally show ?case .
  next
    case 2
    have "?ya * ?zb * c1 + ?za * ?yb * c1 + f xi * (?xa * ?xb) * c1
        = ?ya * ?zb * c1 + ?za * ?yb * c1 + ?xa * ?xb * (f xi * c1)" by (simp add: algebra_simps)
    also have "cong_P \<dots> (?ya * ?zb * c1 + ?za * ?yb * c1 + ?xa * ?xb * (xi * (c2 * c2)))"
      by (intro cong_P_add cong_P_mult q cong_P_refl)
    finally show ?case .
  next
    case 3
    have "?za * ?zb + f xi * (?xa * ?yb + ?ya * ?xb)
        = ?za * ?zb + (?xa * ?yb * f xi + ?ya * ?xb * f xi)" by (simp add: algebra_simps)
    also have "cong_P \<dots> (?za * ?zb + (?xa * ?yb * (xi * (c1 * c2)) + ?ya * ?xb * (xi * (c1 * c2))))"
      by (intro cong_P_add cong_P_mult cong_P_sym [OF c(2)] cong_P_refl)
    finally show ?case .
  qed
  also have "\<dots> = twist6 f c2 c1 a * twist6 f c2 c1 b"
    by (simp add: twist6_def gfP6.expand algebra_simps)
  finally show ?thesis .
qed

definition twist12 :: "(gfP2 \<Rightarrow> gfP2) \<Rightarrow> gfP2 \<Rightarrow> gfP2 \<Rightarrow> gfP2 \<Rightarrow> gfP12 \<Rightarrow> gfP12" where
  "twist12 f c2 c1 d a = GfP12 (twist6 f c2 c1 (x12 a) * embed6 d) (twist6 f c2 c1 (y12 a))"

lemma embed6_mult: "embed6 (a * b) = embed6 a * embed6 b"
  by (simp add: embed6_def gfP6.expand)

lemma cong_embed6: "cong_P a b \<Longrightarrow> cong_P (embed6 a) (embed6 b)"
  by (simp add: embed6_def cong_gfP6)

lemma twist12_mult:
  assumes f: "\<And>a b. f (a + b) = f a + f b" "\<And>a b. f (a * b) = f a * f b" "f 0 = 0" "f 1 = 1"
    and c: "cong_P (c1 * c1) c2" "cong_P (xi * (c1 * c2)) (f xi)" "cong_P (d * d) c1"
  shows "cong_P (twist12 f c2 c1 d (a * b)) (twist12 f c2 c1 d a * twist12 f c2 c1 d b)"
proof -
  let ?t = "twist6 f c2 c1"
  note m = twist6_mult [OF f(1,2) c(1,2)]
  have add: "?t (a + b) = ?t a + ?t b" for a b
    by (simp add: twist6_def f gfP6.expand algebra_simps)
  have tau: "cong_P (?t tau) (tau * embed6 (d * d))"
    using cong_P_sym [OF c(3)] by (simp add: twist6_def tau_def embed6_def f cong_gfP6)
  have "cong_P (?t (tau * (x12 a * x12 b))) (?t tau * ?t (x12 a * x12 b))" by (rule m)
  also have "cong_P \<dots> (tau * embed6 (d * d) * (?t (x12 a) * ?t (x12 b)))"
    by (intro cong_P_mult tau m)
  finally have y: "cong_P (?t (tau * (x12 a * x12 b))) (tau * embed6 (d * d) * (?t (x12 a) * ?t (x12 b)))" .
  have "cong_P (twist12 f c2 c1 d (a * b))
     (GfP12 ((?t (x12 a) * ?t (y12 b) + ?t (x12 b) * ?t (y12 a)) * embed6 d)
            (?t (y12 a) * ?t (y12 b) + tau * embed6 (d * d) * (?t (x12 a) * ?t (x12 b))))"
    unfolding cong_gfP12 gfP12.sel twist12_def sel_gfP12 add
    by (intro conjI cong_P_add cong_P_mult [OF _ cong_P_refl] m y)
  also have "\<dots> = twist12 f c2 c1 d a * twist12 f c2 c1 d b"
    by (simp add: twist12_def times_gfP12_def embed6_mult algebra_simps)
  finally show ?thesis .
qed

lemma gfP12_Frobenius_twist:
  "cong_P (gfP12_Frobenius a) (twist12 gfP2_Conjugate xiTo2PMinus2Over3 xiToPMinus1Over3 xiToPMinus1Over6 a)"
proof -
  have six: "cong_P (gfP6_Frobenius b) (twist6 gfP2_Conjugate xiTo2PMinus2Over3 xiToPMinus1Over3 b)" for b
    unfolding gfP6_Frobenius_def twist6_def Let_def cong_gfP6 gfP6.sel
    by (intro conjI gfP2_Mul_cong cong_P_refl)
  show ?thesis
    unfolding gfP12_Frobenius_def twist12_def Let_def cong_gfP12 gfP12.sel
    by (intro conjI gfP6_MulScalar_cong six cong_P_refl)
qed

lemma gfP12_FrobeniusP2_twist:
  "gfP12_FrobeniusP2 a = twist12 id (of_int xiTo2PSquaredMinus2Over3) (of_int xiToPSquaredMinus1Over3)
     (of_int xiToPSquaredMinus1Over6) a"
  by (simp add: gfP12_FrobeniusP2_def gfP6_FrobeniusP2_def twist12_def twist6_def embed6_def
      of_int_gfP6 gfP12.expand gfP6.expand)

lemma cong_of_int: "cong_P a b \<Longrightarrow> cong_P (of_int a) (of_int b :: 'a :: comm_ring_1)"
proof -
  assume "cong_P a b"
  then obtain k where "a - b = P * k" by (auto simp: cong_P_def elim: dvdE)
  then have "(of_int a - of_int b :: 'a) = of_int P * of_int k"
    by (metis of_int_diff of_int_mult)
  then show ?thesis by (simp add: cong_P_def)
qed

lemma twist12_cong:
  assumes "\<And>a b. cong_P a b \<Longrightarrow> cong_P (f a) (f b)" "cong_P a b"
  shows "cong_P (twist12 f c2 c1 d a) (twist12 f c2 c1 d b)"
proof -
  have six: "cong_P (twist6 f c2 c1 u) (twist6 f c2 c1 v)" if "cong_P u v" for u v
    using that unfolding twist6_def cong_gfP6 gfP6.sel
    by (intro conjI cong_P_mult [OF _ cong_P_refl] assms(1)) blast+
  show ?thesis
    using assms(2) unfolding twist12_def cong_gfP12 gfP12.sel
    by (intro conjI cong_P_mult [OF _ cong_P_refl] six) blast+
qed

lemma Conjugate_cong: "cong_P a b \<Longrightarrow> cong_P (gfP2_Conjugate a) (gfP2_Conjugate b)"
  by (simp add: cong_gfP2 gfP2_Conjugate_def cong_P_minus)

text \<open>
  A map congruent to a multiplicative one is multiplicative for the code's product.
\<close>

lemma code_multiplicative:
  assumes "\<And>a. cong_P (g a) (h a)" "\<And>a b. cong_P (h (a * b)) (h a * h b)"
    and "\<And>a b. cong_P a b \<Longrightarrow> cong_P (h a) (h b)"
  shows "cong_P (g (gfP12_Mul a b)) (gfP12_Mul (g a) (g b))"
proof -
  have "cong_P (g (gfP12_Mul a b)) (h (gfP12_Mul a b))" by (rule assms(1))
  also have "cong_P \<dots> (h (a * b))" by (rule assms(3) [OF gfP12_Mul_self])
  also have "cong_P \<dots> (h a * h b)" by (rule assms(2))
  also have "cong_P \<dots> (gfP12_Mul (g a) (g b))"
    by (rule cong_P_sym [OF gfP12_Mul_cong [OF assms(1) assms(1)]])
  finally show ?thesis .
qed

lemma Frobenius_twist_mult:
  "cong_P (twist12 gfP2_Conjugate xiTo2PMinus2Over3 xiToPMinus1Over3 xiToPMinus1Over6 (a * b))
     (twist12 gfP2_Conjugate xiTo2PMinus2Over3 xiToPMinus1Over3 xiToPMinus1Over6 a
      * twist12 gfP2_Conjugate xiTo2PMinus2Over3 xiToPMinus1Over3 xiToPMinus1Over6 b)"
proof -
  have conj: "gfP2_Conjugate 0 = 0" "gfP2_Conjugate 1 = 1"
    by (simp_all add: gfP2_Conjugate_def gfP2.expand)
  show ?thesis
    by (rule twist12_mult [OF Conjugate_hom(1,3) conj constant_relations(1,3,2)])
qed

lemma FrobeniusP2_twist_mult:
  fixes a b :: gfP12
  defines "k \<equiv> twist12 id (of_int xiTo2PSquaredMinus2Over3) (of_int xiToPSquaredMinus1Over3)
    (of_int xiToPSquaredMinus1Over6)"
  shows "cong_P (k (a * b)) (k a * k b)"
proof -
  have xi: "cong_P (xi * (of_int xiToPSquaredMinus1Over3 * of_int xiTo2PSquaredMinus2Over3)) (id xi)"
    using cong_P_xi [OF cong_of_int [OF constant_relations_squared(2)]] by simp
  show ?thesis
    unfolding k_def
    by (rule twist12_mult [where f = id, OF _ _ _ _ _ xi])
       (use cong_of_int [OF constant_relations_squared(1)] cong_of_int [OF constant_relations_squared(3)]
        in simp_all)
qed

section \<open>Properties\<close>

text \<open>
  C10: multiplication and squaring in all three fields of the tower (schoolbook, Karatsuba and
  complex squaring, with reductions where the code has them) compute the product of the ring
  \<open>\<int>[i][\<tau>][\<omega>]\<close> modulo \<open>P\<close>; in particular squaring is multiplication by itself.
\<close>

theorem tower_multiplication:
  "cong_P (gfP2_Mul a b) (a * b) \<and> cong_P (gfP2_Square a) (a * a)
   \<and> cong_P (gfP6_Mul c d) (c * d) \<and> cong_P (gfP6_Square c) (c * c)
   \<and> cong_P (gfP12_Mul e f) (e * f) \<and> cong_P (gfP12_Square e) (e * e)"
  using gfP2_Mul_cong [OF cong_P_refl cong_P_refl] gfP2_Square_cong [OF cong_P_refl]
    gfP6_Mul_self gfP6_Square_self gfP12_Mul_self gfP12_Square_self by blast

text \<open>
  The square-and-multiply loops compute the power in the ring, for every non-negative exponent.
\<close>

theorem tower_exponentiation:
  assumes "0 \<le> n"
  shows "cong_P (gfP12_Exp a n) (a ^ nat n) \<and> cong_P (gfP2_Exp b n) (b ^ nat n)"
  using gfP12_Exp_cong [OF assms] gfP2_Exp_cong [OF assms] by blast

theorem tower_exponentiation_witness:
  "cong_P (gfP12_Exp (GfP12 tau 1) 5) (GfP12 tau 1 ^ 5) \<and> cong_P (gfP2_Exp xi 5) (xi ^ 5)"
  using tower_exponentiation [of 5 "GfP12 tau 1" xi] by simp

text \<open>
  C11: inversion. An element whose norm is prime to \<open>P\<close> times its inverse is one modulo \<open>P\<close>, through
  the whole tower and whatever the pool of temporaries held.
\<close>

theorem tower_inversion:
  assumes "invertible12 a"
  shows "cong_P (gfP12_Mul a (gfP12_Invert junk a)) 1"
  by (rule cong_P_trans [OF gfP12_Mul_self gfP12_Invert_cong [OF assms]])

lemma gcd_5_power: "gcd (5 ^ n) P = 1"
proof -
  have "P mod 5 = 3" by (simp add: P_def)
  then have "gcd P 5 = gcd 5 3" by (metis gcd_red_int)
  also have "\<dots> = 1" by (simp add: gcd_non_0_int)
  finally have "gcd 5 P = 1" by (simp only: gcd.commute)
  then show ?thesis by (simp add: coprime_iff_gcd_eq_1 [symmetric])
qed

theorem tower_inversion_witness:
  "cong_P (gfP12_Mul (GfP12 0 (GfP6 0 0 (GfP2 1 2))) (gfP12_Invert 0 (GfP12 0 (GfP6 0 0 (GfP2 1 2))))) 1"
proof -
  have "norm2 (norm6 (norm12 (GfP12 0 (GfP6 0 0 (GfP2 1 2))))) = 5 ^ 6"
    by (simp add: norm12_def norm6_def norm2_def conj6_def)
  then have "invertible12 (GfP12 0 (GfP6 0 0 (GfP2 1 2)))"
    using gcd_5_power by (simp only: invertible12_def)
  then show ?thesis by (rule tower_inversion)
qed

text \<open>
  With the constants of the source, \<open>Frobenius\<close> and \<open>FrobeniusP2\<close> respect the product of
  \<open>gfP12\<close> and its addition modulo \<open>P\<close>.
\<close>

theorem frobenius_homomorphism:
  "cong_P (gfP12_Frobenius (gfP12_Mul a b)) (gfP12_Mul (gfP12_Frobenius a) (gfP12_Frobenius b))
   \<and> cong_P (gfP12_FrobeniusP2 (gfP12_Mul a b)) (gfP12_Mul (gfP12_FrobeniusP2 a) (gfP12_FrobeniusP2 b))
   \<and> cong_P (gfP12_Frobenius (gfP12_Add a b)) (gfP12_Add (gfP12_Frobenius a) (gfP12_Frobenius b))"
proof (intro conjI)
  let ?h = "twist12 gfP2_Conjugate xiTo2PMinus2Over3 xiToPMinus1Over3 xiToPMinus1Over6"
  show "cong_P (gfP12_Frobenius (gfP12_Mul a b)) (gfP12_Mul (gfP12_Frobenius a) (gfP12_Frobenius b))"
    by (rule code_multiplicative [OF gfP12_Frobenius_twist Frobenius_twist_mult twist12_cong [OF Conjugate_cong]])
  let ?k = "twist12 id (of_int xiTo2PSquaredMinus2Over3) (of_int xiToPSquaredMinus1Over3)
    (of_int xiToPSquaredMinus1Over6)"
  show "cong_P (gfP12_FrobeniusP2 (gfP12_Mul a b)) (gfP12_Mul (gfP12_FrobeniusP2 a) (gfP12_FrobeniusP2 b))"
    using FrobeniusP2_twist_mult
    by (intro code_multiplicative [where h = ?k]) (simp_all add: gfP12_FrobeniusP2_twist twist12_cong)
  have "?h (a + b) = ?h a + ?h b"
    by (simp add: twist12_def twist6_def gfP12.expand gfP6.expand embed6_def algebra_simps)
  then have "cong_P (gfP12_Frobenius (a + b)) (?h a + ?h b)"
    using gfP12_Frobenius_twist [of "a + b"] by simp
  also have "cong_P \<dots> (gfP12_Frobenius a + gfP12_Frobenius b)"
    by (intro cong_P_add cong_P_sym [OF gfP12_Frobenius_twist])
  finally show "cong_P (gfP12_Frobenius (gfP12_Add a b)) (gfP12_Add (gfP12_Frobenius a) (gfP12_Frobenius b))"
    by simp
qed

text \<open>
  \<open>Minimal\<close> is a normal form for equality modulo \<open>P\<close>, and \<open>IsZero\<close> and \<open>IsOne\<close>, which reduce
  first, decide equality with zero and one modulo \<open>P\<close>.
\<close>

theorem tower_normal_form:
  "(gfP12_Minimal a = gfP12_Minimal b \<longleftrightarrow> cong_P a b) \<and> cong_P (gfP12_Minimal a) a
   \<and> (snd (gfP12_IsZero a) \<longleftrightarrow> cong_P a 0) \<and> (snd (gfP12_IsOne a) \<longleftrightarrow> cong_P a 1)"
  by (simp add: gfP12_Minimal_eq_iff gfP12_IsZero_iff gfP12_IsOne_iff)

text \<open>The comment on \<open>u\<close> in \<^verbatim>\<open>constants.go\<close> gives another number than the code.\<close>

lemma bn_parameter_comment: "bnU \<noteq> 1868033 ^ 3"
  by (simp add: bnU_def)

end
