(* ===== verification/Bn_Pairing.thy ===== *)
theory Bn_Pairing
  imports Bn_Tower
begin

text \<open>
  The twisted curve and the optimal ate pairing of package bn256 (\<^verbatim>\<open>twist.go\<close>, \<^verbatim>\<open>optate.go\<close>).
  Points are Jacobian with unreduced coordinates; a method that leaves a field of its receiver
  alone takes the receiver as its first argument. The points of the base curve belong to a file
  that is not part of the repository: the pairing reads their affine coordinates only, and takes
  the conversion and the test for infinity as arguments. The values \<open>junk\<close> are what the pool of
  temporaries held where the code does not overwrite it.
\<close>

section \<open>Points of the twist\<close>

record twist_point =
  tp_x :: gfP2
  tp_y :: gfP2
  tp_z :: gfP2
  tp_t :: gfP2

record curve_point =
  cp_x :: int
  cp_y :: int

definition twistB :: gfP2 where
  "twistB =
     GfP2 266929791119991161246907387137283842545076965332900288569378510910307636690
          19485874751759354771024239261021720505790618469301721065564631296452457478373"

definition twistGen :: twist_point where
  "twistGen = \<lparr>
     tp_x = GfP2 11559732032986387107991004021392285783925812861821192530917403151452391805634
                 10857046999023057135944570762232829481370756359578518086990519993285655852781,
     tp_y = GfP2 4082367875863433681332203403145435568316851327593401208105741076214120093531
                 8495653923123431417604973247489272438418190587263600148770280649306958101930,
     tp_z = GfP2 0 1, tp_t = GfP2 0 1\<rparr>"

definition tp_Set :: "twist_point \<Rightarrow> twist_point" where
  "tp_Set a = \<lparr>tp_x = gfP2_Set (tp_x a), tp_y = gfP2_Set (tp_y a), tp_z = gfP2_Set (tp_z a),
               tp_t = gfP2_Set (tp_t a)\<rparr>"

definition tp_IsOnCurve :: "twist_point \<Rightarrow> bool" where
  "tp_IsOnCurve c =
     (let yy = gfP2_Square (tp_y c);
          xxx = gfP2_Square (tp_x c);
          xxx = gfP2_Mul xxx (tp_x c);
          yy = gfP2_Sub yy xxx;
          yy = gfP2_Sub yy twistB;
          yy = gfP2_Minimal yy
      in x2 yy = 0 \<and> y2 yy = 0)"

definition tp_SetInfinity :: "twist_point \<Rightarrow> twist_point" where
  "tp_SetInfinity c = c\<lparr>tp_z := gfP2_SetZero\<rparr>"

definition tp_IsInfinity :: "twist_point \<Rightarrow> bool" where
  "tp_IsInfinity c = gfP2_IsZero (tp_z c)"

definition tp_Double :: "twist_point \<Rightarrow> twist_point \<Rightarrow> twist_point" where
  "tp_Double c a =
     (let A = gfP2_Square (tp_x a);
          B = gfP2_Square (tp_y a);
          C = gfP2_Square B;
          t = gfP2_Add (tp_x a) B;
          t2 = gfP2_Square t;
          t = gfP2_Sub t2 A;
          t2 = gfP2_Sub t C;
          d = gfP2_Add t2 t2;
          t = gfP2_Add A A;
          e = gfP2_Add t A;
          f = gfP2_Square e;
          t = gfP2_Add d d;
          cx = gfP2_Sub f t;
          t = gfP2_Add C C;
          t2 = gfP2_Add t t;
          t = gfP2_Add t2 t2;
          cy = gfP2_Sub d cx;
          t2 = gfP2_Mul e cy;
          cy = gfP2_Sub t2 t;
          t = gfP2_Mul (tp_y a) (tp_z a);
          cz = gfP2_Add t t
      in c\<lparr>tp_x := cx, tp_y := cy, tp_z := cz\<rparr>)"

definition tp_Add :: "twist_point \<Rightarrow> twist_point \<Rightarrow> twist_point \<Rightarrow> twist_point" where
  "tp_Add c a b =
     (if tp_IsInfinity a then tp_Set b
      else if tp_IsInfinity b then tp_Set a
      else
        let z1z1 = gfP2_Square (tp_z a);
            z2z2 = gfP2_Square (tp_z b);
            u1 = gfP2_Mul (tp_x a) z2z2;
            u2 = gfP2_Mul (tp_x b) z1z1;
            t = gfP2_Mul (tp_z b) z2z2;
            s1 = gfP2_Mul (tp_y a) t;
            t = gfP2_Mul (tp_z a) z1z1;
            s2 = gfP2_Mul (tp_y b) t;
            h = gfP2_Sub u2 u1;
            xEqual = gfP2_IsZero h;
            t = gfP2_Add h h;
            i = gfP2_Square t;
            j = gfP2_Mul h i;
            t = gfP2_Sub s2 s1;
            yEqual = gfP2_IsZero t
        in if xEqual \<and> yEqual then tp_Double c a
           else
             let r = gfP2_Add t t;
                 v = gfP2_Mul u1 i;
                 t4 = gfP2_Square r;
                 t = gfP2_Add v v;
                 t6 = gfP2_Sub t4 j;
                 cx = gfP2_Sub t6 t;
                 t = gfP2_Sub v cx;
                 t4 = gfP2_Mul s1 j;
                 t6 = gfP2_Add t4 t4;
                 t4 = gfP2_Mul r t;
                 cy = gfP2_Sub t4 t6;
                 t = gfP2_Add (tp_z a) (tp_z b);
                 t4 = gfP2_Square t;
                 t = gfP2_Sub t4 z1z1;
                 t4 = gfP2_Sub t z2z2;
                 cz = gfP2_Mul t4 h
             in c\<lparr>tp_x := cx, tp_y := cy, tp_z := cz\<rparr>)"

text \<open>The loop of \<open>Mul\<close> from bit \<open>BitLen\<close> down to bit \<open>0\<close>, with its two points \<open>sum\<close> and \<open>t\<close>.\<close>

fun tp_Mul_loop :: "twist_point \<Rightarrow> int \<Rightarrow> nat \<Rightarrow> twist_point \<Rightarrow> twist_point \<Rightarrow> twist_point" where
  "tp_Mul_loop a scalar 0 acc t = acc"
| "tp_Mul_loop a scalar (Suc i) acc t =
     (let t = tp_Double t acc;
          acc = (if bit scalar i then tp_Add acc t a else tp_Set t)
      in tp_Mul_loop a scalar i acc t)"

definition tp_Mul :: "twist_point \<Rightarrow> twist_point \<Rightarrow> twist_point \<Rightarrow> int \<Rightarrow> twist_point" where
  "tp_Mul junk1 junk2 a scalar =
     tp_Set (tp_Mul_loop a scalar (Suc (BitLen scalar)) (tp_SetInfinity junk1) junk2)"

definition tp_MakeAffine :: "int \<Rightarrow> twist_point \<Rightarrow> twist_point" where
  "tp_MakeAffine junk c =
     (if gfP2_IsOne (tp_z c) then c
      else
        let zInv = gfP2_Invert junk (tp_z c);
            t = gfP2_Mul (tp_y c) zInv;
            zInv2 = gfP2_Square zInv;
            cy = gfP2_Mul t zInv2;
            t = gfP2_Mul (tp_x c) zInv2
        in \<lparr>tp_x = gfP2_Set t, tp_y = cy, tp_z = gfP2_SetOne, tp_t = gfP2_SetOne\<rparr>)"

definition tp_Negative :: "twist_point \<Rightarrow> twist_point" where
  "tp_Negative a =
     \<lparr>tp_x = gfP2_Set (tp_x a), tp_y = gfP2_Sub gfP2_SetZero (tp_y a), tp_z = gfP2_Set (tp_z a),
      tp_t = gfP2_SetZero\<rparr>"

section \<open>The pairing\<close>

definition lineFunctionAdd :: "twist_point \<Rightarrow> twist_point \<Rightarrow> curve_point \<Rightarrow> gfP2
    \<Rightarrow> gfP2 \<times> gfP2 \<times> gfP2 \<times> twist_point" where
  "lineFunctionAdd r p q r2 =
     (let B = gfP2_Mul (tp_x p) (tp_t r);
          D = gfP2_Add (tp_y p) (tp_z r);
          D = gfP2_Square D;
          D = gfP2_Sub D r2;
          D = gfP2_Sub D (tp_t r);
          D = gfP2_Mul D (tp_t r);
          H = gfP2_Sub B (tp_x r);
          I = gfP2_Square H;
          E = gfP2_Add I I;
          E = gfP2_Add E E;
          J = gfP2_Mul H E;
          L1 = gfP2_Sub D (tp_y r);
          L1 = gfP2_Sub L1 (tp_y r);
          V = gfP2_Mul (tp_x r) E;
          ox = gfP2_Square L1;
          ox = gfP2_Sub ox J;
          ox = gfP2_Sub ox V;
          ox = gfP2_Sub ox V;
          oz = gfP2_Add (tp_z r) H;
          oz = gfP2_Square oz;
          oz = gfP2_Sub oz (tp_t r);
          oz = gfP2_Sub oz I;
          t = gfP2_Sub V ox;
          t = gfP2_Mul t L1;
          t2 = gfP2_Mul (tp_y r) J;
          t2 = gfP2_Add t2 t2;
          oy = gfP2_Sub t t2;
          ot = gfP2_Square oz;
          t = gfP2_Add (tp_y p) oz;
          t = gfP2_Square t;
          t = gfP2_Sub t r2;
          t = gfP2_Sub t ot;
          t2 = gfP2_Mul L1 (tp_x p);
          t2 = gfP2_Add t2 t2;
          a = gfP2_Sub t2 t;
          c = gfP2_MulScalar oz (cp_y q);
          c = gfP2_Add c c;
          b = gfP2_SetZero;
          b = gfP2_Sub b L1;
          b = gfP2_MulScalar b (cp_x q);
          b = gfP2_Add b b
      in (a, b, c, \<lparr>tp_x = ox, tp_y = oy, tp_z = oz, tp_t = ot\<rparr>))"

definition lineFunctionDouble :: "twist_point \<Rightarrow> curve_point \<Rightarrow> gfP2 \<times> gfP2 \<times> gfP2 \<times> twist_point" where
  "lineFunctionDouble r q =
     (let A = gfP2_Square (tp_x r);
          B = gfP2_Square (tp_y r);
          C = gfP2_Square B;
          D = gfP2_Add (tp_x r) B;
          D = gfP2_Square D;
          D = gfP2_Sub D A;
          D = gfP2_Sub D C;
          D = gfP2_Add D D;
          E = gfP2_Add A A;
          E = gfP2_Add E A;
          G = gfP2_Square E;
          ox = gfP2_Sub G D;
          ox = gfP2_Sub ox D;
          oz = gfP2_Add (tp_y r) (tp_z r);
          oz = gfP2_Square oz;
          oz = gfP2_Sub oz B;
          oz = gfP2_Sub oz (tp_t r);
          oy = gfP2_Sub D ox;
          oy = gfP2_Mul oy E;
          t = gfP2_Add C C;
          t = gfP2_Add t t;
          t = gfP2_Add t t;
          oy = gfP2_Sub oy t;
          ot = gfP2_Square oz;
          t = gfP2_Mul E (tp_t r);
          t = gfP2_Add t t;
          b = gfP2_SetZero;
          b = gfP2_Sub b t;
          b = gfP2_MulScalar b (cp_x q);
          a = gfP2_Add (tp_x r) E;
          a = gfP2_Square a;
          a = gfP2_Sub a A;
          a = gfP2_Sub a G;
          t = gfP2_Add B B;
          t = gfP2_Add t t;
          a = gfP2_Sub a t;
          c = gfP2_Mul oz (tp_t r);
          c = gfP2_Add c c;
          c = gfP2_MulScalar c (cp_y q)
      in (a, b, c, \<lparr>tp_x = ox, tp_y = oy, tp_z = oz, tp_t = ot\<rparr>))"

definition mulLine :: "gfP12 \<Rightarrow> gfP2 \<Rightarrow> gfP2 \<Rightarrow> gfP2 \<Rightarrow> gfP12" where
  "mulLine ret a b c =
     (let a2 = GfP6 gfP2_SetZero (gfP2_Set a) (gfP2_Set b);
          a2 = gfP6_Mul a2 (x12 ret);
          t3 = gfP6_MulScalar (y12 ret) c;
          t = gfP2_Add b c;
          t2 = GfP6 gfP2_SetZero (gfP2_Set a) (gfP2_Set t);
          rx = gfP6_Add (x12 ret) (y12 ret);
          ry = gfP6_Set t3;
          rx = gfP6_Mul rx t2;
          rx = gfP6_Sub rx a2;
          rx = gfP6_Sub rx ry;
          a2 = gfP6_MulTau a2;
          ry = gfP6_Add ry a2
      in GfP12 rx ry)"

definition sixuPlus2NAF :: "int list" where
  "sixuPlus2NAF = [0, 0, 0, 1, 0, 1, 0, -1, 0, 0, 1, -1, 0, 0, 1, 0,
     0, 1, 1, 0, -1, 0, 0, 1, 0, -1, 0, 0, 0, 0, 1, 1,
     1, 0, 0, -1, 0, 0, 1, 0, 0, 0, 0, 0, -1, 0, 0, 1,
     1, 0, 0, -1, 0, 0, 0, 1, 1, 0, -1, 0, 0, 1, 0, 1, 1]"

text \<open>The body of the Miller loop for index \<open>Suc i\<close>, and the loop from there down.\<close>

definition miller_step :: "twist_point \<Rightarrow> twist_point \<Rightarrow> curve_point \<Rightarrow> gfP2 \<Rightarrow> nat
    \<Rightarrow> gfP12 \<times> twist_point \<Rightarrow> gfP12 \<times> twist_point" where
  "miller_step aAffine minusA bAffine r2 i = (\<lambda>(ret, r).
     let (a, b, c, newR) = lineFunctionDouble r bAffine;
         ret = (if Suc i \<noteq> length sixuPlus2NAF - 1 then gfP12_Square ret else ret);
         ret = mulLine ret a b c;
         r = newR
     in if sixuPlus2NAF ! i = 1 then
          (let (a, b, c, newR) = lineFunctionAdd r aAffine bAffine r2 in (mulLine ret a b c, newR))
        else if sixuPlus2NAF ! i = -1 then
          (let (a, b, c, newR) = lineFunctionAdd r minusA bAffine r2 in (mulLine ret a b c, newR))
        else (ret, r))"

fun miller_loop :: "twist_point \<Rightarrow> twist_point \<Rightarrow> curve_point \<Rightarrow> gfP2 \<Rightarrow> nat
    \<Rightarrow> gfP12 \<times> twist_point \<Rightarrow> gfP12 \<times> twist_point" where
  "miller_loop aAffine minusA bAffine r2 0 s = s"
| "miller_loop aAffine minusA bAffine r2 (Suc i) s =
     miller_loop aAffine minusA bAffine r2 i (miller_step aAffine minusA bAffine r2 i s)"

definition miller :: "int \<Rightarrow> (curve_point \<Rightarrow> curve_point) \<Rightarrow> twist_point \<Rightarrow> curve_point \<Rightarrow> gfP12" where
  "miller junk affineG1 q p =
     (let aAffine = tp_MakeAffine junk (tp_Set q);
          bAffine = affineG1 p;
          minusA = tp_Negative aAffine;
          r = tp_Set aAffine;
          r2 = gfP2_Square (tp_y aAffine);
          (ret, r) = miller_loop aAffine minusA bAffine r2 (length sixuPlus2NAF - 1) (gfP12_SetOne, r);
          q1 = \<lparr>tp_x = gfP2_Mul (gfP2_Conjugate (tp_x aAffine)) xiToPMinus1Over3,
                tp_y = gfP2_Mul (gfP2_Conjugate (tp_y aAffine)) xiToPMinus1Over2,
                tp_z = gfP2_SetOne, tp_t = gfP2_SetOne\<rparr>;
          minusQ2 = \<lparr>tp_x = gfP2_MulScalar (tp_x aAffine) xiToPSquaredMinus1Over3,
                     tp_y = gfP2_Set (tp_y aAffine), tp_z = gfP2_SetOne, tp_t = gfP2_SetOne\<rparr>;
          r2 = gfP2_Square (tp_y q1);
          (a, b, c, newR) = lineFunctionAdd r q1 bAffine r2;
          ret = mulLine ret a b c;
          r = newR;
          r2 = gfP2_Square (tp_y minusQ2);
          (a, b, c, newR) = lineFunctionAdd r minusQ2 bAffine r2
      in mulLine ret a b c)"

text \<open>\<open>Conjugate\<close> is called for its receiver only.\<close>

abbreviation conj12 :: "gfP12 \<Rightarrow> gfP12" where
  "conj12 a \<equiv> fst (gfP12_Conjugate a)"

definition finalExponentiation :: "int \<Rightarrow> gfP12 \<Rightarrow> gfP12" where
  "finalExponentiation junk f =
     (let t1 = GfP12 (gfP6_Negative (x12 f)) (gfP6_Set (y12 f));
          inv = gfP12_Invert junk f;
          t1 = gfP12_Mul t1 inv;
          t2 = gfP12_FrobeniusP2 t1;
          t1 = gfP12_Mul t1 t2;
          fp = gfP12_Frobenius t1;
          fp2 = gfP12_FrobeniusP2 t1;
          fp3 = gfP12_Frobenius fp2;
          fu = gfP12_Exp t1 bnU;
          fu2 = gfP12_Exp fu bnU;
          fu3 = gfP12_Exp fu2 bnU;
          y3 = gfP12_Frobenius fu;
          fu2p = gfP12_Frobenius fu2;
          fu3p = gfP12_Frobenius fu3;
          y2 = gfP12_FrobeniusP2 fu2;
          y0 = gfP12_Mul fp fp2;
          y0 = gfP12_Mul y0 fp3;
          y1 = conj12 t1;
          y5 = conj12 fu2;
          y3 = conj12 y3;
          y4 = gfP12_Mul fu fu2p;
          y4 = conj12 y4;
          y6 = gfP12_Mul fu3 fu3p;
          y6 = conj12 y6;
          t0 = gfP12_Square y6;
          t0 = gfP12_Mul t0 y4;
          t0 = gfP12_Mul t0 y5;
          t1 = gfP12_Mul y3 y5;
          t1 = gfP12_Mul t1 t0;
          t0 = gfP12_Mul t0 y2;
          t1 = gfP12_Square t1;
          t1 = gfP12_Mul t1 t0;
          t1 = gfP12_Square t1;
          t0 = gfP12_Mul t1 y1;
          t1 = gfP12_Mul t1 y0;
          t0 = gfP12_Square t0
      in gfP12_Mul t0 t1)"

definition optimalAte :: "int \<Rightarrow> int \<Rightarrow> (curve_point \<Rightarrow> curve_point) \<Rightarrow> (curve_point \<Rightarrow> bool)
    \<Rightarrow> twist_point \<Rightarrow> curve_point \<Rightarrow> gfP12" where
  "optimalAte junk1 junk2 affineG1 isInfinityG1 a b =
     (let e = miller junk1 affineG1 a b; ret = finalExponentiation junk2 e in
      if tp_IsInfinity a \<or> isInfinityG1 b then gfP12_SetOne else ret)"

section \<open>The coefficients modulo P\<close>

text \<open>
  The ring of residues of \<open>gfP2\<close> modulo \<open>P\<close>, on the representatives that \<open>Minimal\<close> picks. Reading
  an element through \<open>red\<close> turns the code's operations into ring operations.
\<close>

typedef fp2 = "{a :: gfP2. gfP2_Minimal a = a}"
  morphisms rep_fp2 abs_fp2
  by (rule exI [of _ 0]) (simp add: gfP2_Minimal_mod gfP2.expand)

definition red :: "gfP2 \<Rightarrow> fp2" where
  "red a = abs_fp2 (gfP2_Minimal a)"

lemma Minimal_idem [simp]: "gfP2_Minimal (gfP2_Minimal a) = gfP2_Minimal a"
  by (simp add: gfP2_Minimal_eq_iff)

lemma rep_red: "rep_fp2 (red a) = gfP2_Minimal a"
  by (simp add: red_def abs_fp2_inverse)

lemma red_rep [simp]: "red (rep_fp2 x) = x"
  using rep_fp2 [of x] by (simp add: red_def rep_fp2_inverse)

lemma red_eq_iff: "red a = red b \<longleftrightarrow> cong_P a b"
  by (simp add: red_def abs_fp2_inject gfP2_Minimal_eq_iff)

lemma cong_rep_red [simp]: "cong_P (rep_fp2 (red a)) a"
  by (simp add: rep_red)

lemma red_cases [cases type: fp2]: obtains a where "x = red a"
  by (metis red_rep)

instantiation fp2 :: comm_ring_1
begin

definition zero_fp2 :: fp2 where "0 = red 0"
definition one_fp2 :: fp2 where "1 = red 1"
definition plus_fp2 :: "fp2 \<Rightarrow> fp2 \<Rightarrow> fp2" where "x + y = red (rep_fp2 x + rep_fp2 y)"
definition minus_fp2 :: "fp2 \<Rightarrow> fp2 \<Rightarrow> fp2" where "x - y = red (rep_fp2 x - rep_fp2 y)"
definition uminus_fp2 :: "fp2 \<Rightarrow> fp2" where "- x = red (- rep_fp2 x)"
definition times_fp2 :: "fp2 \<Rightarrow> fp2 \<Rightarrow> fp2" where "x * y = red (rep_fp2 x * rep_fp2 y)"

lemma red_hom:
  "red 0 = 0" "red 1 = 1" "red (a + b) = red a + red b" "red (a - b) = red a - red b"
  "red (- a) = - red a" "red (a * b) = red a * red b"
  by (simp_all only: zero_fp2_def one_fp2_def plus_fp2_def minus_fp2_def uminus_fp2_def
      times_fp2_def red_eq_iff)
     (auto intro!: cong_P_add cong_P_diff cong_P_minus cong_P_mult intro: cong_P_sym cong_rep_red)

instance
proof
  fix x y z :: fp2
  obtain a where x: "x = red a" by (rule red_cases)
  obtain b where y: "y = red b" by (rule red_cases)
  obtain c where z: "z = red c" by (rule red_cases)
  show "x * y * z = x * (y * z)" "x * y = y * x" "1 * x = x" "x + y + z = x + (y + z)"
    "x + y = y + x" "0 + x = x" "- x + x = 0" "x - y = x + - y" "(x + y) * z = x * z + y * z"
    unfolding x y z red_hom [symmetric] by (simp_all add: algebra_simps)
  have "\<not> cong_P (0 :: gfP2) 1" by (simp add: cong_gfP2 cong_P_int P_def)
  then show "(0 :: fp2) \<noteq> 1" by (simp add: zero_fp2_def one_fp2_def red_eq_iff)
qed

end

lemma red_of_int [simp]: "red (of_int n) = of_int n"
proof -
  have nat: "red (of_nat k) = of_nat k" for k by (induction k) (simp_all add: red_hom)
  show ?thesis by (cases n) (simp_all add: nat red_hom)
qed

lemma red_numeral [simp]: "red (numeral k) = numeral k"
  using red_of_int [of "numeral k"] by simp

lemma red_ops [simp]:
  "red (gfP2_Mul a b) = red a * red b" "red (gfP2_Square a) = red a * red a"
  using gfP2_Mul_cong [OF cong_P_refl cong_P_refl, of a b] gfP2_Square_cong [OF cong_P_refl, of a]
  by (simp_all add: red_eq_iff flip: red_hom)

declare red_hom [simp]

text \<open>The code compares reduced values by subtracting them and testing for zero.\<close>

definition reduced :: "gfP2 \<Rightarrow> bool" where
  "reduced a \<longleftrightarrow> gfP2_Minimal a = a"

lemma reduced_Mul [simp]: "reduced (gfP2_Mul a b)"
  by (simp add: reduced_def gfP2_Minimal_mod gfP2_Mul_def Let_def)

lemma IsZero_Sub: "reduced a \<Longrightarrow> reduced b \<Longrightarrow> gfP2_IsZero (a - b) \<longleftrightarrow> red a = red b"
  unfolding reduced_def red_eq_iff gfP2_Minimal_eq_iff [symmetric]
  by (auto simp: gfP2_IsZero_def gfP2.expand)

lemma tp_IsOnCurve_iff:
  "tp_IsOnCurve c \<longleftrightarrow> red (tp_y c) ^ 2 = red (tp_x c) ^ 3 + red twistB"
proof -
  let ?v = "gfP2_Square (tp_y c) - gfP2_Mul (gfP2_Square (tp_x c)) (tp_x c) - twistB"
  have "tp_IsOnCurve c \<longleftrightarrow> cong_P ?v 0"
    using gfP2_IsZero_Minimal [of ?v] by (simp add: tp_IsOnCurve_def gfP2_IsZero_def Let_def)
  also have "\<dots> \<longleftrightarrow> red ?v = red 0" by (simp only: red_eq_iff)
  also have "\<dots> \<longleftrightarrow> red (tp_y c) ^ 2 = red (tp_x c) ^ 3 + red twistB"
    by (simp add: power2_eq_square power3_eq_cube diff_diff_eq)
  finally show ?thesis .
qed

section \<open>Jacobian coordinates\<close>

text \<open>\<open>c\<close> stands for the affine point \<open>(X, Y)\<close>; \<open>cached\<close> is the invariant \<open>t = z\<^sup>2\<close>.\<close>

definition tp_rep :: "twist_point \<Rightarrow> fp2 \<Rightarrow> fp2 \<Rightarrow> bool" where
  "tp_rep c X Y \<longleftrightarrow> red (tp_x c) = X * red (tp_z c) ^ 2 \<and> red (tp_y c) = Y * red (tp_z c) ^ 3"

definition cached :: "twist_point \<Rightarrow> bool" where
  "cached c \<longleftrightarrow> red (tp_t c) = red (tp_z c) ^ 2"

text \<open>The affine chord and tangent construction with slope \<open>m\<close>.\<close>

definition thirdX :: "fp2 \<Rightarrow> fp2 \<Rightarrow> fp2 \<Rightarrow> fp2" where
  "thirdX m X1 X2 = m ^ 2 - X1 - X2"

definition thirdY :: "fp2 \<Rightarrow> fp2 \<Rightarrow> fp2 \<Rightarrow> fp2 \<Rightarrow> fp2" where
  "thirdY m X1 Y1 X2 = m * (X1 - thirdX m X1 X2) - Y1"

lemmas poly_simps = algebra_simps power_numeral_reduce

lemmas third_defs = thirdX_def thirdY_def

lemma tp_Double_affine:
  assumes "tp_rep a X Y" "m * (2 * Y) = 3 * X ^ 2"
  shows "tp_rep (tp_Double c a) (thirdX m X X) (thirdY m X Y X)"
proof -
  define z where "z = red (tp_z a)"
  have xy: "red (tp_x a) = X * z ^ 2" "red (tp_y a) = Y * z ^ 3"
    using assms(1) by (simp_all add: tp_rep_def z_def)
  have Z: "red (tp_z (tp_Double c a)) = 2 * (Y * z ^ 4)"
    by (simp add: tp_Double_def Let_def xy z_def [symmetric] algebra_simps power4_eq_xxxx power3_eq_cube)
  have "red (tp_x (tp_Double c a)) = (3 * X ^ 2) ^ 2 * z ^ 8 - 8 * X * Y ^ 2 * z ^ 8"
    by (simp add: tp_Double_def Let_def xy poly_simps)
  also have "\<dots> = thirdX m X X * (2 * (Y * z ^ 4)) ^ 2"
    unfolding assms(2) [symmetric] third_defs by (simp add: poly_simps)
  finally have x: "red (tp_x (tp_Double c a)) = thirdX m X X * red (tp_z (tp_Double c a)) ^ 2"
    by (simp only: Z)
  have "red (tp_y (tp_Double c a)) = 3 * X ^ 2 * z ^ 4 * (4 * X * Y ^ 2 * z ^ 8 - red (tp_x (tp_Double c a)))
      - 8 * Y ^ 4 * z ^ 12"
    by (simp add: tp_Double_def Let_def xy poly_simps)
  also have "\<dots> = thirdY m X Y X * (2 * (Y * z ^ 4)) ^ 3"
    unfolding x Z assms(2) [symmetric] third_defs by (simp add: poly_simps)
  finally have "red (tp_y (tp_Double c a)) = thirdY m X Y X * red (tp_z (tp_Double c a)) ^ 3"
    by (simp only: Z)
  with x show ?thesis by (simp add: tp_rep_def)
qed

text \<open>\<open>Add\<close>: the two cases of the code, told apart exactly.\<close>

definition same_point :: "twist_point \<Rightarrow> twist_point \<Rightarrow> bool" where
  "same_point a b \<longleftrightarrow>
     red (tp_x b) * red (tp_z a) ^ 2 = red (tp_x a) * red (tp_z b) ^ 2
     \<and> red (tp_y b) * red (tp_z a) ^ 3 = red (tp_y a) * red (tp_z b) ^ 3"

lemma tp_Add_same:
  assumes "\<not> tp_IsInfinity a" "\<not> tp_IsInfinity b" "same_point a b"
  shows "tp_Add c a b = tp_Double c a"
  using assms
  by (simp add: tp_Add_def Let_def IsZero_Sub same_point_def power_numeral_reduce mult.assoc)

lemma tp_Add_coords:
  fixes a b :: twist_point
  defines "xa \<equiv> red (tp_x a)" and "ya \<equiv> red (tp_y a)" and "za \<equiv> red (tp_z a)"
    and "xb \<equiv> red (tp_x b)" and "yb \<equiv> red (tp_y b)" and "zb \<equiv> red (tp_z b)"
  defines "h \<equiv> xb * za ^ 2 - xa * zb ^ 2" and "s \<equiv> yb * za ^ 3 - ya * zb ^ 3"
  defines "X \<equiv> 4 * s ^ 2 - 4 * h ^ 3 - 8 * xa * zb ^ 2 * h ^ 2"
  assumes "\<not> tp_IsInfinity a" "\<not> tp_IsInfinity b" "\<not> same_point a b"
  shows "red (tp_x (tp_Add c a b)) = X" "red (tp_z (tp_Add c a b)) = 2 * za * zb * h"
    "red (tp_y (tp_Add c a b)) = 2 * s * (4 * xa * zb ^ 2 * h ^ 2 - X) - 8 * ya * zb ^ 3 * h ^ 3"
proof -
  have ne: "\<not> (gfP2_IsZero (gfP2_Sub (gfP2_Mul (tp_x b) (gfP2_Square (tp_z a))) (gfP2_Mul (tp_x a) (gfP2_Square (tp_z b))))
      \<and> gfP2_IsZero (gfP2_Sub (gfP2_Mul (tp_y b) (gfP2_Mul (tp_z a) (gfP2_Square (tp_z a))))
          (gfP2_Mul (tp_y a) (gfP2_Mul (tp_z b) (gfP2_Square (tp_z b))))))"
    using assms(12) by (simp add: IsZero_Sub same_point_def power_numeral_reduce mult.assoc)
  note code = tp_Add_def [of c a b, unfolded Let_def if_not_P [OF assms(10)] if_not_P [OF assms(11)] if_not_P [OF ne]]
  have x: "red (tp_x (tp_Add c a b)) = X"
    unfolding code X_def h_def s_def xa_def ya_def za_def xb_def yb_def zb_def
    by (simp add: poly_simps)
  then show "red (tp_x (tp_Add c a b)) = X" .
  show "red (tp_z (tp_Add c a b)) = 2 * za * zb * h"
    unfolding code h_def xa_def za_def xb_def zb_def by (simp add: poly_simps)
  have "red (tp_y (tp_Add c a b)) = 2 * s * (4 * xa * zb ^ 2 * h ^ 2 - red (tp_x (tp_Add c a b)))
      - 8 * ya * zb ^ 3 * h ^ 3"
    unfolding code h_def s_def xa_def ya_def za_def xb_def yb_def zb_def
    by (simp add: poly_simps)
  then show "red (tp_y (tp_Add c a b)) = 2 * s * (4 * xa * zb ^ 2 * h ^ 2 - X) - 8 * ya * zb ^ 3 * h ^ 3"
    by (simp only: x)
qed

lemma tp_Add_affine:
  assumes "tp_rep a X1 Y1" "tp_rep b X2 Y2" "m * (X2 - X1) = Y2 - Y1"
    and "\<not> tp_IsInfinity a" "\<not> tp_IsInfinity b" "\<not> same_point a b"
  shows "tp_rep (tp_Add c a b) (thirdX m X1 X2) (thirdY m X1 Y1 X2)"
proof -
  define z w where "z = red (tp_z a)" and "w = red (tp_z b)"
  have a: "red (tp_x a) = X1 * z ^ 2" "red (tp_y a) = Y1 * z ^ 3"
    and b: "red (tp_x b) = X2 * w ^ 2" "red (tp_y b) = Y2 * w ^ 3"
    using assms(1,2) by (simp_all add: tp_rep_def z_def w_def)
  note c = tp_Add_coords [OF assms(4-6), of c, unfolded a b z_def [symmetric] w_def [symmetric]]
  let ?D = "X2 - X1"
  have s: "Y2 * w ^ 3 * z ^ 3 - Y1 * z ^ 3 * w ^ 3 = m * ?D * (z * w) ^ 3"
    unfolding assms(3) by (simp add: poly_simps)
  have h: "X2 * w ^ 2 * z ^ 2 - X1 * z ^ 2 * w ^ 2 = ?D * (z * w) ^ 2"
    by (simp add: poly_simps)
  have Z: "red (tp_z (tp_Add c a b)) = 2 * (?D * (z * w) ^ 3)"
    unfolding c(2) h by (simp add: poly_simps)
  have X: "red (tp_x (tp_Add c a b)) = thirdX m X1 X2 * red (tp_z (tp_Add c a b)) ^ 2"
    unfolding c(1) Z h s third_defs by (simp add: poly_simps)
  have "red (tp_y (tp_Add c a b)) = thirdY m X1 Y1 X2 * red (tp_z (tp_Add c a b)) ^ 3"
    unfolding c(3) c(1) [symmetric] X unfolding Z h s thirdY_def by (simp add: poly_simps)
  with X show ?thesis by (simp add: tp_rep_def)
qed

section \<open>The line functions\<close>





text \<open>The table of the loop.\<close>

lemma naf_value: "(\<Sum>i < length sixuPlus2NAF. sixuPlus2NAF ! i * 2 ^ i) = 6 * bnU + 2"
  by (simp add: sixuPlus2NAF_def bnU_def eval_nat_numeral)

text \<open>The constants of the twist, checked with given quotients by \<open>P\<close>.\<close>

lemma twist_constants: "red xi * red twistB = 3" "tp_IsOnCurve twistGen"
proof -
  have "cong_P (xi * twistB) 3"
    by (rule cong_gfP2I [where k = "1" and l = "8"]) (simp_all add: xi_def twistB_def P_def)
  then show "red xi * red twistB = 3" by (simp add: red_eq_iff [symmetric])
  let ?x = "tp_x twistGen" and ?y = "tp_y twistGen"
  let ?x2 = "GfP2 1837384903404616869280368109057824469904033017901941306968221631236329083166
    21740980388926906057426892996120422348616989628855161897682971020692097960281"
  let ?x3 = "GfP2 18731819480823831763230454102224971938956392180592755584362846046169105903289
    17325333118563567127851667797750321471171453547099705001540310225555311263340"
  let ?y2 = "GfP2 18998749271943822924477361489362255781501469145925655872932224557079413539979
    14922964998483646676629501313514766888265760859103602404415903627362542533130"
  have "cong_P (?x * ?x) ?x2"
    by (rule cong_gfP2I [where k = "11467759629048686117894849069235246766403203637883258795037926137579317846074"
        and l = "-719652793862314264003180062754339384390891005191370485917012582332181624172"]) (simp_all add: twistGen_def P_def)
  then have x2: "red ?x * red ?x = red ?x2" by (simp add: red_eq_iff [symmetric])
  have "cong_P (?x2 * ?x) ?x3"
    by (rule cong_gfP2I [where k = "12393342091016911084624211557957971527515431206414711678262613052091343774217"
        and l = "9813632369684871093633712214989803915475791572887658100852785874047213526619"]) (simp_all add: twistGen_def P_def)
  then have x3: "red ?x2 * red ?x = red ?x3" by (simp add: red_eq_iff [symmetric])
  have "cong_P (?y * ?y) ?y2"
    by (rule cong_gfP2I [where k = "3169042381637085631969340255475657347465997364048155542326807191678134711207"
        and l = "2536083340843168943765111218252959982070198762835983662926263033120061560823"]) (simp_all add: twistGen_def P_def)
  then have y2: "red ?y * red ?y = red ?y2" by (simp add: red_eq_iff [symmetric])
  have "cong_P ?y2 (?x3 + twistB)"
    by (rule cong_gfP2I [where k = "0" and l = "-1"]) (simp_all add: twistB_def P_def)
  then have "red ?y2 = red ?x3 + red twistB" by (simp add: red_eq_iff [symmetric])
  then show "tp_IsOnCurve twistGen"
    by (simp add: tp_IsOnCurve_iff power2_eq_square power3_eq_cube x2 x3 y2)
qed

section \<open>Back to affine coordinates\<close>

lemma gfP2_Invert_red: "gcd (norm2 a) P = 1 \<Longrightarrow> red a * red (gfP2_Invert junk a) = 1"
  using gfP2_Invert_cong [of a junk] by (simp add: red_eq_iff flip: red_hom(2,6))

lemma tp_MakeAffine_correct:
  assumes "tp_rep c X Y" "gcd (norm2 (tp_z c)) P = 1" "tp_z c \<noteq> - 1" "cached c"
  shows "red (tp_x (tp_MakeAffine junk c)) = X" "red (tp_y (tp_MakeAffine junk c)) = Y"
    "red (tp_z (tp_MakeAffine junk c)) = 1" "cached (tp_MakeAffine junk c)"
proof -
  define z i where "z = red (tp_z c)" and "i = red (gfP2_Invert junk (tp_z c))"
  have zi: "z * i = 1" using gfP2_Invert_red [OF assms(2)] by (simp add: z_def i_def)
  have xy: "red (tp_x c) = X * z ^ 2" "red (tp_y c) = Y * z ^ 3"
    using assms(1) by (simp_all add: tp_rep_def z_def)
  have "red (tp_x (tp_MakeAffine junk c)) = X \<and> red (tp_y (tp_MakeAffine junk c)) = Y
    \<and> red (tp_z (tp_MakeAffine junk c)) = 1 \<and> cached (tp_MakeAffine junk c)"
  proof (cases "gfP2_IsOne (tp_z c)")
    case True
    then have "x2 (tp_z c) = 0" "\<bar>y2 (tp_z c)\<bar> = 1" by (simp_all add: gfP2_IsOne_def split: if_splits)
    then have "tp_z c = 1" using assms(3) by (auto simp: gfP2.expand abs_if split: if_splits)
    then show ?thesis using True xy assms(4) by (simp add: tp_MakeAffine_def z_def)
  next
    case False
    have "X * z ^ 2 * (i * i) = X * (z * i) ^ 2" "Y * z ^ 3 * i * (i * i) = Y * (z * i) ^ 3"
      by (simp_all add: poly_simps)
    then show ?thesis
      using False by (simp add: tp_MakeAffine_def Let_def xy zi cached_def flip: i_def)
  qed
  then show "red (tp_x (tp_MakeAffine junk c)) = X" "red (tp_y (tp_MakeAffine junk c)) = Y"
    "red (tp_z (tp_MakeAffine junk c)) = 1" "cached (tp_MakeAffine junk c)" by blast+
qed

section \<open>The final exponentiation is multiplicative\<close>

lemma norm12_mult: "norm12 (a * b) = norm12 a * norm12 b"
  by (simp add: norm12_def algebra_simps)

lemma norm6_mult: "norm6 (a * b) = norm6 a * norm6 b"
proof -
  have "conj6 (a * b) = conj6 a * conj6 b"
    by (simp add: conj6_def gfP6.expand algebra_simps)
  then have "a * b * conj6 (a * b) = (a * conj6 a) * (b * conj6 b)" by (simp add: algebra_simps)
  then have "embed6 (norm6 (a * b)) = embed6 (norm6 a * norm6 b)"
    by (simp add: mult_conj6 embed6_mult)
  then show ?thesis by (simp add: embed6_def)
qed

lemma norm2_mult: "norm2 (a * b) = norm2 a * norm2 b"
  by (simp add: norm2_def algebra_simps)

lemma invertible12_mult: "invertible12 a \<Longrightarrow> invertible12 b \<Longrightarrow> invertible12 (a * b)"
  by (simp add: invertible12_def norm12_mult norm6_mult norm2_mult flip: coprime_iff_gcd_eq_1)

lemma invertible12_cong: "cong_P a b \<Longrightarrow> invertible12 a = invertible12 b"
proof -
  assume "cong_P a b"
  then have "cong_P (norm12 a) (norm12 b)"
    unfolding norm12_def cong_gfP12 by (intro cong_P_diff cong_P_mult cong_P_refl) blast+
  then show ?thesis
    using gcd_cong_P [OF norm2_cong [OF norm6_cong]] by (simp add: invertible12_def)
qed

lemma inverse_unique:
  assumes "cong_P (a * x) 1" "cong_P (a * y) 1"
  shows "cong_P x y"
proof -
  have "cong_P (x * 1) (x * (a * y))" by (intro cong_P_mult cong_P_sym [OF assms(2)] cong_P_refl)
  also have "x * (a * y) = (a * x) * y" by (simp add: algebra_simps)
  also have "cong_P \<dots> (1 * y)" by (intro cong_P_mult assms(1) cong_P_refl)
  finally show ?thesis by simp
qed

text \<open>Maps that are multiplicative on the invertible elements, and how the code composes them.\<close>

definition mult_on :: "(gfP12 \<Rightarrow> gfP12) \<Rightarrow> bool" where
  "mult_on F \<longleftrightarrow> (\<forall>a b. invertible12 a \<longrightarrow> invertible12 b \<longrightarrow> cong_P (F (gfP12_Mul a b)) (F a * F b))"

definition mult_map :: "(gfP12 \<Rightarrow> gfP12) \<Rightarrow> bool" where
  "mult_map g \<longleftrightarrow> (\<forall>a b. cong_P (g (a * b)) (g a * g b)) \<and> (\<forall>a b. cong_P a b \<longrightarrow> cong_P (g a) (g b))"

named_theorems mult_intros \<open>closure rules of the multiplicative maps\<close>

lemma mult_on_op: "mult_map g \<Longrightarrow> mult_on F \<Longrightarrow> mult_on (\<lambda>a. g (F a))"
  unfolding mult_map_def mult_on_def by (meson cong_P_trans)

lemma mult_on_Mul [mult_intros]:
  assumes "mult_on F" "mult_on G"
  shows "mult_on (\<lambda>a. gfP12_Mul (F a) (G a))"
  unfolding mult_on_def
proof (intro allI impI)
  fix a b assume ab: "invertible12 a" "invertible12 b"
  let ?m = "gfP12_Mul a b"
  have "cong_P (gfP12_Mul (F ?m) (G ?m)) ((F a * F b) * (G a * G b))"
    by (rule gfP12_Mul_cong) (use assms ab in \<open>auto simp: mult_on_def\<close>)
  also have "\<dots> = (F a * G a) * (F b * G b)" by (simp add: algebra_simps)
  also have "cong_P \<dots> (gfP12_Mul (F a) (G a) * gfP12_Mul (F b) (G b))"
    by (intro cong_P_mult cong_P_sym [OF gfP12_Mul_self])
  finally show "cong_P (gfP12_Mul (F ?m) (G ?m)) (gfP12_Mul (F a) (G a) * gfP12_Mul (F b) (G b))" .
qed

lemma mult_map_cong:
  assumes "\<And>a. cong_P (g a) (h a)" "mult_map h"
  shows "mult_map g"
  unfolding mult_map_def
proof (intro conjI allI impI)
  fix a b
  have "cong_P (g (a * b)) (h a * h b)"
    using assms by (meson cong_P_trans mult_map_def)
  also have "cong_P \<dots> (g a * g b)" by (intro cong_P_mult cong_P_sym [OF assms(1)])
  finally show "cong_P (g (a * b)) (g a * g b)" .
  show "cong_P (g a) (g b)" if "cong_P a b"
    using assms that by (meson cong_P_trans cong_P_sym mult_map_def)
qed

lemma mult_map_power: "mult_map (\<lambda>a. a ^ n)"
  by (simp add: mult_map_def power_mult_distrib cong_P_power)

lemma mult_map_Exp [mult_intros]: "mult_map (\<lambda>a. gfP12_Exp a bnU)"
  by (rule mult_map_cong [OF gfP12_Exp_cong mult_map_power]) (simp add: bnU_def)

lemma mult_map_Square [mult_intros]: "mult_map gfP12_Square"
  by (rule mult_map_cong [where h = "\<lambda>a. a ^ 2", OF _ mult_map_power])
     (simp only: power2_eq_square gfP12_Square_self)

lemma mult_map_conj [mult_intros]: "mult_map conj12"
  by (simp add: mult_map_def gfP12_Conjugate_def cong_gfP12 cong_P_minus algebra_simps)

lemma mult_map_twist:
  assumes "\<And>a b. cong_P (twist12 f c2 c1 d (a * b)) (twist12 f c2 c1 d a * twist12 f c2 c1 d b)"
    and "\<And>a b. cong_P a b \<Longrightarrow> cong_P (f a) (f b)"
  shows "mult_map (twist12 f c2 c1 d)"
  using assms twist12_cong [of f] by (auto simp: mult_map_def)

lemma mult_map_Frobenius [mult_intros]: "mult_map gfP12_Frobenius"
  by (rule mult_map_cong [OF gfP12_Frobenius_twist mult_map_twist])
     (rule Frobenius_twist_mult, rule Conjugate_cong)

lemma mult_map_FrobeniusP2 [mult_intros]: "mult_map gfP12_FrobeniusP2"
  by (rule mult_map_cong [OF _ mult_map_twist [OF FrobeniusP2_twist_mult]])
     (simp_all add: gfP12_FrobeniusP2_twist)

lemma mult_on_Invert [mult_intros]: "mult_on (gfP12_Invert junk)"
  unfolding mult_on_def
proof (intro allI impI)
  fix a b assume ab: "invertible12 a" "invertible12 b"
  let ?m = "gfP12_Mul a b" and ?ia = "gfP12_Invert junk a" and ?ib = "gfP12_Invert junk b"
  have m: "invertible12 ?m"
    using invertible12_mult [OF ab] invertible12_cong [OF gfP12_Mul_self] by blast
  have "cong_P (?m * (?ia * ?ib)) (a * b * (?ia * ?ib))"
    by (intro cong_P_mult gfP12_Mul_self cong_P_refl)
  also have "a * b * (?ia * ?ib) = (a * ?ia) * (b * ?ib)" by (simp add: algebra_simps)
  also have "cong_P \<dots> (1 * 1)" by (intro cong_P_mult gfP12_Invert_cong ab)
  finally have "cong_P (?m * (?ia * ?ib)) 1" by simp
  then show "cong_P (gfP12_Invert junk ?m) (?ia * ?ib)"
    by (rule inverse_unique [OF gfP12_Invert_cong [OF m]])
qed

lemma mult_on_first [mult_intros]: "mult_on (\<lambda>a. GfP12 (gfP6_Negative (x12 a)) (gfP6_Set (y12 a)))"
proof -
  have eq: "(\<lambda>a. GfP12 (gfP6_Negative (x12 a)) (gfP6_Set (y12 a))) = conj12"
    by (simp add: gfP12_Conjugate_def fun_eq_iff)
  have "mult_on (\<lambda>a. a)" by (simp add: mult_on_def gfP12_Mul_self)
  from mult_on_op [OF mult_map_conj this] show ?thesis unfolding eq .
qed

lemmas mult_on_ops = mult_on_op [OF mult_map_conj] mult_on_op [OF mult_map_Square]
  mult_on_op [OF mult_map_Frobenius] mult_on_op [OF mult_map_FrobeniusP2] mult_on_op [OF mult_map_Exp]

text \<open>The code's straight-line program, one temporary at a time.\<close>

lemma finalExponentiation_mult: "mult_on (finalExponentiation junk)"
proof -
  define s where "s = (\<lambda>f. gfP12_Mul (GfP12 (gfP6_Negative (x12 f)) (gfP6_Set (y12 f))) (gfP12_Invert junk f))"
  define t where "t = (\<lambda>f. gfP12_Mul (s f) (gfP12_FrobeniusP2 (s f)))"
  define fu where "fu = (\<lambda>f. gfP12_Exp (t f) bnU)"
  define fu2 where "fu2 = (\<lambda>f. gfP12_Exp (fu f) bnU)"
  define fu3 where "fu3 = (\<lambda>f. gfP12_Exp (fu2 f) bnU)"
  define y0 where "y0 = (\<lambda>f. gfP12_Mul (gfP12_Mul (gfP12_Frobenius (t f)) (gfP12_FrobeniusP2 (t f)))
    (gfP12_Frobenius (gfP12_FrobeniusP2 (t f))))"
  define y3 where "y3 = (\<lambda>f. conj12 (gfP12_Frobenius (fu f)))"
  define y4 where "y4 = (\<lambda>f. conj12 (gfP12_Mul (fu f) (gfP12_Frobenius (fu2 f))))"
  define y5 where "y5 = (\<lambda>f. conj12 (fu2 f))"
  define y6 where "y6 = (\<lambda>f. conj12 (gfP12_Mul (fu3 f) (gfP12_Frobenius (fu3 f))))"
  define p where "p = (\<lambda>f. gfP12_Mul (gfP12_Mul (gfP12_Square (y6 f)) (y4 f)) (y5 f))"
  define q where "q = (\<lambda>f. gfP12_Square (gfP12_Mul (gfP12_Square (gfP12_Mul (gfP12_Mul (y3 f) (y5 f)) (p f)))
    (gfP12_Mul (p f) (gfP12_FrobeniusP2 (fu2 f)))))"
  have fe: "finalExponentiation junk =
      (\<lambda>f. gfP12_Mul (gfP12_Square (gfP12_Mul (q f) (conj12 (t f)))) (gfP12_Mul (q f) (y0 f)))"
    unfolding finalExponentiation_def Let_def s_def t_def fu_def fu2_def fu3_def y0_def y3_def
      y4_def y5_def y6_def p_def q_def by (rule ext) (rule refl)
  have s: "mult_on s" unfolding s_def by (intro mult_on_Mul mult_on_first mult_on_Invert)
  have t: "mult_on t" unfolding t_def by (intro mult_on_Mul mult_on_ops s)
  have fu: "mult_on fu" unfolding fu_def by (intro mult_on_ops t)
  have fu2: "mult_on fu2" unfolding fu2_def by (intro mult_on_ops fu)
  have fu3: "mult_on fu3" unfolding fu3_def by (intro mult_on_ops fu2)
  have y0: "mult_on y0" unfolding y0_def by (intro mult_on_Mul mult_on_ops t)
  have y3: "mult_on y3" unfolding y3_def by (intro mult_on_Mul mult_on_ops fu)
  have y4: "mult_on y4" unfolding y4_def by (intro mult_on_Mul mult_on_ops fu fu2)
  have y5: "mult_on y5" unfolding y5_def by (intro mult_on_ops fu2)
  have y6: "mult_on y6" unfolding y6_def by (intro mult_on_Mul mult_on_ops fu3)
  have p: "mult_on p" unfolding p_def by (intro mult_on_Mul mult_on_ops y6 y4 y5)
  have q: "mult_on q" unfolding q_def by (intro mult_on_Mul mult_on_ops y3 y5 p fu2)
  show ?thesis unfolding fe by (intro mult_on_Mul mult_on_ops q t y0)
qed

section \<open>Properties\<close>

text \<open>
  C12: Jacobian doubling and addition on the twist compute the affine tangent and chord
  construction modulo \<open>P\<close>: for a slope \<open>m\<close> of the tangent at \<open>(X1, Y1)\<close>, or of the chord to
  \<open>(X2, Y2)\<close>, the result stands for the third point, whatever coordinates represent the
  arguments. \<open>Add\<close> falls back to \<open>Double\<close> exactly when both arguments stand for the same point.
\<close>

theorem twist_group_law:
  assumes "tp_rep a X1 Y1"
  shows "(m * (2 * Y1) = 3 * X1 ^ 2 \<longrightarrow> tp_rep (tp_Double c a) (thirdX m X1 X1) (thirdY m X1 Y1 X1))
    \<and> (\<not> tp_IsInfinity a \<and> \<not> tp_IsInfinity b \<and> same_point a b \<longrightarrow> tp_Add c a b = tp_Double c a)
    \<and> (tp_rep b X2 Y2 \<and> \<not> tp_IsInfinity a \<and> \<not> tp_IsInfinity b \<and> \<not> same_point a b
        \<and> m * (X2 - X1) = Y2 - Y1 \<longrightarrow> tp_rep (tp_Add c a b) (thirdX m X1 X2) (thirdY m X1 Y1 X2))"
  using tp_Double_affine [OF assms] tp_Add_same tp_Add_affine [OF assms] by blast

theorem twist_group_law_witness:
  "tp_Add twistGen twistGen twistGen = tp_Double twistGen twistGen"
proof -
  have "tp_rep twistGen (red (tp_x twistGen)) (red (tp_y twistGen))"
    by (simp add: tp_rep_def twistGen_def flip: one_gfP2_def)
  from twist_group_law [OF this, of 0 _ twistGen] show ?thesis
    by (simp add: same_point_def tp_IsInfinity_def gfP2_IsZero_def) (simp add: twistGen_def)
qed



text \<open>
  The table that drives the loop is the signed binary form of \<open>6u + 2\<close>, with no two adjacent
  non-zero digits below its leading pair, and the constants of the twist are the ones the comments
  name: \<open>\<xi> B = 3\<close>, and the generator lies on the curve.
\<close>

theorem pairing_tables:
  "(\<Sum>i < length sixuPlus2NAF. sixuPlus2NAF ! i * 2 ^ i) = 6 * bnU + 2
   \<and> red xi * red twistB = 3 \<and> tp_IsOnCurve twistGen"
  using naf_value twist_constants by blast

text \<open>
  The final exponentiation is multiplicative modulo \<open>P\<close> on invertible elements, and the pairing
  of a point at infinity is one.
\<close>

theorem final_exponentiation_multiplicative:
  assumes "invertible12 a" "invertible12 b"
  shows "cong_P (finalExponentiation junk (gfP12_Mul a b))
      (gfP12_Mul (finalExponentiation junk a) (finalExponentiation junk b))
    \<and> (tp_IsInfinity q \<or> isInfinityG1 p \<longrightarrow> optimalAte junk junk' affineG1 isInfinityG1 q p = 1)"
proof
  have "cong_P (finalExponentiation junk (gfP12_Mul a b)) (finalExponentiation junk a * finalExponentiation junk b)"
    using finalExponentiation_mult [of junk] assms by (simp add: mult_on_def)
  also have "cong_P \<dots> (gfP12_Mul (finalExponentiation junk a) (finalExponentiation junk b))"
    by (rule cong_P_sym [OF gfP12_Mul_self])
  finally show "cong_P (finalExponentiation junk (gfP12_Mul a b))
      (gfP12_Mul (finalExponentiation junk a) (finalExponentiation junk b))" .
  show "tp_IsInfinity q \<or> isInfinityG1 p \<longrightarrow> optimalAte junk junk' affineG1 isInfinityG1 q p = 1"
    by (simp add: optimalAte_def Let_def)
qed

lemma invertible12_1: "invertible12 1"
  by (simp add: invertible12_def norm12_def norm6_def norm2_def conj6_def)

theorem final_exponentiation_multiplicative_witness:
  "cong_P (finalExponentiation 0 (gfP12_Mul 1 1)) (gfP12_Mul (finalExponentiation 0 1) (finalExponentiation 0 1))"
  using final_exponentiation_multiplicative [OF invertible12_1 invertible12_1] by blast

end
