(* ===== verification/Hex_Util.thy ===== *)
theory Hex_Util
  imports Chain_Prelude
begin

text \<open>
  The hex text formats of the RPC interface (\<^verbatim>\<open>hexutil.go\<close>, \<^verbatim>\<open>json.go\<close>): byte slices and
  quantities with a \<open>0x\<close> prefix, with the readers that take a string, a text and a JSON
  literal. Of the standard library, \<^verbatim>\<open>encoding/hex\<close>, \<^verbatim>\<open>strconv.ParseUint\<close>,
  \<^verbatim>\<open>strconv.AppendUint\<close> and the \<^verbatim>\<open>%#x\<close> verb of \<^verbatim>\<open>big.Int\<close> are modelled; the base-58 reader is in
  another package and a parameter. A Go string and a \<^verbatim>\<open>[]byte\<close> are both lists of bytes, a
  panic is \<^term>\<open>None\<close>, and the platform is a 64-bit one.
\<close>

unbundle bit_operations_syntax

section \<open>Errors\<close>

datatype dec_error = ErrEmptyString | ErrSyntax | ErrMissingPrefix | ErrOddLength
  | ErrEmptyNumber | ErrLeadingZero | ErrUint64Range | ErrUintRange | ErrBig256Range
  | ErrLBRVersion

text \<open>The errors of the standard library that \<^verbatim>\<open>mapError\<close> knows.\<close>

datatype lib_error = NumRange | NumSyntax | InvalidByte u8 | HexLength

fun mapError :: "lib_error \<Rightarrow> dec_error" where
  "mapError NumRange = ErrUint64Range"
| "mapError NumSyntax = ErrSyntax"
| "mapError (InvalidByte b) = ErrSyntax"
| "mapError HexLength = ErrOddLength"

datatype json_type = bytesT | bigT | uintT | uint64T | namedT bytes

text \<open>
  The errors a caller sees: a \<^verbatim>\<open>decError\<close>, an error of the base-58 package, a wrong length
  (found digits, wanted digits, name of the type) and JSON's type error, which carries the
  message of a \<^verbatim>\<open>decError\<close> or \<open>non-string\<close> (\<^term>\<open>None\<close>).
\<close>

datatype hex_error = DecError dec_error | Base58Error bytes | LengthError nat nat bytes
  | UnmarshalTypeError "dec_error option" json_type

fun wrapTypeError :: "hex_error + 'a \<Rightarrow> json_type \<Rightarrow> hex_error + 'a" where
  "wrapTypeError (Inl (DecError e)) ty = Inl (UnmarshalTypeError (Some e) ty)"
| "wrapTypeError r ty = r"

definition errNonString :: "json_type \<Rightarrow> hex_error" where
  "errNonString ty = UnmarshalTypeError None ty"

definition lift_lib :: "lib_error + 'a \<Rightarrow> hex_error + 'a" where
  "lift_lib r = (case r of Inl e \<Rightarrow> Inl (DecError (mapError e)) | Inr x \<Rightarrow> Inr x)"

lemma lift_lib_simps [simp]:
  "lift_lib (Inl e) = Inl (DecError (mapError e))" "lift_lib (Inr x) = Inr x"
  by (simp_all add: lift_lib_def)

section \<open>Digits\<close>

text \<open>
  The value of a digit as \<^verbatim>\<open>strconv\<close> reads it, letters of both cases counting from ten; a
  hex digit is one whose value is below 16.
\<close>

definition digit :: "u8 \<Rightarrow> nat option" where
  "digit c = (if 48 \<le> c \<and> c \<le> 57 then Some (unat c - 48)
     else if 97 \<le> c \<and> c \<le> 122 then Some (unat c - 87)
     else if 65 \<le> c \<and> c \<le> 90 then Some (unat c - 55) else None)"

definition is_digit :: "nat \<Rightarrow> u8 \<Rightarrow> bool" where
  "is_digit base c = (case digit c of None \<Rightarrow> False | Some d \<Rightarrow> d < base)"

definition digit_val :: "u8 \<Rightarrow> nat" where
  "digit_val c = (case digit c of None \<Rightarrow> 0 | Some d \<Rightarrow> d)"

text \<open>The number a string of digits stands for; the reference for every reader below.\<close>

definition digits_value :: "nat \<Rightarrow> bytes \<Rightarrow> nat" where
  "digits_value base s = foldl (\<lambda>a c. a * base + digit_val c) 0 s"

definition badNibble :: u64 where
  "badNibble = NOT 0"

definition decodeNibble :: "u8 \<Rightarrow> u64" where
  "decodeNibble c = (if 48 \<le> c \<and> c \<le> 57 then ucast (c - 48)
     else if 65 \<le> c \<and> c \<le> 70 then ucast (c - 65 + 10)
     else if 97 \<le> c \<and> c \<le> 102 then ucast (c - 97 + 10) else badNibble)"

definition hextable :: "nat \<Rightarrow> u8" where
  "hextable d = (if d < 10 then word_of_nat (48 + d) else word_of_nat (87 + d))"

lemma digits_value_Nil [simp]: "digits_value base [] = 0"
  by (simp add: digits_value_def)

lemma digits_value_snoc [simp]:
  "digits_value base (s @ [c]) = digits_value base s * base + digit_val c"
  by (simp add: digits_value_def)

lemma digits_value_append:
  "digits_value base (s @ t) = digits_value base s * base ^ length t + digits_value base t"
proof (induction t rule: rev_induct)
  case (snoc c t)
  then show ?case
    by (simp flip: append_assoc add: algebra_simps)
qed simp

lemma is_digit_less: "is_digit base c \<Longrightarrow> digit_val c < base"
  by (auto simp: is_digit_def digit_val_def split: option.splits)

lemma digits_value_bound: "\<forall>c \<in> set s. is_digit base c \<Longrightarrow> digits_value base s < base ^ length s"
proof (induction s rule: rev_induct)
  case (snoc c s)
  then have "digits_value base s + 1 \<le> base ^ length s" by simp
  then have "(digits_value base s + 1) * base \<le> base ^ length s * base"
    by (rule mult_le_mono1)
  moreover have "digit_val c < base" using snoc.prems by (simp add: is_digit_less)
  ultimately show ?case by (simp add: algebra_simps)
qed simp

lemma u64_of_u8: "(ucast (x :: u8) :: u64) = word_of_nat (unat x)"
  by simp

lemma decodeNibble_digit: "decodeNibble c = (if is_digit 16 c then word_of_nat (digit_val c) else badNibble)"
proof -
  have *: "(ucast (c - 48) :: u64) = word_of_nat (unat c - 48)" if "48 \<le> c"
    using unat_sub [OF that] by (simp add: u64_of_u8)
  have **: "(ucast (c - 65 + 10) :: u64) = word_of_nat (unat c - 55)" if "65 \<le> c" "c \<le> 70"
  proof -
    have "unat c \<le> 70" "65 \<le> unat c" using that by (simp_all add: word_le_nat_alt)
    moreover have "unat (c - 55) = unat c - unat (55 :: u8)"
      using calculation by (intro unat_sub) (simp add: word_le_nat_alt)
    then have "unat (c - 65 + 10) = unat c - 55" by simp
    ultimately show ?thesis by (simp only: u64_of_u8)
  qed
  have ***: "(ucast (c - 97 + 10) :: u64) = word_of_nat (unat c - 87)" if "97 \<le> c" "c \<le> 102"
  proof -
    have "unat c \<le> 102" "97 \<le> unat c" using that by (simp_all add: word_le_nat_alt)
    moreover have "unat (c - 87) = unat c - unat (87 :: u8)"
      using calculation by (intro unat_sub) (simp add: word_le_nat_alt)
    then have "unat (c - 97 + 10) = unat c - 87" by simp
    ultimately show ?thesis by (simp only: u64_of_u8)
  qed
  show ?thesis
    using * ** ***
    by (auto simp: decodeNibble_def is_digit_def digit_val_def digit_def word_le_nat_alt
        split: option.splits if_splits)
qed

lemma hextable_digit: "d < 16 \<Longrightarrow> digit (hextable d) = Some d"
proof -
  assume "d < 16"
  then have "unat (word_of_nat (48 + d) :: u8) = 48 + d" "unat (word_of_nat (87 + d) :: u8) = 87 + d"
    by (simp_all only: unat_of_nat) simp_all
  with \<open>d < 16\<close> show ?thesis
    by (simp add: digit_def hextable_def word_le_nat_alt del: of_nat_add)
qed

lemma hextable_is_digit [simp]: "d < 16 \<Longrightarrow> is_digit 16 (hextable d)" "d < 16 \<Longrightarrow> digit_val (hextable d) = d"
  by (simp_all add: is_digit_def digit_val_def hextable_digit)

section \<open>Byte slices\<close>

text \<open>
  \<^verbatim>\<open>hex.Encode\<close>, and \<^verbatim>\<open>hex.Decode\<close> with the bytes it has written when it stops: an invalid
  digit is reported before an odd length.
\<close>

definition hexEncode :: "bytes \<Rightarrow> bytes" where
  "hexEncode bs = concat (map (\<lambda>b. [hextable (unat b div 16), hextable (unat b mod 16)]) bs)"

fun hexDecode :: "bytes \<Rightarrow> bytes \<times> lib_error option" where
  "hexDecode [] = ([], None)"
| "hexDecode [c] = ([], Some (if is_digit 16 c then HexLength else InvalidByte c))"
| "hexDecode (c # d # cs) =
     (if \<not> is_digit 16 c then ([], Some (InvalidByte c))
      else if \<not> is_digit 16 d then ([], Some (InvalidByte d))
      else apfst ((#) (word_of_nat (digit_val c * 16 + digit_val d))) (hexDecode cs))"

definition decodeHex :: "bytes \<Rightarrow> lib_error + bytes" where
  "decodeHex s = (case hexDecode s of (b, None) \<Rightarrow> Inr b | (b, Some e) \<Rightarrow> Inl e)"

definition has0xPrefix :: "bytes \<Rightarrow> bool" where
  "has0xPrefix input \<longleftrightarrow> 2 \<le> length input \<and> input ! 0 = 48 \<and> (input ! 1 = 120 \<or> input ! 1 = 88)"

definition zeroX :: bytes where
  "zeroX = [48, 120]"

definition Encode :: "bytes \<Rightarrow> bytes" where
  "Encode b = zeroX @ hexEncode b"

definition Decode :: "(bytes \<Rightarrow> hex_error + bytes \<times> nat) \<Rightarrow> bytes \<Rightarrow> hex_error + bytes" where
  "Decode LBRDecode input =
     (if length input = 0 then Inl (DecError ErrEmptyString)
      else if \<not> has0xPrefix input then
        (if input ! 0 = 109 then
           (case LBRDecode input of Inl e \<Rightarrow> Inl e
            | Inr (res, outVersion) \<Rightarrow> if outVersion \<noteq> 0 then Inl (DecError ErrLBRVersion) else Inr res)
         else Inl (DecError ErrMissingPrefix))
      else lift_lib (decodeHex (drop 2 input)))"

definition MustDecode :: "(bytes \<Rightarrow> hex_error + bytes \<times> nat) \<Rightarrow> bytes \<Rightarrow> bytes option" where
  "MustDecode LBRDecode input = (case Decode LBRDecode input of Inl e \<Rightarrow> None | Inr b \<Rightarrow> Some b)"

definition bytesHave0xPrefix :: "bytes \<Rightarrow> bool" where
  "bytesHave0xPrefix input \<longleftrightarrow> 2 \<le> length input \<and> input ! 0 = 48 \<and> (input ! 1 = 120 \<or> input ! 1 = 88)"

definition checkText :: "bytes \<Rightarrow> bool \<Rightarrow> hex_error + bytes" where
  "checkText input wantPrefix =
     (if length input = 0 then Inr []
      else if \<not> bytesHave0xPrefix input \<and> wantPrefix then Inl (DecError ErrMissingPrefix)
      else let input = (if bytesHave0xPrefix input then drop 2 input else input) in
        if length input mod 2 \<noteq> 0 then Inl (DecError ErrOddLength) else Inr input)"

definition isString :: "bytes \<Rightarrow> bool" where
  "isString input \<longleftrightarrow> 2 \<le> length input \<and> input ! 0 = 34 \<and> input ! (length input - 1) = 34"

text \<open>\<^verbatim>\<open>input[1 : len(input)-1]\<close>.\<close>

definition unquote :: "bytes \<Rightarrow> bytes" where
  "unquote input = take (length input - 2) (drop 1 input)"

definition Bytes_MarshalText :: "bytes \<Rightarrow> bytes" where
  "Bytes_MarshalText b = zeroX @ hexEncode b"

definition Bytes_UnmarshalText :: "bytes \<Rightarrow> hex_error + bytes" where
  "Bytes_UnmarshalText input =
     (case checkText input True of Inl e \<Rightarrow> Inl e | Inr raw \<Rightarrow> lift_lib (decodeHex raw))"

definition Bytes_UnmarshalJSON :: "bytes \<Rightarrow> hex_error + bytes" where
  "Bytes_UnmarshalJSON input =
     (if \<not> isString input then Inl (errNonString bytesT)
      else wrapTypeError (Bytes_UnmarshalText (unquote input)) bytesT)"

definition Bytes_String :: "bytes \<Rightarrow> bytes" where
  "Bytes_String b = Encode b"

text \<open>
  The fixed-size readers write into the caller's slice: the new contents of \<open>out\<close>, or an error
  that leaves it alone.
\<close>

definition UnmarshalFixedText :: "bytes \<Rightarrow> bytes \<Rightarrow> bytes \<Rightarrow> hex_error + bytes" where
  "UnmarshalFixedText typname input out =
     (case checkText input False of Inl e \<Rightarrow> Inl e
      | Inr raw \<Rightarrow>
          if length raw div 2 \<noteq> length out then Inl (LengthError (length raw) (length out * 2) typname)
          else if \<exists>b \<in> set raw. decodeNibble b = badNibble then Inl (DecError ErrSyntax)
          else let dec = fst (hexDecode raw) in Inr (dec @ drop (length dec) out))"

definition UnmarshalFixedUnprefixedText :: "bytes \<Rightarrow> bytes \<Rightarrow> bytes \<Rightarrow> hex_error + bytes" where
  "UnmarshalFixedUnprefixedText typname input out =
     (case checkText input False of Inl e \<Rightarrow> Inl e
      | Inr raw \<Rightarrow>
          if length raw div 2 \<noteq> length out then Inl (LengthError (length raw) (length out * 2) typname)
          else if \<exists>b \<in> set raw. decodeNibble b = badNibble then Inl (DecError ErrSyntax)
          else let dec = fst (hexDecode raw) in Inr (dec @ drop (length dec) out))"

fun type_name :: "json_type \<Rightarrow> bytes" where
  "type_name (namedT n) = n"
| "type_name bytesT = str ''hexutil.Bytes''"
| "type_name bigT = str ''*hexutil.Big''"
| "type_name uintT = str ''hexutil.Uint''"
| "type_name uint64T = str ''hexutil.Uint64''"

definition UnmarshalFixedJSON :: "json_type \<Rightarrow> bytes \<Rightarrow> bytes \<Rightarrow> hex_error + bytes" where
  "UnmarshalFixedJSON ty input out =
     (if \<not> isString input then Inl (errNonString ty)
      else wrapTypeError (UnmarshalFixedText (type_name ty) (unquote input) out) ty)"

section \<open>Quantities\<close>

definition checkNumber :: "bytes \<Rightarrow> hex_error + bytes" where
  "checkNumber input =
     (if length input = 0 then Inl (DecError ErrEmptyString)
      else if \<not> has0xPrefix input then Inl (DecError ErrMissingPrefix)
      else let input = drop 2 input in
        if length input = 0 then Inl (DecError ErrEmptyNumber)
        else if 1 < length input \<and> input ! 0 = 48 then Inl (DecError ErrLeadingZero)
        else Inr input)"

definition checkNumberText :: "bytes \<Rightarrow> hex_error + bytes" where
  "checkNumberText input =
     (if length input = 0 then Inr []
      else if \<not> bytesHave0xPrefix input then Inl (DecError ErrMissingPrefix)
      else let input = drop 2 input in
        if length input = 0 then Inl (DecError ErrEmptyNumber)
        else if 1 < length input \<and> input ! 0 = 48 then Inl (DecError ErrLeadingZero)
        else Inr input)"

text \<open>\<^verbatim>\<open>strconv.ParseUint(s, base, 64)\<close>, with its two overflow tests.\<close>

fun ParseUint_loop :: "nat \<Rightarrow> u64 \<Rightarrow> bytes \<Rightarrow> lib_error + u64" where
  "ParseUint_loop base n [] = Inr n"
| "ParseUint_loop base n (c # cs) =
     (if \<not> is_digit base c then Inl NumSyntax
      else if (- 1) div word_of_nat base + 1 \<le> n then Inl NumRange
      else let n' = n * word_of_nat base; n1 = n' + word_of_nat (digit_val c) in
        if n1 < n' then Inl NumRange else ParseUint_loop base n1 cs)"

definition ParseUint :: "nat \<Rightarrow> bytes \<Rightarrow> lib_error + u64" where
  "ParseUint base s = (if s = [] then Inl NumSyntax else ParseUint_loop base 0 s)"

definition DecodeUint64 :: "bytes \<Rightarrow> hex_error + u64" where
  "DecodeUint64 input =
     (case checkNumber input of Inl e \<Rightarrow> Inl e | Inr raw \<Rightarrow> lift_lib (ParseUint 16 raw))"

definition MustDecodeUint64 :: "bytes \<Rightarrow> u64 option" where
  "MustDecodeUint64 input = (case DecodeUint64 input of Inl e \<Rightarrow> None | Inr n \<Rightarrow> Some n)"

text \<open>The digits \<^verbatim>\<open>strconv.AppendUint\<close> and \<^verbatim>\<open>%x\<close> print: lower case, no leading zero.\<close>

fun hex_digits :: "nat \<Rightarrow> bytes" where
  "hex_digits n = (if n < 16 then [hextable n] else hex_digits (n div 16) @ [hextable (n mod 16)])"

declare hex_digits.simps [simp del]

definition EncodeUint64 :: "u64 \<Rightarrow> bytes" where
  "EncodeUint64 i = zeroX @ hex_digits (unat i)"

text \<open>\<^verbatim>\<open>fmt.Sprintf("%#x", bigint)\<close>: the sign goes before the prefix.\<close>

definition EncodeBig :: "int \<Rightarrow> bytes" where
  "EncodeBig bigint =
     (if bigint = 0 then [48, 120, 48]
      else (if bigint < 0 then [45] else []) @ zeroX @ hex_digits (nat \<bar>bigint\<bar>))"

text \<open>One machine word from a run of digits; \<^term>\<open>None\<close> on the first bad one.\<close>

fun nibble_loop :: "u64 \<Rightarrow> bytes \<Rightarrow> u64 option" where
  "nibble_loop w [] = Some w"
| "nibble_loop w (c # cs) =
     (let nib = decodeNibble c in
      if nib = badNibble then None else nibble_loop (w * 16 + nib) cs)"

text \<open>The words of the number, least significant first, \<open>e\<close> digits being left to read.\<close>

fun big_words :: "nat \<Rightarrow> bytes \<Rightarrow> nat \<Rightarrow> u64 list option" where
  "big_words 0 raw e = Some []"
| "big_words (Suc k) raw e =
     (let start = e - 16 in
      case nibble_loop 0 (take (e - start) (drop start raw)) of None \<Rightarrow> None
      | Some w \<Rightarrow> (case big_words k raw start of None \<Rightarrow> None | Some ws \<Rightarrow> Some (w # ws)))"

text \<open>\<^verbatim>\<open>big.Int.SetBits\<close>.\<close>

fun bits_value :: "u64 list \<Rightarrow> nat" where
  "bits_value [] = 0"
| "bits_value (w # ws) = unat w + 2 ^ 64 * bits_value ws"

definition DecodeBig :: "bytes \<Rightarrow> hex_error + int" where
  "DecodeBig input =
     (case checkNumber input of Inl e \<Rightarrow> Inl e
      | Inr raw \<Rightarrow>
          if 64 < length raw then Inl (DecError ErrBig256Range)
          else case big_words (length raw div 16 + 1) raw (length raw) of
            None \<Rightarrow> Inl (DecError ErrSyntax) | Some ws \<Rightarrow> Inr (int (bits_value ws)))"

definition MustDecodeBig :: "bytes \<Rightarrow> int option" where
  "MustDecodeBig input = (case DecodeBig input of Inl e \<Rightarrow> None | Inr n \<Rightarrow> Some n)"

definition Big_MarshalText :: "int \<Rightarrow> bytes" where
  "Big_MarshalText b = EncodeBig b"

definition Big_UnmarshalText :: "bytes \<Rightarrow> hex_error + int" where
  "Big_UnmarshalText input =
     (case checkNumberText input of Inl e \<Rightarrow> Inl e
      | Inr raw \<Rightarrow>
          if 64 < length raw then Inl (DecError ErrBig256Range)
          else case big_words (length raw div 16 + 1) raw (length raw) of
            None \<Rightarrow> Inl (DecError ErrSyntax) | Some ws \<Rightarrow> Inr (int (bits_value ws)))"

definition Big_UnmarshalJSON :: "bytes \<Rightarrow> hex_error + int" where
  "Big_UnmarshalJSON input =
     (if \<not> isString input then Inl (errNonString bigT)
      else wrapTypeError (Big_UnmarshalText (unquote input)) bigT)"

definition Big_String :: "int \<Rightarrow> bytes" where
  "Big_String b = EncodeBig b"

definition Uint64_MarshalText :: "u64 \<Rightarrow> bytes" where
  "Uint64_MarshalText b = zeroX @ hex_digits (unat b)"

definition Uint64_UnmarshalText :: "bytes \<Rightarrow> hex_error + u64" where
  "Uint64_UnmarshalText input =
     (case checkNumberText input of Inl e \<Rightarrow> Inl e
      | Inr raw \<Rightarrow>
          if 16 < length raw then Inl (DecError ErrUint64Range)
          else case nibble_loop 0 raw of None \<Rightarrow> Inl (DecError ErrSyntax) | Some dec \<Rightarrow> Inr dec)"

definition Uint64_UnmarshalJSON :: "bytes \<Rightarrow> hex_error + u64" where
  "Uint64_UnmarshalJSON input =
     (if \<not> isString input then Inl (errNonString uint64T)
      else wrapTypeError (Uint64_UnmarshalText (unquote input)) uint64T)"

definition Uint64_String :: "u64 \<Rightarrow> bytes" where
  "Uint64_String b = EncodeUint64 b"

definition Uint_MarshalText :: "u64 \<Rightarrow> bytes" where
  "Uint_MarshalText b = Uint64_MarshalText b"

text \<open>With a 64-bit \<^verbatim>\<open>uint\<close> the comparison of the value with \<^verbatim>\<open>^uint(0)\<close> is never true.\<close>

definition Uint_UnmarshalText :: "bytes \<Rightarrow> hex_error + u64" where
  "Uint_UnmarshalText input =
     (case Uint64_UnmarshalText input of
        Inl e \<Rightarrow> if e = DecError ErrUint64Range then Inl (DecError ErrUintRange) else Inl e
      | Inr v \<Rightarrow> if NOT 0 < v then Inl (DecError ErrUintRange) else Inr v)"

definition Uint_UnmarshalJSON :: "bytes \<Rightarrow> hex_error + u64" where
  "Uint_UnmarshalJSON input =
     (if \<not> isString input then Inl (errNonString uintT)
      else wrapTypeError (Uint_UnmarshalText (unquote input)) uintT)"

definition Uint_String :: "u64 \<Rightarrow> bytes" where
  "Uint_String b = EncodeUint64 b"

section \<open>Reading what was written\<close>

lemma zeroX_prefix [simp]: "has0xPrefix (zeroX @ s)" "bytesHave0xPrefix (zeroX @ s)"
    "drop 2 zeroX = []" "length zeroX = 2" "zeroX \<noteq> []"
  by (simp_all add: has0xPrefix_def bytesHave0xPrefix_def zeroX_def)

lemma hexEncode_simps [simp]:
  "hexEncode [] = []"
  "hexEncode (b # bs) = hextable (unat b div 16) # hextable (unat b mod 16) # hexEncode bs"
  by (simp_all add: hexEncode_def)

lemma length_hexEncode [simp]: "length (hexEncode bs) = 2 * length bs"
  by (induction bs) auto

lemma u8_nibbles: "unat (b :: u8) div 16 < 16" "unat b mod 16 < 16"
  using u8_lt_256 [of b] by (simp_all add: less_mult_imp_div_less del: u8_lt_256)

lemma hexDecode_hexEncode [simp]: "hexDecode (hexEncode bs) = (bs, None)"
  by (induction bs) (simp_all add: u8_nibbles)

lemma decodeHex_hexEncode [simp]: "decodeHex (hexEncode bs) = Inr bs"
  by (simp add: decodeHex_def)

lemma hexEncode_digits: "\<forall>c \<in> set (hexEncode bs). is_digit 16 c"
  by (induction bs) (simp_all add: u8_nibbles)

lemma Decode_Encode: "Decode LBRDecode (Encode b) = Inr b"
  by (simp add: Decode_def Encode_def)

lemma checkText_zeroX: "even (length s) \<Longrightarrow> checkText (zeroX @ s) want = Inr s"
  by (simp add: checkText_def)

lemma Bytes_Unmarshal_Marshal: "Bytes_UnmarshalText (Bytes_MarshalText b) = Inr b"
  by (simp add: Bytes_UnmarshalText_def Bytes_MarshalText_def checkText_zeroX)

lemma quoted_string [simp]: "isString (34 # t @ [34])" "unquote (34 # t @ [34]) = t"
  by (simp_all add: isString_def unquote_def nth_append)

text \<open>The exact language of the byte reader.\<close>

lemma hexDecode_ok_iff:
  "snd (hexDecode s) = None \<longleftrightarrow> even (length s) \<and> (\<forall>c \<in> set s. is_digit 16 c)"
  by (induction s rule: hexDecode.induct) auto

lemma hexDecode_length: "length (fst (hexDecode s)) \<le> length s div 2"
  by (induction s rule: hexDecode.induct) auto

lemma hexDecode_ok_length: "snd (hexDecode s) = None \<Longrightarrow> length (fst (hexDecode s)) = length s div 2"
  by (induction s rule: hexDecode.induct) (auto split: if_splits)

lemma badNibble_neq: "d < 16 \<Longrightarrow> word_of_nat d \<noteq> badNibble"
proof
  assume "d < 16" "word_of_nat d = badNibble"
  then have "unat (word_of_nat d :: u64) = unat badNibble" by simp
  then show False
    using \<open>d < 16\<close> by (simp only: badNibble_def unat_of_nat) (simp add: unsigned_minus_1_eq_mask mask_eq_exp_minus_1)
qed

lemma badNibble_iff [simp]: "decodeNibble c = badNibble \<longleftrightarrow> \<not> is_digit 16 c"
  using is_digit_less [of 16 c] by (auto simp: decodeNibble_digit badNibble_neq)

lemma decodeNibble_good: "is_digit 16 c \<Longrightarrow> decodeNibble c = word_of_nat (digit_val c)"
  by (simp add: decodeNibble_digit)

section \<open>Runs of digits\<close>

lemma u64_of_nat_add_mult: "(word_of_nat v :: u64) * 16 + word_of_nat d = word_of_nat (v * 16 + d)"
  by simp

lemma nibble_loop_correct:
  "nibble_loop (word_of_nat v) s =
     (if \<forall>c \<in> set s. is_digit 16 c
      then Some (word_of_nat (v * 16 ^ length s + digits_value 16 s)) else None)"
proof (induction s arbitrary: v)
  case (Cons c s)
  have "digits_value 16 (c # s) = digit_val c * 16 ^ length s + digits_value 16 s"
    using digits_value_append [of 16 "[c]" s] digits_value_snoc [of 16 "[]" c] by simp
  then have "(v * 16 + digit_val c) * 16 ^ length s + digits_value 16 s =
      v * 16 ^ length (c # s) + digits_value 16 (c # s)"
    by (simp add: algebra_simps)
  with Cons.IH [of "v * 16 + digit_val c"] show ?case
    by (auto simp: Let_def decodeNibble_good simp flip: u64_of_nat_add_mult)
qed simp

lemma nibble_loop_0: "nibble_loop 0 s =
    (if \<forall>c \<in> set s. is_digit 16 c then Some (word_of_nat (digits_value 16 s)) else None)"
  using nibble_loop_correct [of 0 s] by simp

lemma unat_digits: "length s \<le> 16 \<Longrightarrow> \<forall>c \<in> set s. is_digit 16 c \<Longrightarrow>
    unat (word_of_nat (digits_value 16 s) :: u64) = digits_value 16 s"
proof -
  assume *: "length s \<le> 16" "\<forall>c \<in> set s. is_digit 16 c"
  then have "digits_value 16 s < 16 ^ length s" by (intro digits_value_bound)
  also have "(16 :: nat) ^ length s \<le> 16 ^ 16" using * by (intro power_increasing) auto
  finally show ?thesis by (simp add: unat_of_nat)
qed

lemma big_words_correct:
  assumes "e \<le> length raw" "e \<le> 16 * k"
  shows "map_option bits_value (big_words k raw e) =
     (if \<forall>c \<in> set (take e raw). is_digit 16 c then Some (digits_value 16 (take e raw)) else None)"
  using assms
proof (induction k arbitrary: e)
  case (Suc k)
  define start where "start = e - 16"
  define chunk where "chunk = take (e - start) (drop start raw)"
  have split: "take e raw = take start raw @ chunk"
    by (simp add: chunk_def start_def flip: take_add)
  have IH: "map_option bits_value (big_words k raw start) =
     (if \<forall>c \<in> set (take start raw). is_digit 16 c
      then Some (digits_value 16 (take start raw)) else None)"
    using Suc.prems by (intro Suc.IH) (auto simp: start_def)
  have len: "length chunk = e - start" using Suc.prems by (simp add: chunk_def start_def)
  have "take start raw = [] \<or> length chunk = 16" using len by (auto simp: start_def)
  then have val: "digits_value 16 (take e raw) = digits_value 16 chunk + 2 ^ 64 * digits_value 16 (take start raw)"
    by (auto simp: split digits_value_append)
  have small: "length chunk \<le> 16" using len by (simp add: start_def)
  show ?case
  proof (cases "\<forall>c \<in> set chunk. is_digit 16 c")
    case True
    with small have "unat (word_of_nat (digits_value 16 chunk) :: u64) = digits_value 16 chunk"
      by (rule unat_digits)
    with True IH val show ?thesis
      by (auto simp: Let_def nibble_loop_0 split option.map_comp comp_def
          simp flip: start_def chunk_def split: option.splits if_splits)
  next
    case False
    then show ?thesis by (auto simp: Let_def nibble_loop_0 split simp flip: start_def chunk_def)
  qed
qed simp

lemma big_words_all:
  "(case big_words (length raw div 16 + 1) raw (length raw) of
      None \<Rightarrow> Inl x | Some ws \<Rightarrow> Inr (int (bits_value ws))) =
   (if \<forall>c \<in> set raw. is_digit 16 c then Inr (int (digits_value 16 raw)) else Inl x)"
proof -
  have "map_option bits_value (big_words (length raw div 16 + 1) raw (length raw)) =
     (if \<forall>c \<in> set raw. is_digit 16 c then Some (digits_value 16 raw) else None)"
    using big_words_correct [of "length raw" raw "length raw div 16 + 1"] by simp
  then show ?thesis by (auto split: option.splits if_splits)
qed

lemma digits_value_Cons: "digits_value base (c # s) = digit_val c * base ^ length s + digits_value base s"
  using digits_value_append [of base "[c]" s] digits_value_snoc [of base "[]" c] by simp

lemma cutoff_word:
  assumes "2 \<le> base" "base < 2 ^ 64"
  shows "unat ((- 1 :: u64) div word_of_nat base + 1) = (2 ^ 64 - 1) div base + 1"
proof -
  have "unat (word_of_nat base :: u64) = base" using assms by (simp add: unat_of_nat)
  then have div: "unat ((- 1 :: u64) div word_of_nat base) = (2 ^ 64 - 1) div base"
    by (simp add: unat_div_distrib unsigned_minus_1_eq_mask mask_eq_exp_minus_1)
  have "((2 :: nat) ^ 64 - 1) div base \<le> (2 ^ 64 - 1) div 2"
    using assms by (intro div_le_mono2) auto
  then have "((2 :: nat) ^ 64 - 1) div base + 1 < 2 ^ 64" by simp
  with div show ?thesis by (simp add: unat_word_ariths)
qed

text \<open>The two overflow tests of \<^verbatim>\<open>ParseUint\<close> reject exactly the numbers of more than 64 bits.\<close>

lemma ParseUint_loop_correct:
  assumes base: "2 \<le> base" "base \<le> 36"
  shows "ParseUint_loop base n s = Inr m \<longleftrightarrow> (\<forall>c \<in> set s. is_digit base c) \<and>
     unat n * base ^ length s + digits_value base s < 2 ^ 64 \<and>
     unat m = unat n * base ^ length s + digits_value base s"
proof (induction s arbitrary: n)
  case Nil
  have "unat n < 2 ^ 64" using unsigned_less [where 'a = nat, of n] by simp
  then show ?case by (auto simp: word_unat_eq_iff)
next
  case (Cons c s)
  define d where "d = digit_val c"
  define q where "q = unat n * base"
  have exp: "unat n * base ^ length (c # s) + digits_value base (c # s) =
      (q + d) * base ^ length s + digits_value base s"
    by (simp add: digits_value_Cons d_def q_def algebra_simps)
  have pos: "1 \<le> base ^ length s" using base by simp
  have big: "2 ^ 64 \<le> (q + d) * base ^ length s + digits_value base s" if "2 ^ 64 \<le> q + d"
    using that mult_le_mono [OF order_refl pos, of "q + d"] by (metis mult_1_right order_trans trans_le_add1)
  show ?case
  proof (cases "is_digit base c")
    case digit: True
    then have d: "d < base" by (simp add: d_def is_digit_less)
    have cut: "(- 1) div word_of_nat base + 1 \<le> n \<longleftrightarrow> (2 ^ 64 - 1) div base + 1 \<le> unat n"
      using base by (simp add: word_le_nat_alt cutoff_word)
    show ?thesis
    proof (cases "(2 ^ 64 - 1) div base + 1 \<le> unat n")
      case True
      have "(2 ^ 64 - 1 :: nat) < ((2 ^ 64 - 1) div base + 1) * base"
        using base by (metis Suc_eq_plus1 dividend_less_div_times mult_Suc not_gr0 not_numeral_le_zero add.commute)
      also have "\<dots> \<le> q" using True unfolding q_def by (rule mult_le_mono1)
      finally have "2 ^ 64 \<le> q + d" by simp
      with big cut True exp show ?thesis by (auto simp: digit)
    next
      case False
      then have "unat n * base \<le> (2 ^ 64 - 1) div base * base" by (intro mult_le_mono1) simp
      also have "\<dots> \<le> 2 ^ 64 - 1" by (rule div_times_less_eq_dividend)
      finally have q: "q < 2 ^ 64" by (simp add: q_def)
      then have n': "unat (n * word_of_nat base) = q"
        using base by (simp add: unat_word_ariths unat_of_nat q_def)
      have dw: "unat (word_of_nat d :: u64) = d" using d base by (simp add: unat_of_nat)
      have olen: "n * word_of_nat base + word_of_nat d < n * word_of_nat base \<longleftrightarrow> 2 ^ 64 \<le> q + d"
        using no_olen_add_nat [of "n * word_of_nat base" "word_of_nat d"] by (simp add: n' dw not_le [symmetric])
      show ?thesis
      proof (cases "2 ^ 64 \<le> q + d")
        case True
        with big exp cut False olen show ?thesis by (auto simp: digit Let_def simp flip: d_def)
      next
        case ok: False
        then have "unat (n * word_of_nat base + word_of_nat d) = q + d"
          using unat_add_lem [of "n * word_of_nat base" "word_of_nat d"] by (simp only: n' dw) simp
        with Cons.IH [of "n * word_of_nat base + word_of_nat d"] ok cut False olen exp
        show ?thesis by (simp add: digit Let_def flip: d_def)
      qed
    qed
  qed simp
qed

lemma ParseUint_correct:
  assumes "2 \<le> base" "base \<le> 36"
  shows "ParseUint base s = Inr m \<longleftrightarrow> s \<noteq> [] \<and> (\<forall>c \<in> set s. is_digit base c) \<and>
     digits_value base s < 2 ^ 64 \<and> m = word_of_nat (digits_value base s)"
proof -
  have "unat m = digits_value base s \<longleftrightarrow> m = word_of_nat (digits_value base s)" if "digits_value base s < 2 ^ 64"
    using that by (auto simp: word_unat_eq_iff unat_of_nat)
  then show ?thesis
    using ParseUint_loop_correct [OF assms, of 0 s m] by (auto simp: ParseUint_def)
qed

lemma hex_digits_digit: "\<forall>c \<in> set (hex_digits n). is_digit 16 c"
proof (induction n rule: hex_digits.induct)
  case (1 n)
  then show ?case by (subst hex_digits.simps) auto
qed

lemma hex_digits_value [simp]: "digits_value 16 (hex_digits n) = n"
proof (induction n rule: hex_digits.induct)
  case (1 n)
  then show ?case
    by (subst hex_digits.simps) (auto simp: digits_value_def)
qed

lemma hex_digits_nonempty [simp]: "hex_digits n \<noteq> []"
  by (subst hex_digits.simps) simp

lemma length_hex_digits: "n < 16 ^ k \<Longrightarrow> 0 < k \<Longrightarrow> length (hex_digits n) \<le> k"
proof (induction k arbitrary: n)
  case (Suc k)
  show ?case
  proof (cases "n < 16")
    case False
    then have "0 < k" using Suc.prems by (cases k) auto
    moreover have "n div 16 < 16 ^ k" using Suc.prems by (simp add: less_mult_imp_div_less mult.commute)
    ultimately have "length (hex_digits (n div 16)) \<le> k" by (rule Suc.IH [rotated])
    with False show ?thesis by (subst hex_digits.simps) simp
  qed (subst hex_digits.simps, simp)
qed simp

text \<open>No printed number begins with a zero, other than zero itself.\<close>

lemma digit_zero: "digit 48 = Some 0" "hextable 0 = 48"
  by (simp_all add: digit_def hextable_def)

lemma hextable_zero: "d < 16 \<Longrightarrow> hextable d = 48 \<longleftrightarrow> d = 0"
  by (metis hextable_digit hextable_is_digit(2) digit_zero option.sel zero_less_numeral)

lemma hex_digits_hd: "hd (hex_digits n) = 48 \<longleftrightarrow> n = 0"
proof (induction n rule: hex_digits.induct)
  case (1 n)
  then show ?case
    by (subst hex_digits.simps) (auto simp: hextable_zero)
qed

definition lower :: "u8 \<Rightarrow> u8" where
  "lower c = (if 65 \<le> c \<and> c \<le> 90 then c + 32 else c)"

lemma hextable_digit_val:
  assumes "is_digit 16 c"
  shows "hextable (digit_val c) = lower c"
proof -
  have *: "hextable (unat c - 48) = c" if "48 \<le> unat c" "unat c \<le> 57"
    using that by (intro word_unat_eq_iff [THEN iffD2])
      (simp add: hextable_def unat_of_nat del: of_nat_add of_nat_diff)
  have **: "hextable (unat c - 87) = c" if "97 \<le> unat c" "unat c - 87 < 16"
    using that by (intro word_unat_eq_iff [THEN iffD2])
      (simp add: hextable_def unat_of_nat del: of_nat_add of_nat_diff)
  have ***: "hextable (unat c - 55) = c + 32" if "65 \<le> unat c" "unat c \<le> 90" "unat c - 55 < 16"
    using that by (intro word_unat_eq_iff [THEN iffD2])
      (simp add: hextable_def unat_of_nat unat_word_ariths del: of_nat_add of_nat_diff)
  show ?thesis
    using assms * ** ***
    by (auto simp: is_digit_def digit_val_def digit_def lower_def word_le_nat_alt split: if_splits)
qed

lemma hex_digits_unique:
  assumes "s \<noteq> []" "\<forall>c \<in> set s. is_digit 16 c" "length s = 1 \<or> hd s \<noteq> 48"
  shows "hex_digits (digits_value 16 s) = map lower s"
  using assms
proof (induction s rule: rev_induct)
  case (snoc c s)
  have c: "digit_val c < 16" "hextable (digit_val c) = lower c"
    using snoc.prems by (simp_all add: is_digit_less hextable_digit_val)
  show ?case
  proof (cases "s = []")
    case True
    with c show ?thesis by (subst hex_digits.simps) (simp add: digits_value_Cons)
  next
    case False
    then have hd: "hd s \<noteq> 48" using snoc.prems by simp
    have IH: "hex_digits (digits_value 16 s) = map lower s"
      using False hd snoc by auto
    have "digits_value 16 s \<noteq> 0"
    proof
      assume "digits_value 16 s = 0"
      with IH have "map lower s = [48]" by (simp add: hex_digits.simps [of 0] hextable_def)
      with hd show False
        by (cases s) (auto simp: lower_def split: if_splits)
    qed
    with c IH show ?thesis by (subst hex_digits.simps) simp
  qed
qed simp

section \<open>What the readers accept\<close>

text \<open>
  The quantity grammar of the package comment: the prefix, at least one digit, no leading zero
  digit but in zero itself.
\<close>

definition number_shape :: "bytes \<Rightarrow> bytes \<Rightarrow> bool" where
  "number_shape input raw \<longleftrightarrow> has0xPrefix input \<and> raw = drop 2 input \<and> raw \<noteq> [] \<and>
     (length raw = 1 \<or> hd raw \<noteq> 48)"

definition quantity :: "bytes \<Rightarrow> bytes \<Rightarrow> bool" where
  "quantity input raw \<longleftrightarrow> number_shape input raw \<and> (\<forall>c \<in> set raw. is_digit 16 c)"

lemma checkNumber_Inr: "checkNumber input = Inr raw \<longleftrightarrow> number_shape input raw"
  by (auto simp: number_shape_def checkNumber_def has0xPrefix_def Let_def hd_drop_conv_nth hd_conv_nth)

lemma checkNumberText_checkNumber: "input \<noteq> [] \<Longrightarrow> checkNumberText input = checkNumber input"
  by (simp add: checkNumberText_def checkNumber_def bytesHave0xPrefix_def has0xPrefix_def)

lemma if_Inl_eq_Inr:
  "(if c then Inl e else r) = Inr m \<longleftrightarrow> \<not> c \<and> r = Inr m"
  "(if c then r else Inl e) = Inr m \<longleftrightarrow> c \<and> r = Inr m"
  by auto

lemma checkNumber_case: "(case checkNumber input of Inl e \<Rightarrow> Inl e | Inr raw \<Rightarrow> f raw) = Inr m \<longleftrightarrow>
    (\<exists>raw. number_shape input raw \<and> f raw = Inr m)"
  by (cases "checkNumber input") (auto simp flip: checkNumber_Inr)

lemma DecodeBig_Inr: "DecodeBig input = Inr n \<longleftrightarrow>
    (\<exists>raw. quantity input raw \<and> length raw \<le> 64 \<and> n = int (digits_value 16 raw))"
  unfolding DecodeBig_def checkNumber_case big_words_all quantity_def by (auto simp: if_Inl_eq_Inr)

lemma Big_UnmarshalText_DecodeBig: "input \<noteq> [] \<Longrightarrow> Big_UnmarshalText input = DecodeBig input"
  by (simp add: Big_UnmarshalText_def DecodeBig_def checkNumberText_checkNumber)

lemma lift_lib_Inr: "lift_lib r = Inr m \<longleftrightarrow> r = Inr m"
  by (simp add: lift_lib_def split: sum.splits)

lemma DecodeUint64_Inr: "DecodeUint64 input = Inr m \<longleftrightarrow>
    (\<exists>raw. quantity input raw \<and> digits_value 16 raw < 2 ^ 64 \<and> m = word_of_nat (digits_value 16 raw))"
  unfolding DecodeUint64_def checkNumber_case lift_lib_Inr quantity_def
  by (auto simp: ParseUint_correct number_shape_def)

lemma quantity_length: "quantity input raw \<Longrightarrow> length raw = length (hex_digits (digits_value 16 raw))"
  by (auto simp: quantity_def number_shape_def hex_digits_unique)

lemma Uint64_UnmarshalText_Inr: "input \<noteq> [] \<Longrightarrow> Uint64_UnmarshalText input = Inr m \<longleftrightarrow>
    (\<exists>raw. quantity input raw \<and> length raw \<le> 16 \<and> m = word_of_nat (digits_value 16 raw))"
  unfolding Uint64_UnmarshalText_def quantity_def
  by (auto simp: checkNumberText_checkNumber checkNumber_case nibble_loop_0 if_Inl_eq_Inr
      split: option.splits if_split_asm)

lemma quantity_width:
  assumes "quantity input raw"
  shows "length raw \<le> 16 \<longleftrightarrow> digits_value 16 raw < 2 ^ 64"
proof
  assume "length raw \<le> 16"
  then have "(16 :: nat) ^ length raw \<le> 16 ^ 16" by (intro power_increasing) auto
  moreover have "digits_value 16 raw < 16 ^ length raw"
    using assms by (intro digits_value_bound) (simp add: quantity_def)
  ultimately show "digits_value 16 raw < 2 ^ 64" by simp
next
  assume "digits_value 16 raw < 2 ^ 64"
  then show "length raw \<le> 16"
    using length_hex_digits [of "digits_value 16 raw" 16] quantity_length [OF assms] by simp
qed

lemma quantity_printed: "n < 16 ^ k \<Longrightarrow> 0 < k \<Longrightarrow>
    quantity (zeroX @ hex_digits n) (hex_digits n) \<and> length (hex_digits n) \<le> k"
  by (cases "n = 0")
    (simp_all add: quantity_def number_shape_def hex_digits_digit hex_digits_hd length_hex_digits hex_digits.simps [of 0])

lemma EncodeBig_nonneg: "0 \<le> n \<Longrightarrow> EncodeBig n = zeroX @ hex_digits (nat n)"
  by (simp add: EncodeBig_def zeroX_def hex_digits.simps [of 0] hextable_def)

lemma DecodeBig_EncodeBig: "0 \<le> n \<and> n < 2 ^ 256 \<Longrightarrow> DecodeBig (EncodeBig n) = Inr n"
proof -
  assume n: "0 \<le> n \<and> n < 2 ^ 256"
  then have "nat n < 16 ^ 64" by (simp add: nat_less_iff)
  from quantity_printed [OF this] n show ?thesis
    by (auto simp: DecodeBig_Inr EncodeBig_nonneg intro!: exI [of _ "hex_digits (nat n)"])
qed

lemma DecodeUint64_EncodeUint64: "DecodeUint64 (EncodeUint64 i) = Inr i"
proof -
  have i: "unat i < 2 ^ 64" using unsigned_less [where 'a = nat, of i] by simp
  then have "unat i < 16 ^ 16" by simp
  from quantity_printed [OF this] i show ?thesis
    by (auto simp: DecodeUint64_Inr EncodeUint64_def intro!: exI [of _ "hex_digits (unat i)"])
qed



section \<open>The formats as codecs\<close>

interpretation hexbytes: codec Encode "Decode LBRDecode" "\<lambda>_. True"
  by unfold_locales (rule Decode_Encode)

interpretation bytestext: codec Bytes_MarshalText Bytes_UnmarshalText "\<lambda>_. True"
  by unfold_locales (rule Bytes_Unmarshal_Marshal)

interpretation hexuint: codec EncodeUint64 DecodeUint64 "\<lambda>_. True"
  by unfold_locales (rule DecodeUint64_EncodeUint64)

interpretation hexbig: codec EncodeBig DecodeBig "\<lambda>n. 0 \<le> n \<and> n < 2 ^ 256"
  by unfold_locales (rule DecodeBig_EncodeBig)

lemma uint64_texts_agree:
  assumes "input \<noteq> []"
  shows "Uint64_UnmarshalText input = Inr m \<longleftrightarrow> DecodeUint64 input = Inr m"
  using assms quantity_width by (auto simp: Uint64_UnmarshalText_Inr DecodeUint64_Inr)


lemma nonempty_encoding [simp]: "EncodeUint64 i \<noteq> []" "EncodeBig n \<noteq> []"
  by (simp_all add: EncodeUint64_def EncodeBig_def)

lemma wrapTypeError_Inr [simp]: "wrapTypeError (Inr x) ty = Inr x"
  by simp

text \<open>
  C14: what the RPC layer writes it reads back unchanged: byte slices with \<^verbatim>\<open>Encode\<close> and
  \<^verbatim>\<open>Decode\<close> (whatever the base-58 reader does), and byte slices, 64-bit numbers and integers
  below \<open>2^256\<close> through their JSON strings.
\<close>
theorem hex_roundtrip:
  assumes "0 \<le> n" "n < 2 ^ 256"
  shows "Decode LBRDecode (Encode b) = Inr b \<and>
    Bytes_UnmarshalJSON (34 # Bytes_MarshalText b @ [34]) = Inr b \<and>
    Uint64_UnmarshalJSON (34 # Uint64_MarshalText i @ [34]) = Inr i \<and>
    Uint_UnmarshalJSON (34 # Uint_MarshalText i @ [34]) = Inr i \<and>
    Big_UnmarshalJSON (34 # Big_MarshalText n @ [34]) = Inr n"
proof -
  have rd: "Uint64_UnmarshalText (Uint64_MarshalText i) = Inr i"
    using uint64_texts_agree [of "EncodeUint64 i" i] hexuint.dec_enc [of i]
    by (simp add: Uint64_MarshalText_def flip: EncodeUint64_def)
  have "Big_UnmarshalText (EncodeBig n) = Inr n"
    using assms by (simp add: Big_UnmarshalText_DecodeBig hexbig.dec_enc)
  with rd show ?thesis
    by (simp add: hexbytes.dec_enc bytestext.dec_enc Bytes_UnmarshalJSON_def Uint64_UnmarshalJSON_def
        Uint_UnmarshalJSON_def Uint_UnmarshalText_def Uint_MarshalText_def Big_UnmarshalJSON_def
        Big_MarshalText_def)
qed

theorem hex_roundtrip_witness:
  "Decode (\<lambda>_. Inl (Base58Error [])) (Encode [0, 255]) = Inr [0, 255] \<and>
   Big_UnmarshalJSON (34 # Big_MarshalText 255 @ [34]) = Inr 255"
  using hex_roundtrip [of 255 "\<lambda>_. Inl (Base58Error [])" "[0, 255]" 0] by simp



text \<open>
  The sign of a negative number is not ignored: it is printed before the prefix, and no reader
  takes the text back.
\<close>

lemma negative_quantity_unreadable:
  "n < 0 \<Longrightarrow> EncodeBig n = 45 # EncodeBig (- n) \<and> DecodeBig (EncodeBig n) = Inl (DecError ErrMissingPrefix)"
  by (simp add: EncodeBig_def DecodeBig_def checkNumber_def has0xPrefix_def)

text \<open>The two fixed-size readers are the same function: both take the digits without a prefix.\<close>

lemma fixed_readers_same: "UnmarshalFixedText = UnmarshalFixedUnprefixedText"
  by (intro ext) (simp add: UnmarshalFixedText_def UnmarshalFixedUnprefixedText_def)

lemma hexEncode_no_prefix: "\<not> bytesHave0xPrefix (hexEncode b)"
proof
  assume pre: "bytesHave0xPrefix (hexEncode b)"
  then have "is_digit 16 (hexEncode b ! 1)"
    using hexEncode_digits [of b] by (auto simp: bytesHave0xPrefix_def)
  with pre show False by (auto simp: bytesHave0xPrefix_def is_digit_def digit_def)
qed

lemma fixed_reader_bare: "length b = length out \<Longrightarrow> UnmarshalFixedText ty (hexEncode b) out = Inr b"
  using hexEncode_digits [of b] hexEncode_no_prefix [of b]
  by (cases b) (auto simp: UnmarshalFixedText_def checkText_def Let_def simp del: hexEncode_simps)

end
