(* ===== verification/Safe_Math.thy ===== *)
theory Safe_Math
  imports Hex_Util
begin

text \<open>
  Checked 64-bit arithmetic (\<^verbatim>\<open>integer.go\<close>) and the bounded integers of \<^verbatim>\<open>int.go\<close>: a
  \<^verbatim>\<open>Number\<close> is an unbounded integer with a limiter that every operation applies to its result.
  Methods that mutate their receiver return it updated; a panic is \<^term>\<open>None\<close>.
\<close>

section \<open>Checked words\<close>

definition MaxUint64 :: u64 where
  "MaxUint64 = - 1"

definition SafeSub :: "u64 \<Rightarrow> u64 \<Rightarrow> u64 \<times> bool" where
  "SafeSub x y = (x - y, x < y)"

definition SafeAdd :: "u64 \<Rightarrow> u64 \<Rightarrow> u64 \<times> bool" where
  "SafeAdd x y = (x + y, MaxUint64 - x < y)"

definition SafeMul :: "u64 \<Rightarrow> u64 \<Rightarrow> u64 \<times> bool" where
  "SafeMul x y = (if x = 0 \<or> y = 0 then (0, False) else (x * y, MaxUint64 div x < y))"

definition ParseUint64 :: "bytes \<Rightarrow> u64 \<times> bool" where
  "ParseUint64 s =
     (if s = [] then (0, True)
      else if 2 \<le> length s \<and> (take 2 s = [48, 120] \<or> take 2 s = [48, 88]) then
        (case ParseUint 16 (drop 2 s) of Inl e \<Rightarrow> (if e = NumRange then MaxUint64 else 0, False)
         | Inr v \<Rightarrow> (v, True))
      else (case ParseUint 10 s of Inl e \<Rightarrow> (if e = NumRange then MaxUint64 else 0, False)
         | Inr v \<Rightarrow> (v, True)))"

definition MustParseUint64 :: "bytes \<Rightarrow> u64 option" where
  "MustParseUint64 s = (let (v, ok) = ParseUint64 s in if \<not> ok then None else Some v)"

text \<open>\<^verbatim>\<open>fmt.Errorf("invalid hex or decimal integer %q", input)\<close> is represented by its input.\<close>

definition HexOrDecimal64_UnmarshalText :: "bytes \<Rightarrow> bytes + u64" where
  "HexOrDecimal64_UnmarshalText input = (let (v, ok) = ParseUint64 input in if \<not> ok then Inl input else Inr v)"

definition HexOrDecimal64_MarshalText :: "u64 \<Rightarrow> bytes" where
  "HexOrDecimal64_MarshalText i = zeroX @ hex_digits (unat i)"

lemma SafeSub_flag: "snd (SafeSub x y) \<longleftrightarrow> uint x - uint y < 0"
  by (simp add: SafeSub_def word_less_def)

lemma SafeSub_value: "\<not> snd (SafeSub x y) \<Longrightarrow> uint (fst (SafeSub x y)) = uint x - uint y"
  using uint_sub_lem [of y x] by (simp add: SafeSub_flag) (simp add: SafeSub_def)

lemma SafeAdd_flag: "snd (SafeAdd x y) \<longleftrightarrow> 2 ^ 64 \<le> uint x + uint y"
proof -
  have "uint (MaxUint64 - x) = uint MaxUint64 - uint x"
    by (rule uint_sub_lem [THEN iffD1]) (simp add: MaxUint64_def flip: word_le_def)
  then show ?thesis
    by (simp add: SafeAdd_def word_less_def MaxUint64_def unsigned_minus_1_eq_mask mask_eq_exp_minus_1) arith
qed

lemma SafeAdd_value: "\<not> snd (SafeAdd x y) \<Longrightarrow> uint (fst (SafeAdd x y)) = uint x + uint y"
  using uint_add_lem [of x y] by (simp add: SafeAdd_flag) (simp add: SafeAdd_def)

lemma int_div_less_iff: "0 < x \<Longrightarrow> m div x < y \<longleftrightarrow> m < y * x" for m x y :: int
proof -
  assume x: "0 < x"
  have "y \<le> m div x \<longleftrightarrow> y * x \<le> m"
  proof
    assume "y \<le> m div x"
    then have "y * x \<le> m div x * x" using x by (simp add: mult_right_mono)
    also have "\<dots> \<le> m" using x by (simp add: minus_mod_eq_div_mult [symmetric])
    finally show "y * x \<le> m" .
  next
    assume "y * x \<le> m"
    then have "y * x div x \<le> m div x" using x by (rule zdiv_mono1)
    with x show "y \<le> m div x" by simp
  qed
  then show ?thesis by linarith
qed

lemma SafeMul_flag: "snd (SafeMul x y) \<longleftrightarrow> 2 ^ 64 \<le> uint x * uint y"
proof (cases "x = 0 \<or> y = 0")
  case False
  then have x: "0 < uint x" by (metis uint_0_iff uint_ge_0 order_le_less)
  have "uint (MaxUint64 div x) = (2 ^ 64 - 1) div uint x"
    by (simp add: uint_div_distrib MaxUint64_def unsigned_minus_1_eq_mask mask_eq_exp_minus_1)
  then have "snd (SafeMul x y) \<longleftrightarrow> (2 ^ 64 - 1) div uint x < uint y"
    using False by (simp add: SafeMul_def word_less_def)
  also have "\<dots> \<longleftrightarrow> 2 ^ 64 - 1 < uint y * uint x"
    by (rule int_div_less_iff [OF x])
  finally show ?thesis by (simp add: mult.commute) linarith
qed (auto simp: SafeMul_def)

lemma SafeMul_value: "\<not> snd (SafeMul x y) \<Longrightarrow> uint (fst (SafeMul x y)) = uint x * uint y"
  using uint_mult_lem [of x y] by (simp add: SafeMul_flag) (auto simp: SafeMul_def)

lemma ParseUint_exact:
  assumes "2 \<le> base" "base \<le> 36"
  shows "ParseUint base s = Inr m \<longleftrightarrow>
    s \<noteq> [] \<and> (\<forall>c \<in> set s. is_digit base c) \<and> uint m = int (digits_value base s)"
proof -
  have "uint m = int v \<longleftrightarrow> v < 2 ^ 64 \<and> m = word_of_nat v" for v
    using unsigned_less [where 'a = nat, of m]
    by (auto simp: word_unat_eq_iff unat_of_nat uint_nat simp del: of_nat_unat)
  then show ?thesis by (simp only: ParseUint_correct [OF assms])
qed

lemma MustParseUint64_exact: "MustParseUint64 s = Some m \<longleftrightarrow> s = [] \<and> m = 0 \<or>
    s \<noteq> [] \<and> (if has0xPrefix s then ParseUint 16 (drop 2 s) = Inr m else ParseUint 10 s = Inr m)"
proof -
  have pre: "2 \<le> length s \<and> (take 2 s = [48, 120] \<or> take 2 s = [48, 88]) \<longleftrightarrow> has0xPrefix s"
    by (cases s; cases "tl s") (auto simp: has0xPrefix_def numeral_2_eq_2)
  show ?thesis
    unfolding MustParseUint64_def ParseUint64_def pre
    by (auto simp: Let_def split: sum.splits)
qed

text \<open>
  C16: the checked operations. Each flag is set exactly when the exact result leaves the range of
  64 bits, and the word is the exact result when it is not set; a parsed number is exact, in
  hexadecimal after a prefix and in decimal otherwise, and never a wrapped one.
\<close>
theorem checked_arithmetic:
  "(snd (SafeSub x y) \<longleftrightarrow> uint x - uint y < 0) \<and> (snd (SafeAdd x y) \<longleftrightarrow> 2 ^ 64 \<le> uint x + uint y) \<and>
   (snd (SafeMul x y) \<longleftrightarrow> 2 ^ 64 \<le> uint x * uint y) \<and>
   (\<not> snd (SafeSub x y) \<longrightarrow> uint (fst (SafeSub x y)) = uint x - uint y) \<and>
   (\<not> snd (SafeAdd x y) \<longrightarrow> uint (fst (SafeAdd x y)) = uint x + uint y) \<and>
   (\<not> snd (SafeMul x y) \<longrightarrow> uint (fst (SafeMul x y)) = uint x * uint y) \<and>
   (MustParseUint64 s = Some m \<longleftrightarrow>
      (if s = [] then m = 0
       else if has0xPrefix s then drop 2 s \<noteq> [] \<and> (\<forall>c \<in> set (drop 2 s). is_digit 16 c) \<and>
         uint m = int (digits_value 16 (drop 2 s))
       else (\<forall>c \<in> set s. is_digit 10 c) \<and> uint m = int (digits_value 10 s)))"
  using SafeSub_value [of x y] SafeAdd_value [of x y] SafeMul_value [of x y]
  unfolding SafeSub_flag SafeAdd_flag SafeMul_flag
  by (simp add: MustParseUint64_exact ParseUint_exact)

theorem checked_arithmetic_witness:
  "snd (SafeSub 3 5) \<and> \<not> snd (SafeAdd 3 5) \<and> uint (fst (SafeAdd 3 5)) = 8 \<and> MustParseUint64 [52, 50] = Some 42"
  using checked_arithmetic [of 3 5 "[]" 0] checked_arithmetic [of 3 5 "[52, 50]" 42]
  by (simp add: is_digit_def digits_value_def has0xPrefix_def digit_def digit_val_def)

section \<open>Bounded integers\<close>

definition tt256 :: int where "tt256 = push_bit 256 1"
definition tt256m1 :: int where "tt256m1 = push_bit 256 1 - 1"
definition tt255 :: int where "tt255 = push_bit 255 1"

record number =
  num :: int
  limit :: "int \<Rightarrow> int"

definition limitUnsigned256 :: "int \<Rightarrow> int" where
  "limitUnsigned256 x = x AND tt256m1"

definition limitSigned256 :: "int \<Rightarrow> int" where
  "limitSigned256 x = (if x < tt255 then x else x - tt256)"

definition NewInitialiser :: "(int \<Rightarrow> int) \<Rightarrow> int \<Rightarrow> number" where
  "NewInitialiser limiter n = \<lparr>num = n, limit = limiter\<rparr>"

definition Uint256 :: "int \<Rightarrow> number" where
  "Uint256 n = \<lparr>num = n, limit = limitUnsigned256\<rparr>"

definition Int256 :: "int \<Rightarrow> number" where
  "Int256 n = \<lparr>num = n, limit = limitSigned256\<rparr>"

definition Big :: "int \<Rightarrow> number" where
  "Big n = \<lparr>num = n, limit = (\<lambda>x. x)\<rparr>"

text \<open>\<^verbatim>\<open>i.num.Op(x.num, y.num); return i.limit(i)\<close>.\<close>

definition limited :: "number \<Rightarrow> int \<Rightarrow> number" where
  "limited i v = i\<lparr>num := limit i v\<rparr>"

definition Number_Add :: "number \<Rightarrow> number \<Rightarrow> number \<Rightarrow> number" where
  "Number_Add i x y = limited i (num x + num y)"

definition Number_Sub :: "number \<Rightarrow> number \<Rightarrow> number \<Rightarrow> number" where
  "Number_Sub i x y = limited i (num x - num y)"

definition Number_Mul :: "number \<Rightarrow> number \<Rightarrow> number \<Rightarrow> number" where
  "Number_Mul i x y = limited i (num x * num y)"

text \<open>\<^verbatim>\<open>big.Int\<close>'s \<open>Div\<close> and \<open>Mod\<close> are Euclidean: the remainder is never negative.\<close>

definition euclid_mod :: "int \<Rightarrow> int \<Rightarrow> int" where
  "euclid_mod x y = x mod \<bar>y\<bar>"

definition euclid_div :: "int \<Rightarrow> int \<Rightarrow> int" where
  "euclid_div x y = sgn y * (x div \<bar>y\<bar>)"

definition Number_Div :: "number \<Rightarrow> number \<Rightarrow> number \<Rightarrow> number option" where
  "Number_Div i x y = (if num y = 0 then None else Some (limited i (euclid_div (num x) (num y))))"

definition Number_Mod :: "number \<Rightarrow> number \<Rightarrow> number \<Rightarrow> number option" where
  "Number_Mod i x y = (if num y = 0 then None else Some (limited i (euclid_mod (num x) (num y))))"

definition Number_Lsh :: "number \<Rightarrow> number \<Rightarrow> nat \<Rightarrow> number" where
  "Number_Lsh i x s = limited i (push_bit s (num x))"

text \<open>\<^verbatim>\<open>Exp\<close> with modulus zero is the power, and one for an exponent that is not positive.\<close>

definition Number_Pow :: "number \<Rightarrow> number \<Rightarrow> number \<Rightarrow> number" where
  "Number_Pow i x y = limited i (if num y \<le> 0 then 1 else num x ^ nat (num y))"

definition Number_Set :: "number \<Rightarrow> number \<Rightarrow> number" where
  "Number_Set i x = limited i (num x)"

definition Number_SetBytes :: "number \<Rightarrow> bytes \<Rightarrow> number" where
  "Number_SetBytes i x = limited i (int (be_value x))"

definition Number_Cmp :: "number \<Rightarrow> number \<Rightarrow> int" where
  "Number_Cmp i x = (if num i < num x then -1 else if num i = num x then 0 else 1)"

definition Number_Uint64 :: "number \<Rightarrow> u64" where
  "Number_Uint64 i = word_of_int (num i)"

definition Number_Int256 :: "number \<Rightarrow> number" where
  "Number_Int256 i = Number_Set (Int256 0) i"

definition Number_Uint256 :: "number \<Rightarrow> number" where
  "Number_Uint256 i = Number_Set (Uint256 0) i"

text \<open>The least \<open>j\<close> with bit \<open>j\<close> set, \<open>k\<close> bits being left to look at.\<close>

fun FirstBitSet_loop :: "int \<Rightarrow> nat \<Rightarrow> nat \<Rightarrow> nat" where
  "FirstBitSet_loop n 0 j = j"
| "FirstBitSet_loop n (Suc k) j = (if bit n j then j else FirstBitSet_loop n k (Suc j))"

definition FirstBitSet :: "number \<Rightarrow> nat" where
  "FirstBitSet i = FirstBitSet_loop (num i) (BitLen (num i)) 0"

definition MaxUint256 :: number where
  "MaxUint256 = Number_SetBytes (Uint256 0) (replicate 32 255)"

definition MinOne :: number where
  "MinOne = Int256 (-1)"

lemma limitUnsigned256_mod: "limitUnsigned256 x = x mod 2 ^ 256"
proof -
  have "tt256m1 = mask 256" by (simp add: tt256m1_def mask_eq_exp_minus_1 push_bit_eq_mult)
  then have "limitUnsigned256 x = take_bit 256 x" by (simp only: limitUnsigned256_def take_bit_eq_mask)
  then show ?thesis by (simp add: take_bit_eq_mod)
qed

lemma num_limited [simp]: "num (limited i v) = limit i v" "limit (limited i v) = limit i"
  by (simp_all add: limited_def)

text \<open>The range a number of each kind is meant to stay in.\<close>

definition unsigned256 :: "number \<Rightarrow> bool" where
  "unsigned256 i \<longleftrightarrow> limit i = limitUnsigned256 \<and> 0 \<le> num i \<and> num i < 2 ^ 256"

definition signed256 :: "number \<Rightarrow> bool" where
  "signed256 i \<longleftrightarrow> limit i = limitSigned256 \<and> - (2 ^ 255) \<le> num i \<and> num i < 2 ^ 255"

lemma limited_unsigned: "limit i = limitUnsigned256 \<Longrightarrow> unsigned256 (limited i v) \<and> num (limited i v) = v mod 2 ^ 256"
  by (simp add: unsigned256_def limitUnsigned256_mod)

lemma limited_signed:
  assumes "limit i = limitSigned256"
  shows "signed256 (limited i v) \<longleftrightarrow> - (2 ^ 255) \<le> v \<and> v < 3 * 2 ^ 255"
    and "- (2 ^ 255) \<le> v \<Longrightarrow> v < 3 * 2 ^ 255 \<Longrightarrow> (num (limited i v) - v) mod 2 ^ 256 = 0"
  using assms by (auto simp: signed256_def limitSigned256_def tt255_def tt256_def push_bit_eq_mult)

text \<open>
  C17: bounded integers. An unsigned number always holds a value of 256 bits, and each operation
  stores its exact result modulo \<open>2^256\<close>. A signed number is in range after an operation exactly
  when the exact result is at least \<open>-2^255\<close> and below \<open>3 * 2^255\<close>: the limiter subtracts \<open>2^256\<close>
  once and never adds it, so sums of two signed numbers are in range exactly when they do not
  underflow.
\<close>
theorem number_ranges:
  assumes "unsigned256 i" "unsigned256 x" "unsigned256 y" "signed256 j" "signed256 a" "signed256 b"
  shows "num (Number_Add i x y) = (num x + num y) mod 2 ^ 256 \<and> unsigned256 (Number_Add i x y) \<and>
    num (Number_Sub i x y) = (num x - num y) mod 2 ^ 256 \<and> unsigned256 (Number_Sub i x y) \<and>
    num (Number_Mul i x y) = (num x * num y) mod 2 ^ 256 \<and> unsigned256 (Number_Mul i x y) \<and>
    num (Number_Lsh i x s) = (num x * 2 ^ s) mod 2 ^ 256 \<and> unsigned256 (Number_Lsh i x s) \<and>
    num (Number_Pow i x y) = (num x ^ nat (num y)) mod 2 ^ 256 \<and> unsigned256 (Number_Pow i x y) \<and>
    (case Number_Div i x y of None \<Rightarrow> num y = 0 | Some q \<Rightarrow> num q = num x div num y \<and> unsigned256 q) \<and>
    (case Number_Mod i x y of None \<Rightarrow> num y = 0 | Some r \<Rightarrow> num r = num x mod num y \<and> unsigned256 r) \<and>
    (signed256 (Number_Add j a b) \<longleftrightarrow> - (2 ^ 255) \<le> num a + num b) \<and>
    (signed256 (Number_Sub j a b) \<longleftrightarrow> - (2 ^ 255) \<le> num a - num b) \<and>
    signed256 (Number_Int256 x) \<and> unsigned256 (Number_Uint256 a) \<and>
    num (Number_Int256 (Number_Uint256 a)) = num a"
proof -
  have i: "limit i = limitUnsigned256" and j: "limit j = limitSigned256"
    and x: "0 \<le> num x" "num x < 2 ^ 256" and y: "0 \<le> num y" "num y < 2 ^ 256"
    and a: "- (2 ^ 255) \<le> num a" "num a < 2 ^ 255" and b: "- (2 ^ 255) \<le> num b" "num b < 2 ^ 255"
    using assms by (auto simp: unsigned256_def signed256_def)
  have quot: "num x div num y mod 2 ^ 256 = num x div num y" if "num y \<noteq> 0"
  proof (rule mod_pos_pos_trivial)
    show "0 \<le> num x div num y" using x y by (simp add: div_int_pos_iff)
    have "num x div num y \<le> num x div 1" using that x y by (intro zdiv_mono2) auto
    then show "num x div num y < 2 ^ 256" using x by simp
  qed
  have rest: "num x mod num y mod 2 ^ 256 = num x mod num y" if "num y \<noteq> 0"
  proof (rule mod_pos_pos_trivial)
    show "0 \<le> num x mod num y" using that y by simp
    have "num x mod num y < num y" using that y by simp
    then show "num x mod num y < 2 ^ 256" using y by linarith
  qed
  have div: "case Number_Div i x y of None \<Rightarrow> num y = 0 | Some q \<Rightarrow> num q = num x div num y \<and> unsigned256 q"
    using limited_unsigned [OF i, of "num x div num y"] quot y
    by (auto simp: Number_Div_def euclid_div_def)
  have md: "case Number_Mod i x y of None \<Rightarrow> num y = 0 | Some r \<Rightarrow> num r = num x mod num y \<and> unsigned256 r"
    using limited_unsigned [OF i, of "num x mod num y"] rest y
    by (auto simp: Number_Mod_def euclid_mod_def)
  have pw: "(if num y \<le> 0 then 1 else num x ^ nat (num y)) = num x ^ nat (num y)" by simp
  have conv2: "num (Number_Int256 (Number_Uint256 a)) = num a"
  proof (cases "0 \<le> num a")
    case True
    then have "num a mod 2 ^ 256 = num a" using a by simp
    with a show ?thesis
      by (simp add: Number_Int256_def Number_Uint256_def Number_Set_def Int256_def Uint256_def
          limitUnsigned256_mod limitSigned256_def tt255_def tt256_def push_bit_eq_mult)
  next
    case False
    then have "num a mod 2 ^ 256 = num a + 2 ^ 256"
      using a mod_add_self2 [of "num a" "2 ^ 256"] mod_pos_pos_trivial [of "num a + 2 ^ 256" "2 ^ 256"] by simp
    with a show ?thesis
      by (simp add: Number_Int256_def Number_Uint256_def Number_Set_def Int256_def Uint256_def
          limitUnsigned256_mod limitSigned256_def tt255_def tt256_def push_bit_eq_mult)
  qed
  have conv: "signed256 (Number_Int256 x)" "unsigned256 (Number_Uint256 a)"
    using x limited_signed(1) [of "Int256 0" "num x"] limited_unsigned [of "Uint256 0" "num a"]
    by (simp_all add: Number_Int256_def Number_Uint256_def Number_Set_def Int256_def Uint256_def)
  have signed: "signed256 (Number_Add j a b) \<longleftrightarrow> - (2 ^ 255) \<le> num a + num b"
    "signed256 (Number_Sub j a b) \<longleftrightarrow> - (2 ^ 255) \<le> num a - num b"
    using a b by (simp_all add: Number_Add_def Number_Sub_def limited_signed(1) [OF j])
  show ?thesis
    using limited_unsigned [OF i] div md conv2 conv signed
    by (simp add: Number_Add_def Number_Sub_def Number_Mul_def Number_Lsh_def Number_Pow_def pw
        push_bit_eq_mult)
qed

theorem number_ranges_witness:
  "num (Number_Sub (Uint256 0) (Uint256 3) (Uint256 5)) = 2 ^ 256 - 2 \<and>
   \<not> signed256 (Number_Sub (Int256 0) (Int256 (- (2 ^ 255))) (Int256 1))"
proof -
  have "unsigned256 (Uint256 0)" "unsigned256 (Uint256 3)" "unsigned256 (Uint256 5)"
    "signed256 (Int256 0)" "signed256 (Int256 (- (2 ^ 255)))" "signed256 (Int256 1)"
    by (simp_all add: unsigned256_def signed256_def Uint256_def Int256_def)
  from number_ranges [OF this] show ?thesis by (simp add: Uint256_def Int256_def)
qed

end
