(* ===== verification/Evm_Disasm.thy ===== *)
theory Evm_Disasm
  imports Chain_Prelude
begin

text \<open>
  The instruction iterator and the disassembler of \<^verbatim>\<open>asm.go\<close>. The opcodes live in the
  package \<^verbatim>\<open>vm\<close>, which is not part of the repository: they are the parameter
  \<open>vm\<close>, with what the code relies on in \<open>vm_documented\<close>. The lines of the listing are
  produced by \<^verbatim>\<open>fmt\<close> from the opcode's name, a parameter too.
\<close>

record vm_ops =
  IsPush :: "u8 \<Rightarrow> bool"
  PUSH1 :: u8
  PUSH4 :: u8
  JUMPDEST :: u8
  StringToOp :: "bytes \<Rightarrow> u8"

definition vm_documented :: "vm_ops \<Rightarrow> bool" where
  "vm_documented vm \<longleftrightarrow> PUSH1 vm = 0x60 \<and> PUSH4 vm = 0x63 \<and>
     (\<forall>op. IsPush vm op \<longleftrightarrow> 0x60 \<le> op \<and> op \<le> 0x7f)"

section \<open>The iterator\<close>

record instructionIterator =
  it_code :: bytes
  it_pc :: u64
  it_arg :: "bytes option"
  it_op :: u8
  it_error :: "u64 option"
  it_started :: bool

definition NewInstructionIterator :: "bytes \<Rightarrow> instructionIterator" where
  "NewInstructionIterator code =
     \<lparr>it_code = code, it_pc = 0, it_arg = None, it_op = 0, it_error = None, it_started = False\<rparr>"

text \<open>The position \<open>Next\<close> moves to before it looks at the code.\<close>

definition it_advance :: "instructionIterator \<Rightarrow> instructionIterator" where
  "it_advance it =
     (if it_started it
      then it\<lparr>it_pc := (case it_arg it of None \<Rightarrow> it_pc it | Some a \<Rightarrow> it_pc it + word_of_nat (length a)) + 1\<rparr>
      else it\<lparr>it_started := True\<rparr>)"

definition code_len :: "instructionIterator \<Rightarrow> u64" where
  "code_len it = word_of_nat (length (it_code it))"

definition push_len :: "vm_ops \<Rightarrow> u8 \<Rightarrow> u64" where
  "push_len vm op = ucast op - ucast (PUSH1 vm) + 1"

definition it_Next :: "vm_ops \<Rightarrow> instructionIterator \<Rightarrow> bool \<times> instructionIterator" where
  "it_Next vm it =
     (if it_error it \<noteq> None \<or> code_len it \<le> it_pc it then (False, it)
      else let it = it_advance it in
        if code_len it \<le> it_pc it then (False, it)
        else let op = it_code it ! unat (it_pc it); it = it\<lparr>it_op := op\<rparr> in
          if IsPush vm op then
            let a = push_len vm op; u = it_pc it + 1 + a in
            if code_len it \<le> it_pc it \<or> code_len it < u
            then (False, it\<lparr>it_error := Some (it_pc it)\<rparr>)
            else (True, it\<lparr>it_arg := Some (take (unat u - unat (it_pc it + 1)) (drop (unat (it_pc it + 1)) (it_code it)))\<rparr>)
          else (True, it\<lparr>it_arg := None\<rparr>))"

definition it_Error :: "instructionIterator \<Rightarrow> u64 option" where "it_Error it = it_error it"
definition it_PC :: "instructionIterator \<Rightarrow> u64" where "it_PC it = it_pc it"
definition it_Op :: "instructionIterator \<Rightarrow> u8" where "it_Op it = it_op it"
definition it_Arg :: "instructionIterator \<Rightarrow> bytes option" where "it_Arg it = it_arg it"

section \<open>The disassembler\<close>

text \<open>
  \<open>show pc op arg\<close> is the formatted line, \<open>arg\<close> being \<^term>\<open>None\<close> when the line has no operand.
  The loop may run forever as far as the language goes, so it is a partial function.
\<close>

definition instr_line :: "(u64 \<Rightarrow> u8 \<Rightarrow> bytes option \<Rightarrow> 'l) \<Rightarrow> instructionIterator \<Rightarrow> 'l" where
  "instr_line show it =
     (case it_Arg it of None \<Rightarrow> show (it_PC it) (it_Op it) None
      | Some a \<Rightarrow> if 0 < length a then show (it_PC it) (it_Op it) (Some a) else show (it_PC it) (it_Op it) None)"

partial_function (option) disassemble_loop ::
  "vm_ops \<Rightarrow> (u64 \<Rightarrow> u8 \<Rightarrow> bytes option \<Rightarrow> 'l) \<Rightarrow> instructionIterator \<Rightarrow> 'l list \<Rightarrow> ('l list \<times> instructionIterator) option"
where
  "disassemble_loop vm show it instrs =
     (let (more, it') = it_Next vm it in
      if more then disassemble_loop vm show it' (instrs @ [instr_line show it']) else Some (instrs, it'))"

definition Disassemble ::
  "vm_ops \<Rightarrow> (u64 \<Rightarrow> u8 \<Rightarrow> bytes option \<Rightarrow> 'l) \<Rightarrow> bytes \<Rightarrow> (u64 + 'l list) option" where
  "Disassemble vm show script =
     map_option (\<lambda>(instrs, it). case it_Error it of Some e \<Rightarrow> Inl e | None \<Rightarrow> Inr instrs)
       (disassemble_loop vm show (NewInstructionIterator script) [])"

section \<open>Reference: cutting the code into instructions\<close>

text \<open>
  The instructions of a piece of code that starts at offset \<open>pc\<close>, with the offset of a push that
  lacks operand bytes.
\<close>

function decode :: "nat \<Rightarrow> bytes \<Rightarrow> (nat \<times> u8 \<times> bytes) list \<times> nat option" where
  "decode pc [] = ([], None)"
| "decode pc (op # rest) =
     (let n = (if 0x60 \<le> op \<and> op \<le> 0x7f then unat op - 0x5f else 0) in
      if length rest < n then ([], Some pc)
      else apfst ((#) (pc, op, take n rest)) (decode (pc + 1 + n) (drop n rest)))"
  by pat_completeness auto
termination by (relation "measure (\<lambda>(pc, code). length code)") auto

definition instr_bytes :: "nat \<times> u8 \<times> bytes \<Rightarrow> bytes" where
  "instr_bytes i = (case i of (pc, op, arg) \<Rightarrow> op # arg)"

lemma decode_reassembles: "snd (decode pc code) = None \<Longrightarrow> concat (map instr_bytes (fst (decode pc code))) = code"
  by (induction pc code rule: decode.induct) (auto simp: Let_def instr_bytes_def split: if_splits)

lemma decode_offsets:
  "i < length (fst (decode pc code)) \<Longrightarrow>
    fst (fst (decode pc code) ! i) = pc + length (concat (map instr_bytes (take i (fst (decode pc code)))))"
proof (induction pc code arbitrary: i rule: decode.induct)
  case (2 pc op rest)
  then show ?case
    by (cases i) (auto simp: Let_def instr_bytes_def split: if_splits)
qed simp

lemma decode_error: "snd (decode pc code) = Some e \<Longrightarrow>
    \<exists>op rest. code = concat (map instr_bytes (fst (decode pc code))) @ op # rest \<and>
      e = pc + length (concat (map instr_bytes (fst (decode pc code)))) \<and>
      0x60 \<le> op \<and> op \<le> 0x7f \<and> length rest < unat op - 0x5f"
proof (induction pc code rule: decode.induct)
  case (2 pc op rest)
  then show ?case
    by (auto simp: Let_def instr_bytes_def split: if_splits) (metis append_take_drop_id append_assoc)+
qed simp

definition next_pos :: "instructionIterator \<Rightarrow> nat" where
  "next_pos it = (if it_started it
     then unat (it_pc it) + (case it_arg it of None \<Rightarrow> 0 | Some a \<Rightarrow> length a) + 1 else unat (it_pc it))"

text \<open>What holds of an iterator between two calls of \<open>Next\<close>.\<close>

definition it_inv :: "bytes \<Rightarrow> instructionIterator \<Rightarrow> bool" where
  "it_inv code it \<longleftrightarrow> it_code it = code \<and> it_error it = None \<and> next_pos it \<le> length code \<and>
     (if it_started it then unat (it_pc it) < length code else it_pc it = 0)"

lemma push_width:
  assumes "vm_documented vm" "IsPush vm op"
  shows "unat (push_len vm op) = unat op - 0x5f" "unat op \<le> 0x7f" "0x60 \<le> unat op"
proof -
  have op: "0x60 \<le> unat op" "unat op \<le> 0x7f"
    using assms by (simp_all add: vm_documented_def word_le_nat_alt)
  then show "unat op \<le> 0x7f" "0x60 \<le> unat op" by simp_all
  have "push_len vm op = ucast op - 0x5f"
    using assms(1) by (simp add: vm_documented_def push_len_def)
  moreover have "unat ((ucast op :: u64) - 0x5f) = unat (ucast op :: u64) - unat (0x5f :: u64)"
    using op by (intro unat_sub) (simp add: word_le_nat_alt)
  ultimately show "unat (push_len vm op) = unat op - 0x5f" by simp
qed

text \<open>One call of \<open>Next\<close> delivers the next instruction of the reference, or stops with it.\<close>

lemma it_Next_step:
  assumes vm: "vm_documented vm" and inv: "it_inv code it" and len: "length code < 2 ^ 63"
  defines "p \<equiv> next_pos it"
  shows "p = length code \<Longrightarrow> \<exists>it'. it_Next vm it = (False, it') \<and> it_error it' = None"
    and "p < length code \<Longrightarrow> decode p (drop p code) = ([], Some e) \<Longrightarrow>
      \<exists>it'. it_Next vm it = (False, it') \<and> it_error it' = Some (word_of_nat e)"
    and "p < length code \<Longrightarrow> fst (decode p (drop p code)) = (pc, op, arg) # is \<Longrightarrow>
      \<exists>it'. it_Next vm it = (True, it') \<and> it_inv code it' \<and> p < next_pos it' \<and>
        it_pc it' = word_of_nat pc \<and> it_op it' = op \<and>
        (case it_arg it' of None \<Rightarrow> arg = [] | Some a \<Rightarrow> a = arg) \<and>
        decode p (drop p code) = apfst ((#) (pc, op, arg)) (decode (next_pos it') (drop (next_pos it') code))"
proof -
  define jt where "jt = it_advance it"
  have cl: "unat (code_len jt) = length code" "unat (code_len it) = length code" "it_code jt = code" "it_error jt = None"
    using inv len by (auto simp: code_len_def unat_of_nat it_inv_def jt_def it_advance_def)
  have p64: "p < 2 ^ 64" using inv len by (simp add: it_inv_def p_def)
  have jp: "it_pc jt = word_of_nat p"
  proof (cases "it_started it")
    case True
    then show ?thesis
      by (auto simp: jt_def it_advance_def p_def next_pos_def split: option.splits)
  next
    case False
    then show ?thesis by (simp add: jt_def it_advance_def p_def next_pos_def)
  qed
  then have up: "unat (it_pc jt) = p" using p64 by (simp add: unat_of_nat)
  have first: "code_len it \<le> it_pc it \<Longrightarrow> code = []"
    using inv cl by (auto simp: it_inv_def word_le_nat_alt split: if_splits)
  show "\<exists>it'. it_Next vm it = (False, it') \<and> it_error it' = None" if "p = length code"
    using that cl up inv by (auto simp: it_Next_def Let_def word_le_nat_alt it_inv_def simp flip: jt_def)
  define op0 where "op0 = code ! p"
  define n where "n = (if IsPush vm op0 then unat op0 - 0x5f else 0)"
  define kt where "kt = jt\<lparr>it_op := op0\<rparr>"
  have isp: "IsPush vm o' \<longleftrightarrow> 0x60 \<le> o' \<and> o' \<le> 0x7f" for o' using vm by (simp add: vm_documented_def)
  have dec: "decode p (drop p code) =
      (if length code - Suc p < n then ([], Some p)
       else apfst ((#) (p, op0, take n (drop (Suc p) code))) (decode (p + 1 + n) (drop (p + 1 + n) code)))"
    if lt: "p < length code"
    using Cons_nth_drop_Suc [OF lt, symmetric]
    by (simp add: Let_def n_def isp op0_def drop_drop add.commute)
  have nxt: "it_Next vm it =
      (if IsPush vm op0 then if length code < p + 1 + n then (False, kt\<lparr>it_error := Some (word_of_nat p)\<rparr>)
         else (True, kt\<lparr>it_arg := Some (take n (drop (p + 1) code))\<rparr>)
       else (True, kt\<lparr>it_arg := None\<rparr>))"
    if lt: "p < length code"
  proof -
    have g: "it_error it = None" "\<not> code_len it \<le> it_pc it" "\<not> code_len jt \<le> it_pc jt"
      "it_code jt ! unat (it_pc jt) = op0" "code_len (jt\<lparr>it_op := o'\<rparr>) = code_len jt" for o'
      using first lt cl up inv by (auto simp: it_inv_def op0_def word_le_nat_alt code_len_def)
    show ?thesis
    proof (cases "IsPush vm op0")
      case True
      define u where "u = it_pc jt + 1 + push_len vm op0"
      have n: "unat (push_len vm op0) = n" "n \<le> 32"
        using push_width [OF vm True] True by (simp_all add: n_def)
      have p1: "unat (it_pc jt + 1) = p + 1" using lt len up by (simp add: unat_word_ariths)
      with n have u: "unat u = p + 1 + n"
        using lt len unfolding u_def by (subst unat_word_ariths) simp
      have "it_Next vm it = (if code_len jt < u then (False, kt\<lparr>it_error := Some (it_pc jt)\<rparr>)
          else (True, kt\<lparr>it_arg := Some (take (unat u - unat (it_pc jt + 1)) (drop (unat (it_pc jt + 1)) code))\<rparr>))"
        using g True unfolding it_Next_def Let_def kt_def u_def by (simp add: cl flip: jt_def)
      then show ?thesis
        using True p1 by (simp only: p1 u word_less_nat_alt cl) (simp add: jp)
    next
      case False
      with g show ?thesis unfolding it_Next_def Let_def kt_def by (simp flip: jt_def)
    qed
  qed
  show "\<exists>it'. it_Next vm it = (False, it') \<and> it_error it' = Some (word_of_nat e)"
    if lt: "p < length code" and d: "decode p (drop p code) = ([], Some e)"
    using d lt n_def unfolding dec [OF lt] nxt [OF lt]
    by (auto simp: apfst_def map_prod_def split: if_splits prod.splits)
  show "\<exists>it'. it_Next vm it = (True, it') \<and> it_inv code it' \<and> p < next_pos it' \<and>
        it_pc it' = word_of_nat pc \<and> it_op it' = op \<and>
        (case it_arg it' of None \<Rightarrow> arg = [] | Some a \<Rightarrow> a = arg) \<and>
        decode p (drop p code) = apfst ((#) (pc, op, arg)) (decode (next_pos it') (drop (next_pos it') code))"
    if lt: "p < length code" and d: "fst (decode p (drop p code)) = (pc, op, arg) # is"
  proof -
    have enough: "\<not> length code - Suc p < n" and eqs: "pc = p" "op = op0" "arg = take n (drop (Suc p) code)"
      using d unfolding dec [OF lt] by (auto split: if_splits)
    define it' where "it' = (if IsPush vm op0 then kt\<lparr>it_arg := Some arg\<rparr> else kt\<lparr>it_arg := None\<rparr>)"
    have st: "it_started jt" by (simp add: jt_def it_advance_def)
    have np: "next_pos it' = p + 1 + n"
      using enough lt up st by (auto simp: it'_def next_pos_def kt_def eqs n_def)
    have "it_Next vm it = (True, it')"
      using enough lt unfolding nxt [OF lt] by (auto simp: it'_def eqs)
    moreover have "it_inv code it'"
      using np enough lt up st cl by (auto simp: it_inv_def it'_def kt_def)
    ultimately show ?thesis
      using np enough jp unfolding dec [OF lt]
      by (auto simp: it'_def kt_def eqs n_def)
  qed
qed

definition show_instr :: "(u64 \<Rightarrow> u8 \<Rightarrow> bytes option \<Rightarrow> 'l) \<Rightarrow> nat \<times> u8 \<times> bytes \<Rightarrow> 'l" where
  "show_instr show i = (case i of (pc, op, arg) \<Rightarrow> show (word_of_nat pc) op (if arg = [] then None else Some arg))"

lemma disassemble_loop_correct:
  assumes vm: "vm_documented vm" and len: "length code < 2 ^ 63" and "it_inv code it"
  shows "\<exists>it'. disassemble_loop vm show it ls =
      Some (ls @ map (show_instr show) (fst (decode (next_pos it) (drop (next_pos it) code))), it') \<and>
    it_error it' = map_option word_of_nat (snd (decode (next_pos it) (drop (next_pos it) code)))"
  using assms(3)
proof (induction "length code - next_pos it" arbitrary: it ls rule: less_induct)
  case less
  let ?p = "next_pos it"
  note step = it_Next_step [OF vm less.prems len]
  consider "?p = length code" | "?p < length code" using less.prems unfolding it_inv_def by linarith
  then show ?case
  proof cases
    case 1
    with step(1) show ?thesis by (subst disassemble_loop.simps) auto
  next
    case 2
    show ?thesis
    proof (cases "fst (decode ?p (drop ?p code))")
      case Nil
      have "snd (decode ?p (drop ?p code)) \<noteq> None"
        using decode_reassembles [of ?p "drop ?p code"] Nil 2 by auto
      then obtain e where "decode ?p (drop ?p code) = ([], Some e)"
        using Nil by (cases "decode ?p (drop ?p code)") auto
      with step(2) [OF 2] show ?thesis by (subst disassemble_loop.simps) auto
    next
      case (Cons i rest)
      obtain pc op arg where i: "i = (pc, op, arg)" by (cases i)
      from step(3) [OF 2 Cons [unfolded i]] obtain it' where it':
        "it_Next vm it = (True, it')" "it_inv code it'" "?p < next_pos it'"
        "it_pc it' = word_of_nat pc" "it_op it' = op"
        "case it_arg it' of None \<Rightarrow> arg = [] | Some a \<Rightarrow> a = arg"
        "decode ?p (drop ?p code) = apfst ((#) (pc, op, arg)) (decode (next_pos it') (drop (next_pos it') code))"
        by blast
      have line: "instr_line show it' = show_instr show (pc, op, arg)"
        using it' by (auto simp: instr_line_def show_instr_def it_Arg_def it_PC_def it_Op_def split: option.splits)
      have "length code - next_pos it' < length code - ?p" using it' 2 by simp
      from less.hyps [OF this it'(2), of "ls @ [instr_line show it']"] show ?thesis
        by (subst disassemble_loop.simps) (auto simp: it'(1,7) line)
    qed
  qed
qed

text \<open>
  C18: disassembling any code that fits a Go slice ends. It delivers the instructions the
  reference cuts the code into, or the offset of a push whose operand is cut short; the listed
  instructions, each with its operand bytes, put together are the code again.
\<close>
theorem disassembly_exact:
  assumes "vm_documented vm" "length script < 2 ^ 63"
  shows "Disassemble vm show script = Some (case decode 0 script of
      (is, None) \<Rightarrow> Inr (map (show_instr show) is) | (is, Some e) \<Rightarrow> Inl (word_of_nat e)) \<and>
    (snd (decode 0 script) = None \<longrightarrow> concat (map instr_bytes (fst (decode 0 script))) = script)"
proof -
  have inv: "it_inv script (NewInstructionIterator script)" "next_pos (NewInstructionIterator script) = 0"
    by (simp_all add: it_inv_def NewInstructionIterator_def next_pos_def)
  from disassemble_loop_correct [OF assms inv(1), of "show" "[]"] inv(2)
  obtain it' where "disassemble_loop vm show (NewInstructionIterator script) [] =
      Some (map (show_instr show) (fst (decode 0 script)), it')"
    "it_error it' = map_option word_of_nat (snd (decode 0 script))"
    by auto
  then show ?thesis
    using decode_reassembles [of 0 script]
    by (auto simp: Disassemble_def it_Error_def split: option.splits prod.splits)
qed

definition demo_vm :: vm_ops where
  "demo_vm = \<lparr>IsPush = (\<lambda>op. 0x60 \<le> op \<and> op \<le> 0x7f), PUSH1 = 0x60, PUSH4 = 0x63, JUMPDEST = 0x5b,
     StringToOp = (\<lambda>t. if t = str ''JUMP'' then 0x56 else 1)\<rparr>"

lemma demo_vm_documented: "vm_documented demo_vm"
  by (simp add: vm_documented_def demo_vm_def)

theorem disassembly_exact_witness:
  "Disassemble demo_vm (\<lambda>pc op arg. (pc, op, arg)) [0x60, 7, 1] = Some (Inr [(0, 0x60, Some [7]), (2, 1, None)]) \<and>
   Disassemble demo_vm (\<lambda>pc op arg. (pc, op, arg)) [1, 0x61, 7] = Some (Inl 1)"
  using disassembly_exact [OF demo_vm_documented, of "[0x60, 7, 1]" "\<lambda>pc op arg. (pc, op, arg)"]
    disassembly_exact [OF demo_vm_documented, of "[1, 0x61, 7]" "\<lambda>pc op arg. (pc, op, arg)"]
  by (simp add: show_instr_def)

end
