(* ===== verification/Evm_Lexer.thy ===== *)
theory Evm_Lexer
  imports Chain_Prelude
begin

text \<open>
  The lexer of the assembly language (\<^verbatim>\<open>lexer.go\<close>): a state machine over the bytes of the
  source, one function per state, each returning the next state. The channel of tokens is the
  list of the tokens sent so far. \<^verbatim>\<open>utf8.DecodeRuneInString\<close> is modelled in full; the classes
  of \<^verbatim>\<open>unicode\<close> are modelled for the Latin-1 range, as the library special-cases it, and the
  library's tables for the runes above are the parameter \<open>u\<close>.
\<close>

section \<open>Runes\<close>

type_synonym rune = nat

definition cont :: "u8 \<Rightarrow> bool" where
  "cont b \<longleftrightarrow> 0x80 \<le> b \<and> b \<le> 0xbf"

definition runeError :: rune where
  "runeError = 0xfffd"

text \<open>
  The rune at the head of the bytes and its width; an ill-formed sequence is the error rune of
  width one.
\<close>

fun DecodeRune :: "bytes \<Rightarrow> rune \<times> nat" where
  "DecodeRune [] = (runeError, 0)"
| "DecodeRune (a # r) =
     (let n = unat a in
      if n < 0x80 then (n, 1)
      else case r of
        [] \<Rightarrow> (runeError, 1)
      | b # r \<Rightarrow>
          if 0xc2 \<le> n \<and> n \<le> 0xdf \<and> cont b then ((n mod 0x20) * 0x40 + unat b mod 0x40, 2)
          else case r of
            [] \<Rightarrow> (runeError, 1)
          | c # r \<Rightarrow>
              if 0xe0 \<le> n \<and> n \<le> 0xef \<and> cont b \<and> cont c \<and> (n = 0xe0 \<longrightarrow> 0xa0 \<le> b) \<and> (n = 0xed \<longrightarrow> b \<le> 0x9f)
              then ((n mod 0x10) * 0x1000 + (unat b mod 0x40) * 0x40 + unat c mod 0x40, 3)
              else case r of
                [] \<Rightarrow> (runeError, 1)
              | d # r \<Rightarrow>
                  if 0xf0 \<le> n \<and> n \<le> 0xf4 \<and> cont b \<and> cont c \<and> cont d \<and> (n = 0xf0 \<longrightarrow> 0x90 \<le> b) \<and> (n = 0xf4 \<longrightarrow> b \<le> 0x8f)
                  then ((n mod 0x8) * 0x40000 + (unat b mod 0x40) * 0x1000 + (unat c mod 0x40) * 0x40 + unat d mod 0x40, 4)
                  else (runeError, 1))"

lemma DecodeRune_width: "s \<noteq> [] \<Longrightarrow> 1 \<le> snd (DecodeRune s) \<and> snd (DecodeRune s) \<le> length s"
  by (induction s rule: DecodeRune.induct) (auto simp: Let_def split: list.splits)

record unicode =
  tabLetter :: "rune \<Rightarrow> bool"
  tabSpace :: "rune \<Rightarrow> bool"
  tabNumber :: "rune \<Rightarrow> bool"

definition isLetter :: "unicode \<Rightarrow> rune \<Rightarrow> bool" where
  "isLetter u t = (if t < 0x100
     then 0x41 \<le> t \<and> t \<le> 0x5a \<or> 0x61 \<le> t \<and> t \<le> 0x7a \<or> t \<in> {0xaa, 0xb5, 0xba} \<or>
       0xc0 \<le> t \<and> t \<noteq> 0xd7 \<and> t \<noteq> 0xf7
     else tabLetter u t)"

definition isSpace :: "unicode \<Rightarrow> rune \<Rightarrow> bool" where
  "isSpace u t = (if t < 0x100 then 9 \<le> t \<and> t \<le> 13 \<or> t \<in> {0x20, 0x85, 0xa0} else tabSpace u t)"

definition isNumber :: "unicode \<Rightarrow> rune \<Rightarrow> bool" where
  "isNumber u t = (if t < 0x100 then 0x30 \<le> t \<and> t \<le> 0x39 \<or> t \<in> {0xb2, 0xb3, 0xb9, 0xbc, 0xbd, 0xbe}
     else tabNumber u t)"

text \<open>\<^verbatim>\<open>strings.ContainsRune\<close> for a string of ASCII characters.\<close>

definition ContainsRune :: "string \<Rightarrow> rune \<Rightarrow> bool" where
  "ContainsRune s r \<longleftrightarrow> r \<in> set (map of_char s)"

definition Numbers :: string where
  "Numbers = ''1234567890''"

definition HexadecimalNumbers :: string where
  "HexadecimalNumbers = Numbers @ ''aAbBcCdDeEfF''"

definition Alpha :: string where
  "Alpha = ''abcdefghijklmnopqrstuwvxyzABCDEFGHIJKLMNOPQRSTUWVXYZ''"

lemma ContainsRune_0 [simp]:
  "\<not> ContainsRune Numbers 0" "\<not> ContainsRune HexadecimalNumbers 0"
  "\<not> ContainsRune (Alpha @ ''_'' @ Numbers) 0" "\<not> ContainsRune ''0'' 0" "\<not> ContainsRune ''xX'' 0"
  "\<not> ContainsRune '':'' 0"
  by (simp_all add: ContainsRune_def Numbers_def HexadecimalNumbers_def Alpha_def)

section \<open>Tokens and the lexer's state\<close>

datatype tokenType = eof | lineStart | lineEnd | invalidStatement | element | label
  | labelDef | number | stringValue

record token =
  tok_typ :: tokenType
  tok_lineno :: nat
  tok_text :: bytes

datatype stateFn = LexLine | LexComment | LexLabel | LexInsideString | LexNumber | LexElement

record lexer =
  lx_input :: bytes
  lx_tokens :: "token list"
  lx_lineno :: nat
  lx_start :: nat
  lx_pos :: nat
  lx_width :: nat

definition lx_next :: "lexer \<Rightarrow> rune \<times> lexer" where
  "lx_next l =
     (if length (lx_input l) \<le> lx_pos l then (0, l\<lparr>lx_width := 0\<rparr>)
      else let (r, w) = DecodeRune (drop (lx_pos l) (lx_input l)) in (r, l\<lparr>lx_width := w, lx_pos := lx_pos l + w\<rparr>))"

definition backup :: "lexer \<Rightarrow> lexer" where
  "backup l = l\<lparr>lx_pos := lx_pos l - lx_width l\<rparr>"

definition peek :: "lexer \<Rightarrow> rune \<times> lexer" where
  "peek l = (let (r, l) = lx_next l in (r, backup l))"

definition ignore :: "lexer \<Rightarrow> lexer" where
  "ignore l = l\<lparr>lx_start := lx_pos l\<rparr>"

definition accept :: "string \<Rightarrow> lexer \<Rightarrow> bool \<times> lexer" where
  "accept valid l = (let (r, l) = lx_next l in if ContainsRune valid r then (True, l) else (False, backup l))"

definition blob :: "lexer \<Rightarrow> bytes" where
  "blob l = take (lx_pos l - lx_start l) (drop (lx_start l) (lx_input l))"

definition emit :: "tokenType \<Rightarrow> lexer \<Rightarrow> lexer" where
  "emit t l = l\<lparr>lx_tokens := lx_tokens l @ [\<lparr>tok_typ = t, tok_lineno = lx_lineno l, tok_text = blob l\<rparr>], lx_start := lx_pos l\<rparr>"

lemma lx_next_pos:
  "lx_pos (snd (lx_next l)) = lx_pos l + lx_width (snd (lx_next l))"
  "lx_pos l < length (lx_input l) \<Longrightarrow> lx_pos l < lx_pos (snd (lx_next l)) \<and> lx_pos (snd (lx_next l)) \<le> length (lx_input l)"
  "lx_input (snd (lx_next l)) = lx_input l" "lx_start (snd (lx_next l)) = lx_start l"
  "lx_tokens (snd (lx_next l)) = lx_tokens l" "lx_lineno (snd (lx_next l)) = lx_lineno l"
  "length (lx_input l) \<le> lx_pos l \<Longrightarrow> lx_next l = (0, l\<lparr>lx_width := 0\<rparr>)"
  using DecodeRune_width [of "drop (lx_pos l) (lx_input l)"]
  by (auto simp: lx_next_def split: prod.splits)

text \<open>
  The runs stop at the end of the input, where \<^verbatim>\<open>next\<close> gives the rune \<open>0\<close>: it is in no class,
  and \<^verbatim>\<open>acceptRunUntil\<close> looks for it.
\<close>

function acceptRun :: "string \<Rightarrow> lexer \<Rightarrow> lexer" where
  "acceptRun valid l =
     (if ContainsRune valid (fst (lx_next l)) \<and> lx_pos l < length (lx_input l)
      then acceptRun valid (snd (lx_next l)) else backup (snd (lx_next l)))"
  by pat_completeness auto
termination
  by (relation "measure (\<lambda>(valid, l). length (lx_input l) - lx_pos l)")
    (auto simp: lx_next_pos(3) intro!: diff_less_mono2 lx_next_pos(2) [THEN conjunct1])

function acceptRunUntil :: "rune \<Rightarrow> lexer \<Rightarrow> bool \<times> lexer" where
  "acceptRunUntil until l =
     (let i = fst (lx_next l); l' = snd (lx_next l) in
      if i = until then (True, l')
      else if i = 0 \<or> length (lx_input l) \<le> lx_pos l then (False, l')
      else acceptRunUntil until l')"
  by pat_completeness auto
termination
  by (relation "measure (\<lambda>(until, l). length (lx_input l) - lx_pos l)")
    (auto simp: lx_next_pos(3) not_le intro!: diff_less_mono2 lx_next_pos(2) [THEN conjunct1])

declare acceptRun.simps [simp del] acceptRunUntil.simps [simp del]

section \<open>The states\<close>

function lexLine :: "unicode \<Rightarrow> lexer \<Rightarrow> stateFn option \<times> lexer" where
  "lexLine u l =
     (let r = fst (lx_next l); l' = snd (lx_next l) in
      if r = 10 then
        let l' = ignore (emit lineEnd l') in
        lexLine u (emit lineStart (l'\<lparr>lx_lineno := lx_lineno l' + 1\<rparr>))
      else if r = 59 \<and> fst (peek l') = 59 then (Some LexComment, snd (peek l'))
      else let l' = (if r = 59 then snd (peek l') else l') in
        if isSpace u r then lexLine u (ignore l')
        else if isLetter u r \<or> r = 95 then (Some LexElement, l')
        else if isNumber u r then (Some LexNumber, l')
        else if r = 64 then (Some LexLabel, ignore l')
        else if r = 34 then (Some LexInsideString, l')
        else (None, l'))"
  by pat_completeness auto

lemma class_0 [simp]: "\<not> isSpace u 0" "\<not> isLetter u 0" "\<not> isNumber u 0" "\<not> isSpace u 59"
  by (simp_all add: isSpace_def isLetter_def isNumber_def)

lemma lx_next_end: "fst (lx_next l) \<noteq> 0 \<Longrightarrow> lx_pos l < length (lx_input l)"
  by (auto simp: lx_next_def split: if_splits)

lemma lexer_fields [simp]:
  "lx_input (emit t l) = lx_input l" "lx_pos (emit t l) = lx_pos l" "lx_start (emit t l) = lx_pos l"
  "lx_lineno (emit t l) = lx_lineno l"
  "lx_input (ignore l) = lx_input l" "lx_pos (ignore l) = lx_pos l" "lx_start (ignore l) = lx_pos l"
  "lx_tokens (ignore l) = lx_tokens l" "lx_lineno (ignore l) = lx_lineno l"
  "lx_input (backup l) = lx_input l" "lx_start (backup l) = lx_start l" "lx_tokens (backup l) = lx_tokens l"
  "lx_lineno (backup l) = lx_lineno l"
  "lx_tokens (emit t l) = lx_tokens l @ [\<lparr>tok_typ = t, tok_lineno = lx_lineno l, tok_text = blob l\<rparr>]"
  by (simp_all add: emit_def ignore_def backup_def)

lemma lx_next_fields [simp]:
  "lx_input (snd (lx_next l)) = lx_input l" "lx_start (snd (lx_next l)) = lx_start l"
  "lx_tokens (snd (lx_next l)) = lx_tokens l" "lx_lineno (snd (lx_next l)) = lx_lineno l"
  by (simp_all add: lx_next_pos)

lemma peek_fields [simp]:
  "lx_input (snd (peek l)) = lx_input l" "lx_start (snd (peek l)) = lx_start l"
  "lx_tokens (snd (peek l)) = lx_tokens l" "lx_lineno (snd (peek l)) = lx_lineno l"
  "lx_pos (snd (peek l)) = lx_pos l"
  by (simp_all add: peek_def case_prod_beta backup_def lx_next_pos)

termination lexLine
proof (relation "measure (\<lambda>(u, l). length (lx_input l) - lx_pos l)")
  have shrink: "length (lx_input l) - lx_pos (snd (lx_next l)) < length (lx_input l) - lx_pos l"
    if "fst (lx_next l) \<noteq> 0" for l
    using lx_next_pos(2) [OF lx_next_end [OF that]] lx_next_end [OF that] by (intro diff_less_mono2) auto
  fix u :: unicode and l x xa xb
  assume x: "x = fst (lx_next l)" "xa = snd (lx_next l)"
  show "((u, emit lineStart (xb\<lparr>lx_lineno := lx_lineno xb + 1\<rparr>)), u, l)
      \<in> measure (\<lambda>(u, l). length (lx_input l) - lx_pos l)" if "x = 10" "xb = ignore (emit lineEnd xa)"
    using shrink [of l] that x by simp
  show "((u, ignore xb), u, l) \<in> measure (\<lambda>(u, l). length (lx_input l) - lx_pos l)"
    if "xb = (if x = 59 then snd (peek xa) else xa)" "isSpace u x"
    using shrink [of l] that x by (cases "fst (lx_next l) = 0") (auto split: if_splits)
qed simp

declare lexLine.simps [simp del]

definition lexComment :: "lexer \<Rightarrow> stateFn option \<times> lexer" where
  "lexComment l = (let (_, l) = acceptRunUntil 10 l in (Some LexLine, ignore l))"

definition lexLabel :: "lexer \<Rightarrow> stateFn option \<times> lexer" where
  "lexLabel l = (let l = acceptRun (Alpha @ ''_'' @ Numbers) l in (Some LexLine, emit label l))"

definition lexInsideString :: "lexer \<Rightarrow> stateFn option \<times> lexer" where
  "lexInsideString l =
     (let (found, l) = acceptRunUntil 34 l in
      (Some LexLine, if found then emit stringValue l else l))"

definition lexNumber :: "lexer \<Rightarrow> stateFn option \<times> lexer" where
  "lexNumber l =
     (let (zero, l) = accept ''0'' l;
          (hex, l) = (if zero then (True, l) else accept ''xX'' l);
          l = acceptRun (if hex then HexadecimalNumbers else Numbers) l
      in (Some LexLine, emit number l))"

definition lexElement :: "lexer \<Rightarrow> stateFn option \<times> lexer" where
  "lexElement l =
     (let l = acceptRun (Alpha @ ''_'' @ Numbers) l; (r, l) = peek l in
      if r = 58 then let l = emit labelDef l; (_, l) = accept '':'' l in (Some LexLine, ignore l)
      else (Some LexLine, emit element l))"

definition run_state :: "unicode \<Rightarrow> stateFn \<Rightarrow> lexer \<Rightarrow> stateFn option \<times> lexer" where
  "run_state u st l = (case st of LexLine \<Rightarrow> lexLine u l | LexComment \<Rightarrow> lexComment l
     | LexLabel \<Rightarrow> lexLabel l | LexInsideString \<Rightarrow> lexInsideString l | LexNumber \<Rightarrow> lexNumber l
     | LexElement \<Rightarrow> lexElement l)"

partial_function (option) lex_states :: "unicode \<Rightarrow> stateFn option \<Rightarrow> lexer \<Rightarrow> lexer option" where
  "lex_states u st l =
     (case st of None \<Rightarrow> Some l
      | Some f \<Rightarrow> lex_states u (fst (run_state u f l)) (snd (run_state u f l)))"

definition Lex :: "unicode \<Rightarrow> bytes \<Rightarrow> token list option" where
  "Lex u source =
     (let l = \<lparr>lx_input = source, lx_tokens = [], lx_lineno = 0, lx_start = 0, lx_pos = 0, lx_width = 0\<rparr> in
      map_option (\<lambda>l. lx_tokens (emit eof l)) (lex_states u (Some LexLine) (emit lineStart l)))"

section \<open>Where the tokens come from\<close>

text \<open>
  The texts of the tokens are pieces of the source, in its order and without overlap, the last
  one ending at \<open>n\<close>.
\<close>

inductive laid_out :: "bytes \<Rightarrow> token list \<Rightarrow> nat \<Rightarrow> bool" for src where
  laid_Nil: "laid_out src [] 0"
| laid_snoc: "laid_out src ts a \<Longrightarrow> a \<le> s \<Longrightarrow> s \<le> p \<Longrightarrow> p \<le> length src \<Longrightarrow>
    tok_text t = take (p - s) (drop s src) \<Longrightarrow> laid_out src (ts @ [t]) p"

definition lx_inv :: "bytes \<Rightarrow> lexer \<Rightarrow> bool" where
  "lx_inv src l \<longleftrightarrow> lx_input l = src \<and> lx_pos l \<le> length src \<and> lx_start l \<le> lx_pos l \<and>
     (\<exists>n \<le> lx_start l. laid_out src (lx_tokens l) n) \<and>
     lx_tokens l \<noteq> [] \<and> tok_typ (hd (lx_tokens l)) = lineStart \<and>
     (\<forall>t \<in> set (lx_tokens l). tok_typ t \<noteq> eof \<and> (tok_typ t = stringValue \<longrightarrow> 2 \<le> length (tok_text t)))"

lemma lx_inv_lineno [simp]: "lx_inv src (l\<lparr>lx_lineno := n\<rparr>) = lx_inv src l"
  by (simp add: lx_inv_def)

lemma pos_next_le: "lx_pos l \<le> length (lx_input l) \<Longrightarrow>
    lx_pos l \<le> lx_pos (snd (lx_next l)) \<and> lx_pos (snd (lx_next l)) \<le> length (lx_input l)"
  using lx_next_pos(2) [of l] by (cases "lx_pos l < length (lx_input l)") (auto simp: lx_next_pos(7))

lemma inv_next: "lx_inv src l \<Longrightarrow> lx_inv src (snd (lx_next l))"
  using pos_next_le [of l] by (auto simp: lx_inv_def)

lemma pos_backup_next [simp]: "lx_pos (backup (snd (lx_next l))) = lx_pos l"
  by (simp add: backup_def lx_next_pos)

lemma inv_backup: "lx_inv src l \<Longrightarrow> lx_inv src (backup (snd (lx_next l)))"
  by (simp add: lx_inv_def)

lemma inv_peek: "lx_inv src l \<Longrightarrow> lx_inv src (snd (peek l))"
  by (simp add: lx_inv_def)

lemma inv_ignore: "lx_inv src l \<Longrightarrow> lx_inv src (ignore l)"
  by (auto simp: lx_inv_def intro: order.trans)

lemma inv_emit:
  assumes "lx_inv src l" "t \<noteq> eof" "t = stringValue \<Longrightarrow> lx_start l + 2 \<le> lx_pos l"
  shows "lx_inv src (emit t l)"
proof -
  from assms(1) obtain n where "n \<le> lx_start l" "laid_out src (lx_tokens l) n"
    by (auto simp: lx_inv_def)
  then have "laid_out src (lx_tokens (emit t l)) (lx_pos l)"
    using assms(1) by (auto simp: lx_inv_def blob_def intro: laid_snoc)
  with assms show ?thesis by (auto simp: lx_inv_def blob_def)
qed

lemmas lexer_inv = inv_next inv_backup inv_peek inv_ignore inv_emit

lemma acceptRun_inv: "lx_inv src l \<Longrightarrow> lx_inv src (acceptRun valid l) \<and>
    lx_pos l \<le> lx_pos (acceptRun valid l) \<and> lx_start (acceptRun valid l) = lx_start l"
proof (induction valid l rule: acceptRun.induct)
  case (1 valid l)
  have "lx_pos l \<le> lx_pos (snd (lx_next l))" using 1(2) pos_next_le [of l] by (simp add: lx_inv_def)
  with 1 show ?case
    by (subst (1 2 3) acceptRun.simps) (auto simp: lexer_inv)
qed

lemma acceptRunUntil_inv: "lx_inv src l \<Longrightarrow> lx_inv src (snd (acceptRunUntil until l)) \<and>
    lx_pos l \<le> lx_pos (snd (acceptRunUntil until l)) \<and>
    lx_start (snd (acceptRunUntil until l)) = lx_start l \<and>
    (fst (acceptRunUntil until l) \<and> until \<noteq> 0 \<longrightarrow> lx_pos l < lx_pos (snd (acceptRunUntil until l)))"
proof (induction until l rule: acceptRunUntil.induct)
  case (1 until l)
  have "lx_pos l \<le> lx_pos (snd (lx_next l))" using 1(2) pos_next_le [of l] by (simp add: lx_inv_def)
  moreover have "lx_pos l < lx_pos (snd (lx_next l))" if "fst (lx_next l) \<noteq> 0"
    using lx_next_pos(2) [OF lx_next_end [OF that]] by simp
  moreover note eq = acceptRunUntil.simps [of until l, unfolded Let_def]
  consider "fst (lx_next l) = until"
    | "fst (lx_next l) \<noteq> until" "fst (lx_next l) = 0 \<or> length (lx_input l) \<le> lx_pos l"
    | "fst (lx_next l) \<noteq> until" "\<not> (fst (lx_next l) = 0 \<or> length (lx_input l) \<le> lx_pos l)"
    by blast
  then show ?case
  proof cases
    case 3
    then have "acceptRunUntil until l = acceptRunUntil until (snd (lx_next l))" by (simp add: eq)
    with 1(1) [OF refl refl 3] calculation inv_next [OF 1(2)] 3 show ?thesis by auto
  qed (use calculation inv_next [OF 1(2)] in \<open>simp_all add: eq\<close>)
qed

lemma accept_inv: "lx_inv src l \<Longrightarrow> lx_inv src (snd (accept valid l)) \<and> lx_pos l \<le> lx_pos (snd (accept valid l))"
  using pos_next_le [of l] by (auto simp: accept_def case_prod_beta lexer_inv lx_inv_def)

text \<open>A line either ends the run or hands over to another state after reading something.\<close>

lemma lexLine_inv: "lx_inv src l \<Longrightarrow> lx_inv src (snd (lexLine u l)) \<and>
    fst (lexLine u l) \<noteq> Some LexLine \<and>
    (fst (lexLine u l) \<noteq> None \<longrightarrow> lx_pos l < lx_pos (snd (lexLine u l))) \<and>
    (fst (lexLine u l) = Some LexInsideString \<longrightarrow> lx_start (snd (lexLine u l)) < lx_pos (snd (lexLine u l)))"
proof (induction u l rule: lexLine.induct)
  case (1 u l)
  have le: "lx_pos l \<le> lx_pos (snd (lx_next l))" using 1(3) pos_next_le [of l] by (simp add: lx_inv_def)
  have lt: "lx_pos l < lx_pos (snd (lx_next l))" if "fst (lx_next l) \<noteq> 0"
    using lx_next_pos(2) [OF lx_next_end [OF that]] by simp
  have st: "lx_start l \<le> lx_pos l" using 1(3) by (simp add: lx_inv_def)
  note inv = inv_next [OF 1(3)] and eq = lexLine.simps [of u l, unfolded Let_def]
  define r where "r = fst (lx_next l)"
  define l' where "l' = snd (lx_next l)"
  define k where "k = (if r = 59 then snd (peek l') else l')"
  have k: "lx_inv src k" "lx_pos k = lx_pos l'" "lx_start k = lx_start l'"
    using inv by (simp_all add: k_def l'_def lexer_inv)
  consider "r = 10" | "r = 59" "fst (peek l') = 59"
    | "r \<noteq> 10" "\<not> (r = 59 \<and> fst (peek l') = 59)" "isSpace u r"
    | "r \<noteq> 10" "\<not> (r = 59 \<and> fst (peek l') = 59)" "\<not> isSpace u r" by blast
  then show ?case
  proof cases
    case c: 1
    define m where "m = ignore (emit lineEnd l')"
    define m' where "m' = emit lineStart (m\<lparr>lx_lineno := lx_lineno m + 1\<rparr>)"
    have "lexLine u l = lexLine u m'" using c by (simp add: eq m_def m'_def l'_def r_def)
    moreover have "lx_inv src m'" "lx_pos m' = lx_pos l'"
      using inv by (auto simp: m'_def m_def l'_def intro!: inv_emit inv_ignore)
    ultimately show ?thesis
      using 1(1) [OF r_def l'_def c m_def] lt c by (auto simp: m'_def r_def l'_def)
  next
    case c: 2
    with lt [folded r_def l'_def] inv_peek [OF inv, folded l'_def] show ?thesis
      by (simp add: eq flip: r_def l'_def)
  next
    case c: 3
    then have "lexLine u l = lexLine u (ignore k)" by (auto simp: eq k_def r_def l'_def)
    moreover have "r \<noteq> 0" using c by (auto intro: ccontr)
    ultimately show ?thesis
      using 1(2) [OF r_def l'_def c(1,2) k_def c(3)] lt [folded r_def] k inv_ignore [OF k(1)]
      by (auto simp: l'_def)
  next
    case c: 4
    then have "lexLine u l = (if isLetter u r \<or> r = 95 then (Some LexElement, k)
        else if isNumber u r then (Some LexNumber, k)
        else if r = 64 then (Some LexLabel, ignore k)
        else if r = 34 then (Some LexInsideString, k) else (None, k))"
      by (auto simp: eq k_def r_def l'_def)
    then show ?thesis
      using lt [folded r_def] k inv_ignore [OF k(1)] st by (cases "r = 0") (auto simp: l'_def split: if_splits)
  qed
qed

text \<open>The other states go back to the line and never move backwards.\<close>

lemma other_states_inv:
  assumes inv: "lx_inv src l" and st: "st \<noteq> LexLine" "st = LexInsideString \<Longrightarrow> lx_start l < lx_pos l"
  shows "lx_inv src (snd (run_state u st l)) \<and> fst (run_state u st l) = Some LexLine \<and>
    lx_pos l \<le> lx_pos (snd (run_state u st l))"
proof (cases st)
  case LexComment
  then show ?thesis
    using acceptRunUntil_inv [OF inv, of 10]
    by (auto simp: run_state_def lexComment_def case_prod_beta inv_ignore)
next
  case LexLabel
  then show ?thesis
    using acceptRun_inv [OF inv] by (auto simp: run_state_def lexLabel_def Let_def intro!: inv_emit)
next
  case LexInsideString
  then show ?thesis
    using acceptRunUntil_inv [OF inv, of 34] st
    by (auto simp: run_state_def lexInsideString_def case_prod_beta intro!: inv_emit)
next
  case LexNumber
  define l1 where "l1 = accept ''0'' l"
  define l2 where "l2 = (if fst l1 then (True, snd l1) else accept ''xX'' (snd l1))"
  have 1: "lx_inv src (snd l1)" "lx_pos l \<le> lx_pos (snd l1)"
    using accept_inv [OF inv] by (simp_all add: l1_def)
  have 2: "lx_inv src (snd l2)" "lx_pos (snd l1) \<le> lx_pos (snd l2)"
    using accept_inv [OF 1(1), of "''xX''"] 1 by (simp_all add: l2_def)
  have "run_state u st l = (Some LexLine, emit number (acceptRun (if fst l2 then HexadecimalNumbers else Numbers) (snd l2)))"
    using LexNumber by (simp add: run_state_def lexNumber_def Let_def case_prod_beta l1_def l2_def)
  with acceptRun_inv [OF 2(1), of "if fst l2 then HexadecimalNumbers else Numbers"] 1 2 show ?thesis
    by (auto intro!: inv_emit simp del: if_split)
next
  case LexElement
  define l1 where "l1 = acceptRun (Alpha @ ''_'' @ Numbers) l"
  define l2 where "l2 = snd (peek l1)"
  have 1: "lx_inv src l1" "lx_pos l \<le> lx_pos l1"
    using acceptRun_inv [OF inv] by (simp_all add: l1_def)
  have 2: "lx_inv src l2" "lx_pos l2 = lx_pos l1"
    using 1 by (simp_all add: l2_def inv_peek)
  have run: "run_state u st l = (if fst (peek l1) = 58 then (Some LexLine, ignore (snd (accept '':'' (emit labelDef l2))))
      else (Some LexLine, emit element l2))"
    using LexElement by (simp add: run_state_def lexElement_def Let_def case_prod_beta l1_def l2_def)
  have "lx_inv src (emit labelDef l2)" "lx_inv src (emit element l2)" using 2 by (auto intro!: inv_emit)
  then show ?thesis
    using accept_inv [of src "emit labelDef l2" "'':''"] 1 2 by (simp add: run inv_ignore)
qed (use st in simp)

definition states_left :: "stateFn option \<Rightarrow> lexer \<Rightarrow> nat" where
  "states_left st l = 2 * (length (lx_input l) - lx_pos l) + (if st = Some LexLine then 0 else 1)"

lemma lex_states_total:
  assumes "lx_inv src l" "st = Some LexInsideString \<Longrightarrow> lx_start l < lx_pos l"
  shows "\<exists>l'. lex_states u st l = Some l' \<and> lx_inv src l'"
  using assms
proof (induction "states_left st l" arbitrary: st l rule: less_induct)
  case less
  show ?case
  proof (cases st)
    case None
    with less.prems show ?thesis by (subst lex_states.simps) simp
  next
    case (Some f)
    define st' where "st' = fst (run_state u f l)"
    define l' where "l' = snd (run_state u f l)"
    have run: "lex_states u st l = lex_states u st' l'"
      using Some by (subst lex_states.simps) (simp add: st'_def l'_def)
    have inp: "lx_input l = src" using less.prems by (simp add: lx_inv_def)
    show ?thesis
    proof (cases "f = LexLine")
      case True
      then have line: "st' = fst (lexLine u l)" "l' = snd (lexLine u l)"
        by (simp_all add: st'_def l'_def run_state_def)
      note inv = lexLine_inv [OF less.prems(1), of u, folded line]
      show ?thesis
      proof (cases st')
        case None
        with inv show ?thesis unfolding run by (subst lex_states.simps) simp
      next
        case (Some f')
        with inv have "states_left st' l' < states_left st l"
          using \<open>st = Some f\<close> True inp by (auto simp: states_left_def lx_inv_def)
        from less.hyps [OF this] inv show ?thesis unfolding run by auto
      qed
    next
      case False
      note inv = other_states_inv [OF less.prems(1) False, of u, folded st'_def l'_def]
      have "lx_start l < lx_pos l" if "f = LexInsideString" using less.prems(2) that Some by simp
      with inv have inv': "lx_inv src l'" "st' = Some LexLine" "lx_pos l \<le> lx_pos l'" by auto
      then have "states_left st' l' < states_left st l"
        using Some False inp by (auto simp: states_left_def lx_inv_def)
      from less.hyps [OF this inv'(1)] inv'(2) show ?thesis unfolding run by auto
    qed
  qed
qed

text \<open>
  C19: lexing any source ends, whatever the Unicode tables say. The tokens begin with a line
  start and end with the only end-of-file token; their texts are pieces of the source in its
  order and without overlap; a string token is long enough to hold its two quotes.
\<close>
theorem lexing_terminates:
  "\<exists>ts n. Lex u source = Some ts \<and> laid_out source ts n \<and> tok_typ (hd ts) = lineStart \<and>
     tok_typ (last ts) = eof \<and> (\<forall>t \<in> set (butlast ts). tok_typ t \<noteq> eof) \<and>
     (\<forall>t \<in> set ts. tok_typ t = stringValue \<longrightarrow> 2 \<le> length (tok_text t))"
proof -
  define l0 where "l0 = \<lparr>lx_input = source, lx_tokens = [], lx_lineno = 0, lx_start = 0, lx_pos = 0, lx_width = 0\<rparr>"
  have "laid_out source ([] @ [\<lparr>tok_typ = lineStart, tok_lineno = 0, tok_text = []\<rparr>]) 0"
    by (rule laid_snoc [OF laid_Nil, of 0 0]) simp_all
  then have "lx_inv source (emit lineStart l0)"
    by (auto simp: l0_def lx_inv_def blob_def)
  from lex_states_total [OF this, of "Some LexLine" u]
  obtain l where l: "lex_states u (Some LexLine) (emit lineStart l0) = Some l" "lx_inv source l" by auto
  then obtain n where "n \<le> lx_start l" "laid_out source (lx_tokens l) n" by (auto simp: lx_inv_def)
  then have "laid_out source (lx_tokens (emit eof l)) (lx_pos l)"
    using l(2) by (auto simp: lx_inv_def blob_def intro: laid_snoc)
  moreover have "Lex u source = Some (lx_tokens (emit eof l))"
    using l(1) by (simp add: Lex_def flip: l0_def)
  ultimately show ?thesis
    using l(2) by (auto simp: lx_inv_def)
qed

theorem lexing_terminates_witness:
  "\<exists>ts n. Lex \<lparr>tabLetter = \<lambda>_. True, tabSpace = \<lambda>_. False, tabNumber = \<lambda>_. False\<rparr> (str ''PUSH 0x1'') = Some ts \<and>
     laid_out (str ''PUSH 0x1'') ts n \<and> tok_typ (last ts) = eof"
  using lexing_terminates [of "\<lparr>tabLetter = \<lambda>_. True, tabSpace = \<lambda>_. False, tabNumber = \<lambda>_. False\<rparr>" "str ''PUSH 0x1''"]
  by blast

section \<open>What the lexer does with comments and stray characters\<close>

definition tok :: "tokenType \<Rightarrow> nat \<Rightarrow> string \<Rightarrow> token" where
  "tok t n s = \<lparr>tok_typ = t, tok_lineno = n, tok_text = str s\<rparr>"

lemmas lex_eval = Lex_def lexLine.simps acceptRun.simps acceptRunUntil.simps lex_states.simps
  run_state_def lexElement_def lexComment_def accept_def peek_def backup_def
  ignore_def emit_def blob_def lx_next_def isSpace_def isLetter_def isNumber_def ContainsRune_def
  Alpha_def Numbers_def HexadecimalNumbers_def str_def tok_def

text \<open>
  A comment takes the end of its line with it: the next line is lexed as part of this one, with
  no line end between them and the line number not counted.
\<close>

lemma comment_swallows_newline:
  "Lex u (str ''A;;'' @ [10] @ str ''B'') =
     Some [tok lineStart 0 [], tok element 0 ''A'', tok element 0 ''B'', tok eof 0 []]"
  by (simp add: lex_eval)

text \<open>
  A character no state expects ends the run without an error token, and what follows it is
  dropped.
\<close>

lemma stray_character_ends:
  "Lex u (str ''A+B'') = Some [tok lineStart 0 [], tok element 0 ''A'', tok eof 0 ''+'']"
  by (simp add: lex_eval)

text \<open>A decimal number may end in hexadecimal digits.\<close>

lemma number_with_letters:
  "Lex u (str ''10f'') = Some [tok lineStart 0 [], tok number 0 ''10f'', tok eof 0 []]"
proof -
  define l where "l = \<lparr>lx_input = str ''10f'', lx_tokens = [tok lineStart 0 []], lx_lineno = 0,
    lx_start = 0, lx_pos = 1, lx_width = 1\<rparr>"
  have "accept ''0'' l = (True, l\<lparr>lx_pos := 2\<rparr>)"
    by (simp add: l_def accept_def lx_next_def ContainsRune_def str_def)
  then have "lexNumber l = (Some LexLine, emit number (acceptRun HexadecimalNumbers (l\<lparr>lx_pos := 2\<rparr>)))"
    by (simp add: lexNumber_def)
  moreover have "emit number (acceptRun HexadecimalNumbers (l\<lparr>lx_pos := 2\<rparr>)) =
      \<lparr>lx_input = str ''10f'', lx_tokens = [tok lineStart 0 [], tok number 0 ''10f''], lx_lineno = 0,
        lx_start = 3, lx_pos = 3, lx_width = 0\<rparr>"
    by (simp add: l_def lex_eval)
  ultimately show ?thesis
    by (simp add: l_def lex_eval)
qed

end
