(* ===== verification/Evm_Compiler.thy ===== *)
theory Evm_Compiler
  imports Evm_Disasm Evm_Lexer Hex_Util
begin

text \<open>
  The assembler (\<^verbatim>\<open>compiler.go\<close>): \<open>Feed\<close> takes the tokens and records where each label will be,
  \<open>Compile\<close> goes over them line by line and emits the code. The opcodes and the number parser
  \<^verbatim>\<open>math.ParseBig256\<close> are in other packages and parameters (\<open>asm_env\<close>), as is the upper-case
  mapping of strings that are not ASCII. A panic is \<^term>\<open>None\<close>.
\<close>

record asm_env =
  env_vm :: vm_ops
  parseBig256 :: "bytes \<Rightarrow> nat option"
  upperNonASCII :: "bytes \<Rightarrow> bytes"

text \<open>The switch over the dynamic type of an emitted piece knows opcodes and byte slices only.\<close>

datatype piece = POp u8 | PBytes bytes | PString bytes

record compiler =
  c_tokens :: "token list"
  c_binary :: "piece list"
  c_labels :: "bytes \<rightharpoonup> int"
  c_pc :: int
  c_pos :: nat

datatype compile_error = SyntaxError bytes bytes nat | SizeError nat

section \<open>Helpers\<close>

text \<open>\<^verbatim>\<open>big.Int.Bytes\<close>: big-endian, without leading zeros, empty for zero.\<close>

fun bigBytes :: "nat \<Rightarrow> bytes" where
  "bigBytes n = (if n = 0 then [] else bigBytes (n div 256) @ [word_of_nat (n mod 256)])"

declare bigBytes.simps [simp del]

definition MustParseBytes :: "asm_env \<Rightarrow> bytes \<Rightarrow> bytes option" where
  "MustParseBytes env s = (case parseBig256 env s of None \<Rightarrow> None
     | Some v \<Rightarrow> let num = bigBytes v in Some (if length num = 0 then [0] else num))"

definition slice :: "'a list \<Rightarrow> int \<Rightarrow> int \<Rightarrow> 'a list option" where
  "slice s lo hi = (if 0 \<le> lo \<and> lo \<le> hi \<and> hi \<le> int (length s)
     then Some (take (nat hi - nat lo) (drop (nat lo) s)) else None)"

definition ToUpper :: "asm_env \<Rightarrow> bytes \<Rightarrow> bytes" where
  "ToUpper env s = (if \<forall>c \<in> set s. c < 0x80 then map (\<lambda>c. if 97 \<le> c \<and> c \<le> 122 then c - 32 else c) s
     else upperNonASCII env s)"

definition isPush :: "asm_env \<Rightarrow> bytes \<Rightarrow> bool" where
  "isPush env op \<longleftrightarrow> ToUpper env op = str ''PUSH''"

definition isJump :: "asm_env \<Rightarrow> bytes \<Rightarrow> bool" where
  "isJump env op \<longleftrightarrow> ToUpper env op = str ''JUMPI'' \<or> ToUpper env op = str ''JUMP''"

definition toBinary :: "asm_env \<Rightarrow> bytes \<Rightarrow> u8" where
  "toBinary env t = StringToOp (env_vm env) (ToUpper env t)"


definition compileErr :: "token \<Rightarrow> bytes \<Rightarrow> bytes \<Rightarrow> compile_error" where
  "compileErr c got want = SyntaxError got want (tok_lineno c)"

section \<open>Feeding the tokens\<close>






section \<open>Compiling\<close>

definition c_next :: "compiler \<Rightarrow> (token \<times> compiler) option" where
  "c_next c = (if c_pos c < length (c_tokens c)
     then Some (c_tokens c ! c_pos c, c\<lparr>c_pos := c_pos c + 1\<rparr>) else None)"

definition pushBin :: "piece \<Rightarrow> compiler \<Rightarrow> compiler" where
  "pushBin v c = c\<lparr>c_binary := c_binary c @ [v]\<rparr>"

definition compileNumber :: "asm_env \<Rightarrow> token \<Rightarrow> compiler \<Rightarrow> compiler option" where
  "compileNumber env el c = (case MustParseBytes env (tok_text el) of None \<Rightarrow> None
     | Some num \<Rightarrow> Some (pushBin (PBytes num) c))"

text \<open>Four bytes for the position of a label; \<^verbatim>\<open>make\<close> panics on a negative length.\<close>

definition labelBytes :: "compiler \<Rightarrow> bytes \<Rightarrow> bytes option" where
  "labelBytes c t =
     (let pos = bigBytes (nat \<bar>case c_labels c t of None \<Rightarrow> 0 | Some p \<Rightarrow> p\<bar>) in
      if 4 < length pos then None else Some (replicate (4 - length pos) 0 @ pos))"

definition compileJump :: "asm_env \<Rightarrow> token \<Rightarrow> compiler \<Rightarrow> (compile_error option \<times> compiler) option" where
  "compileJump env el c =
     (case c_next c of None \<Rightarrow> None
      | Some (rvalue, c) \<Rightarrow>
          let done = (\<lambda>c. Some (None, pushBin (POp (toBinary env (tok_text el))) c)) in
          case tok_typ rvalue of
            number \<Rightarrow> (case compileNumber env rvalue c of None \<Rightarrow> None | Some c \<Rightarrow> done c)
          | stringValue \<Rightarrow>
              (case slice (tok_text rvalue) 1 (int (length (tok_text rvalue)) - 2) of None \<Rightarrow> None
               | Some s \<Rightarrow> done (pushBin (PString s) c))
          | label \<Rightarrow>
              (let c = pushBin (POp (PUSH4 (env_vm env))) c in
               case labelBytes c (tok_text rvalue) of None \<Rightarrow> None | Some pos \<Rightarrow> done (pushBin (PBytes pos) c))
          | lineEnd \<Rightarrow> done (c\<lparr>c_pos := c_pos c - 1\<rparr>)
          | _ \<Rightarrow> Some (Some (compileErr rvalue (tok_text rvalue) (str ''number, string or label'')), c))"

text \<open>The operand of \<open>PUSH\<close>: \<^term>\<open>Inl\<close> is the early return with an error.\<close>

definition pushValue :: "asm_env \<Rightarrow> token \<Rightarrow> compiler \<Rightarrow> (compile_error + bytes) option" where
  "pushValue env rvalue c =
     (case tok_typ rvalue of
        number \<Rightarrow> map_option Inr (MustParseBytes env (tok_text rvalue))
      | stringValue \<Rightarrow> map_option Inr (slice (tok_text rvalue) 1 (int (length (tok_text rvalue)) - 1))
      | label \<Rightarrow> map_option Inr (labelBytes c (tok_text rvalue))
      | _ \<Rightarrow> Some (Inl (compileErr rvalue (tok_text rvalue) (str ''number, string or label''))))"

definition compilePush :: "asm_env \<Rightarrow> compiler \<Rightarrow> (compile_error option \<times> compiler) option" where
  "compilePush env c =
     (case c_next c of None \<Rightarrow> None
      | Some (rvalue, c) \<Rightarrow>
          case pushValue env rvalue c of None \<Rightarrow> None
          | Some (Inl e) \<Rightarrow> Some (Some e, c)
          | Some (Inr v) \<Rightarrow>
              if 32 < length v then Some (Some (SizeError (tok_lineno rvalue)), c)
              else Some (None, pushBin (PBytes v)
                (pushBin (POp (word_of_int (uint (PUSH1 (env_vm env)) - 1 + int (length v)))) c)))"

definition compileElement :: "asm_env \<Rightarrow> token \<Rightarrow> compiler \<Rightarrow> (compile_error option \<times> compiler) option" where
  "compileElement env el c =
     (if isJump env (tok_text el) then compileJump env el c
      else if isPush env (tok_text el) then compilePush env c
      else Some (None, pushBin (POp (toBinary env (tok_text el))) c))"





lemma pushBin_fields [simp]:
  "c_tokens (pushBin v c) = c_tokens c" "c_labels (pushBin v c) = c_labels c"
  "c_pos (pushBin v c) = c_pos c" "c_binary (pushBin v c) = c_binary c @ [v]"
  by (simp_all add: pushBin_def)

text \<open>No step moves backwards or changes the tokens or the labels.\<close>

definition moves :: "compiler \<Rightarrow> compiler \<Rightarrow> bool" where
  "moves c c' \<longleftrightarrow> c_tokens c' = c_tokens c \<and> c_labels c' = c_labels c \<and> c_pos c \<le> c_pos c' \<and>
     (c_pos c \<le> length (c_tokens c) \<longrightarrow> c_pos c' \<le> length (c_tokens c))"




lemma moves_next: "c_pos c < length (c_tokens c) \<Longrightarrow> moves c (c\<lparr>c_pos := Suc (c_pos c)\<rparr>)"
  by (simp add: moves_def)






fun piece_bytes :: "piece \<Rightarrow> bytes" where
  "piece_bytes (POp v) = [v]"
| "piece_bytes (PBytes v) = v"
| "piece_bytes (PString v) = []"


section \<open>Positions\<close>

definition code_of :: "piece list \<Rightarrow> bytes" where
  "code_of ps = concat (map piece_bytes ps)"











lemma code_of_simps [simp]:
  "code_of [] = []" "code_of (p # ps) = piece_bytes p @ code_of ps" "code_of (ps @ qs) = code_of ps @ code_of qs"
  by (simp_all add: code_of_def)



















section \<open>What the assembler does with odd programs\<close>

text \<open>An undefined label compiles to position zero, without an error.\<close>

lemma undefined_label: "c_labels c l = None \<Longrightarrow> labelBytes c l = Some [0, 0, 0, 0]"
  by (simp add: labelBytes_def bigBytes.simps [of 0] numeral_eq_Suc)

text \<open>A jump to a number puts the bare number before the jump, with no push.\<close>

lemma jump_number_not_pushed:
  assumes "c_pos c < length (c_tokens c)" "tok_typ (c_tokens c ! c_pos c) = number"
    "MustParseBytes env (tok_text (c_tokens c ! c_pos c)) = Some num" "isJump env (tok_text el)"
  shows "\<exists>d. compileElement env el c = Some (None, d) \<and>
    c_binary d = c_binary c @ [PBytes num, POp (toBinary env (tok_text el))]"
  using assms by (simp add: compileElement_def compileJump_def c_next_def compileNumber_def)

text \<open>
  A jump with a string drops its operand from the code, although \<open>Feed\<close> has counted it, and
  with the empty string it panics.
\<close>

lemma jump_string_dropped:
  assumes "c_pos c < length (c_tokens c)" "tok_typ (c_tokens c ! c_pos c) = stringValue"
    "isJump env (tok_text el)"
  shows "case compileElement env el c of None \<Rightarrow> length (tok_text (c_tokens c ! c_pos c)) < 3
    | Some (e, d) \<Rightarrow> e = None \<and> code_of (c_binary d) = code_of (c_binary c) @ [toBinary env (tok_text el)]"
  using assms by (auto simp: compileElement_def compileJump_def c_next_def slice_def split: option.splits)

end
