(* ===== verification/Fork_ID.thy ===== *)
theory Fork_ID
  imports Chain_Prelude "HOL-Library.Sublist" "HOL-Library.Multiset"
begin

text \<open>
  Fork identifiers (\<^verbatim>\<open>forkid.go\<close>): the identifier a node announces for its chain, and the
  filter it validates the identifiers of others with. The chain configuration is a type of
  another package, which the code goes over by reflection: it is the list of the fields of the
  struct, in order. The CRC-32 of the standard library is modelled bit by bit.
\<close>

unbundle bit_operations_syntax

section \<open>The checksum\<close>

definition crc_bit :: "u32 \<Rightarrow> u32" where
  "crc_bit c = (if bit c 0 then drop_bit 1 c XOR 0xedb88320 else drop_bit 1 c)"

definition crc_byte :: "u32 \<Rightarrow> u8 \<Rightarrow> u32" where
  "crc_byte c b = (crc_bit ^^ 8) (c XOR ucast b)"

definition crc32_Update :: "u32 \<Rightarrow> bytes \<Rightarrow> u32" where
  "crc32_Update crc p = NOT (foldl crc_byte (NOT crc) p)"

definition ChecksumIEEE :: "bytes \<Rightarrow> u32" where
  "ChecksumIEEE p = crc32_Update 0 p"

definition checksumUpdate :: "u32 \<Rightarrow> u64 \<Rightarrow> u32" where
  "checksumUpdate h fork = crc32_Update h (be64 fork)"

definition checksumToBytes :: "u32 \<Rightarrow> bytes" where
  "checksumToBytes h = be32 h"

section \<open>The forks of a configuration\<close>

record config_field =
  fld_name :: string
  fld_is_big :: bool
  fld_value :: "int option"

type_synonym chain_config = "config_field list"

definition is_fork_field :: "config_field \<Rightarrow> bool" where
  "is_fork_field f \<longleftrightarrow> suffix ''Block'' (fld_name f) \<and> fld_is_big f"

fun gather_rules :: "chain_config \<Rightarrow> u64 list" where
  "gather_rules [] = []"
| "gather_rules (f # fs) =
     (if \<not> is_fork_field f then gather_rules fs
      else case fld_value f of None \<Rightarrow> gather_rules fs
        | Some rule \<Rightarrow> word_of_int rule # gather_rules fs)"

text \<open>
  The exchange sort. The inner loop carries \<^verbatim>\<open>forks[i]\<close> past the positions \<open>j > i\<close>, leaving the
  larger of the two behind at each.
\<close>

fun exchange :: "u64 \<Rightarrow> u64 list \<Rightarrow> u64 \<times> u64 list" where
  "exchange x [] = (x, [])"
| "exchange x (y # ys) =
     (if x > y then apsnd ((#) x) (exchange y ys) else apsnd ((#) y) (exchange x ys))"

lemma length_exchange [simp]: "length (snd (exchange x ys)) = length ys"
  by (induction x ys rule: exchange.induct) auto

function exchange_sort :: "u64 list \<Rightarrow> u64 list" where
  "exchange_sort [] = []"
| "exchange_sort (x # xs) = fst (exchange x xs) # exchange_sort (snd (exchange x xs))"
  by pat_completeness auto
termination by (relation "measure length") auto

fun dedup :: "u64 list \<Rightarrow> u64 list" where
  "dedup (x # y # ys) = (if y = x then dedup (x # ys) else x # dedup (y # ys))"
| "dedup xs = xs"

definition gatherForks :: "chain_config \<Rightarrow> u64 list" where
  "gatherForks config =
     (let forks = dedup (exchange_sort (gather_rules config)) in
      if 0 < length forks \<and> forks ! 0 = 0 then tl forks else forks)"

section \<open>Identifiers and filters\<close>

record fork_id =
  id_Hash :: bytes
  id_Next :: u64

fun newID_loop :: "u64 \<Rightarrow> u32 \<Rightarrow> u64 list \<Rightarrow> u32 \<times> u64" where
  "newID_loop head h [] = (h, 0)"
| "newID_loop head h (fork # forks) =
     (if fork \<le> head then newID_loop head (checksumUpdate h fork) forks else (h, fork))"

definition newID :: "chain_config \<Rightarrow> bytes \<Rightarrow> u64 \<Rightarrow> fork_id" where
  "newID config genesis head =
     (let (h, next) = newID_loop head (ChecksumIEEE genesis) (gatherForks config) in
      \<lparr>id_Hash = checksumToBytes h, id_Next = next\<rparr>)"

datatype fork_error = ErrRemoteStale | ErrLocalIncompatibleOrStale

fun fork_sums :: "u32 \<Rightarrow> u64 list \<Rightarrow> bytes list" where
  "fork_sums h [] = [checksumToBytes h]"
| "fork_sums h (fork # forks) = checksumToBytes h # fork_sums (checksumUpdate h fork) forks"

text \<open>The two searches of the filter: below and above the current fork.\<close>

fun find_past :: "bytes list \<Rightarrow> u64 list \<Rightarrow> fork_id \<Rightarrow> nat \<Rightarrow> nat \<Rightarrow> fork_error option option" where
  "find_past sums forks rid j 0 = None"
| "find_past sums forks rid j (Suc k) =
     (if sums ! j = id_Hash rid
      then Some (if forks ! j \<noteq> id_Next rid then Some ErrRemoteStale else None)
      else find_past sums forks rid (Suc j) k)"

fun filter_from :: "bytes list \<Rightarrow> u64 list \<Rightarrow> u64 \<Rightarrow> fork_id \<Rightarrow> nat \<Rightarrow> u64 list \<Rightarrow> fork_error option" where
  "filter_from sums forks head rid i [] = None"
| "filter_from sums forks head rid i (fork # rest) =
     (if head > fork then filter_from sums forks head rid (Suc i) rest
      else if sums ! i = id_Hash rid then
        (if id_Next rid > 0 \<and> head \<ge> id_Next rid then Some ErrLocalIncompatibleOrStale else None)
      else case find_past sums forks rid 0 i of Some r \<Rightarrow> r
        | None \<Rightarrow> if id_Hash rid \<in> set (drop (Suc i) sums) then None
            else Some ErrLocalIncompatibleOrStale)"

definition newFilter :: "chain_config \<Rightarrow> bytes \<Rightarrow> u64 \<Rightarrow> fork_id \<Rightarrow> fork_error option" where
  "newFilter config genesis head rid =
     (let forks = gatherForks config; sums = fork_sums (ChecksumIEEE genesis) forks;
          forks = forks @ [- 1]
      in filter_from sums forks head rid 0 forks)"

definition NewStaticFilter :: "chain_config \<Rightarrow> bytes \<Rightarrow> fork_id \<Rightarrow> fork_error option" where
  "NewStaticFilter config genesis rid = newFilter config genesis 0 rid"

section \<open>The gathered forks\<close>

lemma exchange_min: "fst (exchange x ys) = Min (insert x (set ys)) \<and>
    mset (fst (exchange x ys) # snd (exchange x ys)) = mset (x # ys)"
proof (induction x ys rule: exchange.induct)
  case (2 x y ys)
  have "Min (insert x (insert y A)) = (if x > y then Min (insert y A) else Min (insert x A))"
    if "finite A" for A
    using that by (cases "A = {}") (auto simp: Min_insert min_def)
  from this [of "set ys"] 2 show ?case by auto
qed simp

lemma exchange_sort_sort: "exchange_sort xs = sort xs"
proof (induction xs rule: exchange_sort.induct)
  case (2 x xs)
  note m = exchange_min [of x xs, THEN conjunct2] and min = exchange_min [of x xs, THEN conjunct1]
  have "set (fst (exchange x xs) # snd (exchange x xs)) = set (x # xs)"
    using arg_cong [OF m, of set_mset] by (simp only: set_mset_mset)
  then have sub: "set (snd (exchange x xs)) \<subseteq> insert x (set xs)"
    by (metis list.simps(15) subset_insertI)
  have "fst (exchange x xs) \<le> z" if "z \<in> set (snd (exchange x xs))" for z
    unfolding min using sub that by (intro Min_le) auto
  then have "sorted (fst (exchange x xs) # sort (snd (exchange x xs)))" by simp
  moreover have "mset (fst (exchange x xs) # sort (snd (exchange x xs))) = mset (x # xs)" using m by simp
  ultimately have "sort (x # xs) = fst (exchange x xs) # sort (snd (exchange x xs))"
    by (intro properties_for_sort)
  with 2 show ?case by simp
qed simp

lemma dedup_remdups_adj: "dedup xs = remdups_adj xs"
  by (induction xs rule: dedup.induct) auto

lemma distinct_remdups_adj: "sorted xs \<Longrightarrow> distinct (remdups_adj xs)" for xs :: "u64 list"
  by (induction xs rule: remdups_adj.induct) auto

lemma gatherForks_correct:
  "sorted (gatherForks config)" "distinct (gatherForks config)"
  "set (gatherForks config) = set (gather_rules config) - {0}"
proof -
  define fs where "fs = dedup (exchange_sort (gather_rules config))"
  have fs: "sorted fs" "distinct fs" "set fs = set (gather_rules config)"
    by (simp_all add: fs_def dedup_remdups_adj exchange_sort_sort sorted_remdups_adj distinct_remdups_adj)
  have g: "gatherForks config = (if 0 < length fs \<and> fs ! 0 = 0 then tl fs else fs)"
    by (simp add: gatherForks_def fs_def Let_def)
  have fs_zero: "0 \<in> set (gather_rules config) \<Longrightarrow> fs = a # as \<Longrightarrow> a = 0" for a as
    using fs by (auto simp flip: fs(3))
  have "sorted (gatherForks config) \<and> distinct (gatherForks config) \<and>
    set (gatherForks config) = set (gather_rules config) - {0}"
    using fs unfolding g by (cases fs) (auto simp: fs_zero)
  then show "sorted (gatherForks config)" "distinct (gatherForks config)"
    "set (gatherForks config) = set (gather_rules config) - {0}" by auto
qed

section \<open>A node and its own chain\<close>

lemma length_fork_sums [simp]: "length (fork_sums h forks) = Suc (length forks)"
  by (induction forks arbitrary: h) auto

text \<open>The forks a head has passed, and the identifier it gives.\<close>

definition passed :: "u64 list \<Rightarrow> u64 \<Rightarrow> nat" where
  "passed forks head = length (takeWhile (\<lambda>f. f \<le> head) forks)"

lemma newID_loop_passed: "newID_loop head h forks =
    (foldl checksumUpdate h (take (passed forks head) forks),
     if passed forks head < length forks then forks ! passed forks head else 0)"
  by (induction forks arbitrary: h) (auto simp: passed_def)

lemma fork_sums_nth: "k \<le> length forks \<Longrightarrow>
    fork_sums h forks ! k = checksumToBytes (foldl checksumUpdate h (take k forks))"
  by (induction forks arbitrary: h k) (auto simp: nth_Cons split: nat.splits)

lemma passed_le: "passed forks head \<le> length forks"
  by (simp add: passed_def length_takeWhile_le)

lemma newID_exact: "newID config genesis head =
    (let forks = gatherForks config; k = passed forks head in
     \<lparr>id_Hash = fork_sums (ChecksumIEEE genesis) forks ! k, id_Next = (if k < length forks then forks ! k else 0)\<rparr>)"
  by (simp add: newID_def newID_loop_passed Let_def fork_sums_nth passed_le)

text \<open>The fork the filter decides at: the first one not below the head.\<close>

lemma filter_from_current:
  assumes "i \<le> c" "c < length forks" "\<And>j. i \<le> j \<Longrightarrow> j < c \<Longrightarrow> forks ! j < head" "head \<le> forks ! c"
  shows "filter_from sums fs head rid i (drop i forks) =
    (if sums ! c = id_Hash rid then
        (if id_Next rid > 0 \<and> head \<ge> id_Next rid then Some ErrLocalIncompatibleOrStale else None)
      else case find_past sums fs rid 0 c of Some r \<Rightarrow> r
        | None \<Rightarrow> if id_Hash rid \<in> set (drop (Suc c) sums) then None
            else Some ErrLocalIncompatibleOrStale)"
  using assms
proof (induction "c - i" arbitrary: i)
  case 0
  then have "i = c" by simp
  moreover have "drop c forks = forks ! c # drop (Suc c) forks" using 0 by (simp add: Cons_nth_drop_Suc)
  ultimately show ?case using 0 by (simp add: not_less [symmetric])
next
  case (Suc d)
  have "drop i forks = forks ! i # drop (Suc i) forks" using Suc.prems Suc.hyps(2) by (simp add: Cons_nth_drop_Suc)
  moreover have "forks ! i < head" using Suc.prems(3) [of i] Suc.hyps(2) by simp
  ultimately show ?case using Suc.hyps(1) [of "Suc i"] Suc.prems Suc.hyps(2) by simp
qed

lemma find_past_first:
  assumes "j \<le> p" "p < j + k" "\<And>m. j \<le> m \<Longrightarrow> m < p \<Longrightarrow> sums ! m \<noteq> id_Hash rid" "sums ! p = id_Hash rid"
  shows "find_past sums fs rid j k = Some (if fs ! p \<noteq> id_Next rid then Some ErrRemoteStale else None)"
  using assms
proof (induction k arbitrary: j)
  case (Suc k)
  then show ?case by (cases "j = p") auto
qed simp

lemma find_past_none:
  "(\<And>m. j \<le> m \<Longrightarrow> m < j + k \<Longrightarrow> sums ! m \<noteq> id_Hash rid) \<Longrightarrow> find_past sums fs rid j k = None"
  by (induction k arbitrary: j) auto

lemma newFilter_current:
  fixes config genesis head
  defines "forks \<equiv> gatherForks config"
  defines "sums \<equiv> fork_sums (ChecksumIEEE genesis) forks"
  obtains c where "c \<le> length forks" "\<And>j. j < c \<Longrightarrow> forks ! j < head"
    "c < length forks \<Longrightarrow> head \<le> forks ! c"
    "newFilter config genesis head rid =
      (if sums ! c = id_Hash rid then
        (if id_Next rid > 0 \<and> head \<ge> id_Next rid then Some ErrLocalIncompatibleOrStale else None)
      else case find_past sums (forks @ [- 1]) rid 0 c of Some r \<Rightarrow> r
        | None \<Rightarrow> if id_Hash rid \<in> set (drop (Suc c) sums) then None
            else Some ErrLocalIncompatibleOrStale)"
proof -
  define c where "c = length (takeWhile (\<lambda>f. f < head) forks)"
  have c: "c \<le> length forks" by (simp add: c_def length_takeWhile_le)
  have below: "forks ! j < head" if "j < c" for j
    using that nth_mem [of j "takeWhile (\<lambda>f. f < head) forks"]
    by (auto simp: c_def takeWhile_nth dest: set_takeWhileD)
  have above: "head \<le> forks ! c" if "c < length forks"
    using nth_length_takeWhile [of "\<lambda>f. f < head" forks] that by (simp add: c_def)
  have "newFilter config genesis head rid = filter_from sums (forks @ [- 1]) head rid 0 (drop 0 (forks @ [- 1]))"
    by (simp add: newFilter_def Let_def forks_def sums_def)
  also have "\<dots> = (if sums ! c = id_Hash rid then
        (if id_Next rid > 0 \<and> head \<ge> id_Next rid then Some ErrLocalIncompatibleOrStale else None)
      else case find_past sums (forks @ [- 1]) rid 0 c of Some r \<Rightarrow> r
        | None \<Rightarrow> if id_Hash rid \<in> set (drop (Suc c) sums) then None
            else Some ErrLocalIncompatibleOrStale)"
    using c below above
    by (intro filter_from_current) (auto simp: nth_append)
  finally show ?thesis using that c below above by blast
qed

text \<open>
  C21: what a node makes of identifiers. Provided the checksums of its own chain's forks do not
  collide, it accepts the identifier of another node of the same chain, whatever the heads of
  the two, with one exception: a remote that has not passed the very fork block the local head
  is at is rejected. An identifier whose checksum is none of the chain's is always rejected.
\<close>
theorem fork_filter:
  assumes "distinct (fork_sums (ChecksumIEEE genesis) (gatherForks config))"
  shows "(newFilter config genesis head (newID config genesis head') = None \<longleftrightarrow>
      id_Next (newID config genesis head') = 0 \<or> id_Next (newID config genesis head') \<noteq> head) \<and>
    (id_Hash rid \<notin> set (fork_sums (ChecksumIEEE genesis) (gatherForks config)) \<longrightarrow>
      newFilter config genesis head rid = Some ErrLocalIncompatibleOrStale)"
proof
  define forks where "forks = gatherForks config"
  define sums where "sums = fork_sums (ChecksumIEEE genesis) forks"
  have fs: "sorted forks" "distinct forks" "0 \<notin> set forks" and len: "length sums = Suc (length forks)"
    and dist: "distinct sums"
    using gatherForks_correct [of config] assms by (auto simp: forks_def sums_def)
  have less: "forks ! i < forks ! j" if "i < j" "j < length forks" for i j
    using fs that sorted_wrt_nth_less [of "(<)" forks i j] by (simp add: strict_sorted_iff)
  show "id_Hash rid \<notin> set (fork_sums (ChecksumIEEE genesis) (gatherForks config)) \<longrightarrow>
      newFilter config genesis head rid = Some ErrLocalIncompatibleOrStale"
  proof
    assume un: "id_Hash rid \<notin> set (fork_sums (ChecksumIEEE genesis) (gatherForks config))"
    then have un': "id_Hash rid \<notin> set sums" by (simp add: sums_def forks_def)
    obtain c where "c \<le> length forks" "\<And>j. j < c \<Longrightarrow> forks ! j < head"
      "c < length forks \<Longrightarrow> head \<le> forks ! c" "newFilter config genesis head rid =
      (if sums ! c = id_Hash rid then
        (if id_Next rid > 0 \<and> head \<ge> id_Next rid then Some ErrLocalIncompatibleOrStale else None)
      else case find_past sums (forks @ [- 1]) rid 0 c of Some r \<Rightarrow> r
        | None \<Rightarrow> if id_Hash rid \<in> set (drop (Suc c) sums) then None
            else Some ErrLocalIncompatibleOrStale)"
      by (rule newFilter_current [of config head genesis rid, folded forks_def, folded sums_def]) (rule that)
    moreover have "sums ! m \<noteq> id_Hash rid" if "m \<le> length forks" for m
      using un' that len by (metis less_Suc_eq_le nth_mem)
    moreover have "id_Hash rid \<notin> set (drop (Suc c) sums)"
      using un' set_drop_subset [of "Suc c" sums] by blast
    ultimately show "newFilter config genesis head rid = Some ErrLocalIncompatibleOrStale"
      by (simp add: find_past_none)
  qed
  define k where "k = passed forks head'"
  define rid' where "rid' = newID config genesis head'"
  have rid': "id_Hash rid' = sums ! k" "id_Next rid' = (if k < length forks then forks ! k else 0)"
    by (simp_all add: rid'_def newID_exact Let_def k_def sums_def forks_def)
  have k: "k \<le> length forks" by (simp add: k_def passed_le)
  obtain c where c: "c \<le> length forks" "\<And>j. j < c \<Longrightarrow> forks ! j < head"
    "c < length forks \<Longrightarrow> head \<le> forks ! c"
    "newFilter config genesis head rid' =
      (if sums ! c = id_Hash rid' then
        (if id_Next rid' > 0 \<and> head \<ge> id_Next rid' then Some ErrLocalIncompatibleOrStale else None)
      else case find_past sums (forks @ [- 1]) rid' 0 c of Some r \<Rightarrow> r
        | None \<Rightarrow> if id_Hash rid' \<in> set (drop (Suc c) sums) then None
            else Some ErrLocalIncompatibleOrStale)"
    by (rule newFilter_current [of config head genesis rid', folded forks_def, folded sums_def]) (rule that)
  have uniq: "sums ! i = sums ! k \<longleftrightarrow> i = k" if "i \<le> length forks" for i
    using dist len k that by (simp add: nth_eq_iff_index_eq)
  have "newFilter config genesis head rid' = None \<longleftrightarrow> id_Next rid' = 0 \<or> id_Next rid' \<noteq> head"
  proof (cases rule: linorder_cases [of k c])
    case less
    then have "find_past sums (forks @ [- 1]) rid' 0 c = Some None"
      using uniq c(1) rid' by (subst find_past_first [of 0 k]) (auto simp: nth_append)
    with less c uniq rid' show ?thesis by (auto simp: word_neq_0_conv)
  next
    case equal
    have "forks ! k \<noteq> 0" if "k < length forks" using fs(3) nth_mem [OF that] by auto
    with equal c rid' show ?thesis by (auto simp: word_neq_0_conv)
  next
    case greater
    then have "find_past sums (forks @ [- 1]) rid' 0 c = None"
      using uniq k rid' by (intro find_past_none) auto
    moreover have "sums ! k \<in> set (drop (Suc c) sums)"
      using greater k len by (auto simp: in_set_conv_nth intro!: exI [of _ "k - Suc c"])
    moreover have "head < forks ! k" if "k < length forks"
      using c(3) greater less [OF greater that] that by (meson order.strict_trans1 order.strict_trans)
    ultimately show ?thesis using c(1,4) greater uniq rid' by auto
  qed
  then show "newFilter config genesis head (newID config genesis head') = None \<longleftrightarrow>
      id_Next (newID config genesis head') = 0 \<or> id_Next (newID config genesis head') \<noteq> head"
    by (simp add: rid'_def)
qed

definition demo_config :: chain_config where
  "demo_config = [\<lparr>fld_name = ''ChainID'', fld_is_big = True, fld_value = Some 1\<rparr>,
     \<lparr>fld_name = ''HomesteadBlock'', fld_is_big = True, fld_value = Some 0\<rparr>,
     \<lparr>fld_name = ''LondonBlock'', fld_is_big = True, fld_value = Some 5\<rparr>]"

lemma demo_forks: "gatherForks demo_config = [5]"
  by (simp add: gatherForks_def demo_config_def is_fork_field_def suffix_def Let_def)

lemma funpow_8: "(f ^^ 8) x = f (f (f (f (f (f (f (f x)))))))"
  by (simp add: eval_nat_numeral)

lemma be64_5: "be64 5 = [0, 0, 0, 0, 0, 0, 0, 5]"
  by (simp add: be64_def wire_simps)

lemma not_0_u32: "NOT (0 :: u32) = 0xffffffff"
  by simp

lemma demo_crc:
  "crc_byte 0xffffffff 0 = 0x2dfd1072" "crc_byte 0x2dfd1072 0 = 0xbe26ed00"
  "crc_byte 0xbe26ed00 0 = 0x00be26ed" "crc_byte 0x00be26ed 0 = 0xdebb20e3"
  "crc_byte 0xdebb20e3 0 = 0x39dd08e2" "crc_byte 0x39dd08e2 0 = 0x4e3d5e5c"
  "crc_byte 0x4e3d5e5c 0 = 0x62932081" "crc_byte 0x62932081 5 = 0xeab7d419"
  by (simp_all add: crc_byte_def funpow_8 crc_bit_def)

lemma demo_sum: "checksumUpdate 0 5 = 0x15482be6"
  unfolding checksumUpdate_def crc32_Update_def be64_5 not_0_u32 by (simp add: demo_crc)

theorem fork_filter_witness:
  "newFilter demo_config [] 6 (newID demo_config [] 4) = None \<and>
   newFilter demo_config [] 5 (newID demo_config [] 4) \<noteq> None"
proof -
  have "checksumToBytes 0 \<noteq> checksumToBytes 0x15482be6"
    by (simp add: checksumToBytes_def be32_def wire_simps)
  moreover have "ChecksumIEEE [] = 0" by (simp add: ChecksumIEEE_def crc32_Update_def)
  ultimately have "distinct (fork_sums (ChecksumIEEE []) (gatherForks demo_config))"
    by (simp add: demo_forks demo_sum)
  from fork_filter [OF this, of 6 4] fork_filter [OF this, of 5 4] show ?thesis
    by (simp add: newID_def demo_forks)
qed

end
