(* ===== verification/Freezer_Table.thy ===== *)
theory Freezer_Table
  imports Chain_Prelude
begin

text \<open>
  One table of the ancient store (\<^verbatim>\<open>freezer_table.go\<close>): an append-only list of blobs kept in
  numbered data files of bounded size, with an index file of six bytes per item. The model
  holds the contents of the files (\<open>fz_index\<close>, \<open>fz_data\<close>) next to the fields of the struct.
  Every writer of the code has sought to the end of its file, so a write appends. Operating
  system calls succeed, except where the state of the files makes them fail (reading past the
  end, opening a missing file for reading, truncating to a negative size, writing through a
  read-only handle); the compression library is the parameter \<open>snappy\<close>. Metrics and locks are
  left out: an operation is one atomic step.
\<close>

section \<open>Index entries\<close>

record indexEntry =
  ie_filenum :: u32
  ie_offset :: u32

definition indexEntrySize :: nat where
  "indexEntrySize = 6"

definition unmarshalBinary :: "bytes \<Rightarrow> indexEntry" where
  "unmarshalBinary b = \<lparr>ie_filenum = ucast (un_be16 (take 2 b)), ie_offset = un_be32 (take 4 (drop 2 b))\<rparr>"

definition marshallBinary :: "indexEntry \<Rightarrow> bytes" where
  "marshallBinary i = be16 (ucast (ie_filenum i)) @ be32 (ie_offset i)"

section \<open>Files\<close>

datatype fmode = ReadOnly | ReadWrite

datatype fz_error = errClosed | errOutOfBounds | errUnexpectedItem u64 u64 | errMissingFile u32
  | errEOF | errInvalidSize | errNotExist | errBadHandle | errSnappy

record freezerTable =
  fz_items :: u64
  fz_noCompression :: bool
  fz_maxFileSize :: u32
  fz_head :: "u32 option"
  fz_files :: "u32 \<rightharpoonup> fmode"
  fz_headId :: u32
  fz_tailId :: u32
  fz_indexOpen :: bool
  fz_itemOffset :: u32
  fz_headBytes :: u32
  fz_index :: bytes
  fz_data :: "u32 \<rightharpoonup> bytes"

record snappy =
  snappyEncode :: "bytes \<Rightarrow> bytes"
  snappyDecode :: "bytes \<Rightarrow> fz_error + bytes"

text \<open>\<^verbatim>\<open>File.Truncate\<close> cuts a file or extends it with zeros.\<close>

definition truncated :: "int \<Rightarrow> bytes \<Rightarrow> bytes" where
  "truncated n f = take (nat n) f @ replicate (nat n - length f) 0"

definition readAt :: "bytes \<Rightarrow> nat \<Rightarrow> int \<Rightarrow> fz_error + bytes" where
  "readAt f n off = (if off < 0 \<or> int (length f) < off + int n then Inl errEOF
     else Inr (take n (drop (nat off) f)))"

definition file_size :: "freezerTable \<Rightarrow> u32 \<Rightarrow> int" where
  "file_size t n = (case fz_data t n of None \<Rightarrow> 0 | Some f \<Rightarrow> int (length f))"

datatype opener = ForAppend | ForReadOnly | Truncated

definition openFile :: "u32 \<Rightarrow> opener \<Rightarrow> freezerTable \<Rightarrow> fz_error + freezerTable" where
  "openFile n op t =
     (if fz_files t n \<noteq> None then Inr t
      else case op of
        ForAppend \<Rightarrow> Inr (t\<lparr>fz_data := (if fz_data t n = None then (fz_data t)(n \<mapsto> []) else fz_data t),
          fz_files := (fz_files t)(n \<mapsto> ReadWrite)\<rparr>)
      | ForReadOnly \<Rightarrow> if fz_data t n = None then Inl errNotExist
          else Inr (t\<lparr>fz_files := (fz_files t)(n \<mapsto> ReadOnly)\<rparr>)
      | Truncated \<Rightarrow> Inr (t\<lparr>fz_data := (fz_data t)(n \<mapsto> []), fz_files := (fz_files t)(n \<mapsto> ReadWrite)\<rparr>))"

definition releaseFile :: "u32 \<Rightarrow> freezerTable \<Rightarrow> freezerTable" where
  "releaseFile n t = t\<lparr>fz_files := (fz_files t)(n := None)\<rparr>"

definition releaseFilesAfter :: "u32 \<Rightarrow> bool \<Rightarrow> freezerTable \<Rightarrow> freezerTable" where
  "releaseFilesAfter n remove t =
     t\<lparr>fz_files := fz_files t |` {m. m \<le> n},
       fz_data := (if remove then fz_data t |` {m. m \<le> n \<or> fz_files t m = None} else fz_data t)\<rparr>"

definition write_file :: "u32 \<Rightarrow> bytes \<Rightarrow> freezerTable \<Rightarrow> fz_error + freezerTable" where
  "write_file n blob t =
     (if fz_files t n \<noteq> Some ReadWrite then Inl errBadHandle
      else case fz_data t n of None \<Rightarrow> Inl errBadHandle
        | Some f \<Rightarrow> Inr (t\<lparr>fz_data := (fz_data t)(n \<mapsto> f @ blob)\<rparr>))"

definition truncate_file :: "u32 \<Rightarrow> int \<Rightarrow> freezerTable \<Rightarrow> fz_error + freezerTable" where
  "truncate_file n sz t =
     (if sz < 0 then Inl errInvalidSize
      else if fz_files t n \<noteq> Some ReadWrite then Inl errBadHandle
      else case fz_data t n of None \<Rightarrow> Inl errBadHandle
        | Some f \<Rightarrow> Inr (t\<lparr>fz_data := (fz_data t)(n \<mapsto> truncated sz f)\<rparr>))"

definition truncate_index :: "int \<Rightarrow> freezerTable \<Rightarrow> fz_error + freezerTable" where
  "truncate_index sz t = (if sz < 0 then Inl errInvalidSize else Inr (t\<lparr>fz_index := truncated sz (fz_index t)\<rparr>))"

section \<open>Opening\<close>

fun open_range :: "nat \<Rightarrow> u32 \<Rightarrow> freezerTable \<Rightarrow> fz_error + freezerTable" where
  "open_range 0 i t = Inr t"
| "open_range (Suc k) i t = ebind (openFile i ForReadOnly t) (open_range k (i + 1))"

definition preopen :: "freezerTable \<Rightarrow> fz_error + freezerTable" where
  "preopen t =
     (let t = releaseFilesAfter 0 False t in
      ebind (open_range (if fz_tailId t < fz_headId t then unat (fz_headId t - fz_tailId t) else 0) (fz_tailId t) t)
        (\<lambda>t. ebind (openFile (fz_headId t) ForAppend t) (\<lambda>t. Inr (t\<lparr>fz_head := Some (fz_headId t)\<rparr>))))"

text \<open>
  The loop of \<open>repair\<close>: the last index entry and the head file are cut back until the entry
  says how long the file is. A failed read leaves the buffer, and so the entry, as it was.
\<close>

definition last_entry :: "freezerTable \<Rightarrow> int \<Rightarrow> indexEntry \<Rightarrow> indexEntry" where
  "last_entry t offsetsSize old =
     (case readAt (fz_index t) indexEntrySize (offsetsSize - int indexEntrySize) of
        Inl e \<Rightarrow> old | Inr b \<Rightarrow> unmarshalBinary b)"

function repair_loop ::
  "freezerTable \<Rightarrow> int \<Rightarrow> indexEntry \<Rightarrow> int \<Rightarrow> int \<Rightarrow> fz_error + freezerTable \<times> int \<times> indexEntry \<times> int"
where
  "repair_loop t offsetsSize lastIndex contentSize contentExp =
     (if contentExp = contentSize then Inr (t, offsetsSize, lastIndex, contentSize)
      else if contentExp < contentSize then
        ebind (truncate_file (the (fz_head t)) contentExp t) (\<lambda>t. Inr (t, offsetsSize, lastIndex, contentExp))
      else if offsetsSize - int indexEntrySize < 0 then Inl errInvalidSize
      else
        let t = t\<lparr>fz_index := truncated (offsetsSize - int indexEntrySize) (fz_index t)\<rparr>;
            offsetsSize = offsetsSize - int indexEntrySize;
            newLastIndex = last_entry t offsetsSize lastIndex in
        if ie_filenum newLastIndex \<noteq> ie_filenum lastIndex then
          case openFile (ie_filenum newLastIndex) ForAppend (releaseFile (ie_filenum lastIndex) t) of
            Inl e \<Rightarrow> Inl e
          | Inr t \<Rightarrow>
              let t = t\<lparr>fz_head := Some (ie_filenum newLastIndex)\<rparr> in
              repair_loop t offsetsSize newLastIndex (file_size t (ie_filenum newLastIndex)) (uint (ie_offset newLastIndex))
        else repair_loop t offsetsSize newLastIndex contentSize (uint (ie_offset newLastIndex)))"
  by pat_completeness auto
termination
  by (relation "measure (\<lambda>(t, offsetsSize, lastIndex, contentSize, contentExp). nat offsetsSize)")
    (auto simp: indexEntrySize_def)

declare repair_loop.simps [simp del]

definition repair :: "freezerTable \<Rightarrow> fz_error + freezerTable" where
  "repair t =
     (let sz = int (length (fz_index t));
          t = (if sz = 0 then t\<lparr>fz_index := replicate indexEntrySize 0\<rparr> else t);
          overflow = sz mod int indexEntrySize;
          t = (if overflow \<noteq> 0 then t\<lparr>fz_index := truncated (sz - overflow) (fz_index t)\<rparr> else t);
          offsetsSize = int (length (fz_index t));
          zero = unmarshalBinary (replicate indexEntrySize 0);
          firstIndex = (case readAt (fz_index t) indexEntrySize 0 of Inl e \<Rightarrow> zero | Inr b \<Rightarrow> unmarshalBinary b);
          t = t\<lparr>fz_tailId := ie_offset firstIndex, fz_itemOffset := ie_filenum firstIndex\<rparr>;
          lastIndex = last_entry t offsetsSize firstIndex in
      ebind (openFile (ie_filenum lastIndex) ForAppend t) (\<lambda>t.
      let t = t\<lparr>fz_head := Some (ie_filenum lastIndex)\<rparr> in
      ebind (repair_loop t offsetsSize lastIndex (file_size t (ie_filenum lastIndex)) (uint (ie_offset lastIndex)))
        (\<lambda>(t, offsetsSize, lastIndex, contentSize).
          preopen (t\<lparr>fz_items := ucast (fz_itemOffset t) + word_of_int (offsetsSize div int indexEntrySize - 1),
            fz_headBytes := word_of_int contentSize, fz_headId := ie_filenum lastIndex\<rparr>))))"

text \<open>A new table on the files that are on the disk.\<close>

definition newCustomTable :: "bytes \<Rightarrow> (u32 \<rightharpoonup> bytes) \<Rightarrow> u32 \<Rightarrow> bool \<Rightarrow> fz_error + freezerTable" where
  "newCustomTable index data maxFilesize noCompression =
     repair \<lparr>fz_items = 0, fz_noCompression = noCompression, fz_maxFileSize = maxFilesize,
       fz_head = None, fz_files = Map.empty, fz_headId = 0, fz_tailId = 0, fz_indexOpen = True,
       fz_itemOffset = 0, fz_headBytes = 0, fz_index = index, fz_data = data\<rparr>"

definition newTable :: "bytes \<Rightarrow> (u32 \<rightharpoonup> bytes) \<Rightarrow> bool \<Rightarrow> fz_error + freezerTable" where
  "newTable index data disableSnappy = newCustomTable index data (2 * 1000 * 1000 * 1000) disableSnappy"

section \<open>Operations\<close>

definition sizeNolock :: "freezerTable \<Rightarrow> u64" where
  "sizeNolock t = ucast (fz_maxFileSize t) * ucast (fz_headId t - fz_tailId t) + ucast (fz_headBytes t)
     + word_of_nat (length (fz_index t))"

text \<open>The next data file becomes the head; the old head is reopened for reading.\<close>

definition advance_head :: "freezerTable \<Rightarrow> fz_error + freezerTable" where
  "advance_head t =
     (let nextID = fz_headId t + 1 in
      ebind (openFile nextID Truncated t) (\<lambda>t.
      let t = releaseFile (fz_headId t) t;
          t = (case openFile (fz_headId t) ForReadOnly t of Inl e \<Rightarrow> t | Inr t' \<Rightarrow> t') in
      Inr (t\<lparr>fz_head := Some nextID, fz_headBytes := 0, fz_headId := nextID\<rparr>)))"

definition Append :: "snappy \<Rightarrow> u64 \<Rightarrow> bytes \<Rightarrow> freezerTable \<Rightarrow> fz_error + freezerTable" where
  "Append sn item blob t =
     (case fz_head t of None \<Rightarrow> Inl errClosed
      | Some _ \<Rightarrow>
        if \<not> fz_indexOpen t then Inl errClosed
        else if fz_items t \<noteq> item then Inl (errUnexpectedItem (fz_items t) item)
        else
          let blob = (if fz_noCompression t then blob else snappyEncode sn blob);
              bLen = word_of_nat (length blob) in
          ebind (if fz_headBytes t + bLen < bLen \<or> fz_headBytes t + bLen > fz_maxFileSize t
                 then advance_head t else Inr t) (\<lambda>t.
          ebind (write_file (the (fz_head t)) blob t) (\<lambda>t.
          let newOffset = fz_headBytes t + bLen;
              t = t\<lparr>fz_headBytes := newOffset\<rparr>;
              idx = \<lparr>ie_filenum = fz_headId t, ie_offset = newOffset\<rparr> in
          Inr (t\<lparr>fz_index := fz_index t @ marshallBinary idx, fz_items := fz_items t + 1\<rparr>))))"

definition getBounds :: "u64 \<Rightarrow> freezerTable \<Rightarrow> fz_error + u32 \<times> u32 \<times> u32" where
  "getBounds item t =
     ebind (readAt (fz_index t) indexEntrySize (sint (item * word_of_nat indexEntrySize))) (\<lambda>b1.
     let startIdx = unmarshalBinary b1 in
     ebind (readAt (fz_index t) indexEntrySize (sint ((item + 1) * word_of_nat indexEntrySize))) (\<lambda>b2.
     let endIdx = unmarshalBinary b2 in
     if ie_filenum startIdx \<noteq> ie_filenum endIdx then Inr (0, ie_offset endIdx, ie_filenum endIdx)
     else Inr (ie_offset startIdx, ie_offset endIdx, ie_filenum endIdx)))"

definition Retrieve :: "snappy \<Rightarrow> u64 \<Rightarrow> freezerTable \<Rightarrow> fz_error + bytes" where
  "Retrieve sn item t =
     (if \<not> fz_indexOpen t \<or> fz_head t = None then Inl errClosed
      else if fz_items t \<le> item then Inl errOutOfBounds
      else if ucast (fz_itemOffset t) > item then Inl errOutOfBounds
      else ebind (getBounds (item - ucast (fz_itemOffset t)) t) (\<lambda>(startOffset, endOffset, filenum).
        if fz_files t filenum = None then Inl (errMissingFile filenum)
        else ebind (readAt (the (fz_data t filenum)) (unat (endOffset - startOffset)) (uint startOffset)) (\<lambda>blob.
          if fz_noCompression t then Inr blob else snappyDecode sn blob)))"

definition fz_has :: "u64 \<Rightarrow> freezerTable \<Rightarrow> bool" where
  "fz_has n t \<longleftrightarrow> fz_items t > n"

definition truncate :: "u64 \<Rightarrow> freezerTable \<Rightarrow> fz_error + freezerTable" where
  "truncate items t =
     (if fz_items t \<le> items then Inr t
      else if \<not> fz_indexOpen t then Inl errBadHandle
      else ebind (truncate_index (sint (items + 1) * int indexEntrySize) t) (\<lambda>t.
        ebind (readAt (fz_index t) indexEntrySize (sint (items * word_of_nat indexEntrySize))) (\<lambda>b.
        let expected = unmarshalBinary b in
        ebind (if ie_filenum expected \<noteq> fz_headId t then
            ebind (openFile (ie_filenum expected) ForAppend (releaseFile (ie_filenum expected) t)) (\<lambda>t.
            let t = releaseFilesAfter (ie_filenum expected) True t in
            Inr (t\<lparr>fz_head := Some (ie_filenum expected), fz_headId := ie_filenum expected\<rparr>))
          else Inr t) (\<lambda>t.
        ebind (truncate_file (the (fz_head t)) (uint (ie_offset expected)) t) (\<lambda>t.
        Inr (t\<lparr>fz_items := items, fz_headBytes := ie_offset expected\<rparr>))))))"

definition Close :: "freezerTable \<Rightarrow> freezerTable" where
  "Close t = t\<lparr>fz_indexOpen := False, fz_head := None\<rparr>"

section \<open>The index\<close>

definition small_entry :: "indexEntry \<Rightarrow> bool" where
  "small_entry e \<longleftrightarrow> unat (ie_filenum e) < 2 ^ 16"

lemma unmarshal_marshal: "small_entry e \<Longrightarrow> unmarshalBinary (marshallBinary e) = e"
proof -
  assume "small_entry e"
  then have "unat (ucast (ie_filenum e) :: u16) = unat (ie_filenum e)"
    by (simp add: small_entry_def unsigned_ucast_eq take_bit_nat_eq_self)
  moreover have "unat (ucast x :: u32) = unat x" for x :: u16
  proof -
    have "unat x < 2 ^ 32" using unsigned_less [where 'a = nat, of x] by simp
    then show ?thesis by (simp only: unsigned_ucast_eq) (simp add: take_bit_nat_eq_self)
  qed
  ultimately have "ucast (ucast (ie_filenum e) :: u16) = ie_filenum e"
    by (simp only: word_unat_eq_iff)
  then show ?thesis by (simp add: unmarshalBinary_def marshallBinary_def)
qed

interpretation index_entry: codec marshallBinary "\<lambda>b. Inr (unmarshalBinary b) :: fz_error + indexEntry" small_entry
  by unfold_locales (simp add: unmarshal_marshal)

lemma length_marshall [simp]: "length (marshallBinary e) = 6"
  by (simp add: marshallBinary_def)

definition index_of_entries :: "indexEntry list \<Rightarrow> bytes" where
  "index_of_entries es = concat (map marshallBinary es)"

lemma length_index [simp]: "length (index_of_entries es) = 6 * length es"
  by (induction es) (simp_all add: index_of_entries_def)

lemma index_simps [simp]:
  "index_of_entries [] = []" "index_of_entries (e # es) = marshallBinary e @ index_of_entries es"
  by (simp_all add: index_of_entries_def)

lemma index_append: "index_of_entries (es @ fs) = index_of_entries es @ index_of_entries fs"
  by (simp add: index_of_entries_def)

lemma take_index: "k \<le> length es \<Longrightarrow> take (6 * k) (index_of_entries es) = index_of_entries (take k es)"
proof -
  assume "k \<le> length es"
  then have "index_of_entries es = index_of_entries (take k es) @ index_of_entries (drop k es)"
      "length (index_of_entries (take k es)) = 6 * k"
    by (simp_all flip: index_append)
  then show ?thesis by simp
qed

lemma drop_index: "drop (6 * k) (index_of_entries es) = index_of_entries (drop k es)"
proof (cases "k \<le> length es")
  case True
  then have "index_of_entries es = index_of_entries (take k es) @ index_of_entries (drop k es)"
      "length (index_of_entries (take k es)) = 6 * k"
    by (simp_all flip: index_append)
  then show ?thesis by simp
qed simp

lemma readAt_nat: "readAt f n (int k) = (if length f < k + n then Inl errEOF else Inr (take n (drop k f)))"
  by (auto simp: readAt_def)

lemma readAt_index: "i < length es \<Longrightarrow> readAt (index_of_entries es) 6 (int (6 * i)) = Inr (marshallBinary (es ! i))"
proof -
  assume i: "i < length es"
  have "drop (6 * i) (index_of_entries es) = marshallBinary (es ! i) @ index_of_entries (drop (Suc i) es)"
    using i by (simp add: drop_index flip: Cons_nth_drop_Suc)
  moreover have "6 * i + 6 \<le> 6 * length es" using i by simp
  ultimately show ?thesis by (simp only: readAt_nat) simp
qed

section \<open>What a table stores\<close>

definition entry_start :: "indexEntry \<Rightarrow> indexEntry \<Rightarrow> u32" where
  "entry_start s e = (if ie_filenum s = ie_filenum e then ie_offset s else 0)"

text \<open>The bytes between two consecutive index entries.\<close>

definition chunk :: "(u32 \<rightharpoonup> bytes) \<Rightarrow> indexEntry \<Rightarrow> indexEntry \<Rightarrow> bytes option" where
  "chunk data s e =
     (case data (ie_filenum e) of None \<Rightarrow> None
      | Some f \<Rightarrow> if entry_start s e \<le> ie_offset e \<and> unat (ie_offset e) \<le> length f
          then Some (take (unat (ie_offset e) - unat (entry_start s e)) (drop (unat (entry_start s e)) f)) else None)"

definition stored :: "indexEntry list \<Rightarrow> (u32 \<rightharpoonup> bytes) \<Rightarrow> bytes list \<Rightarrow> bool" where
  "stored es data bs \<longleftrightarrow> length es = Suc (length bs) \<and>
     (\<forall>i < length bs. ie_filenum (es ! i) \<le> ie_filenum (es ! Suc i) \<and> chunk data (es ! i) (es ! Suc i) = Some (bs ! i))"

lemma stored_mono: "stored es data bs \<Longrightarrow> i \<le> j \<Longrightarrow> j \<le> length bs \<Longrightarrow> ie_filenum (es ! i) \<le> ie_filenum (es ! j)"
proof (induction j)
  case (Suc j)
  show ?case
  proof (cases "i = Suc j")
    case False
    with Suc have "ie_filenum (es ! i) \<le> ie_filenum (es ! j)" by simp
    also have "\<dots> \<le> ie_filenum (es ! Suc j)" using Suc.prems by (simp add: stored_def)
    finally show ?thesis .
  qed simp
qed simp

lemma stored_offsets:
  assumes "stored es data bs" "i \<le> j" "j \<le> length bs" "ie_filenum (es ! i) = ie_filenum (es ! j)"
  shows "ie_offset (es ! i) \<le> ie_offset (es ! j)"
  using assms
proof (induction j)
  case (Suc j)
  show ?case
  proof (cases "i = Suc j")
    case False
    then have "i \<le> j" "j \<le> length bs" using Suc.prems by auto
    with stored_mono [OF Suc.prems(1), of i j] stored_mono [OF Suc.prems(1), of j "Suc j"] Suc.prems
    have same: "ie_filenum (es ! i) = ie_filenum (es ! j)" "ie_filenum (es ! j) = ie_filenum (es ! Suc j)" by auto
    with Suc \<open>i \<le> j\<close> have "ie_offset (es ! i) \<le> ie_offset (es ! j)" by simp
    also have "chunk data (es ! j) (es ! Suc j) = Some (bs ! j)"
      using Suc.prems(1,3) by (simp add: stored_def)
    then have "ie_offset (es ! j) \<le> ie_offset (es ! Suc j)"
      using same by (auto simp: chunk_def entry_start_def split: option.splits if_splits)
    finally show ?thesis .
  qed simp
qed simp

lemma chunk_extend:
  assumes "chunk data s e = Some b" "\<And>f. data (ie_filenum e) = Some f \<Longrightarrow> \<exists>g. data' (ie_filenum e) = Some (f @ g)"
  shows "chunk data' s e = Some b"
  using assms(1) assms(2) by (auto simp: chunk_def split: option.splits if_splits dest!: assms(2))

lemma stored_snoc:
  assumes "stored es data bs"
    "\<And>n f. n \<le> ie_filenum (last es) \<Longrightarrow> data n = Some f \<Longrightarrow> \<exists>g. data' n = Some (f @ g)"
    "ie_filenum (last es) \<le> ie_filenum e" "chunk data' (last es) e = Some b"
  shows "stored (es @ [e]) data' (bs @ [b])"
  unfolding stored_def
proof (intro conjI allI impI)
  have len: "length es = Suc (length bs)" using assms(1) by (simp add: stored_def)
  then have last: "last es = es ! length bs" by (subst last_conv_nth) auto
  show "length (es @ [e]) = Suc (length (bs @ [b]))" using len by simp
  fix i assume i: "i < length (bs @ [b])"
  show "ie_filenum ((es @ [e]) ! i) \<le> ie_filenum ((es @ [e]) ! Suc i)"
    using i assms(1,3) len last by (auto simp: stored_def nth_append less_Suc_eq)
  show "chunk data' ((es @ [e]) ! i) ((es @ [e]) ! Suc i) = Some ((bs @ [b]) ! i)"
  proof (cases "i < length bs")
    case True
    with assms(1) have c: "chunk data (es ! i) (es ! Suc i) = Some (bs ! i)" by (simp add: stored_def)
    have le: "ie_filenum (es ! Suc i) \<le> ie_filenum (last es)"
      using True last stored_mono [OF assms(1), of "Suc i" "length bs"] by simp
    have "chunk data' (es ! i) (es ! Suc i) = Some (bs ! i)"
      by (rule chunk_extend [OF c]) (rule assms(2) [OF le])
    with True len show ?thesis by (simp add: nth_append)
  next
    case False
    with i have "i = length bs" by simp
    with assms(4) len last show ?thesis by (simp add: nth_append)
  qed
qed

text \<open>Cutting the store after \<open>n\<close> items, and the last file after its last entry.\<close>

lemma stored_take:
  assumes "stored es data bs" "n \<le> length bs"
    "\<And>m. m < ie_filenum (es ! n) \<Longrightarrow> data' m = data m"
    "\<And>f. data (ie_filenum (es ! n)) = Some f \<Longrightarrow> \<exists>g. data' (ie_filenum (es ! n)) = Some g \<and>
       unat (ie_offset (es ! n)) \<le> length g \<and> take (unat (ie_offset (es ! n))) g = take (unat (ie_offset (es ! n))) f"
  shows "stored (take (Suc n) es) data' (take n bs)"
  unfolding stored_def
proof (intro conjI allI impI)
  have len: "length es = Suc (length bs)" using assms(1) by (simp add: stored_def)
  then show "length (take (Suc n) es) = Suc (length (take n bs))" using assms(2) by simp
  fix i assume "i < length (take n bs)"
  then have i: "i < n" "i < length bs" using assms(2) by auto
  then show "ie_filenum (take (Suc n) es ! i) \<le> ie_filenum (take (Suc n) es ! Suc i)"
    using assms(1) by (simp add: stored_def)
  let ?e = "es ! Suc i"
  have c: "chunk data (es ! i) ?e = Some (bs ! i)" using assms(1) i by (simp add: stored_def)
  have "chunk data' (es ! i) ?e = Some (bs ! i)"
  proof (cases "ie_filenum ?e = ie_filenum (es ! n)")
    case False
    with stored_mono [OF assms(1), of "Suc i" n] i assms(2) have "ie_filenum ?e < ie_filenum (es ! n)" by simp
    from assms(3) [OF this] c show ?thesis by (simp add: chunk_def)
  next
    case True
    with stored_offsets [OF assms(1), of "Suc i" n] i assms(2)
    have off: "unat (ie_offset ?e) \<le> unat (ie_offset (es ! n))" by (simp add: word_le_nat_alt)
    from c obtain f where f: "data (ie_filenum ?e) = Some f" "entry_start (es ! i) ?e \<le> ie_offset ?e"
        "bs ! i = take (unat (ie_offset ?e) - unat (entry_start (es ! i) ?e)) (drop (unat (entry_start (es ! i) ?e)) f)"
      by (auto simp: chunk_def split: option.splits if_splits)
    from assms(4) f(1) True obtain g where g: "data' (ie_filenum ?e) = Some g"
        "unat (ie_offset (es ! n)) \<le> length g" "take (unat (ie_offset (es ! n))) g = take (unat (ie_offset (es ! n))) f"
      by auto
    have cut: "take (b - a) (drop a x) = drop a (take b x)" for a b and x :: bytes by (simp add: drop_take)
    have "take (unat (ie_offset ?e)) g = take (unat (ie_offset ?e)) f"
      using arg_cong [OF g(3), of "take (unat (ie_offset ?e))"] off by (simp add: min_absorb1)
    with f g off show ?thesis by (simp add: chunk_def cut)
  qed
  then show "chunk data' (take (Suc n) es ! i) (take (Suc n) es ! Suc i) = Some (take n bs ! i)"
    using i by simp
qed

section \<open>The invariant\<close>

text \<open>
  A table that has never lost its tail holds the blobs \<open>bs\<close>: the index has one entry per blob
  after the zero entry, the head file ends where its last entry says, and exactly the files up
  to the head are open, the head for writing.
\<close>

definition zero_entry :: indexEntry where
  "zero_entry = \<lparr>ie_filenum = 0, ie_offset = 0\<rparr>"

definition fz_rep :: "indexEntry list \<Rightarrow> freezerTable \<Rightarrow> bytes list \<Rightarrow> bool" where
  "fz_rep es t bs \<longleftrightarrow> fz_index t = index_of_entries es \<and> (\<forall>e \<in> set es. small_entry e) \<and> es ! 0 = zero_entry \<and>
     stored es (fz_data t) bs \<and> fz_itemOffset t = 0 \<and> fz_tailId t = 0 \<and>
     fz_items t = word_of_nat (length bs) \<and> 6 * (length bs + 2) < 2 ^ 63 \<and>
     fz_headId t = ie_filenum (last es) \<and> fz_headBytes t = ie_offset (last es) \<and>
     fz_head t = Some (fz_headId t) \<and> fz_files t (fz_headId t) = Some ReadWrite \<and> fz_indexOpen t \<and>
     (\<exists>f. fz_data t (fz_headId t) = Some f \<and> length f = unat (fz_headBytes t)) \<and>
     (\<forall>n. (fz_files t n \<noteq> None) = (n \<le> fz_headId t)) \<and> (\<forall>n \<le> fz_headId t. fz_data t n \<noteq> None)"

definition fz_inv :: "freezerTable \<Rightarrow> bytes list \<Rightarrow> bool" where
  "fz_inv t bs \<longleftrightarrow> (\<exists>es. fz_rep es t bs)"

lemma fz_rep_length: "fz_rep es t bs \<Longrightarrow> length es = Suc (length bs)"
  by (simp add: fz_rep_def stored_def)

lemma fz_rep_last: "fz_rep es t bs \<Longrightarrow> last es = es ! length bs"
  using fz_rep_length [of es t bs] by (subst last_conv_nth) auto

lemma fz_rep_items: "fz_rep es t bs \<Longrightarrow> unat (fz_items t) = length bs"
  by (simp add: fz_rep_def unat_of_nat)

text \<open>What a blob is on the disk, and whether the table has room for it.\<close>

definition on_disk :: "snappy \<Rightarrow> freezerTable \<Rightarrow> bytes \<Rightarrow> bytes" where
  "on_disk sn t blob = (if fz_noCompression t then blob else snappyEncode sn blob)"

definition room :: "snappy \<Rightarrow> freezerTable \<Rightarrow> bytes \<Rightarrow> bool" where
  "room sn t blob \<longleftrightarrow> length (on_disk sn t blob) < 2 ^ 32 \<and> unat (fz_headId t) + 1 < 2 ^ 16 \<and>
     6 * (unat (fz_items t) + 3) < 2 ^ 63"

lemma head_next: "unat (h :: u32) + 1 < 2 ^ 16 \<Longrightarrow> unat (h + 1) = unat h + 1 \<and> h < h + 1"
  by (simp add: unat_word_ariths word_less_nat_alt)

lemma head_next_le: "unat (h :: u32) + 1 < 2 ^ 16 \<Longrightarrow> n \<le> h + 1 \<longleftrightarrow> n \<le> h \<or> n = h + 1"
  using head_next [of h] by (auto simp: word_le_nat_alt word_unat_eq_iff)

text \<open>Opening the next head file.\<close>

lemma advance_head_rep:
  assumes "fz_rep es t bs" "unat (fz_headId t) + 1 < 2 ^ 16"
  shows "\<exists>t'. advance_head t = Inr t' \<and> fz_index t' = fz_index t \<and> fz_items t' = fz_items t \<and>
    fz_noCompression t' = fz_noCompression t \<and> fz_maxFileSize t' = fz_maxFileSize t \<and>
    fz_indexOpen t' \<and> fz_itemOffset t' = 0 \<and> fz_tailId t' = 0 \<and>
    fz_headId t' = fz_headId t + 1 \<and> fz_headBytes t' = 0 \<and> fz_head t' = Some (fz_headId t') \<and>
    fz_files t' (fz_headId t') = Some ReadWrite \<and> fz_data t' = (fz_data t)(fz_headId t' \<mapsto> []) \<and>
    (\<forall>n. (fz_files t' n \<noteq> None) = (n \<le> fz_headId t'))"
proof -
  note h = head_next [OF assms(2)]
  have files: "(fz_files t n \<noteq> None) = (n \<le> fz_headId t)" for n using assms(1) by (simp add: fz_rep_def)
  have new: "fz_files t (fz_headId t + 1) = None" using files [of "fz_headId t + 1"] h by auto
  have data: "fz_data t (fz_headId t) \<noteq> None" using assms(1) by (auto simp: fz_rep_def)
  note le = head_next_le [OF assms(2)]
  have hd: "fz_headId t = ie_filenum (last es)" using assms(1) by (simp add: fz_rep_def)
  show ?thesis
    using assms(1) new data h files
    by (auto simp: advance_head_def openFile_def releaseFile_def Let_def fz_rep_def le [unfolded hd])
qed

lemma Append_rep:
  assumes rep: "fz_rep es t bs" and room: "room sn t blob"
  shows "\<exists>t' e. Append sn (fz_items t) blob t = Inr t' \<and> fz_rep (es @ [e]) t' (bs @ [on_disk sn t blob]) \<and>
    fz_noCompression t' = fz_noCompression t \<and> fz_maxFileSize t' = fz_maxFileSize t"
proof -
  define b where "b = on_disk sn t blob"
  define bLen where "bLen = (word_of_nat (length b) :: u32)"
  have bl: "unat bLen = length b" using room by (simp add: bLen_def room_def b_def unat_of_nat)
  define full where "full \<longleftrightarrow> fz_headBytes t + bLen < bLen \<or> fz_headBytes t + bLen > fz_maxFileSize t"
  have head: "fz_head t = Some (fz_headId t)" "fz_indexOpen t" using rep by (simp_all add: fz_rep_def)
  obtain f where f: "fz_data t (fz_headId t) = Some f" "length f = unat (fz_headBytes t)"
    using rep by (auto simp: fz_rep_def)
  define f1 where "f1 = (if full then [] else f)"
  obtain t1 where t1: "(if full then advance_head t else Inr t) = Inr t1"
    "fz_index t1 = fz_index t" "fz_items t1 = fz_items t" "fz_noCompression t1 = fz_noCompression t"
    "fz_maxFileSize t1 = fz_maxFileSize t" "fz_indexOpen t1" "fz_itemOffset t1 = 0" "fz_tailId t1 = 0"
    "fz_head t1 = Some (fz_headId t1)" "fz_files t1 (fz_headId t1) = Some ReadWrite"
    "\<forall>n. (fz_files t1 n \<noteq> None) = (n \<le> fz_headId t1)"
    "fz_headId t1 = (if full then fz_headId t + 1 else fz_headId t)"
    "fz_headBytes t1 = (if full then 0 else fz_headBytes t)"
    "fz_data t1 = (fz_data t)(fz_headId t1 \<mapsto> f1)"
  proof (cases full)
    case True
    with advance_head_rep [OF rep] room that show ?thesis by (auto simp: room_def f1_def)
  next
    case False
    with rep f show ?thesis by (intro that [of t]) (auto simp: fz_rep_def f1_def)
  qed
  define e where "e = \<lparr>ie_filenum = fz_headId t1, ie_offset = fz_headBytes t1 + bLen\<rparr>"
  define t' where "t' = t1\<lparr>fz_data := (fz_data t)(fz_headId t1 \<mapsto> f1 @ b), fz_headBytes := ie_offset e,
    fz_index := fz_index t1 @ marshallBinary e, fz_items := fz_items t1 + 1\<rparr>"
  have run: "Append sn (fz_items t) blob t = Inr t'"
    using head t1 unfolding Append_def t'_def
    by (simp add: Let_def ebind_def full_def bLen_def b_def on_disk_def write_file_def e_def)
  have noverflow: "fz_headBytes t + bLen \<ge> bLen" if "\<not> full" using that by (simp add: full_def not_less)
  have off: "unat (ie_offset e) = length f1 + length b"
  proof (cases full)
    case True
    then show ?thesis using t1(13) bl by (simp add: e_def f1_def)
  next
    case False
    have "bLen \<le> bLen + fz_headBytes t" using noverflow [OF False] by (simp only: add.commute)
    then have "unat (bLen + fz_headBytes t) = unat bLen + unat (fz_headBytes t)"
      by (simp only: no_olen_add_nat unat_add_lem)
    with False show ?thesis using t1(13) bl f by (simp add: e_def f1_def add.commute)
  qed
  have room': "unat (fz_headId t) + 1 < 2 ^ 16" using room by (simp add: room_def)
  note nx = head_next [OF room']
  have last: "fz_headId t = ie_filenum (last es)" "fz_headBytes t = ie_offset (last es)"
    using rep by (simp_all add: fz_rep_def)
  have "chunk (fz_data t') (last es) e = Some b"
    using off f nx last t1(12,13) noverflow
    by (cases full) (auto simp: chunk_def t'_def e_def entry_start_def f1_def word_le_nat_alt)
  then have "stored (es @ [e]) (fz_data t') (bs @ [b])"
    using rep last nx t1(12) f
    by (intro stored_snoc [of es "fz_data t"]) (auto simp: fz_rep_def t'_def e_def f1_def split: if_splits)
  moreover have "small_entry e" using room' nx t1(12) by (auto simp: small_entry_def e_def)
  moreover have "6 * (length (bs @ [b]) + 2) < 2 ^ 63"
    using room fz_rep_items [OF rep] by (simp add: room_def)
  moreover have "fz_data t' n \<noteq> None" if "n \<le> fz_headId t'" for n
  proof -
    have "n \<le> fz_headId t \<or> n = fz_headId t1"
      using that t1(12) head_next_le [OF room', of n] by (auto simp: t'_def split: if_splits)
    then show ?thesis using rep by (auto simp: t'_def fz_rep_def)
  qed
  ultimately have "fz_rep (es @ [e]) t' (bs @ [b])"
    using rep t1 off fz_rep_length [OF rep]
    by (simp add: fz_rep_def t'_def index_append nth_append) (simp add: e_def)
  with run t1(4,5) show ?thesis by (auto simp: b_def t'_def)
qed

lemma sint_of_small: "k < 2 ^ 63 \<Longrightarrow> sint (word_of_nat k :: u64) = int k"
proof -
  assume "k < 2 ^ 63"
  then have "signed_take_bit 63 (int k) = int k"
    by (intro signed_take_bit_int_eq_self) auto
  then show ?thesis by (simp add: signed_of_nat)
qed

lemma index_position: "6 * i < 2 ^ 63 \<Longrightarrow> sint (word_of_nat i * word_of_nat indexEntrySize :: u64) = int (6 * i)"
  using sint_of_small [of "6 * i"] by (simp add: indexEntrySize_def mult.commute)

lemma getBounds_rep:
  assumes "fz_rep es t bs" "i < length bs"
  shows "getBounds (word_of_nat i) t = Inr (entry_start (es ! i) (es ! Suc i), ie_offset (es ! Suc i), ie_filenum (es ! Suc i))"
proof -
  have len: "length es = Suc (length bs)" and small: "\<forall>e \<in> set es. small_entry e"
    and ix: "fz_index t = index_of_entries es" and sz: "6 * (length bs + 2) < 2 ^ 63"
    using assms(1) by (simp_all add: fz_rep_def stored_def)
  have "readAt (fz_index t) indexEntrySize (sint (word_of_nat j * word_of_nat indexEntrySize :: u64)) = Inr (marshallBinary (es ! j))"
    if "j < length es" for j
  proof -
    have "6 * j < 2 ^ 63" using that len sz by simp
    then show ?thesis using readAt_index [OF that] unfolding index_position [OF \<open>6 * j < 2 ^ 63\<close>] ix
      by (simp add: indexEntrySize_def)
  qed
  from this [of i] this [of "Suc i"] show ?thesis
    using assms(2) len small
    by (simp add: getBounds_def ebind_def unmarshal_marshal Let_def entry_start_def add.commute)
qed

lemma Retrieve_rep:
  assumes rep: "fz_rep es t bs" and i: "i < length bs"
  shows "Retrieve sn (word_of_nat i) t = (if fz_noCompression t then Inr (bs ! i) else snappyDecode sn (bs ! i))"
proof -
  have sz: "6 * (length bs + 2) < 2 ^ 63" using rep by (simp add: fz_rep_def)
  have open_: "fz_indexOpen t" "fz_head t \<noteq> None" "fz_itemOffset t = 0" using rep by (simp_all add: fz_rep_def)
  have lt: "\<not> fz_items t \<le> word_of_nat i"
    using i sz fz_rep_items [OF rep] by (simp add: word_le_nat_alt unat_of_nat)
  have st: "stored es (fz_data t) bs" using rep by (simp add: fz_rep_def)
  then have c: "chunk (fz_data t) (es ! i) (es ! Suc i) = Some (bs ! i)" using i by (simp add: stored_def)
  have "ie_filenum (es ! Suc i) \<le> fz_headId t"
    using stored_mono [OF st, of "Suc i" "length bs"] i fz_rep_last [OF rep] rep by (simp add: fz_rep_def)
  then have opened: "fz_files t (ie_filenum (es ! Suc i)) \<noteq> None" using rep by (simp add: fz_rep_def)
  from c obtain f where f: "fz_data t (ie_filenum (es ! Suc i)) = Some f"
      "entry_start (es ! i) (es ! Suc i) \<le> ie_offset (es ! Suc i)" "unat (ie_offset (es ! Suc i)) \<le> length f"
      "bs ! i = take (unat (ie_offset (es ! Suc i)) - unat (entry_start (es ! i) (es ! Suc i)))
        (drop (unat (entry_start (es ! i) (es ! Suc i))) f)"
    by (auto simp: chunk_def split: option.splits if_splits)
  have "unat (ie_offset (es ! Suc i) - entry_start (es ! i) (es ! Suc i)) =
      unat (ie_offset (es ! Suc i)) - unat (entry_start (es ! i) (es ! Suc i))"
    using f(2) by (rule unat_sub)
  with f have "readAt (the (fz_data t (ie_filenum (es ! Suc i))))
      (unat (ie_offset (es ! Suc i) - entry_start (es ! i) (es ! Suc i)))
      (uint (entry_start (es ! i) (es ! Suc i))) = Inr (bs ! i)"
    by (simp add: uint_nat readAt_nat word_le_nat_alt del: of_nat_unat)
  with open_ lt opened getBounds_rep [OF rep i] show ?thesis
    by (auto simp: Retrieve_def)
qed

lemma Retrieve_beyond: "fz_rep es t bs \<Longrightarrow> length bs \<le> unat item \<Longrightarrow> Retrieve sn item t = Inl errOutOfBounds"
  using fz_rep_items [of es t bs]
  by (simp only: Retrieve_def word_le_nat_alt) (simp add: fz_rep_def)

lemma truncated_prefix: "n \<le> length f \<Longrightarrow> truncated (int n) f = take n f"
  by (simp add: truncated_def)

lemma truncate_rep:
  assumes rep: "fz_rep es t bs"
  shows "\<exists>t'. truncate items t = Inr t' \<and> fz_rep (take (Suc (unat items)) es) t' (take (unat items) bs) \<and>
    fz_noCompression t' = fz_noCompression t \<and> fz_maxFileSize t' = fz_maxFileSize t"
proof (cases "fz_items t \<le> items")
  case True
  then have "length bs \<le> unat items" using fz_rep_items [OF rep] by (simp add: word_le_nat_alt)
  with rep True show ?thesis by (simp add: truncate_def fz_rep_length)
next
  case False
  define n where "n = unat items"
  have n: "n < length bs" "items = word_of_nat n"
    using False fz_rep_items [OF rep] by (simp_all add: n_def word_le_nat_alt)
  have len: "length es = Suc (length bs)" by (rule fz_rep_length [OF rep])
  have sz: "6 * (length bs + 2) < 2 ^ 63" and st: "stored es (fz_data t) bs"
    and small: "\<forall>e \<in> set es. small_entry e" and ix: "fz_index t = index_of_entries es"
    using rep by (simp_all add: fz_rep_def)
  define e where "e = es ! n"
  have se: "small_entry e" using small n len by (simp add: e_def)
  have cut: "truncate_index (sint (items + 1) * int indexEntrySize) t = Inr (t\<lparr>fz_index := index_of_entries (take (Suc n) es)\<rparr>)"
  proof -
    have "items + 1 = word_of_nat (Suc n)" using n by simp
    then have "sint (items + 1) * int indexEntrySize = int (6 * Suc n)"
      using sint_of_small [of "Suc n"] n(1) sz by (simp only: indexEntrySize_def) simp
    moreover have "truncated (int (6 * Suc n)) (index_of_entries es) = index_of_entries (take (Suc n) es)"
    proof -
      have "6 * Suc n \<le> length (index_of_entries es)" "Suc n \<le> length es" using n len by simp_all
      then show ?thesis by (simp only: truncated_prefix take_index)
    qed
    ultimately show ?thesis by (simp add: truncate_index_def ix)
  qed
  have rd: "readAt (index_of_entries (take (Suc n) es)) indexEntrySize (sint (items * word_of_nat indexEntrySize)) = Inr (marshallBinary e)"
    using readAt_index [of n "take (Suc n) es"] index_position [of n] n len sz
    by (simp add: e_def indexEntrySize_def)
  define t1 where "t1 = t\<lparr>fz_index := index_of_entries (take (Suc n) es)\<rparr>"
  have fn: "ie_filenum e \<le> fz_headId t"
    using stored_mono [OF st, of n "length bs"] n fz_rep_last [OF rep] rep by (simp add: e_def fz_rep_def)
  have files: "(fz_files t m \<noteq> None) = (m \<le> fz_headId t)" and data: "m \<le> fz_headId t \<Longrightarrow> fz_data t m \<noteq> None" for m
    using rep by (simp_all add: fz_rep_def)
  obtain f where f: "fz_data t (ie_filenum e) = Some f" using data [OF fn] by auto
  have off: "unat (ie_offset e) \<le> length f"
  proof (cases n)
    case 0
    then show ?thesis using rep by (simp add: e_def fz_rep_def zero_entry_def)
  next
    case (Suc m)
    then have "chunk (fz_data t) (es ! m) e = Some (bs ! m)" using st n by (simp add: stored_def e_def)
    with f show ?thesis by (auto simp: chunk_def split: if_splits)
  qed
  obtain t2 where t2: "(if ie_filenum e \<noteq> fz_headId t1 then
            ebind (openFile (ie_filenum e) ForAppend (releaseFile (ie_filenum e) t1)) (\<lambda>t.
            let t = releaseFilesAfter (ie_filenum e) True t in
            Inr (t\<lparr>fz_head := Some (ie_filenum e), fz_headId := ie_filenum e\<rparr>))
          else Inr t1) = Inr t2"
    "fz_index t2 = fz_index t1" "fz_headId t2 = ie_filenum e" "fz_head t2 = Some (ie_filenum e)"
    "fz_files t2 (ie_filenum e) = Some ReadWrite" "\<forall>m. (fz_files t2 m \<noteq> None) = (m \<le> ie_filenum e)"
    "\<forall>m. m \<le> ie_filenum e \<longrightarrow> fz_data t2 m = fz_data t m"
    "fz_itemOffset t2 = 0" "fz_tailId t2 = 0" "fz_indexOpen t2"
    "fz_noCompression t2 = fz_noCompression t" "fz_maxFileSize t2 = fz_maxFileSize t"
  proof (cases "ie_filenum e = fz_headId t1")
    case True
    with rep show ?thesis by (intro that [of t1]) (auto simp: t1_def fz_rep_def)
  next
    case False
    define t2 where "t2 = releaseFilesAfter (ie_filenum e) True (t1\<lparr>fz_files := (fz_files t)(ie_filenum e \<mapsto> ReadWrite)\<rparr>)
      \<lparr>fz_head := Some (ie_filenum e), fz_headId := ie_filenum e\<rparr>"
    have "openFile (ie_filenum e) ForAppend (releaseFile (ie_filenum e) t1) =
        Inr (t1\<lparr>fz_files := (fz_files t)(ie_filenum e \<mapsto> ReadWrite)\<rparr>)"
      using f by (simp add: openFile_def releaseFile_def t1_def)
    moreover have "(fz_files t2 m \<noteq> None) = (m \<le> ie_filenum e)" for m
      using files [of m] fn by (auto simp: t2_def t1_def releaseFilesAfter_def restrict_map_def)
    ultimately show ?thesis
      using rep False
      by (intro that [of t2]) (simp_all add: t2_def t1_def releaseFilesAfter_def fz_rep_def Let_def)
  qed
  define t3 where "t3 = t2\<lparr>fz_data := (fz_data t2)(ie_filenum e \<mapsto> take (unat (ie_offset e)) f),
    fz_items := items, fz_headBytes := ie_offset e\<rparr>"
  have "truncated (uint (ie_offset e)) f = take (unat (ie_offset e)) f"
    using truncated_prefix [OF off] by (simp add: uint_nat del: of_nat_unat)
  then have tf: "truncate_file (the (fz_head t2)) (uint (ie_offset e)) t2 =
      Inr (t2\<lparr>fz_data := (fz_data t2)(ie_filenum e \<mapsto> take (unat (ie_offset e)) f)\<rparr>)"
    using t2(4,5,7) f by (simp add: truncate_file_def)
  have rd1: "readAt (fz_index t1) indexEntrySize (sint (items * word_of_nat indexEntrySize)) = Inr (marshallBinary e)"
    using rd by (simp add: t1_def)
  have opn: "\<not> \<not> fz_indexOpen t" using rep by (simp add: fz_rep_def)
  have run: "truncate items t = Inr t3"
    unfolding truncate_def cut t1_def [symmetric] if_not_P [OF False] if_not_P [OF opn] ebind_simps rd1 Let_def
      unmarshal_marshal [OF se] t2(1) [unfolded Let_def] tf t3_def by simp
  have "stored (take (Suc n) es) (fz_data t3) (take n bs)"
    using n t2(7) f off by (intro stored_take [OF st]) (auto simp: t3_def e_def)
  moreover have "last (take (Suc n) es) = e" using n len by (simp add: take_Suc_conv_app_nth e_def)
  moreover have "\<forall>x \<in> set (take (Suc n) es). small_entry x" using small by (meson in_set_takeD)
  moreover have "6 * (length (take n bs) + 2) < 2 ^ 63" using sz n by simp
  ultimately have "fz_rep (take (Suc n) es) t3 (take n bs)"
    using rep t2 n off f data fn by (auto simp: fz_rep_def t3_def t1_def)
  with run t2 show ?thesis by (auto simp: n_def t3_def)
qed

section \<open>Recovery after a crash\<close>

text \<open>
  What a crash can leave of the data files of a table: the files before the head are whole, the
  head file has lost a tail or has data that was never indexed, and there may be later files.
\<close>

definition crashed :: "freezerTable \<Rightarrow> (u32 \<rightharpoonup> bytes) \<Rightarrow> bytes \<Rightarrow> bool" where
  "crashed t data g \<longleftrightarrow> (\<forall>m < fz_headId t. data m = fz_data t m) \<and> data (fz_headId t) = Some g \<and>
     (\<exists>x. fz_data t (fz_headId t) = Some (g @ x) \<or> (\<exists>f. fz_data t (fz_headId t) = Some f \<and> g = f @ x))"

lemma crashed_file:
  assumes "fz_rep es t bs" "crashed t data g" "j \<le> length bs"
  shows "\<exists>h. data (ie_filenum (es ! j)) = Some h \<and>
    (unat (ie_offset (es ! j)) \<le> length h \<or> ie_filenum (es ! j) = fz_headId t \<and> h = g \<and> 0 < j) \<and>
    (\<forall>f. fz_data t (ie_filenum (es ! j)) = Some f \<longrightarrow> unat (ie_offset (es ! j)) \<le> length h \<longrightarrow>
      take (unat (ie_offset (es ! j))) h = take (unat (ie_offset (es ! j))) f)"
proof -
  have st: "stored es (fz_data t) bs" using assms(1) by (simp add: fz_rep_def)
  have le: "ie_filenum (es ! j) \<le> fz_headId t"
    using stored_mono [OF st assms(3)] fz_rep_last [OF assms(1)] assms(1) by (simp add: fz_rep_def)
  obtain f where f: "fz_data t (ie_filenum (es ! j)) = Some f" using assms(1) le by (auto simp: fz_rep_def)
  have off: "unat (ie_offset (es ! j)) \<le> length f"
  proof (cases j)
    case 0
    then show ?thesis using assms(1) by (simp add: fz_rep_def zero_entry_def)
  next
    case (Suc m)
    then have "chunk (fz_data t) (es ! m) (es ! j) = Some (bs ! m)" using st assms(3) by (simp add: stored_def)
    with f show ?thesis by (auto simp: chunk_def split: if_splits)
  qed
  have zero: "j = 0 \<Longrightarrow> ie_offset (es ! j) = 0" using assms(1) by (simp add: fz_rep_def zero_entry_def)
  show ?thesis
  proof (cases "ie_filenum (es ! j) = fz_headId t")
    case False
    with le have "ie_filenum (es ! j) < fz_headId t" by simp
    with assms(2) f off show ?thesis by (auto simp: crashed_def)
  next
    case True
    from assms(2) f True obtain x where x: "f = g @ x \<or> g = f @ x" by (auto simp: crashed_def)
    have "data (ie_filenum (es ! j)) = Some g" using assms(2) True by (simp add: crashed_def)
    moreover have "unat (ie_offset (es ! j)) \<le> length g \<Longrightarrow>
        take (unat (ie_offset (es ! j))) g = take (unat (ie_offset (es ! j))) f"
      using x off by auto
    ultimately show ?thesis using True f zero by (cases "j = 0") auto
  qed
qed

text \<open>The table while the loop runs: the first \<open>j + 1\<close> entries, with only the file of the last one open.\<close>

definition mid_repair :: "indexEntry list \<Rightarrow> (u32 \<rightharpoonup> bytes) \<Rightarrow> nat \<Rightarrow> freezerTable \<Rightarrow> bool" where
  "mid_repair es data j t \<longleftrightarrow> fz_index t = index_of_entries (take (Suc j) es) \<and> fz_data t = data \<and>
     fz_files t = [ie_filenum (es ! j) \<mapsto> ReadWrite] \<and> fz_head t = Some (ie_filenum (es ! j)) \<and>
     fz_indexOpen t \<and> fz_itemOffset t = 0 \<and> fz_tailId t = 0"

lemma mid_repair_back:
  assumes mid: "mid_repair es data j t" and j: "0 < j" "j < length es" and small: "\<forall>e \<in> set es. small_entry e"
    and data: "data (ie_filenum (es ! (j - 1))) \<noteq> None"
  defines "t1 \<equiv> t\<lparr>fz_index := truncated (int (6 * Suc j) - int indexEntrySize) (fz_index t)\<rparr>"
  shows "fz_index t1 = index_of_entries (take j es)"
    "last_entry t1 (int (6 * Suc j) - int indexEntrySize) old = es ! (j - 1)"
    "ie_filenum (es ! (j - 1)) \<noteq> ie_filenum (es ! j) \<Longrightarrow>
      \<exists>t2. openFile (ie_filenum (es ! (j - 1))) ForAppend (releaseFile (ie_filenum (es ! j)) t1) = Inr t2 \<and>
        mid_repair es data (j - 1) (t2\<lparr>fz_head := Some (ie_filenum (es ! (j - 1)))\<rparr>)"
    "ie_filenum (es ! (j - 1)) = ie_filenum (es ! j) \<Longrightarrow> mid_repair es data (j - 1) t1"
proof -
  have pos: "int (6 * Suc j) - int indexEntrySize = int (6 * j)" by (simp add: indexEntrySize_def)
  have sj: "Suc (j - Suc 0) = j" using j by simp
  have "truncated (int (6 * j)) (index_of_entries (take (Suc j) es)) = index_of_entries (take j es)"
    using truncated_prefix [of "6 * j" "index_of_entries (take (Suc j) es)"] take_index [of j "take (Suc j) es"] j
    by simp
  then show ix: "fz_index t1 = index_of_entries (take j es)"
    using mid unfolding t1_def pos mid_repair_def by (simp del: of_nat_mult)
  have "int (6 * j) - int indexEntrySize = int (6 * (j - 1))"
    using j by (simp add: indexEntrySize_def)
  then show "last_entry t1 (int (6 * Suc j) - int indexEntrySize) old = es ! (j - 1)"
    using readAt_index [of "j - 1" "take j es"] j small unfolding pos last_entry_def ix
    by (simp add: indexEntrySize_def unmarshal_marshal)
  show "mid_repair es data (j - 1) t1" if "ie_filenum (es ! (j - 1)) = ie_filenum (es ! j)"
    using mid ix that by (simp add: mid_repair_def sj) (simp add: t1_def)
  show "\<exists>t2. openFile (ie_filenum (es ! (j - 1))) ForAppend (releaseFile (ie_filenum (es ! j)) t1) = Inr t2 \<and>
        mid_repair es data (j - 1) (t2\<lparr>fz_head := Some (ie_filenum (es ! (j - 1)))\<rparr>)"
    if "ie_filenum (es ! (j - 1)) \<noteq> ie_filenum (es ! j)"
    using mid ix that data by (auto simp: mid_repair_def sj openFile_def releaseFile_def t1_def)
qed

lemma repair_loop_stop:
  assumes mid: "mid_repair es data j t" and h: "data (ie_filenum (es ! j)) = Some h" "unat (ie_offset (es ! j)) \<le> length h"
  shows "repair_loop t sz (es ! j) (file_size t (ie_filenum (es ! j))) (uint (ie_offset (es ! j))) =
    Inr (t\<lparr>fz_data := data(ie_filenum (es ! j) \<mapsto> take (unat (ie_offset (es ! j))) h)\<rparr>, sz, es ! j, uint (ie_offset (es ! j)))"
proof -
  have fsz: "file_size t (ie_filenum (es ! j)) = int (length h)" using mid h by (simp add: file_size_def mid_repair_def)
  have uo: "uint (ie_offset (es ! j)) = int (unat (ie_offset (es ! j)))" by simp
  show ?thesis
  proof (cases "unat (ie_offset (es ! j)) = length h")
    case True
    then have "t\<lparr>fz_data := data(ie_filenum (es ! j) \<mapsto> take (unat (ie_offset (es ! j))) h)\<rparr> = t"
      using mid h by (simp add: mid_repair_def fun_upd_idem)
    with True fsz uo show ?thesis by (subst repair_loop.simps) simp
  next
    case False
    then have lt: "uint (ie_offset (es ! j)) < int (length h)" "uint (ie_offset (es ! j)) \<noteq> int (length h)"
      using h by (auto simp: uint_nat simp del: of_nat_unat)
    have "truncated (uint (ie_offset (es ! j))) h = take (unat (ie_offset (es ! j))) h"
      using truncated_prefix [OF h(2)] by (simp add: uint_nat del: of_nat_unat)
    then have "truncate_file (the (fz_head t)) (uint (ie_offset (es ! j))) t =
        Inr (t\<lparr>fz_data := data(ie_filenum (es ! j) \<mapsto> take (unat (ie_offset (es ! j))) h)\<rparr>)"
      using mid h by (simp add: truncate_file_def mid_repair_def)
    with lt show ?thesis unfolding fsz
      by (subst repair_loop.simps) simp
  qed
qed

lemma repair_loop_rep:
  assumes rep: "fz_rep es t0 bs" and cr: "crashed t0 data g"
  shows "mid_repair es data j t \<Longrightarrow> j \<le> length bs \<Longrightarrow>
    \<exists>m t'. m \<le> j \<and> repair_loop t (int (6 * Suc j)) (es ! j) (file_size t (ie_filenum (es ! j))) (uint (ie_offset (es ! j)))
        = Inr (t', int (6 * Suc m), es ! m, uint (ie_offset (es ! m))) \<and>
      mid_repair es (fz_data t') m t' \<and> (\<forall>n. n \<noteq> ie_filenum (es ! m) \<longrightarrow> fz_data t' n = data n) \<and>
      (\<exists>h. data (ie_filenum (es ! m)) = Some h \<and> unat (ie_offset (es ! m)) \<le> length h \<and>
        fz_data t' (ie_filenum (es ! m)) = Some (take (unat (ie_offset (es ! m))) h)) \<and>
      (\<forall>i. m < i \<longrightarrow> i \<le> j \<longrightarrow> ie_filenum (es ! i) = fz_headId t0 \<and> length g < unat (ie_offset (es ! i))) \<and>
      fz_noCompression t' = fz_noCompression t \<and> fz_maxFileSize t' = fz_maxFileSize t"
proof (induction j arbitrary: t rule: less_induct)
  case (less j t)
  from crashed_file [OF rep cr less.prems(2)] obtain h where h: "data (ie_filenum (es ! j)) = Some h"
    "unat (ie_offset (es ! j)) \<le> length h \<or> ie_filenum (es ! j) = fz_headId t0 \<and> h = g \<and> 0 < j" by blast
  show ?case
  proof (cases "unat (ie_offset (es ! j)) \<le> length h")
    case True
    with repair_loop_stop [OF less.prems(1) h(1)] less.prems(1) h(1) show ?thesis
      by (intro exI [of _ j]) (auto simp: mid_repair_def)
  next
    case False
    with h(2) have lost: "ie_filenum (es ! j) = fz_headId t0" "h = g" "0 < j" by auto
    have sj: "Suc (j - Suc 0) = j" using lost by simp
    have len: "length es = Suc (length bs)" and small: "\<forall>e \<in> set es. small_entry e"
      using rep by (simp_all add: fz_rep_def stored_def)
    have j: "j < length es" "j - 1 \<le> length bs" "j - 1 < j" using lost less.prems(2) len by auto
    define t1 where "t1 = t\<lparr>fz_index := truncated (int (6 * Suc j) - int indexEntrySize) (fz_index t)\<rparr>"
    define prv where "prv = es ! (j - 1)"
    have "data (ie_filenum prv) \<noteq> None" using crashed_file [OF rep cr j(2)] by (auto simp: prv_def)
    note mb = mid_repair_back [OF less.prems(1) lost(3) j(1) small this [unfolded prv_def], folded t1_def, folded prv_def]
    have sz: "int (6 * Suc j) - int indexEntrySize = int (6 * Suc (j - 1))"
      using lost(3) by (simp add: indexEntrySize_def)
    have pos: "\<not> int (6 * Suc j) - int indexEntrySize < 0" unfolding sz by simp
    have fsz: "file_size t (ie_filenum (es ! j)) = int (length g)"
      using less.prems(1) h(1) lost(2) by (simp add: file_size_def mid_repair_def)
    have gt: "\<not> uint (ie_offset (es ! j)) = file_size t (ie_filenum (es ! j))"
        "\<not> uint (ie_offset (es ! j)) < file_size t (ie_filenum (es ! j))"
      using False lost(2) unfolding fsz by (auto simp: uint_nat simp del: of_nat_unat)
    note one = repair_loop.simps [of t "int (6 * Suc j)" "es ! j" "file_size t (ie_filenum (es ! j))" "uint (ie_offset (es ! j))"]
    let ?run = "repair_loop t (int (6 * Suc j)) (es ! j) (file_size t (ie_filenum (es ! j))) (uint (ie_offset (es ! j)))"
    have go: "?run = (if ie_filenum prv \<noteq> ie_filenum (es ! j) then
          case openFile (ie_filenum prv) ForAppend (releaseFile (ie_filenum (es ! j)) t1) of
            Inl e \<Rightarrow> Inl e
          | Inr t \<Rightarrow>
              let t = t\<lparr>fz_head := Some (ie_filenum prv)\<rparr> in
              repair_loop t (int (6 * Suc (j - 1))) prv (file_size t (ie_filenum prv)) (uint (ie_offset prv))
        else repair_loop t1 (int (6 * Suc (j - 1))) prv (file_size t (ie_filenum (es ! j))) (uint (ie_offset prv)))"
      unfolding one if_not_P [OF gt(1)] if_not_P [OF gt(2)] if_not_P [OF pos] t1_def [symmetric] Let_def mb(2)
      unfolding sz ..
    obtain t2 where t2: "mid_repair es data (j - 1) t2"
      "repair_loop t (int (6 * Suc j)) (es ! j) (file_size t (ie_filenum (es ! j))) (uint (ie_offset (es ! j))) =
       repair_loop t2 (int (6 * Suc (j - 1))) prv (file_size t2 (ie_filenum prv)) (uint (ie_offset prv))"
      "fz_noCompression t2 = fz_noCompression t" "fz_maxFileSize t2 = fz_maxFileSize t"
    proof (cases "ie_filenum prv = ie_filenum (es ! j)")
      case True
      have "file_size t1 (ie_filenum prv) = file_size t (ie_filenum (es ! j))"
        by (simp add: True t1_def file_size_def)
      with True have "?run = repair_loop t1 (int (6 * Suc (j - 1))) prv (file_size t1 (ie_filenum prv)) (uint (ie_offset prv))"
        by (simp only: go not_True_eq_False not_False_eq_True simp_thms if_False)
      with True mb(4) show ?thesis by (intro that [of t1]) (simp_all add: t1_def)
    next
      case False
      from mb(3) [OF this] obtain t2 where t2: "openFile (ie_filenum prv) ForAppend (releaseFile (ie_filenum (es ! j)) t1) = Inr t2"
        "mid_repair es data (j - 1) (t2\<lparr>fz_head := Some (ie_filenum prv)\<rparr>)" by auto
      have same: "fz_noCompression t2 = fz_noCompression t" "fz_maxFileSize t2 = fz_maxFileSize t"
        using t2(1) by (auto simp: openFile_def releaseFile_def t1_def split: if_splits)
      have fs: "file_size (t2\<lparr>fz_head := Some (ie_filenum prv)\<rparr>) (ie_filenum prv) = file_size t2 (ie_filenum prv)"
        by (simp add: file_size_def)
      from False t2(1) have "?run = repair_loop (t2\<lparr>fz_head := Some (ie_filenum prv)\<rparr>) (int (6 * Suc (j - 1))) prv
          (file_size (t2\<lparr>fz_head := Some (ie_filenum prv)\<rparr>) (ie_filenum prv)) (uint (ie_offset prv))"
        by (simp only: go not_True_eq_False not_False_eq_True simp_thms if_True Let_def sum.case)
      with t2(2) same show ?thesis by (intro that [of "t2\<lparr>fz_head := Some (ie_filenum prv)\<rparr>"]) simp_all
    qed
    from less.IH [OF j(3) t2(1) j(2)] obtain m t' where *: "m \<le> j - 1"
      "repair_loop t2 (int (6 * Suc (j - 1))) prv (file_size t2 (ie_filenum prv)) (uint (ie_offset prv))
        = Inr (t', int (6 * Suc m), es ! m, uint (ie_offset (es ! m)))"
      "mid_repair es (fz_data t') m t'" "\<forall>n. n \<noteq> ie_filenum (es ! m) \<longrightarrow> fz_data t' n = data n"
      "\<exists>h. data (ie_filenum (es ! m)) = Some h \<and> unat (ie_offset (es ! m)) \<le> length h \<and>
        fz_data t' (ie_filenum (es ! m)) = Some (take (unat (ie_offset (es ! m))) h)"
      "\<forall>i. m < i \<longrightarrow> i \<le> j - 1 \<longrightarrow> ie_filenum (es ! i) = fz_headId t0 \<and> length g < unat (ie_offset (es ! i))"
      "fz_noCompression t' = fz_noCompression t2" "fz_maxFileSize t' = fz_maxFileSize t2"
      unfolding prv_def by blast
    have "ie_filenum (es ! i) = fz_headId t0 \<and> length g < unat (ie_offset (es ! i))" if "m < i" "i \<le> j" for i
      using *(6) that lost False by (cases "i = j") auto
    with * t2 show ?thesis
      by (intro exI [of _ m] exI [of _ t']) auto
  qed
qed

lemma open_range_ok:
  assumes "unat i + k < 2 ^ 32"
    "\<And>n. unat i \<le> unat n \<Longrightarrow> unat n < unat i + k \<Longrightarrow> fz_files t n = None \<and> fz_data t n \<noteq> None"
  shows "open_range k i t = Inr (t\<lparr>fz_files :=
    (\<lambda>n. if unat i \<le> unat n \<and> unat n < unat i + k then Some ReadOnly else fz_files t n)\<rparr>)"
  using assms
proof (induction k arbitrary: i t)
  case 0
  have "(\<lambda>n. if unat i \<le> unat n \<and> unat n < unat i + 0 then Some ReadOnly else fz_files t n) = fz_files t"
    by (auto simp: fun_eq_iff)
  then show ?case by (simp only: open_range.simps) simp
next
  case (Suc k)
  have i1: "unat (i + 1) = unat i + 1" using Suc.prems(1) by (simp add: unat_word_ariths)
  define t1 where "t1 = t\<lparr>fz_files := (fz_files t)(i \<mapsto> ReadOnly)\<rparr>"
  have o: "openFile i ForReadOnly t = Inr t1" using Suc.prems(2) [of i] by (auto simp: openFile_def t1_def)
  have "fz_files t1 n = None \<and> fz_data t1 n \<noteq> None" if "unat (i + 1) \<le> unat n" "unat n < unat (i + 1) + k" for n
    using Suc.prems(2) [of n] that i1 by (auto simp: t1_def)
  then have "open_range k (i + 1) t1 = Inr (t1\<lparr>fz_files :=
      (\<lambda>n. if unat (i + 1) \<le> unat n \<and> unat n < unat (i + 1) + k then Some ReadOnly else fz_files t1 n)\<rparr>)"
    using Suc.prems(1) i1 by (intro Suc.IH) auto
  also have "(\<lambda>n. if unat (i + 1) \<le> unat n \<and> unat n < unat (i + 1) + k then Some ReadOnly else fz_files t1 n) =
      (\<lambda>n. if unat i \<le> unat n \<and> unat n < unat i + Suc k then Some ReadOnly else fz_files t n)"
    using i1 by (auto simp: t1_def fun_eq_iff word_unat_eq_iff)
  finally show ?case using o by (simp add: t1_def)
qed

text \<open>\<open>preopen\<close> leaves exactly the files up to the head open, the head for writing.\<close>

lemma preopen_ok:
  assumes "fz_files t = [fz_headId t \<mapsto> ReadWrite]" "fz_tailId t = 0" "\<forall>n \<le> fz_headId t. fz_data t n \<noteq> None"
  shows "preopen t = Inr (t\<lparr>fz_head := Some (fz_headId t), fz_files :=
    (\<lambda>n. if n < fz_headId t then Some ReadOnly else if n = fz_headId t then Some ReadWrite else None)\<rparr>)"
proof (cases "fz_headId t = 0")
  case True
  then show ?thesis using assms
    by (simp add: preopen_def releaseFilesAfter_def openFile_def restrict_map_def fun_upd_def)
      (rule freezerTable.equality; simp add: fun_eq_iff)
next
  case False
  let ?h = "fz_headId t"
  define t1 where "t1 = t\<lparr>fz_files := Map.empty\<rparr>"
  have "fz_files t |` {m. m \<le> 0} = Map.empty" using assms(1) False by (auto simp: restrict_map_def fun_eq_iff)
  then have r: "releaseFilesAfter 0 False t = t1" by (simp add: releaseFilesAfter_def t1_def)
  define t2 where "t2 = t1\<lparr>fz_files := (\<lambda>n. if n < ?h then Some ReadOnly else None)\<rparr>"
  have o: "open_range (unat ?h) 0 t1 = Inr t2"
  proof -
    have "unat (0 :: u32) + unat ?h < 2 ^ 32" using unsigned_less [where 'a = nat, of ?h] by simp
    moreover have "fz_files t1 n = None \<and> fz_data t1 n \<noteq> None" if "unat n < unat (0 :: u32) + unat ?h" for n
      using assms(3) that by (simp add: t1_def word_le_nat_alt)
    moreover have "fz_files t1 n = None" for n by (simp add: t1_def)
    ultimately show ?thesis
      by (subst open_range_ok) (simp_all add: t2_def word_less_nat_alt cong: if_cong)
  qed
  have d: "fz_data t2 ?h \<noteq> None" using assms(3) by (simp add: t2_def t1_def)
  have f: "(fz_files t2)(?h \<mapsto> ReadWrite) =
      (\<lambda>n. if n < ?h then Some ReadOnly else if n = ?h then Some ReadWrite else None)"
    by (auto simp: t2_def fun_eq_iff)
  have "openFile ?h ForAppend t2 = Inr (t2\<lparr>fz_files := (fz_files t2)(?h \<mapsto> ReadWrite)\<rparr>)"
    using d by (auto simp: openFile_def) (simp_all add: t2_def)
  then have ap: "openFile ?h ForAppend t2 = Inr (t\<lparr>fz_files :=
      (\<lambda>n. if n < ?h then Some ReadOnly else if n = ?h then Some ReadWrite else None)\<rparr>)"
    unfolding f by (simp add: t2_def t1_def)
  have h: "fz_headId t1 = ?h" "fz_tailId t1 = 0" "fz_headId t2 = ?h"
    using assms(2) by (simp_all add: t2_def t1_def)
  have pos: "0 < ?h" using False by (simp add: word_neq_0_conv)
  show ?thesis by (simp add: preopen_def r Let_def h o ap pos)
qed

lemma mid_repair_finish:
  assumes rep: "fz_rep es t0 bs" and cr: "crashed t0 data g" and m: "m \<le> length bs"
    and mid: "mid_repair es (fz_data t) m t" "\<forall>n. n \<noteq> ie_filenum (es ! m) \<longrightarrow> fz_data t n = data n"
    and h: "data (ie_filenum (es ! m)) = Some h" "unat (ie_offset (es ! m)) \<le> length h"
      "fz_data t (ie_filenum (es ! m)) = Some (take (unat (ie_offset (es ! m))) h)"
  shows "\<exists>t'. preopen (t\<lparr>fz_items := ucast (fz_itemOffset t) + word_of_int (int (6 * Suc m) div int indexEntrySize - 1),
      fz_headBytes := word_of_int (uint (ie_offset (es ! m))), fz_headId := ie_filenum (es ! m)\<rparr>) = Inr t' \<and>
    fz_rep (take (Suc m) es) t' (take m bs) \<and>
    fz_noCompression t' = fz_noCompression t \<and> fz_maxFileSize t' = fz_maxFileSize t"
proof -
  have st: "stored es (fz_data t0) bs" and len: "length es = Suc (length bs)"
    and head: "fz_headId t0 = ie_filenum (es ! length bs)"
    using rep fz_rep_last [OF rep] by (simp_all add: fz_rep_def stored_def)
  define e where "e = es ! m"
  have fn: "ie_filenum e \<le> fz_headId t0" using stored_mono [OF st m] head by (simp add: e_def)
  have data: "n \<le> ie_filenum e \<Longrightarrow> data n \<noteq> None" for n
    using cr fn rep by (cases "n = fz_headId t0") (auto simp: crashed_def fz_rep_def)
  have tdata: "fz_data t n \<noteq> None" if "n \<le> ie_filenum e" for n
    using data [OF that] mid(2) h(3) by (cases "n = ie_filenum e") (auto simp: e_def)
  define t1 where "t1 = t\<lparr>fz_items := word_of_nat m, fz_headBytes := ie_offset e, fz_headId := ie_filenum e\<rparr>"
  have q: "int (6 * Suc m) div int indexEntrySize - 1 = int m" by (simp add: indexEntrySize_def)
  have arg: "t\<lparr>fz_items := ucast (fz_itemOffset t) + word_of_int (int (6 * Suc m) div int indexEntrySize - 1),
      fz_headBytes := word_of_int (uint (ie_offset (es ! m))), fz_headId := ie_filenum (es ! m)\<rparr> = t1"
    using mid(1) unfolding q by (simp add: t1_def e_def mid_repair_def)
  define t2 where "t2 = t1\<lparr>fz_head := Some (fz_headId t1), fz_files :=
    (\<lambda>n. if n < fz_headId t1 then Some ReadOnly else if n = fz_headId t1 then Some ReadWrite else None)\<rparr>"
  have p: "preopen t1 = Inr t2"
    unfolding t2_def using mid(1) tdata by (intro preopen_ok) (auto simp: t1_def mid_repair_def e_def)
  have last: "last (take (Suc m) es) = e" using m len by (simp add: take_Suc_conv_app_nth e_def)
  have "stored (take (Suc m) es) (fz_data t2) (take m bs)"
  proof (rule stored_take [OF st m])
    show "fz_data t2 n = fz_data t0 n" if "n < ie_filenum (es ! m)" for n
      using that mid(2) cr fn by (auto simp: t2_def t1_def crashed_def e_def)
    show "\<exists>g. fz_data t2 (ie_filenum (es ! m)) = Some g \<and> unat (ie_offset (es ! m)) \<le> length g \<and>
        take (unat (ie_offset (es ! m))) g = take (unat (ie_offset (es ! m))) f"
      if "fz_data t0 (ie_filenum (es ! m)) = Some f" for f
      using crashed_file [OF rep cr m] h that length_take [of "unat (ie_offset (es ! m))" h]
      by (auto simp: t2_def t1_def simp del: length_take)
  qed
  moreover have "\<forall>x \<in> set (take (Suc m) es). small_entry x" using rep by (meson fz_rep_def in_set_takeD)
  moreover have "6 * (length (take m bs) + 2) < 2 ^ 63" using rep m by (simp add: fz_rep_def)
  ultimately have "fz_rep (take (Suc m) es) t2 (take m bs)"
    using rep mid(1) h m len tdata by (auto simp: fz_rep_def last t2_def t1_def mid_repair_def e_def)
  with p arg show ?thesis by (auto simp: t2_def t1_def)
qed

text \<open>
  Reopening the files of a crashed table: the index has kept the entries up to \<open>k\<close> and perhaps
  part of another.
\<close>

lemma repair_crashed:
  assumes rep: "fz_rep es t0 bs" and cr: "crashed t0 data g" and k: "k \<le> length bs" and part: "length part < 6"
  shows "\<exists>m t. m \<le> k \<and> newCustomTable (index_of_entries (take (Suc k) es) @ part) data mx nc = Inr t \<and>
    fz_rep (take (Suc m) es) t (take m bs) \<and> fz_noCompression t = nc \<and> fz_maxFileSize t = mx \<and>
    (\<forall>i. m < i \<longrightarrow> i \<le> k \<longrightarrow> ie_filenum (es ! i) = fz_headId t0 \<and> length g < unat (ie_offset (es ! i)))"
proof -
  define ix where "ix = index_of_entries (take (Suc k) es)"
  have len: "length es = Suc (length bs)" and small: "\<forall>e \<in> set es. small_entry e" and z: "es ! 0 = zero_entry"
    using rep by (simp_all add: fz_rep_def stored_def)
  have lix: "length ix = 6 * Suc k" using k len by (simp add: ix_def)
  define s0 where "s0 = \<lparr>fz_items = 0, fz_noCompression = nc, fz_maxFileSize = mx,
       fz_head = None, fz_files = Map.empty, fz_headId = 0, fz_tailId = 0, fz_indexOpen = True,
       fz_itemOffset = 0, fz_headBytes = 0, fz_index = ix, fz_data = data\<rparr>"
  have ent: "readAt ix indexEntrySize (int (6 * i)) = Inr (marshallBinary (es ! i))" if "i \<le> k" for i
    using readAt_index [of i "take (Suc k) es"] that k len by (simp add: ix_def indexEntrySize_def)
  have first: "readAt ix indexEntrySize 0 = Inr (marshallBinary zero_entry)" using ent [of 0] z by simp
  have off: "int (6 * Suc k) - int indexEntrySize = int (6 * k)" by (simp add: indexEntrySize_def)
  have sz: "se = es ! k \<Longrightarrow> small_entry se" for se using small k len by simp
  have lst: "last_entry s (int (6 * Suc k)) old = es ! k" if "fz_index s = ix" for s old
    using ent [of k] sz [OF refl] unfolding last_entry_def off that by (simp add: unmarshal_marshal)
  obtain f where f: "data (ie_filenum (es ! k)) = Some f" using crashed_file [OF rep cr k] by auto
  define s1 where "s1 = s0\<lparr>fz_files := [ie_filenum (es ! k) \<mapsto> ReadWrite], fz_head := Some (ie_filenum (es ! k))\<rparr>"
  have "mid_repair es data k s1" by (simp add: mid_repair_def s1_def s0_def ix_def)
  from repair_loop_rep [OF rep cr this k] obtain m t h where m: "m \<le> k"
    and run: "repair_loop s1 (int (6 * Suc k)) (es ! k) (file_size s1 (ie_filenum (es ! k))) (uint (ie_offset (es ! k)))
        = Inr (t, int (6 * Suc m), es ! m, uint (ie_offset (es ! m)))"
    and mid: "mid_repair es (fz_data t) m t" "\<forall>n. n \<noteq> ie_filenum (es ! m) \<longrightarrow> fz_data t n = data n"
    and h: "data (ie_filenum (es ! m)) = Some h" "unat (ie_offset (es ! m)) \<le> length h"
        "fz_data t (ie_filenum (es ! m)) = Some (take (unat (ie_offset (es ! m))) h)"
    and lost: "\<forall>i. m < i \<longrightarrow> i \<le> k \<longrightarrow> ie_filenum (es ! i) = fz_headId t0 \<and> length g < unat (ie_offset (es ! i))"
    and cfg: "fz_noCompression t = nc" "fz_maxFileSize t = mx"
    by (auto simp: s1_def s0_def)
  from mid_repair_finish [OF rep cr _ mid h] m k cfg obtain t' where t':
    "preopen (t\<lparr>fz_items := ucast (fz_itemOffset t) + word_of_int (int (6 * Suc m) div int indexEntrySize - 1),
      fz_headBytes := word_of_int (uint (ie_offset (es ! m))), fz_headId := ie_filenum (es ! m)\<rparr>) = Inr t'"
    "fz_rep (take (Suc m) es) t' (take m bs)" "fz_noCompression t' = nc" "fz_maxFileSize t' = mx" by auto
  have o: "openFile (ie_filenum (es ! k)) ForAppend s0 = Inr (s0\<lparr>fz_files := [ie_filenum (es ! k) \<mapsto> ReadWrite]\<rparr>)"
    using f by (simp add: openFile_def s0_def)
  have se: "small_entry zero_entry" by (simp add: small_entry_def zero_entry_def)
  have s0: "s0\<lparr>fz_tailId := ie_offset zero_entry, fz_itemOffset := ie_filenum zero_entry\<rparr> = s0"
    by (simp add: s0_def zero_entry_def)
  have tot: "int (length (ix @ part)) \<noteq> 0" "int (length (ix @ part)) mod int indexEntrySize = int (length part)"
      "int (length (ix @ part)) - int (length part) = int (length ix)"
    using part unfolding length_append lix indexEntrySize_def by (simp_all, presburger)
  have cut: "truncated (int (length ix)) (ix @ part) = ix" by (simp add: truncated_prefix)
  define s' where "s' = s0\<lparr>fz_index := ix @ part\<rparr>"
  have s': "(if int (length part) \<noteq> 0 then s'\<lparr>fz_index := truncated (int (length ix)) (ix @ part)\<rparr> else s') = s0"
    "fz_index s' = ix @ part"
    using cut by (auto simp: s'_def s0_def)
  have fi: "fz_index s0 = ix" by (simp add: s0_def)
  have "newCustomTable (ix @ part) data mx nc = repair s'" by (simp add: newCustomTable_def s'_def s0_def)
  also have "\<dots> = Inr t'"
    unfolding repair_def s'(2) tot(2,3) Let_def if_not_P [OF tot(1)]
    unfolding s'(1) fi
    unfolding lix first sum.case unmarshal_marshal [OF se] s0 lst [OF fi] o ebind_simps s1_def [symmetric]
    using run t'(1) by (simp only: ebind_simps prod.case) 
  finally have "newCustomTable (ix @ part) data mx nc = Inr t'" .
  with t' m lost show ?thesis unfolding ix_def by blast
qed

section \<open>The interface of a log\<close>

text \<open>
  What the ancient store needs of a table: a list that grows at its end, is read by position
  and is cut to a length.
\<close>

locale append_log =
  fixes holds :: "'t \<Rightarrow> 'b list \<Rightarrow> bool"
    and fits :: "'t \<Rightarrow> 'b \<Rightarrow> bool"
    and add_at :: "u64 \<Rightarrow> 'b \<Rightarrow> 't \<Rightarrow> 'e + 't"
    and get_at :: "u64 \<Rightarrow> 't \<Rightarrow> 'e + 'b"
    and cut_to :: "u64 \<Rightarrow> 't \<Rightarrow> 'e + 't"
    and items :: "'t \<Rightarrow> u64"
  assumes counted: "holds t bs \<Longrightarrow> unat (items t) = length bs"
    and added: "holds t bs \<Longrightarrow> fits t b \<Longrightarrow> \<exists>t'. add_at (items t) b t = Inr t' \<and> holds t' (bs @ [b])"
    and refused: "holds t bs \<Longrightarrow> n \<noteq> items t \<Longrightarrow> \<exists>e. add_at n b t = Inl e"
    and got: "holds t bs \<Longrightarrow> unat n < length bs \<Longrightarrow> get_at n t = Inr (bs ! unat n)"
    and beyond: "holds t bs \<Longrightarrow> length bs \<le> unat n \<Longrightarrow> \<exists>e. get_at n t = Inl e"
    and cut: "holds t bs \<Longrightarrow> \<exists>t'. cut_to n t = Inr t' \<and> holds t' (take (unat n) bs)"
begin

lemma same_contents: "holds t bs \<Longrightarrow> holds t cs \<Longrightarrow> bs = cs"
proof (rule nth_equalityI)
  assume h: "holds t bs" "holds t cs"
  then show len: "length bs = length cs" using counted by metis
  fix i assume i: "i < length bs"
  then have "i < 2 ^ 64"
    using counted [OF h(1)] unsigned_less [where 'a = nat, of "items t"] by simp
  then have "unat (word_of_nat i :: u64) = i" by (simp add: unat_of_nat)
  then show "bs ! i = cs ! i"
    using got [OF h(1), of "word_of_nat i"] got [OF h(2), of "word_of_nat i"] i len by simp
qed

text \<open>Cutting back to the old length undoes an append, and an append keeps the older items.\<close>

lemma append_cut:
  assumes "holds t bs" "fits t b"
  shows "\<exists>t' t''. add_at (items t) b t = Inr t' \<and> cut_to (items t) t' = Inr t'' \<and> holds t'' bs"
proof -
  from added [OF assms] obtain t' where t': "add_at (items t) b t = Inr t'" "holds t' (bs @ [b])" by auto
  from cut [OF t'(2), of "items t"] counted [OF assms(1)] t'(1) show ?thesis by auto
qed

lemma append_get:
  assumes "holds t bs" "add_at (items t) b t = Inr t'" "holds t' (bs @ [b])" "unat n < length bs"
  shows "get_at n t' = get_at n t"
  using got [OF assms(1,4)] got [OF assms(3), of n] assms(4) by (simp add: nth_append)

end

text \<open>A log with room for a number of small items.\<close>

locale bounded_log = append_log +
  fixes roomy :: "nat \<Rightarrow> 't \<Rightarrow> bool"
    and small :: "'b \<Rightarrow> bool"
  assumes roomy_fits: "roomy (Suc k) t \<Longrightarrow> small b \<Longrightarrow> fits t b"
    and roomy_step: "roomy (Suc k) t \<Longrightarrow> add_at n b t = Inr t' \<Longrightarrow> roomy k t'"
begin

lemma added_small:
  assumes "holds t bs" "roomy (Suc k) t" "small b"
  shows "\<exists>t'. add_at (items t) b t = Inr t' \<and> holds t' (bs @ [b]) \<and> roomy k t'"
  using added [OF assms(1) roomy_fits [OF assms(2,3)]] roomy_step [OF assms(2)] by blast

end

text \<open>The items of a table, as \<open>Retrieve\<close> gives them back.\<close>

definition restored :: "snappy \<Rightarrow> freezerTable \<Rightarrow> bytes \<Rightarrow> bytes \<Rightarrow> bool" where
  "restored sn t x b \<longleftrightarrow> (if fz_noCompression t then Inr x else snappyDecode sn x) = Inr b"

definition fz_holds :: "snappy \<Rightarrow> freezerTable \<Rightarrow> bytes list \<Rightarrow> bool" where
  "fz_holds sn t bs \<longleftrightarrow> (\<exists>xs. fz_inv t xs \<and> list_all2 (restored sn t) xs bs)"

definition fz_fits :: "snappy \<Rightarrow> freezerTable \<Rightarrow> bytes \<Rightarrow> bool" where
  "fz_fits sn t b \<longleftrightarrow> room sn t b \<and> restored sn t (on_disk sn t b) b"

lemma restored_cong: "fz_noCompression t' = fz_noCompression t \<Longrightarrow> restored sn t' = restored sn t"
  by (simp add: restored_def fun_eq_iff)

lemma Append_unexpected: "fz_rep es t xs \<Longrightarrow> n \<noteq> fz_items t \<Longrightarrow> Append sn n b t = Inl (errUnexpectedItem (fz_items t) n)"
  by (auto simp: Append_def fz_rep_def)

lemma fz_holds_items: "fz_holds sn t bs \<Longrightarrow> unat (fz_items t) = length bs"
  using fz_rep_items by (auto simp: fz_holds_def fz_inv_def dest: list_all2_lengthD)

lemma fz_holds_append:
  assumes "fz_holds sn t bs" "fz_fits sn t b"
  shows "\<exists>t'. Append sn (fz_items t) b t = Inr t' \<and> fz_holds sn t' (bs @ [b])"
proof -
  obtain es xs where rep: "fz_rep es t xs" and xs: "list_all2 (restored sn t) xs bs"
    using assms(1) by (auto simp: fz_holds_def fz_inv_def)
  have fit: "room sn t b" "restored sn t (on_disk sn t b) b" using assms(2) by (simp_all add: fz_fits_def)
  from Append_rep [OF rep fit(1)] obtain t' e where t': "Append sn (fz_items t) b t = Inr t'"
    "fz_rep (es @ [e]) t' (xs @ [on_disk sn t b])" "fz_noCompression t' = fz_noCompression t" by auto
  have "list_all2 (restored sn t') (xs @ [on_disk sn t b]) (bs @ [b])"
    using xs fit(2) by (simp add: restored_cong [OF t'(3)] list_all2_appendI)
  with t' show ?thesis by (auto simp: fz_holds_def fz_inv_def)
qed

lemma fz_holds_get:
  assumes "fz_holds sn t bs"
  shows "Retrieve sn n t = (if unat n < length bs then Inr (bs ! unat n) else Inl errOutOfBounds)"
proof -
  obtain es xs where rep: "fz_rep es t xs" and xs: "list_all2 (restored sn t) xs bs"
    using assms by (auto simp: fz_holds_def fz_inv_def)
  note len = list_all2_lengthD [OF xs]
  show ?thesis
  proof (cases "unat n < length bs")
    case True
    have "Retrieve sn n t = (if fz_noCompression t then Inr (xs ! unat n) else snappyDecode sn (xs ! unat n))"
      using Retrieve_rep [OF rep, of "unat n"] True len by simp
    also have "\<dots> = Inr (bs ! unat n)"
      using list_all2_nthD2 [OF xs True] by (simp add: restored_def)
    finally show ?thesis using True by simp
  qed (use Retrieve_beyond [OF rep] len in simp)
qed

lemma fz_holds_truncate:
  assumes "fz_holds sn t bs"
  shows "\<exists>t'. truncate n t = Inr t' \<and> fz_holds sn t' (take (unat n) bs)"
proof -
  obtain es xs where rep: "fz_rep es t xs" and xs: "list_all2 (restored sn t) xs bs"
    using assms by (auto simp: fz_holds_def fz_inv_def)
  from truncate_rep [OF rep, of n] obtain t' where t': "truncate n t = Inr t'"
    "fz_rep (take (Suc (unat n)) es) t' (take (unat n) xs)" "fz_noCompression t' = fz_noCompression t" by auto
  then show ?thesis using list_all2_takeI [OF xs] restored_cong [OF t'(3)]
    by (auto simp: fz_holds_def fz_inv_def)
qed

lemma fz_holds_refused: "fz_holds sn t bs \<Longrightarrow> n \<noteq> fz_items t \<Longrightarrow> Append sn n b t = Inl (errUnexpectedItem (fz_items t) n)"
  by (auto simp: fz_holds_def fz_inv_def Append_unexpected)

interpretation table: append_log "fz_holds sn" "fz_fits sn" "Append sn" "Retrieve sn" truncate fz_items for sn
  by unfold_locales
    (simp_all add: fz_holds_items fz_holds_append fz_holds_get fz_holds_truncate fz_holds_refused)

definition fz_roomy :: "nat \<Rightarrow> freezerTable \<Rightarrow> bool" where
  "fz_roomy k t \<longleftrightarrow> unat (fz_headId t) + k < 2 ^ 16 \<and> 6 * (unat (fz_items t) + k + 2) < 2 ^ 63"

definition small_blob :: "snappy \<Rightarrow> bytes \<Rightarrow> bool" where
  "small_blob sn b \<longleftrightarrow> length b < 2 ^ 32 \<and> length (snappyEncode sn b) < 2 ^ 32 \<and>
     snappyDecode sn (snappyEncode sn b) = Inr b"

lemma Append_counters:
  assumes "Append sn n b t = Inr t'"
  shows "fz_items t' = fz_items t + 1 \<and> (fz_headId t' = fz_headId t \<or> fz_headId t' = fz_headId t + 1)"
  using assms
  by (auto simp: Append_def advance_head_def openFile_def releaseFile_def write_file_def Let_def ebind_Inr_iff
      split: option.splits if_splits)

lemma unat_Suc_le: "unat (x + 1 :: 'a :: len word) \<le> unat x + 1"
  by (simp add: unat_word_ariths)

interpretation bounded_table: bounded_log "fz_holds sn" "fz_fits sn" "Append sn" "Retrieve sn" truncate fz_items fz_roomy "small_blob sn" for sn
proof unfold_locales
  show "fz_fits sn t b" if "fz_roomy (Suc k) t" "small_blob sn b" for k t b
    using that by (auto simp: fz_fits_def fz_roomy_def small_blob_def room_def on_disk_def restored_def)
  show "fz_roomy k t'" if "fz_roomy (Suc k) t" "Append sn n b t = Inr t'" for k t n b t'
    using that(1) Append_counters [OF that(2)] unat_Suc_le [of "fz_items t"] unat_Suc_le [of "fz_headId t"]
    by (auto simp: fz_roomy_def)
qed

section \<open>Properties\<close>

definition fresh_table :: "u32 \<Rightarrow> bool \<Rightarrow> freezerTable" where
  "fresh_table mx nc = \<lparr>fz_items = 0, fz_noCompression = nc, fz_maxFileSize = mx,
     fz_head = Some 0, fz_files = [0 \<mapsto> ReadWrite], fz_headId = 0, fz_tailId = 0, fz_indexOpen = True,
     fz_itemOffset = 0, fz_headBytes = 0, fz_index = [0, 0, 0, 0, 0, 0], fz_data = [0 \<mapsto> []]\<rparr>"

lemma six_zeros: "replicate 6 0 = [0, 0, 0, 0, 0, 0 :: u8]"
  by (simp add: numeral_eq_Suc)

lemma marshall_zero: "marshallBinary zero_entry = [0, 0, 0, 0, 0, 0]"
  by (simp add: marshallBinary_def zero_entry_def be16_def be32_def wire_simps)

lemma unmarshal_zero: "unmarshalBinary [0, 0, 0, 0, 0, 0] = zero_entry"
  using unmarshal_marshal [of zero_entry] by (simp only: marshall_zero) (simp add: small_entry_def zero_entry_def)

lemmas open_simps = newCustomTable_def repair_def Let_def six_zeros readAt_def last_entry_def unmarshal_zero
  openFile_def file_size_def preopen_def releaseFilesAfter_def indexEntrySize_def zero_entry_def

lemma open_fresh: "newCustomTable [] Map.empty mx nc = Inr (fresh_table mx nc)"
  by (simp add: open_simps fresh_table_def repair_loop.simps [of _ "6"] restrict_map_def fun_upd_def cong: if_cong)

lemma fresh_rep: "fz_rep [zero_entry] (fresh_table mx nc) []"
proof -
  have "(n \<le> 0) = (n = 0)" for n :: u32 by (simp add: word_le_nat_alt word_unat_eq_iff)
  then show ?thesis
    by (simp add: fz_rep_def fresh_table_def marshall_zero stored_def) (simp add: small_entry_def zero_entry_def)
qed

text \<open>
  C22: A table is the list of its items. Every item can be read back by its number and a number
  past the end is out of bounds; an item appended under the next number becomes the last one,
  under any other number it is refused; truncating keeps exactly the first items, whatever
  number of data files the table has grown to.
\<close>

theorem table_is_a_list:
  assumes "fz_holds sn t bs"
  shows "(\<forall>n. Retrieve sn n t = (if unat n < length bs then Inr (bs ! unat n) else Inl errOutOfBounds)) \<and>
    (\<forall>n. fz_has n t = (unat n < length bs)) \<and>
    (\<forall>b. fz_fits sn t b \<longrightarrow> (\<exists>t'. Append sn (word_of_nat (length bs)) b t = Inr t' \<and> fz_holds sn t' (bs @ [b]))) \<and>
    (\<forall>n b. unat n \<noteq> length bs \<longrightarrow> Append sn n b t = Inl (errUnexpectedItem (word_of_nat (length bs)) n)) \<and>
    (\<forall>n. \<exists>t'. truncate n t = Inr t' \<and> fz_holds sn t' (take (unat n) bs))"
proof -
  have it: "fz_items t = word_of_nat (length bs)" by (simp flip: fz_holds_items [OF assms])
  have "fz_has n t = (unat n < length bs)" for n
    using fz_holds_items [OF assms] by (simp add: fz_has_def word_less_nat_alt)
  moreover have "Append sn n b t = Inl (errUnexpectedItem (word_of_nat (length bs)) n)" if "unat n \<noteq> length bs" for n b
    using fz_holds_refused [OF assms, of n b] that fz_holds_items [OF assms] it by auto
  ultimately show ?thesis
    using fz_holds_get [OF assms] fz_holds_append [OF assms] fz_holds_truncate [OF assms] it by auto
qed

definition plain :: snappy where
  "plain = \<lparr>snappyEncode = id, snappyDecode = Inr\<rparr>"

lemma fresh_holds: "fz_holds sn (fresh_table mx nc) []"
  using fresh_rep by (auto simp: fz_holds_def fz_inv_def)

lemma fresh_fits: "fz_fits plain (fresh_table mx nc) b" if "length b < 2 ^ 32"
  using that by (simp add: fz_fits_def room_def restored_def on_disk_def plain_def fresh_table_def)

theorem table_is_a_list_witness:
  "\<exists>t. Append plain 0 [7, 8] (fresh_table 100 False) = Inr t \<and> fz_holds plain t [[7, 8]]"
  using table_is_a_list [OF fresh_holds [of plain 100 False], THEN conjunct2, THEN conjunct2, THEN conjunct1,
      rule_format, of "[7, 8]"] fresh_fits [of "[7, 8]" 100 False]
  by simp

lemma reopen_prefix:
  assumes "fz_holds sn t bs" "crashed t data g" "6 \<le> n"
  shows "\<exists>m t'. newCustomTable (take n (fz_index t)) data mx (fz_noCompression t) = Inr t' \<and>
    fz_holds sn t' (take m bs) \<and>
    (length (fz_index t) \<le> n \<and> unat (fz_headBytes t) \<le> length g \<longrightarrow> take m bs = bs)"
proof -
  obtain es xs where rep: "fz_rep es t xs" and xs: "list_all2 (restored sn t) xs bs"
    using assms(1) by (auto simp: fz_holds_def fz_inv_def)
  define k where "k = min (length xs) (n div 6 - 1)"
  note len = fz_rep_length [OF rep] and ix = rep [unfolded fz_rep_def, THEN conjunct1]
  obtain part where part: "take n (fz_index t) = index_of_entries (take (Suc k) es) @ part" "length part < 6"
  proof (cases "length xs \<le> n div 6 - 1")
    case True
    then have "take n (fz_index t) = index_of_entries (take (Suc k) es)"
      using assms(3) len by (simp add: ix k_def)
    then show ?thesis by (intro that [of "[]"]) auto
  next
    case False
    define r where "r = n mod 6"
    have n: "n = 6 * Suc k + r" "Suc k \<le> length es"
      using False assms(3) len mult_div_mod_eq [of 6 n] by (auto simp: k_def r_def)
    have "take n (fz_index t) = index_of_entries (take (Suc k) es) @ take r (drop (6 * Suc k) (fz_index t))"
      unfolding n(1) ix take_add take_index [OF n(2)] ..
    then show ?thesis by (rule that) (simp add: r_def)
  qed
  have "k \<le> length xs" by (simp add: k_def)
  from repair_crashed [OF rep assms(2) this part(2), of mx "fz_noCompression t"] obtain m t' where
    m: "newCustomTable (take n (fz_index t)) data mx (fz_noCompression t) = Inr t'"
      "fz_rep (take (Suc m) es) t' (take m xs)" "fz_noCompression t' = fz_noCompression t"
      "\<forall>i. m < i \<longrightarrow> i \<le> k \<longrightarrow> ie_filenum (es ! i) = fz_headId t \<and> length g < unat (ie_offset (es ! i))"
    unfolding part(1) by blast
  have "fz_holds sn t' (take m bs)"
    using m(2,3) list_all2_takeI [OF xs] restored_cong [OF m(3)] by (auto simp: fz_holds_def fz_inv_def)
  moreover have "take m bs = bs" if "length (fz_index t) \<le> n" "unat (fz_headBytes t) \<le> length g"
  proof -
    have "k = length xs" using that(1) len by (auto simp: k_def ix)
    moreover have "fz_headBytes t = ie_offset (es ! length xs)"
      using rep fz_rep_last [OF rep] by (simp add: fz_rep_def)
    ultimately have "\<not> m < length xs"
      using m(4) [rule_format, of "length xs"] that(2) by (intro notI) simp
    then have "length xs \<le> m" by (simp only: not_less)
    then show ?thesis using list_all2_lengthD [OF xs] by simp
  qed
  ultimately show ?thesis using m(1) by blast
qed

text \<open>
  C23: Recovery keeps a prefix. When a crash has cut the index file at any point past its first
  entry, and the head file has lost a tail or gained bytes no index entry covers, reopening the
  files succeeds and gives a table that holds a prefix of the items; if the index and the
  indexed part of the head file survived, it is all of them.
\<close>

theorem reopening_keeps_a_prefix:
  assumes "fz_holds sn t bs" "crashed t data g" "6 \<le> n"
  shows "\<exists>m t'. newCustomTable (take n (fz_index t)) data (fz_maxFileSize t) (fz_noCompression t) = Inr t' \<and>
    fz_holds sn t' (take m bs) \<and>
    (length (fz_index t) \<le> n \<and> unat (fz_headBytes t) \<le> length g \<longrightarrow> take m bs = bs)"
  by (rule reopen_prefix [OF assms])

theorem reopening_keeps_a_prefix_witness:
  "\<exists>m t'. newCustomTable (take 6 [0, 0, 0, 0, 0, 0]) [0 \<mapsto> [1, 2, 3]] 100 True = Inr t' \<and> fz_holds plain t' (take m [])"
proof -
  have "crashed (fresh_table 100 True) [0 \<mapsto> [1, 2, 3]] [1, 2, 3]"
    by (auto simp: crashed_def fresh_table_def)
  from reopening_keeps_a_prefix [OF fresh_holds this order.refl, of plain] show ?thesis
    by (auto simp: fresh_table_def)
qed

section \<open>Two deviations\<close>

text \<open>
  An index file of less than one entry is cut to nothing and gets no first entry: the table
  then claims to hold \<open>2 ^ 64 - 1\<close> items.
\<close>

lemma short_index_counts_down:
  assumes "0 < length ix" "length ix < 6"
  shows "\<exists>t. newCustomTable ix Map.empty mx nc = Inr t \<and> fz_items t = 2 ^ 64 - 1 \<and> fz_index t = []"
proof -
  have "truncated (int (length ix) - int (length ix) mod 6) ix = []"
    using assms by (simp add: truncated_def)
  moreover have "int (length ix) mod 6 \<noteq> 0" "int (length ix) \<noteq> 0" using assms by auto
  ultimately show ?thesis
    by (simp add: open_simps repair_loop.simps [of _ 0] restrict_map_def fun_upd_def cong: if_cong)
qed

text \<open>
  \<open>truncate\<close> counts index entries from item 0 even when the table starts at \<open>fz_itemOffset\<close>:
  with an offset the index keeps more entries than items remain.
\<close>

lemma truncate_ignores_itemOffset:
  assumes "truncate n t = Inr t'" "n < fz_items t" "unat n < 2 ^ 60"
  shows "length (fz_index t') = 6 * (unat n + 1)"
proof -
  have "n + 1 = word_of_nat (unat n + 1)" by simp
  moreover have "unat n + 1 < 2 ^ 63" using assms(3) by simp
  ultimately have s: "sint (n + 1) = int (unat n + 1)" using sint_of_small [of "unat n + 1"] by (simp only:)
  have tl: "length (truncated (int k) f) = k" for k f by (simp add: truncated_def)
  have "length (truncated (sint (n + 1) * int indexEntrySize) f) = 6 * (unat n + 1)" for f
    using tl [of "6 * (unat n + 1)" f] unfolding s by (simp add: indexEntrySize_def mult.commute algebra_simps)
  with assms(1,2) show ?thesis
    by (auto simp: truncate_def ebind_Inr_iff truncate_index_def truncate_file_def openFile_def releaseFile_def
        releaseFilesAfter_def Let_def not_le split: if_splits option.splits)
qed

end
