(* ===== verification/Raw_Schema.thy ===== *)
theory Raw_Schema
  imports Chain_Prelude
begin

text \<open>
  The key schema of the chain database (\<^verbatim>\<open>schema.go\<close>) and the classification of keys by
  \<^verbatim>\<open>InspectDatabase\<close> (\<^verbatim>\<open>database.go\<close>). A hash is a 256-bit word, written with its most
  significant byte first.
\<close>

section \<open>Hashes as bytes\<close>

definition hash_Bytes :: "hash \<Rightarrow> bytes" where
  "hash_Bytes h = be_bytes 32 (unat h)"

text \<open>\<^verbatim>\<open>BytesToHash\<close> keeps the last 32 bytes and pads on the left with zeros.\<close>

definition BytesToHash :: "bytes \<Rightarrow> hash" where
  "BytesToHash b = word_of_nat (be_value b)"

lemma length_hash_Bytes [simp]: "length (hash_Bytes h) = 32"
  by (simp add: hash_Bytes_def)

lemma BytesToHash_Bytes [simp]: "BytesToHash (hash_Bytes h) = h"
  using unsigned_less [where 'a = nat, of h]
  by (simp add: BytesToHash_def hash_Bytes_def be_value_be_bytes)

lemma hash_Bytes_eq [simp]: "hash_Bytes h = hash_Bytes k \<longleftrightarrow> h = k"
  by (metis BytesToHash_Bytes)

lemma hash_Bytes_nonempty [simp]: "hash_Bytes h \<noteq> []" "[] \<noteq> hash_Bytes h"
  using length_hash_Bytes [of h] by (metis list.size(3) zero_neq_numeral)+

lemma hash_Bytes_BytesToHash: "length b = 32 \<Longrightarrow> hash_Bytes (BytesToHash b) = b"
proof -
  assume l: "length b = 32"
  then have "be_value b < 2 ^ 256" using be_value_bound [of b] by simp
  then have "unat (BytesToHash b) = be_value b" by (simp add: BytesToHash_def unat_of_nat)
  then show ?thesis using be_bytes_be_value [of b] l by (simp add: hash_Bytes_def)
qed

lemma be64_eq [simp]: "be64 n = be64 m \<longleftrightarrow> n = m"
  by (metis un_be64_be64)

section \<open>Keys\<close>

definition databaseVerisionKey :: bytes where "databaseVerisionKey = str ''DatabaseVersion''"
definition headHeaderKey :: bytes where "headHeaderKey = str ''LastHeader''"
definition headBlockKey :: bytes where "headBlockKey = str ''LastBlock''"
definition headFastBlockKey :: bytes where "headFastBlockKey = str ''LastFast''"
definition fastTrieProgressKey :: bytes where "fastTrieProgressKey = str ''TrieSync''"
definition snapshotRootKey :: bytes where "snapshotRootKey = str ''SnapshotRoot''"
definition snapshotJournalKey :: bytes where "snapshotJournalKey = str ''SnapshotJournal''"
definition txIndexTailKey :: bytes where "txIndexTailKey = str ''TransactionIndexTail''"
definition fastTxLookupLimitKey :: bytes where "fastTxLookupLimitKey = str ''FastTransactionLookupLimit''"
definition headerPrefix :: bytes where "headerPrefix = str ''h''"
definition headerTDSuffix :: bytes where "headerTDSuffix = str ''t''"
definition headerHashSuffix :: bytes where "headerHashSuffix = str ''n''"
definition headerNumberPrefix :: bytes where "headerNumberPrefix = str ''H''"
definition blockBodyPrefix :: bytes where "blockBodyPrefix = str ''b''"
definition blockReceiptsPrefix :: bytes where "blockReceiptsPrefix = str ''r''"
definition txLookupPrefix :: bytes where "txLookupPrefix = str ''l''"
definition bloomBitsPrefix :: bytes where "bloomBitsPrefix = str ''B''"
definition SnapshotAccountPrefix :: bytes where "SnapshotAccountPrefix = str ''a''"
definition SnapshotStoragePrefix :: bytes where "SnapshotStoragePrefix = str ''o''"
definition preimagePrefix :: bytes where "preimagePrefix = str ''secure-key-''"
definition configPrefix :: bytes where "configPrefix = str ''ethereum-config-''"
definition BloomBitsIndexPrefix :: bytes where "BloomBitsIndexPrefix = str ''iB''"

lemmas fixed_keys = databaseVerisionKey_def headHeaderKey_def headBlockKey_def headFastBlockKey_def
  fastTrieProgressKey_def snapshotRootKey_def snapshotJournalKey_def txIndexTailKey_def fastTxLookupLimitKey_def

lemmas key_prefixes = headerPrefix_def headerTDSuffix_def headerHashSuffix_def headerNumberPrefix_def
  blockBodyPrefix_def blockReceiptsPrefix_def txLookupPrefix_def bloomBitsPrefix_def
  SnapshotAccountPrefix_def SnapshotStoragePrefix_def preimagePrefix_def configPrefix_def

definition encodeBlockNumber :: "u64 \<Rightarrow> bytes" where
  "encodeBlockNumber number = be64 number"

definition headerKeyPrefix :: "u64 \<Rightarrow> bytes" where
  "headerKeyPrefix number = headerPrefix @ encodeBlockNumber number"

definition headerKey :: "u64 \<Rightarrow> hash \<Rightarrow> bytes" where
  "headerKey number h = (headerPrefix @ encodeBlockNumber number) @ hash_Bytes h"

definition headerTDKey :: "u64 \<Rightarrow> hash \<Rightarrow> bytes" where
  "headerTDKey number h = headerKey number h @ headerTDSuffix"

definition headerHashKey :: "u64 \<Rightarrow> bytes" where
  "headerHashKey number = (headerPrefix @ encodeBlockNumber number) @ headerHashSuffix"

definition headerNumberKey :: "hash \<Rightarrow> bytes" where
  "headerNumberKey h = headerNumberPrefix @ hash_Bytes h"

definition blockBodyKey :: "u64 \<Rightarrow> hash \<Rightarrow> bytes" where
  "blockBodyKey number h = (blockBodyPrefix @ encodeBlockNumber number) @ hash_Bytes h"

definition blockReceiptsKey :: "u64 \<Rightarrow> hash \<Rightarrow> bytes" where
  "blockReceiptsKey number h = (blockReceiptsPrefix @ encodeBlockNumber number) @ hash_Bytes h"

definition txLookupKey :: "hash \<Rightarrow> bytes" where
  "txLookupKey h = txLookupPrefix @ hash_Bytes h"

definition accountSnapshotKey :: "hash \<Rightarrow> bytes" where
  "accountSnapshotKey h = SnapshotAccountPrefix @ hash_Bytes h"

definition storageSnapshotKey :: "hash \<Rightarrow> hash \<Rightarrow> bytes" where
  "storageSnapshotKey accountHash storageHash =
     (SnapshotStoragePrefix @ hash_Bytes accountHash) @ hash_Bytes storageHash"

definition storageSnapshotsKey :: "hash \<Rightarrow> bytes" where
  "storageSnapshotsKey accountHash = SnapshotStoragePrefix @ hash_Bytes accountHash"

text \<open>The number of a bit is a machine word, of which the key has the low 16 bits.\<close>

definition bloomBitsKey :: "u64 \<Rightarrow> u64 \<Rightarrow> hash \<Rightarrow> bytes" where
  "bloomBitsKey b sect h = bloomBitsPrefix @ be16 (ucast b) @ be64 sect @ hash_Bytes h"

definition preimageKey :: "hash \<Rightarrow> bytes" where
  "preimageKey h = preimagePrefix @ hash_Bytes h"

definition configKey :: "hash \<Rightarrow> bytes" where
  "configKey h = configPrefix @ hash_Bytes h"

section \<open>No two items share a key\<close>

datatype item = DatabaseVersion | LastHeader | LastBlock | LastFast | TrieSync | SnapshotRoot | SnapshotJournal
  | TransactionIndexTail | FastTransactionLookupLimit
  | Header u64 hash | Difficulty u64 hash | CanonicalHash u64 | HeaderNumber hash
  | Body u64 hash | Receipts u64 hash | TxLookup hash | AccountSnapshot hash | StorageSnapshot hash hash
  | BloomBits u64 u64 hash | Preimage hash | Config hash

fun key_of :: "item \<Rightarrow> bytes" where
  "key_of DatabaseVersion = databaseVerisionKey"
| "key_of LastHeader = headHeaderKey"
| "key_of LastBlock = headBlockKey"
| "key_of LastFast = headFastBlockKey"
| "key_of TrieSync = fastTrieProgressKey"
| "key_of SnapshotRoot = snapshotRootKey"
| "key_of SnapshotJournal = snapshotJournalKey"
| "key_of TransactionIndexTail = txIndexTailKey"
| "key_of FastTransactionLookupLimit = fastTxLookupLimitKey"
| "key_of (Header n h) = headerKey n h"
| "key_of (Difficulty n h) = headerTDKey n h"
| "key_of (CanonicalHash n) = headerHashKey n"
| "key_of (HeaderNumber h) = headerNumberKey h"
| "key_of (Body n h) = blockBodyKey n h"
| "key_of (Receipts n h) = blockReceiptsKey n h"
| "key_of (TxLookup h) = txLookupKey h"
| "key_of (AccountSnapshot h) = accountSnapshotKey h"
| "key_of (StorageSnapshot a h) = storageSnapshotKey a h"
| "key_of (BloomBits b s h) = bloomBitsKey b s h"
| "key_of (Preimage h) = preimageKey h"
| "key_of (Config h) = configKey h"

fun proper :: "item \<Rightarrow> bool" where
  "proper (BloomBits b s h) = (unat b < 2 ^ 16)"
| "proper _ = True"

text \<open>The first byte and the length of a key tell what it is the key of.\<close>

fun tag :: "item \<Rightarrow> u8 \<times> nat" where
  "tag DatabaseVersion = (68, 15)"
| "tag LastHeader = (76, 10)"
| "tag LastBlock = (76, 9)"
| "tag LastFast = (76, 8)"
| "tag TrieSync = (84, 8)"
| "tag SnapshotRoot = (83, 12)"
| "tag SnapshotJournal = (83, 15)"
| "tag TransactionIndexTail = (84, 20)"
| "tag FastTransactionLookupLimit = (70, 26)"
| "tag (Header n h) = (104, 41)"
| "tag (Difficulty n h) = (104, 42)"
| "tag (CanonicalHash n) = (104, 10)"
| "tag (HeaderNumber h) = (72, 33)"
| "tag (Body n h) = (98, 41)"
| "tag (Receipts n h) = (114, 41)"
| "tag (TxLookup h) = (108, 33)"
| "tag (AccountSnapshot h) = (97, 33)"
| "tag (StorageSnapshot a h) = (111, 65)"
| "tag (BloomBits b s h) = (66, 43)"
| "tag (Preimage h) = (115, 43)"
| "tag (Config h) = (101, 48)"

lemmas key_shapes = headerKey_def headerTDKey_def headerHashKey_def headerNumberKey_def blockBodyKey_def
  blockReceiptsKey_def txLookupKey_def accountSnapshotKey_def storageSnapshotKey_def bloomBitsKey_def
  preimageKey_def configKey_def encodeBlockNumber_def

lemma key_tag: "key_of i = fst (tag i) # tl (key_of i) \<and> length (key_of i) = snd (tag i)"
  by (cases i; simp add: key_shapes fixed_keys key_prefixes str_def)

lemma key_of_tag: "key_of i = key_of j \<Longrightarrow> tag i = tag j"
  using key_tag [of i] key_tag [of j] by (metis list.inject prod_eqI)

lemma ucast_u16_inj: "unat (b :: u64) < 2 ^ 16 \<Longrightarrow> unat (c :: u64) < 2 ^ 16 \<Longrightarrow> (ucast b :: u16) = ucast c \<Longrightarrow> b = c"
proof -
  assume "unat b < 2 ^ 16" "unat c < 2 ^ 16" "(ucast b :: u16) = ucast c"
  moreover from this(3) have "unat (ucast b :: u16) = unat (ucast c :: u16)" by simp
  ultimately show "b = c" by (simp add: unsigned_ucast_eq take_bit_nat_eq_self word_unat_eq_iff)
qed

lemma be16_eq [simp]: "be16 n = be16 m \<longleftrightarrow> n = m"
  by (metis un_be16_be16)

lemma key_of_inj: "proper i \<Longrightarrow> proper j \<Longrightarrow> key_of i = key_of j \<Longrightarrow> i = j"
  using key_of_tag [of i j]
  by (cases i; cases j; simp add: key_shapes) (rule ucast_u16_inj; simp)

lemma key_of_eq [simp]: "proper i \<Longrightarrow> proper j \<Longrightarrow> key_of i = key_of j \<longleftrightarrow> i = j"
  using key_of_inj by blast

section \<open>Inspecting a database\<close>

datatype category = Headers | Bodies | ReceiptLists | Difficulties | NumberToHash | HashToNumber | TrieNodes
  | TransactionIndex | AccountSnapshots | StorageSnapshots | Preimages | BloomBitsIndex | CliqueSnapshots
  | ChtTrieNodes | BloomTrieNodes | Metadata | Unaccounted

definition HasPrefix :: "bytes \<Rightarrow> bytes \<Rightarrow> bool" where
  "HasPrefix key p \<longleftrightarrow> take (length p) key = p"

definition HasSuffix :: "bytes \<Rightarrow> bytes \<Rightarrow> bool" where
  "HasSuffix key s \<longleftrightarrow> length s \<le> length key \<and> drop (length key - length s) key = s"

definition HashLength :: nat where
  "HashLength = 32"

definition inspect_category :: "bytes \<Rightarrow> category" where
  "inspect_category key =
     (if HasPrefix key headerPrefix \<and> HasSuffix key headerTDSuffix then Difficulties
      else if HasPrefix key headerPrefix \<and> HasSuffix key headerHashSuffix then NumberToHash
      else if HasPrefix key headerPrefix \<and> length key = length headerPrefix + 8 + HashLength then Headers
      else if HasPrefix key headerNumberPrefix \<and> length key = length headerNumberPrefix + HashLength then HashToNumber
      else if HasPrefix key blockBodyPrefix \<and> length key = length blockBodyPrefix + 8 + HashLength then Bodies
      else if HasPrefix key blockReceiptsPrefix \<and> length key = length blockReceiptsPrefix + 8 + HashLength then ReceiptLists
      else if HasPrefix key txLookupPrefix \<and> length key = length txLookupPrefix + HashLength then TransactionIndex
      else if HasPrefix key SnapshotAccountPrefix \<and> length key = length SnapshotAccountPrefix + HashLength then AccountSnapshots
      else if HasPrefix key SnapshotStoragePrefix \<and> length key = length SnapshotStoragePrefix + 2 * HashLength then StorageSnapshots
      else if HasPrefix key preimagePrefix \<and> length key = length preimagePrefix + HashLength then Preimages
      else if HasPrefix key bloomBitsPrefix \<and> length key = length bloomBitsPrefix + 10 + HashLength then BloomBitsIndex
      else if HasPrefix key (str ''clique-'') \<and> length key = 7 + HashLength then CliqueSnapshots
      else if HasPrefix key (str ''cht-'') \<and> length key = 4 + HashLength then ChtTrieNodes
      else if HasPrefix key (str ''blt-'') \<and> length key = 4 + HashLength then BloomTrieNodes
      else if length key = HashLength then TrieNodes
      else if key \<in> set [databaseVerisionKey, headHeaderKey, headBlockKey, headFastBlockKey, fastTrieProgressKey]
        then Metadata else Unaccounted)"

text \<open>The sizes the inspection adds up, entry by entry.\<close>

fun inspect_loop :: "(bytes \<times> bytes) list \<Rightarrow> (category \<Rightarrow> nat) \<Rightarrow> category \<Rightarrow> nat" where
  "inspect_loop [] sizes = sizes"
| "inspect_loop ((key, val) # rest) sizes =
     inspect_loop rest (sizes(inspect_category key := sizes (inspect_category key) + (length key + length val)))"

lemma inspect_total:
  "inspect_loop es sizes c =
     sizes c + sum_list (map (\<lambda>(k, v). length k + length v) (filter (\<lambda>(k, v). inspect_category k = c) es))"
  by (induction es arbitrary: sizes) (auto simp: split_beta)

fun category_of :: "item \<Rightarrow> category" where
  "category_of (Header n h) = Headers"
| "category_of (Difficulty n h) = Difficulties"
| "category_of (CanonicalHash n) = NumberToHash"
| "category_of (HeaderNumber h) = HashToNumber"
| "category_of (Body n h) = Bodies"
| "category_of (Receipts n h) = ReceiptLists"
| "category_of (TxLookup h) = TransactionIndex"
| "category_of (AccountSnapshot h) = AccountSnapshots"
| "category_of (StorageSnapshot a h) = StorageSnapshots"
| "category_of (BloomBits b s h) = BloomBitsIndex"
| "category_of (Preimage h) = Preimages"
| "category_of (Config h) = Unaccounted"
| "category_of i = (if i \<in> {DatabaseVersion, LastHeader, LastBlock, LastFast, TrieSync} then Metadata else Unaccounted)"

text \<open>
  A header key is mistaken for a difficulty or a number mapping when its hash ends with one of
  the two suffix letters.
\<close>

definition mistaken :: "item \<Rightarrow> bool" where
  "mistaken i \<longleftrightarrow> (\<exists>n h. i = Header n h \<and> (last (hash_Bytes h) = 116 \<or> last (hash_Bytes h) = 110))"

lemma HasPrefix_head: "HasPrefix (c # key) [d] \<longleftrightarrow> c = d"
  by (auto simp: HasPrefix_def)

lemma HasSuffix_last: "key \<noteq> [] \<Longrightarrow> HasSuffix key [d] \<longleftrightarrow> last key = d"
  by (cases key rule: rev_cases) (auto simp: HasSuffix_def)

lemma category_of_key: "\<not> mistaken i \<Longrightarrow> inspect_category (key_of i) = category_of i"
  by (cases i; simp add: inspect_category_def key_shapes fixed_keys key_prefixes str_def HasPrefix_head HasSuffix_last
     HashLength_def mistaken_def HasPrefix_def)

lemma mistaken_category: "mistaken i \<Longrightarrow> inspect_category (key_of i) \<noteq> category_of i"
  unfolding mistaken_def
  by (elim exE conjE disjE; simp add: inspect_category_def key_shapes key_prefixes str_def HasPrefix_head HasSuffix_last)

text \<open>
  C24: No two items of the database share a key: two keys the schema makes are equal only for
  the same kind of item with the same block number, hashes, bit and section (the number of a
  bloom bit being below \<open>2 ^ 16\<close>). The inspection puts a key into the category of its item,
  except a header key whose hash ends with the byte \<open>t\<close> or \<open>n\<close>.
\<close>

theorem schema_keys_distinct:
  assumes "proper i" "proper j"
  shows "(key_of i = key_of j \<longleftrightarrow> i = j) \<and> (inspect_category (key_of i) = category_of i \<longleftrightarrow> \<not> mistaken i)"
  using assms category_of_key [of i] mistaken_category [of i] by auto

theorem schema_keys_distinct_witness:
  "bloomBitsKey 5 7 0 \<noteq> bloomBitsKey 5 8 0 \<and> inspect_category (bloomBitsKey 5 7 0) = BloomBitsIndex"
  using schema_keys_distinct [of "BloomBits 5 7 0" "BloomBits 5 8 0"] by (simp add: mistaken_def)

text \<open>A header whose hash ends with \<open>t\<close> is counted as a difficulty.\<close>

lemma header_counted_as_difficulty: "inspect_category (headerKey n 116) = Difficulties"
proof -
  have "last (hash_Bytes 116) = 116" unfolding hash_Bytes_def by (subst be_bytes_numeral) simp
  then show ?thesis
    by (simp add: inspect_category_def headerKey_def key_prefixes str_def HasPrefix_head HasSuffix_last)
qed

end
