(* ===== verification/Raw_DB.thy ===== *)
theory Raw_DB
  imports Raw_Schema "HOL-Library.List_Lexorder"
begin

text \<open>
  The accessors of the chain database: \<^verbatim>\<open>accessors_chain.go\<close>, \<^verbatim>\<open>accessors_indexes.go\<close>,
  \<^verbatim>\<open>accessors_metadata.go\<close> and \<^verbatim>\<open>accessors_snapshot.go\<close>. A reader sees the key-value store and
  the ancient store; a writer, which may be the store or a batch, gets a list of puts and
  deletes. A failing write ends the process, so writes succeed. The encodings and hash functions
  of other packages are the parameter \<open>codecs\<close>; encoding does not fail.
\<close>

section \<open>Stores\<close>

record database =
  db_kv :: "bytes \<rightharpoonup> bytes"
  db_ancient :: "string \<Rightarrow> u64 \<Rightarrow> bytes option"

datatype kv_op = Put bytes bytes | Delete bytes

fun apply_op :: "kv_op \<Rightarrow> (bytes \<rightharpoonup> bytes) \<Rightarrow> bytes \<rightharpoonup> bytes" where
  "apply_op (Put k v) m = m(k \<mapsto> v)"
| "apply_op (Delete k) m = m(k := None)"

definition apply_ops :: "kv_op list \<Rightarrow> (bytes \<rightharpoonup> bytes) \<Rightarrow> bytes \<rightharpoonup> bytes" where
  "apply_ops ops m = fold apply_op ops m"

definition store :: "kv_op list \<Rightarrow> database \<Rightarrow> database" where
  "store ops db = db\<lparr>db_kv := apply_ops ops (db_kv db)\<rparr>"

text \<open>A failed read gives no bytes.\<close>

definition Get :: "database \<Rightarrow> bytes \<Rightarrow> bytes" where
  "Get db k = (case db_kv db k of None \<Rightarrow> [] | Some v \<Rightarrow> v)"

definition Has :: "database \<Rightarrow> bytes \<Rightarrow> bool" where
  "Has db k \<longleftrightarrow> db_kv db k \<noteq> None"

definition Ancient :: "database \<Rightarrow> string \<Rightarrow> u64 \<Rightarrow> bytes" where
  "Ancient db kind n = (case db_ancient db kind n of None \<Rightarrow> [] | Some v \<Rightarrow> v)"

definition freezerHeaderTable :: string where "freezerHeaderTable = ''headers''"
definition freezerHashTable :: string where "freezerHashTable = ''hashes''"
definition freezerBodiesTable :: string where "freezerBodiesTable = ''bodies''"
definition freezerReceiptTable :: string where "freezerReceiptTable = ''receipts''"
definition freezerDifficultyTable :: string where "freezerDifficultyTable = ''diffs''"

lemmas freezer_tables = freezerHeaderTable_def freezerHashTable_def freezerBodiesTable_def
  freezerReceiptTable_def freezerDifficultyTable_def

record ('h, 'b, 't, 'r, 'c) codecs =
  Keccak256Hash :: "bytes \<Rightarrow> hash"
  hdr_Hash :: "'h \<Rightarrow> hash"
  hdr_Number :: "'h \<Rightarrow> nat"
  hdr_ParentHash :: "'h \<Rightarrow> hash"
  EncHeader :: "'h \<Rightarrow> bytes"
  DecHeader :: "bytes \<Rightarrow> 'h option"
  body_Transactions :: "'b \<Rightarrow> 't list"
  tx_Hash :: "'t \<Rightarrow> hash"
  EncBody :: "'b \<Rightarrow> bytes"
  DecBody :: "bytes \<Rightarrow> 'b option"
  rcpt_TxHash :: "'r \<Rightarrow> hash"
  EncReceipts :: "'r list \<Rightarrow> bytes"
  DecReceipts :: "bytes \<Rightarrow> 'r list option"
  DeriveFields :: "'c \<Rightarrow> hash \<Rightarrow> u64 \<Rightarrow> 't list \<Rightarrow> 'r list \<Rightarrow> 'r list option"
  EncBig :: "nat \<Rightarrow> bytes"
  DecBig :: "bytes \<Rightarrow> nat option"
  DecLegacyLookup :: "bytes \<Rightarrow> (hash \<times> u64 \<times> u64) option"
  EncConfig :: "'c \<Rightarrow> bytes"
  DecConfig :: "bytes \<Rightarrow> 'c option"

definition hdr_Uint64 :: "('h, 'b, 't, 'r, 'c) codecs \<Rightarrow> 'h \<Rightarrow> u64" where
  "hdr_Uint64 C header = word_of_nat (hdr_Number C header)"

text \<open>\<^verbatim>\<open>big.Int\<close>'s \<^verbatim>\<open>Bytes\<close> drops leading zeros, so zero has no bytes; \<^verbatim>\<open>Uint64\<close> keeps the low word.\<close>

definition big_Bytes :: "nat \<Rightarrow> bytes" where
  "big_Bytes n = be_bytes ((BitLen (int n) + 7) div 8) n"

definition big_Uint64 :: "bytes \<Rightarrow> u64" where
  "big_Uint64 b = word_of_nat (be_value b)"

section \<open>Canonical chain\<close>

definition ReadCanonicalHash :: "database \<Rightarrow> u64 \<Rightarrow> hash" where
  "ReadCanonicalHash db number =
     (let data = Ancient db freezerHashTable number;
          data = (if data = [] then
             let data = Get db (headerHashKey number) in
             if data = [] then Ancient db freezerHashTable number else data
           else data) in
      if data = [] then 0 else BytesToHash data)"

definition WriteCanonicalHash :: "hash \<Rightarrow> u64 \<Rightarrow> kv_op list" where
  "WriteCanonicalHash h number = [Put (headerHashKey number) (hash_Bytes h)]"

definition DeleteCanonicalHash :: "u64 \<Rightarrow> kv_op list" where
  "DeleteCanonicalHash number = [Delete (headerHashKey number)]"

text \<open>The iterator walks over the keys with a prefix in their order.\<close>

definition keys_with_prefix :: "bytes \<Rightarrow> (bytes \<rightharpoonup> bytes) \<Rightarrow> bytes list" where
  "keys_with_prefix p m = sorted_list_of_set {k \<in> dom m. HasPrefix k p}"

definition ReadAllHashes :: "database \<Rightarrow> u64 \<Rightarrow> hash list" where
  "ReadAllHashes db number =
     (let p = headerKeyPrefix number in
      map (\<lambda>key. BytesToHash (drop (length key - 32) key))
        (filter (\<lambda>key. length key = length p + 32) (keys_with_prefix p (db_kv db))))"

definition ReadHeaderNumber :: "database \<Rightarrow> hash \<Rightarrow> u64 option" where
  "ReadHeaderNumber db h =
     (let data = Get db (headerNumberKey h) in
      if length data \<noteq> 8 then None else Some (un_be64 data))"

definition WriteHeaderNumber :: "hash \<Rightarrow> u64 \<Rightarrow> kv_op list" where
  "WriteHeaderNumber h number = (let key = headerNumberKey h; enc = encodeBlockNumber number in [Put key enc])"

definition DeleteHeaderNumber :: "hash \<Rightarrow> kv_op list" where
  "DeleteHeaderNumber h = [Delete (headerNumberKey h)]"

definition ReadHeadHeaderHash :: "database \<Rightarrow> hash" where
  "ReadHeadHeaderHash db = (let data = Get db headHeaderKey in if data = [] then 0 else BytesToHash data)"

definition WriteHeadHeaderHash :: "hash \<Rightarrow> kv_op list" where
  "WriteHeadHeaderHash h = [Put headHeaderKey (hash_Bytes h)]"

definition ReadHeadBlockHash :: "database \<Rightarrow> hash" where
  "ReadHeadBlockHash db = (let data = Get db headBlockKey in if data = [] then 0 else BytesToHash data)"

definition WriteHeadBlockHash :: "hash \<Rightarrow> kv_op list" where
  "WriteHeadBlockHash h = [Put headBlockKey (hash_Bytes h)]"

definition ReadHeadFastBlockHash :: "database \<Rightarrow> hash" where
  "ReadHeadFastBlockHash db = (let data = Get db headFastBlockKey in if data = [] then 0 else BytesToHash data)"

definition WriteHeadFastBlockHash :: "hash \<Rightarrow> kv_op list" where
  "WriteHeadFastBlockHash h = [Put headFastBlockKey (hash_Bytes h)]"

definition ReadFastTrieProgress :: "database \<Rightarrow> u64" where
  "ReadFastTrieProgress db = (let data = Get db fastTrieProgressKey in if data = [] then 0 else big_Uint64 data)"

definition WriteFastTrieProgress :: "u64 \<Rightarrow> kv_op list" where
  "WriteFastTrieProgress count = [Put fastTrieProgressKey (big_Bytes (unat count))]"

definition ReadTxIndexTail :: "database \<Rightarrow> u64 option" where
  "ReadTxIndexTail db = (let data = Get db txIndexTailKey in if length data \<noteq> 8 then None else Some (un_be64 data))"

definition WriteTxIndexTail :: "u64 \<Rightarrow> kv_op list" where
  "WriteTxIndexTail number = [Put txIndexTailKey (encodeBlockNumber number)]"

definition ReadFastTxLookupLimit :: "database \<Rightarrow> u64 option" where
  "ReadFastTxLookupLimit db =
     (let data = Get db fastTxLookupLimitKey in if length data \<noteq> 8 then None else Some (un_be64 data))"

definition WriteFastTxLookupLimit :: "u64 \<Rightarrow> kv_op list" where
  "WriteFastTxLookupLimit number = [Put fastTxLookupLimitKey (encodeBlockNumber number)]"

section \<open>Headers\<close>

definition ReadHeaderRLP :: "('h, 'b, 't, 'r, 'c) codecs \<Rightarrow> database \<Rightarrow> hash \<Rightarrow> u64 \<Rightarrow> bytes" where
  "ReadHeaderRLP C db h number =
     (let data = Ancient db freezerHeaderTable number in
      if data \<noteq> [] \<and> Keccak256Hash C data = h then data
      else let data = Get db (headerKey number h) in
        if data \<noteq> [] then data
        else let data = Ancient db freezerHeaderTable number in
          if data \<noteq> [] \<and> Keccak256Hash C data = h then data else [])"

text \<open>Whether the ancient store has the block under its number.\<close>

definition ancient_has :: "database \<Rightarrow> hash \<Rightarrow> u64 \<Rightarrow> bool" where
  "ancient_has db h number \<longleftrightarrow>
     (case db_ancient db freezerHashTable number of None \<Rightarrow> False | Some has \<Rightarrow> BytesToHash has = h)"

definition HasHeader :: "database \<Rightarrow> hash \<Rightarrow> u64 \<Rightarrow> bool" where
  "HasHeader db h number \<longleftrightarrow> (if ancient_has db h number then True else Has db (headerKey number h))"

definition ReadHeader :: "('h, 'b, 't, 'r, 'c) codecs \<Rightarrow> database \<Rightarrow> hash \<Rightarrow> u64 \<Rightarrow> 'h option" where
  "ReadHeader C db h number =
     (let data = ReadHeaderRLP C db h number in if data = [] then None else DecHeader C data)"

definition WriteHeader :: "('h, 'b, 't, 'r, 'c) codecs \<Rightarrow> 'h \<Rightarrow> kv_op list" where
  "WriteHeader C header =
     (let h = hdr_Hash C header; number = hdr_Uint64 C header in
      WriteHeaderNumber h number @ [Put (headerKey number h) (EncHeader C header)])"

definition deleteHeaderWithoutNumber :: "hash \<Rightarrow> u64 \<Rightarrow> kv_op list" where
  "deleteHeaderWithoutNumber h number = [Delete (headerKey number h)]"

definition DeleteHeader :: "hash \<Rightarrow> u64 \<Rightarrow> kv_op list" where
  "DeleteHeader h number = deleteHeaderWithoutNumber h number @ [Delete (headerNumberKey h)]"

section \<open>Bodies, difficulties, receipts\<close>

text \<open>
  The readers of bodies, difficulties and receipts look in the ancient store, then in the
  key-value store, then once more in the ancient store, where the block may have moved to.
\<close>

definition ancient_if :: "database \<Rightarrow> string \<Rightarrow> hash \<Rightarrow> u64 \<Rightarrow> bytes \<Rightarrow> bytes" where
  "ancient_if db kind h number otherwise =
     (let data = Ancient db kind number in
      if data \<noteq> [] \<and> BytesToHash (Ancient db freezerHashTable number) = h then data else otherwise)"

definition ReadBodyRLP :: "database \<Rightarrow> hash \<Rightarrow> u64 \<Rightarrow> bytes" where
  "ReadBodyRLP db h number =
     ancient_if db freezerBodiesTable h number
       (let data = Get db (blockBodyKey number h) in
        if data \<noteq> [] then data else ancient_if db freezerBodiesTable h number [])"

definition ReadCanonicalBodyRLP :: "database \<Rightarrow> u64 \<Rightarrow> bytes" where
  "ReadCanonicalBodyRLP db number =
     (let data = Ancient db freezerBodiesTable number in
      if data = [] then
        let data = Get db (blockBodyKey number (ReadCanonicalHash db number)) in
        if data = [] then Ancient db freezerBodiesTable number else data
      else data)"

definition WriteBodyRLP :: "hash \<Rightarrow> u64 \<Rightarrow> bytes \<Rightarrow> kv_op list" where
  "WriteBodyRLP h number rlp = [Put (blockBodyKey number h) rlp]"

definition HasBody :: "database \<Rightarrow> hash \<Rightarrow> u64 \<Rightarrow> bool" where
  "HasBody db h number \<longleftrightarrow> (if ancient_has db h number then True else Has db (blockBodyKey number h))"

definition ReadBody :: "('h, 'b, 't, 'r, 'c) codecs \<Rightarrow> database \<Rightarrow> hash \<Rightarrow> u64 \<Rightarrow> 'b option" where
  "ReadBody C db h number =
     (let data = ReadBodyRLP db h number in if data = [] then None else DecBody C data)"

definition WriteBody :: "('h, 'b, 't, 'r, 'c) codecs \<Rightarrow> hash \<Rightarrow> u64 \<Rightarrow> 'b \<Rightarrow> kv_op list" where
  "WriteBody C h number body = WriteBodyRLP h number (EncBody C body)"

definition DeleteBody :: "hash \<Rightarrow> u64 \<Rightarrow> kv_op list" where
  "DeleteBody h number = [Delete (blockBodyKey number h)]"

definition ReadTdRLP :: "database \<Rightarrow> hash \<Rightarrow> u64 \<Rightarrow> bytes" where
  "ReadTdRLP db h number =
     ancient_if db freezerDifficultyTable h number
       (let data = Get db (headerTDKey number h) in
        if data \<noteq> [] then data else ancient_if db freezerDifficultyTable h number [])"

definition ReadTd :: "('h, 'b, 't, 'r, 'c) codecs \<Rightarrow> database \<Rightarrow> hash \<Rightarrow> u64 \<Rightarrow> nat option" where
  "ReadTd C db h number = (let data = ReadTdRLP db h number in if data = [] then None else DecBig C data)"

definition WriteTd :: "('h, 'b, 't, 'r, 'c) codecs \<Rightarrow> hash \<Rightarrow> u64 \<Rightarrow> nat \<Rightarrow> kv_op list" where
  "WriteTd C h number td = [Put (headerTDKey number h) (EncBig C td)]"

definition DeleteTd :: "hash \<Rightarrow> u64 \<Rightarrow> kv_op list" where
  "DeleteTd h number = [Delete (headerTDKey number h)]"

definition HasReceipts :: "database \<Rightarrow> hash \<Rightarrow> u64 \<Rightarrow> bool" where
  "HasReceipts db h number \<longleftrightarrow> (if ancient_has db h number then True else Has db (blockReceiptsKey number h))"

definition ReadReceiptsRLP :: "database \<Rightarrow> hash \<Rightarrow> u64 \<Rightarrow> bytes" where
  "ReadReceiptsRLP db h number =
     ancient_if db freezerReceiptTable h number
       (let data = Get db (blockReceiptsKey number h) in
        if data \<noteq> [] then data else ancient_if db freezerReceiptTable h number [])"

definition ReadRawReceipts :: "('h, 'b, 't, 'r, 'c) codecs \<Rightarrow> database \<Rightarrow> hash \<Rightarrow> u64 \<Rightarrow> 'r list option" where
  "ReadRawReceipts C db h number =
     (let data = ReadReceiptsRLP db h number in if data = [] then None else DecReceipts C data)"

definition ReadReceipts :: "('h, 'b, 't, 'r, 'c) codecs \<Rightarrow> 'c \<Rightarrow> database \<Rightarrow> hash \<Rightarrow> u64 \<Rightarrow> 'r list option" where
  "ReadReceipts C config db h number =
     (case ReadRawReceipts C db h number of None \<Rightarrow> None
      | Some receipts \<Rightarrow>
        (case ReadBody C db h number of None \<Rightarrow> None
         | Some body \<Rightarrow> DeriveFields C config h number (body_Transactions C body) receipts))"

definition WriteReceipts :: "('h, 'b, 't, 'r, 'c) codecs \<Rightarrow> hash \<Rightarrow> u64 \<Rightarrow> 'r list \<Rightarrow> kv_op list" where
  "WriteReceipts C h number receipts = [Put (blockReceiptsKey number h) (EncReceipts C receipts)]"

definition DeleteReceipts :: "hash \<Rightarrow> u64 \<Rightarrow> kv_op list" where
  "DeleteReceipts h number = [Delete (blockReceiptsKey number h)]"

section \<open>Blocks\<close>

definition ReadBlock :: "('h, 'b, 't, 'r, 'c) codecs \<Rightarrow> database \<Rightarrow> hash \<Rightarrow> u64 \<Rightarrow> ('h \<times> 'b) option" where
  "ReadBlock C db h number =
     (case ReadHeader C db h number of None \<Rightarrow> None
      | Some header \<Rightarrow>
        (case ReadBody C db h number of None \<Rightarrow> None | Some body \<Rightarrow> Some (header, body)))"

definition WriteBlock :: "('h, 'b, 't, 'r, 'c) codecs \<Rightarrow> 'h \<times> 'b \<Rightarrow> kv_op list" where
  "WriteBlock C block =
     WriteBody C (hdr_Hash C (fst block)) (hdr_Uint64 C (fst block)) (snd block) @ WriteHeader C (fst block)"

text \<open>
  \<open>WriteAncientBlock\<close> hands its blobs to \<open>AppendAncient\<close>, here the argument \<open>app\<close> on the
  state of the ancient store, and returns their size; a failure ends the process.
\<close>

definition WriteAncientBlock ::
  "('h, 'b, 't, 'r, 'c) codecs \<Rightarrow> (u64 \<Rightarrow> bytes \<Rightarrow> bytes \<Rightarrow> bytes \<Rightarrow> bytes \<Rightarrow> bytes \<Rightarrow> 's \<Rightarrow> 'e + 's) \<Rightarrow>
    'h \<times> 'b \<Rightarrow> 'r list \<Rightarrow> nat \<Rightarrow> 's \<Rightarrow> 'e + nat \<times> 's" where
  "WriteAncientBlock C app block receipts td s =
     (let headerBlob = EncHeader C (fst block); bodyBlob = EncBody C (snd block);
          receiptBlob = EncReceipts C receipts; tdBlob = EncBig C td in
      ebind (app (hdr_Uint64 C (fst block)) (hash_Bytes (hdr_Hash C (fst block))) headerBlob bodyBlob receiptBlob tdBlob s)
        (\<lambda>s. Inr (length headerBlob + length bodyBlob + length receiptBlob + length tdBlob + HashLength, s)))"

definition DeleteBlock :: "hash \<Rightarrow> u64 \<Rightarrow> kv_op list" where
  "DeleteBlock h number = DeleteReceipts h number @ DeleteHeader h number @ DeleteBody h number @ DeleteTd h number"

definition DeleteBlockWithoutNumber :: "hash \<Rightarrow> u64 \<Rightarrow> kv_op list" where
  "DeleteBlockWithoutNumber h number =
     DeleteReceipts h number @ deleteHeaderWithoutNumber h number @ DeleteBody h number @ DeleteTd h number"

text \<open>
  The three loops of \<open>FindCommonAncestor\<close>. The parent is read under the number of the header
  minus one, and a header read from a damaged database may have any number, so a loop need not
  end: its value is then \<open>None\<close>; \<open>Some None\<close> is a missing parent.
\<close>

definition parent :: "('h, 'b, 't, 'r, 'c) codecs \<Rightarrow> database \<Rightarrow> 'h \<Rightarrow> 'h option" where
  "parent C db a = ReadHeader C db (hdr_ParentHash C a) (hdr_Uint64 C a - 1)"

partial_function (option) descend ::
  "('h, 'b, 't, 'r, 'c) codecs \<Rightarrow> database \<Rightarrow> u64 \<Rightarrow> 'h \<Rightarrow> 'h option option"
where
  "descend C db bn a =
     (if hdr_Uint64 C a > bn then
        (case parent C db a of None \<Rightarrow> Some None | Some a \<Rightarrow> descend C db bn a)
      else Some (Some a))"

partial_function (option) common_loop ::
  "('h, 'b, 't, 'r, 'c) codecs \<Rightarrow> database \<Rightarrow> 'h \<Rightarrow> 'h \<Rightarrow> 'h option option"
where
  "common_loop C db a b =
     (if hdr_Hash C a \<noteq> hdr_Hash C b then
        (case parent C db a of None \<Rightarrow> Some None
         | Some a \<Rightarrow>
           (case parent C db b of None \<Rightarrow> Some None | Some b \<Rightarrow> common_loop C db a b))
      else Some (Some a))"

definition FindCommonAncestor ::
  "('h, 'b, 't, 'r, 'c) codecs \<Rightarrow> database \<Rightarrow> 'h \<Rightarrow> 'h \<Rightarrow> 'h option option" where
  "FindCommonAncestor C db a b =
     (case descend C db (hdr_Uint64 C b) a of
        None \<Rightarrow> None | Some None \<Rightarrow> Some None
      | Some (Some a) \<Rightarrow>
        (case descend C db (hdr_Uint64 C a) b of
           None \<Rightarrow> None | Some None \<Rightarrow> Some None
         | Some (Some b) \<Rightarrow> common_loop C db a b))"

section \<open>Transaction index, bloom bits\<close>

definition ReadTxLookupEntry :: "('h, 'b, 't, 'r, 'c) codecs \<Rightarrow> database \<Rightarrow> hash \<Rightarrow> u64 option" where
  "ReadTxLookupEntry C db h =
     (let data = Get db (txLookupKey h) in
      if data = [] then None
      else if length data < HashLength then Some (big_Uint64 data)
      else if length data = HashLength then ReadHeaderNumber db (BytesToHash data)
      else (case DecLegacyLookup C data of None \<Rightarrow> None | Some (blockHash, blockIndex, index) \<Rightarrow> Some blockIndex))"

text \<open>The number of the block is written as a big integer.\<close>

definition WriteTxLookupEntries :: "('h, 'b, 't, 'r, 'c) codecs \<Rightarrow> 'h \<times> 'b \<Rightarrow> kv_op list" where
  "WriteTxLookupEntries C block =
     (let number = big_Bytes (hdr_Number C (fst block)) in
      map (\<lambda>tx. Put (txLookupKey (tx_Hash C tx)) number) (body_Transactions C (snd block)))"

definition WriteTxLookupEntriesByHash :: "u64 \<Rightarrow> hash list \<Rightarrow> kv_op list" where
  "WriteTxLookupEntriesByHash number hashes =
     (let numberBytes = big_Bytes (unat number) in map (\<lambda>h. Put (txLookupKey h) numberBytes) hashes)"

definition DeleteTxLookupEntry :: "hash \<Rightarrow> kv_op list" where
  "DeleteTxLookupEntry h = [Delete (txLookupKey h)]"

definition DeleteTxLookupEntriesByHash :: "hash list \<Rightarrow> kv_op list" where
  "DeleteTxLookupEntriesByHash hashes = map (\<lambda>h. Delete (txLookupKey h)) hashes"

fun find_tx :: "('a \<Rightarrow> hash) \<Rightarrow> hash \<Rightarrow> u64 \<Rightarrow> 'a list \<Rightarrow> ('a \<times> u64) option" where
  "find_tx hash_of h i [] = None"
| "find_tx hash_of h i (x # xs) = (if hash_of x = h then Some (x, i) else find_tx hash_of h (i + 1) xs)"

definition ReadTransaction ::
  "('h, 'b, 't, 'r, 'c) codecs \<Rightarrow> database \<Rightarrow> hash \<Rightarrow> 't option \<times> hash \<times> u64 \<times> u64" where
  "ReadTransaction C db h =
     (case ReadTxLookupEntry C db h of None \<Rightarrow> (None, 0, 0, 0)
      | Some blockNumber \<Rightarrow>
        let blockHash = ReadCanonicalHash db blockNumber in
        if blockHash = 0 then (None, 0, 0, 0)
        else (case ReadBody C db blockHash blockNumber of None \<Rightarrow> (None, 0, 0, 0)
          | Some body \<Rightarrow>
            (case find_tx (tx_Hash C) h 0 (body_Transactions C body) of None \<Rightarrow> (None, 0, 0, 0)
             | Some (tx, txIndex) \<Rightarrow> (Some tx, blockHash, blockNumber, txIndex))))"

definition ReadReceipt ::
  "('h, 'b, 't, 'r, 'c) codecs \<Rightarrow> 'c \<Rightarrow> database \<Rightarrow> hash \<Rightarrow> 'r option \<times> hash \<times> u64 \<times> u64" where
  "ReadReceipt C config db h =
     (case ReadTxLookupEntry C db h of None \<Rightarrow> (None, 0, 0, 0)
      | Some blockNumber \<Rightarrow>
        let blockHash = ReadCanonicalHash db blockNumber in
        if blockHash = 0 then (None, 0, 0, 0)
        else (case ReadReceipts C config db blockHash blockNumber of None \<Rightarrow> (None, 0, 0, 0)
          | Some receipts \<Rightarrow>
            (case find_tx (rcpt_TxHash C) h 0 receipts of None \<Rightarrow> (None, 0, 0, 0)
             | Some (receipt, receiptIndex) \<Rightarrow> (Some receipt, blockHash, blockNumber, receiptIndex))))"

definition ReadBloomBits :: "database \<Rightarrow> u64 \<Rightarrow> u64 \<Rightarrow> hash \<Rightarrow> bytes option" where
  "ReadBloomBits db b sect head = db_kv db (bloomBitsKey b sect head)"

definition WriteBloomBits :: "u64 \<Rightarrow> u64 \<Rightarrow> hash \<Rightarrow> bytes \<Rightarrow> kv_op list" where
  "WriteBloomBits b sect head bits = [Put (bloomBitsKey b sect head) bits]"

section \<open>Metadata\<close>

text \<open>The version is an unsigned 64-bit number: decoding a larger one fails.\<close>

definition ReadDatabaseVersion :: "('h, 'b, 't, 'r, 'c) codecs \<Rightarrow> database \<Rightarrow> u64 option" where
  "ReadDatabaseVersion C db =
     (let enc = Get db databaseVerisionKey in
      if enc = [] then None
      else (case DecBig C enc of None \<Rightarrow> None | Some n \<Rightarrow> if n < 2 ^ 64 then Some (word_of_nat n) else None))"

definition WriteDatabaseVersion :: "('h, 'b, 't, 'r, 'c) codecs \<Rightarrow> u64 \<Rightarrow> kv_op list" where
  "WriteDatabaseVersion C version = [Put databaseVerisionKey (EncBig C (unat version))]"

definition ReadChainConfig :: "('h, 'b, 't, 'r, 'c) codecs \<Rightarrow> database \<Rightarrow> hash \<Rightarrow> 'c option" where
  "ReadChainConfig C db h = (let data = Get db (configKey h) in if data = [] then None else DecConfig C data)"

definition WriteChainConfig :: "('h, 'b, 't, 'r, 'c) codecs \<Rightarrow> hash \<Rightarrow> 'c option \<Rightarrow> kv_op list" where
  "WriteChainConfig C h cfg = (case cfg of None \<Rightarrow> [] | Some cfg \<Rightarrow> [Put (configKey h) (EncConfig C cfg)])"

definition ReadPreimage :: "database \<Rightarrow> hash \<Rightarrow> bytes" where
  "ReadPreimage db h = Get db (preimageKey h)"

text \<open>The preimages come in the order in which the runtime walks over the map.\<close>

definition WritePreimages :: "((hash \<rightharpoonup> bytes) \<Rightarrow> hash list) \<Rightarrow> (hash \<rightharpoonup> bytes) \<Rightarrow> kv_op list" where
  "WritePreimages rng preimages = map (\<lambda>h. Put (preimageKey h) (the (preimages h))) (rng preimages)"

section \<open>Snapshots\<close>

definition ReadSnapshotRoot :: "database \<Rightarrow> hash" where
  "ReadSnapshotRoot db =
     (let data = Get db snapshotRootKey in if length data \<noteq> HashLength then 0 else BytesToHash data)"

definition WriteSnapshotRoot :: "hash \<Rightarrow> kv_op list" where
  "WriteSnapshotRoot root = [Put snapshotRootKey (hash_Bytes root)]"

definition DeleteSnapshotRoot :: "kv_op list" where
  "DeleteSnapshotRoot = [Delete snapshotRootKey]"

definition ReadAccountSnapshot :: "database \<Rightarrow> hash \<Rightarrow> bytes" where
  "ReadAccountSnapshot db h = Get db (accountSnapshotKey h)"

definition WriteAccountSnapshot :: "hash \<Rightarrow> bytes \<Rightarrow> kv_op list" where
  "WriteAccountSnapshot h entry = [Put (accountSnapshotKey h) entry]"

definition DeleteAccountSnapshot :: "hash \<Rightarrow> kv_op list" where
  "DeleteAccountSnapshot h = [Delete (accountSnapshotKey h)]"

definition ReadStorageSnapshot :: "database \<Rightarrow> hash \<Rightarrow> hash \<Rightarrow> bytes" where
  "ReadStorageSnapshot db accountHash storageHash = Get db (storageSnapshotKey accountHash storageHash)"

definition WriteStorageSnapshot :: "hash \<Rightarrow> hash \<Rightarrow> bytes \<Rightarrow> kv_op list" where
  "WriteStorageSnapshot accountHash storageHash entry = [Put (storageSnapshotKey accountHash storageHash) entry]"

definition DeleteStorageSnapshot :: "hash \<Rightarrow> hash \<Rightarrow> kv_op list" where
  "DeleteStorageSnapshot accountHash storageHash = [Delete (storageSnapshotKey accountHash storageHash)]"

definition IterateStorageSnapshots :: "database \<Rightarrow> hash \<Rightarrow> (bytes \<times> bytes) list" where
  "IterateStorageSnapshots db accountHash =
     map (\<lambda>k. (k, the (db_kv db k))) (keys_with_prefix (storageSnapshotsKey accountHash) (db_kv db))"

definition ReadSnapshotJournal :: "database \<Rightarrow> bytes" where
  "ReadSnapshotJournal db = Get db snapshotJournalKey"

definition WriteSnapshotJournal :: "bytes \<Rightarrow> kv_op list" where
  "WriteSnapshotJournal journal = [Put snapshotJournalKey journal]"

definition DeleteSnapshotJournal :: "kv_op list" where
  "DeleteSnapshotJournal = [Delete snapshotJournalKey]"

section \<open>What a write leaves in the store\<close>

text \<open>Keys are compared as items of the schema.\<close>

declare key_of.simps [simp del]

lemmas as_items = key_of.simps [symmetric]

lemmas ops_defs = apply_ops_def WriteCanonicalHash_def DeleteCanonicalHash_def WriteHeaderNumber_def DeleteHeaderNumber_def
  WriteHeader_def DeleteHeader_def deleteHeaderWithoutNumber_def WriteBody_def WriteBodyRLP_def DeleteBody_def
  WriteTd_def DeleteTd_def WriteReceipts_def DeleteReceipts_def WriteBlock_def DeleteBlock_def
  DeleteBlockWithoutNumber_def

lemma store_fields [simp]:
  "db_kv (store ops db) = apply_ops ops (db_kv db)" "db_ancient (store ops db) = db_ancient db"
  "Ancient (store ops db) = Ancient db" "ancient_has (store ops db) = ancient_has db"
  "ancient_if (store ops db) = ancient_if db"
  by (simp_all add: store_def Ancient_def ancient_has_def ancient_if_def fun_eq_iff)

definition lookup :: "database \<Rightarrow> item \<Rightarrow> bytes" where
  "lookup db i = Get db (key_of i)"

lemma lookup_store: "lookup (store ops db) i = (case apply_ops ops (db_kv db) (key_of i) of None \<Rightarrow> [] | Some v \<Rightarrow> v)"
  by (simp add: lookup_def Get_def)

lemma Get_items:
  "Get db (headerKey n h) = lookup db (Header n h)" "Get db (headerTDKey n h) = lookup db (Difficulty n h)"
  "Get db (headerHashKey n) = lookup db (CanonicalHash n)" "Get db (headerNumberKey h) = lookup db (HeaderNumber h)"
  "Get db (blockBodyKey n h) = lookup db (Body n h)" "Get db (blockReceiptsKey n h) = lookup db (Receipts n h)"
  "Get db (txLookupKey h) = lookup db (TxLookup h)"
  by (simp_all add: lookup_def key_of.simps)

text \<open>The readers depend on the ancient store and on the items of their block.\<close>

lemma Read_cong:
  assumes "db_ancient db' = db_ancient db"
  shows "lookup db' (Header n h) = lookup db (Header n h) \<Longrightarrow> ReadHeader C db' h n = ReadHeader C db h n"
    "lookup db' (Body n h) = lookup db (Body n h) \<Longrightarrow> ReadBody C db' h n = ReadBody C db h n"
    "lookup db' (CanonicalHash n) = lookup db (CanonicalHash n) \<Longrightarrow> ReadCanonicalHash db' n = ReadCanonicalHash db n"
  using assms
  by (simp_all add: ReadHeader_def ReadHeaderRLP_def ReadBody_def ReadBodyRLP_def ReadCanonicalHash_def Get_items
      Ancient_def ancient_if_def Let_def)

text \<open>What the encoders and hash functions of the other packages promise.\<close>

definition rlp_laws :: "('h, 'b, 't, 'r, 'c) codecs \<Rightarrow> bool" where
  "rlp_laws C \<longleftrightarrow> (\<forall>h. EncHeader C h \<noteq> [] \<and> DecHeader C (EncHeader C h) = Some h \<and>
       Keccak256Hash C (EncHeader C h) = hdr_Hash C h) \<and>
     (\<forall>b. EncBody C b \<noteq> [] \<and> DecBody C (EncBody C b) = Some b) \<and>
     (\<forall>rs. EncReceipts C rs \<noteq> [] \<and> DecReceipts C (EncReceipts C rs) = Some rs) \<and>
     (\<forall>n. EncBig C n \<noteq> [] \<and> DecBig C (EncBig C n) = Some n)"

lemma write_block_items:
  assumes "h = hdr_Hash C header" "n = hdr_Uint64 C header"
  shows "apply_ops (WriteBlock C (header, bd)) m = m(key_of (Body n h) \<mapsto> EncBody C bd, key_of (HeaderNumber h) \<mapsto> be64 n,
    key_of (Header n h) \<mapsto> EncHeader C header)"
  using assms by (simp add: ops_defs Let_def key_of.simps encodeBlockNumber_def)

lemma delete_block_items:
  "apply_ops (DeleteBlock h n) m = m(key_of (Receipts n h) := None, key_of (Header n h) := None,
    key_of (HeaderNumber h) := None, key_of (Body n h) := None, key_of (Difficulty n h) := None)"
  by (simp add: ops_defs key_of.simps)

lemma no_ancient:
  assumes "\<forall>kind. db_ancient db kind n = None"
  shows "Ancient db kind n = []" "ancient_has db h n = False" "ancient_if db kind h n d = d"
  using assms by (simp_all add: Ancient_def ancient_has_def ancient_if_def)

text \<open>
  C25: A block that is written is the block that is read, and a deleted block is gone. For a
  number the ancient store does not have: after \<open>WriteBlock\<close> the block, its number and both
  presence checks are there under its hash, every other block and every canonical hash reads as
  before; after \<open>DeleteBlock\<close> header, body, receipts, difficulty and number are gone and still
  no other block has changed.
\<close>

theorem block_roundtrip:
  assumes "rlp_laws C" "h = hdr_Hash C header" "n = hdr_Uint64 C header" "\<forall>kind. db_ancient db kind n = None"
    "db' = store (WriteBlock C (header, bd)) db" "db'' = store (DeleteBlock h n) db'"
  shows "ReadBlock C db' h n = Some (header, bd) \<and> HasHeader db' h n \<and> HasBody db' h n \<and> ReadHeaderNumber db' h = Some n \<and>
    ReadBlock C db'' h n = None \<and> \<not> HasHeader db'' h n \<and> \<not> HasBody db'' h n \<and> ReadHeaderNumber db'' h = None \<and>
    ReadTd C db'' h n = None \<and> ReadRawReceipts C db'' h n = None \<and>
    (\<forall>h' n'. (h', n') \<noteq> (h, n) \<longrightarrow> ReadBlock C db' h' n' = ReadBlock C db h' n' \<and> ReadBlock C db'' h' n' = ReadBlock C db h' n') \<and>
    (\<forall>n'. ReadCanonicalHash db' n' = ReadCanonicalHash db n' \<and> ReadCanonicalHash db'' n' = ReadCanonicalHash db n')"
proof -
  note laws = assms(1) [unfolded rlp_laws_def]
  note l = lookup_store write_block_items [OF assms(2,3)] delete_block_items
  have w: "lookup db' (Header n h) = EncHeader C header" "lookup db' (Body n h) = EncBody C bd"
    "lookup db' (HeaderNumber h) = be64 n" "Has db' (headerKey n h)" "Has db' (blockBodyKey n h)"
    by (simp_all add: assms(5) l Has_def as_items)
  have d: "lookup db'' (Header n h) = []" "lookup db'' (Body n h) = []" "lookup db'' (HeaderNumber h) = []"
    "lookup db'' (Difficulty n h) = []" "lookup db'' (Receipts n h) = []"
    "\<not> Has db'' (headerKey n h)" "\<not> Has db'' (blockBodyKey n h)"
    by (simp_all add: assms(6) l Has_def as_items)
  have anc: "db_ancient db' = db_ancient db" "db_ancient db'' = db_ancient db" by (simp_all add: assms(5,6))
  have na: "\<forall>kind. db_ancient db' kind n = None" "\<forall>kind. db_ancient db'' kind n = None"
    using assms(4) by (simp_all add: anc)
  have o: "lookup db' (Header n' h') = lookup db (Header n' h')" "lookup db' (Body n' h') = lookup db (Body n' h')"
      "lookup db'' (Header n' h') = lookup db (Header n' h')" "lookup db'' (Body n' h') = lookup db (Body n' h')"
    if "(h', n') \<noteq> (h, n)" for h' n'
    using that by (auto simp: assms(5,6) l) (auto simp: lookup_def Get_def)
  have c: "lookup db' (CanonicalHash n') = lookup db (CanonicalHash n')"
      "lookup db'' (CanonicalHash n') = lookup db (CanonicalHash n')" for n'
    by (simp_all add: assms(5,6) l) (simp_all add: lookup_def Get_def)
  have "ReadBlock C db' h n = Some (header, bd) \<and> HasHeader db' h n \<and> HasBody db' h n \<and> ReadHeaderNumber db' h = Some n"
    using laws w by (simp add: ReadBlock_def ReadHeader_def ReadHeaderRLP_def ReadBody_def ReadBodyRLP_def Get_items
        HasHeader_def HasBody_def ReadHeaderNumber_def no_ancient [OF na(1)] Let_def)
  moreover have "ReadBlock C db'' h n = None \<and> \<not> HasHeader db'' h n \<and> \<not> HasBody db'' h n \<and> ReadHeaderNumber db'' h = None \<and>
      ReadTd C db'' h n = None \<and> ReadRawReceipts C db'' h n = None"
    using d by (simp add: ReadBlock_def ReadHeader_def ReadHeaderRLP_def ReadTd_def ReadTdRLP_def ReadRawReceipts_def
        ReadReceiptsRLP_def Get_items HasHeader_def HasBody_def ReadHeaderNumber_def no_ancient [OF na(2)] Let_def)
  moreover have "ReadBlock C db' h' n' = ReadBlock C db h' n' \<and> ReadBlock C db'' h' n' = ReadBlock C db h' n'"
    if "(h', n') \<noteq> (h, n)" for h' n'
    using o [OF that] anc by (simp add: ReadBlock_def Read_cong(1,2) [of db'] Read_cong(1,2) [of db'']
        cong: option.case_cong)
  ultimately show ?thesis using Read_cong(3) [OF anc(1) c(1)] Read_cong(3) [OF anc(2) c(2)] by blast
qed

text \<open>A chain whose headers are their own hashes and numbers, for the witnesses.\<close>

definition flat_codecs :: "(hash, nat, hash, unit, unit) codecs" where
  "flat_codecs = \<lparr>Keccak256Hash = BytesToHash, hdr_Hash = id, hdr_Number = unat, hdr_ParentHash = (\<lambda>h. h - 1),
     EncHeader = hash_Bytes, DecHeader = Some \<circ> BytesToHash,
     body_Transactions = (\<lambda>k. replicate k 7), tx_Hash = id,
     EncBody = (\<lambda>k. replicate (Suc k) 0), DecBody = (\<lambda>b. Some (length b - 1)),
     rcpt_TxHash = (\<lambda>_. 0), EncReceipts = (\<lambda>rs. replicate (Suc (length rs)) 0),
     DecReceipts = (\<lambda>b. Some (replicate (length b - 1) ())), DeriveFields = (\<lambda>c h n ts rs. Some rs),
     EncBig = (\<lambda>n. replicate (Suc n) 0), DecBig = (\<lambda>b. Some (length b - 1)),
     DecLegacyLookup = (\<lambda>b. None), EncConfig = (\<lambda>_. []), DecConfig = (\<lambda>b. Some ())\<rparr>"

definition no_database :: database where
  "no_database = \<lparr>db_kv = Map.empty, db_ancient = (\<lambda>kind n. None)\<rparr>"

section \<open>Common ancestors\<close>

text \<open>
  In a sound database a header is stored under its own hash and number, numbers fit in 64 bits
  and the largest one is not used.
\<close>

definition linked :: "('h, 'b, 't, 'r, 'c) codecs \<Rightarrow> database \<Rightarrow> bool" where
  "linked C db \<longleftrightarrow> (\<forall>h n header. ReadHeader C db h n = Some header \<longrightarrow> hdr_Hash C header = h \<and> hdr_Uint64 C header = n \<and> n \<noteq> - 1)"

inductive ancestor :: "('h, 'b, 't, 'r, 'c) codecs \<Rightarrow> database \<Rightarrow> 'h \<Rightarrow> 'h \<Rightarrow> bool" for C db where
  self: "ancestor C db a a"
| above: "parent C db a = Some p \<Longrightarrow> ancestor C db p d \<Longrightarrow> ancestor C db a d"

inductive_cases ancestorE: "ancestor C db a d"

lemma parent_number:
  assumes "linked C db" "parent C db a = Some p"
  shows "unat (hdr_Uint64 C a) = Suc (unat (hdr_Uint64 C p))"
proof -
  from assms have p: "hdr_Uint64 C p = hdr_Uint64 C a - 1" "hdr_Uint64 C a - 1 \<noteq> - 1"
    by (auto simp: parent_def linked_def)
  then have nz: "hdr_Uint64 C a \<noteq> 0" by auto
  then have "0 < unat (hdr_Uint64 C a)" by (simp add: unat_gt_0)
  with unat_minus_one [OF nz] show ?thesis unfolding p(1) by simp
qed

lemma ancestor_number: "linked C db \<Longrightarrow> ancestor C db a d \<Longrightarrow> d = a \<or> unat (hdr_Uint64 C d) < unat (hdr_Uint64 C a)"
  by (rotate_tac, induction rule: ancestor.induct) (auto dest: parent_number)

lemma ancestor_trans: "ancestor C db a b \<Longrightarrow> ancestor C db b d \<Longrightarrow> ancestor C db a d"
  by (induction rule: ancestor.induct) (auto intro: ancestor.intros)

lemma descend_result:
  assumes "linked C db"
  shows "\<exists>r. descend C db bn a = Some r \<and> (case r of
      None \<Rightarrow> \<forall>d. ancestor C db a d \<longrightarrow> bn < hdr_Uint64 C d
    | Some c \<Rightarrow> ancestor C db a c \<and> hdr_Uint64 C c = min (hdr_Uint64 C a) bn \<and>
        (\<forall>d. ancestor C db a d \<and> hdr_Uint64 C d \<le> bn \<longrightarrow> ancestor C db c d))"
proof (induction "unat (hdr_Uint64 C a)" arbitrary: a rule: less_induct)
  case less
  show ?case
  proof (cases "hdr_Uint64 C a > bn")
    case False
    then show ?thesis by (subst descend.simps) (auto intro: ancestor.intros simp: min_def)
  next
    case True
    show ?thesis
    proof (cases "parent C db a")
      case None
      then show ?thesis using True by (subst descend.simps) (auto elim: ancestorE)
    next
      case (Some p)
      note num = parent_number [OF assms Some]
      have ge: "bn \<le> hdr_Uint64 C p" using True num by (simp add: word_less_nat_alt word_le_nat_alt)
      from less [of p] num obtain r where r: "descend C db bn p = Some r" "case r of
          None \<Rightarrow> \<forall>d. ancestor C db p d \<longrightarrow> bn < hdr_Uint64 C d
        | Some c \<Rightarrow> ancestor C db p c \<and> hdr_Uint64 C c = min (hdr_Uint64 C p) bn \<and>
            (\<forall>d. ancestor C db p d \<and> hdr_Uint64 C d \<le> bn \<longrightarrow> ancestor C db c d)" by auto
      have "ancestor C db a d \<longleftrightarrow> d = a \<or> ancestor C db p d" for d
        using Some by (auto elim: ancestorE intro: ancestor.intros)
      with r True Some ge show ?thesis
        by (subst descend.simps) (auto simp: min_def split: option.splits)
    qed
  qed
qed

text \<open>The deepest common ancestor of two headers, or that there is none.\<close>

definition deepest_common :: "('h, 'b, 't, 'r, 'c) codecs \<Rightarrow> database \<Rightarrow> 'h \<Rightarrow> 'h \<Rightarrow> 'h option \<Rightarrow> bool" where
  "deepest_common C db a b r \<longleftrightarrow> (case r of
      None \<Rightarrow> \<forall>d. \<not> (ancestor C db a d \<and> ancestor C db b d)
    | Some c \<Rightarrow> ancestor C db a c \<and> ancestor C db b c \<and>
        (\<forall>d. ancestor C db a d \<and> ancestor C db b d \<longrightarrow> ancestor C db c d))"

lemma common_loop_result:
  assumes "linked C db" "inj (hdr_Hash C)" "hdr_Uint64 C a = hdr_Uint64 C b"
  shows "\<exists>r. common_loop C db a b = Some r \<and> deepest_common C db a b r"
  using assms(3)
proof (induction "unat (hdr_Uint64 C a)" arbitrary: a b rule: less_induct)
  case less
  have anc: "ancestor C db x d \<longleftrightarrow> d = x \<or> (\<exists>p. parent C db x = Some p \<and> ancestor C db p d)" for x d
    by (auto elim: ancestorE intro: ancestor.intros)
  show ?case
  proof (cases "hdr_Hash C a = hdr_Hash C b")
    case True
    with assms(2) have "a = b" by (simp add: inj_eq)
    then show ?thesis by (subst common_loop.simps) (auto simp: deepest_common_def intro: ancestor.intros)
  next
    case False
    then have ne: "a \<noteq> b" by auto
    have lower: "\<not> ancestor C db b a" "\<not> ancestor C db a b"
      using ancestor_number [OF assms(1), of a b] ancestor_number [OF assms(1), of b a] ne less.prems by auto
    show ?thesis
    proof (cases "parent C db a")
      case None
      then show ?thesis using False lower anc [of a]
        by (subst common_loop.simps) (auto simp: deepest_common_def)
    next
      case pa: (Some p)
      show ?thesis
      proof (cases "parent C db b")
        case None
        then show ?thesis using False pa lower anc [of b]
          by (subst common_loop.simps) (auto simp: deepest_common_def)
      next
        case pb: (Some q)
        note num = parent_number [OF assms(1) pa] parent_number [OF assms(1) pb]
        have "hdr_Uint64 C p = hdr_Uint64 C q" using num less.prems by (simp add: word_unat_eq_iff)
        with less.hyps [of p q] num obtain r where "common_loop C db p q = Some r" "deepest_common C db p q r" by auto
        moreover have "ancestor C db a d \<and> ancestor C db b d \<longleftrightarrow> ancestor C db p d \<and> ancestor C db q d" for d
          using anc [of a d] anc [of b d] pa pb lower by auto
        ultimately show ?thesis using False pa pb
          by (subst common_loop.simps) (auto simp: deepest_common_def split: option.splits)
      qed
    qed
  qed
qed

text \<open>
  C26: In a sound database the search for a common ancestor ends, and finds it: for any two
  headers \<open>FindCommonAncestor\<close> returns their deepest common ancestor, the one every other common
  ancestor is an ancestor of, or nil exactly when the stored parts of the two chains have no
  header in common.
\<close>

theorem common_ancestor_found:
  assumes "linked C db" "inj (hdr_Hash C)"
  shows "\<exists>r. FindCommonAncestor C db a b = Some r \<and> deepest_common C db a b r"
proof -
  obtain r where r: "descend C db (hdr_Uint64 C b) a = Some r" "case r of
      None \<Rightarrow> \<forall>d. ancestor C db a d \<longrightarrow> hdr_Uint64 C b < hdr_Uint64 C d
    | Some c \<Rightarrow> ancestor C db a c \<and> hdr_Uint64 C c = min (hdr_Uint64 C a) (hdr_Uint64 C b) \<and>
        (\<forall>d. ancestor C db a d \<and> hdr_Uint64 C d \<le> hdr_Uint64 C b \<longrightarrow> ancestor C db c d)"
    using descend_result [OF assms(1)] by blast
  have below: "ancestor C db x d \<Longrightarrow> hdr_Uint64 C d \<le> hdr_Uint64 C x" for x d
    using ancestor_number [OF assms(1), of x d] by (auto simp: word_le_nat_alt)
  show ?thesis
  proof (cases r)
    case None
    have "\<not> (ancestor C db a d \<and> ancestor C db b d)" for d
      using r(2) below [of b d] None by (auto simp: not_less [symmetric])
    then show ?thesis using r(1) None by (simp add: FindCommonAncestor_def deepest_common_def)
  next
    case (Some a')
    then have a': "ancestor C db a a'" "hdr_Uint64 C a' = min (hdr_Uint64 C a) (hdr_Uint64 C b)"
      "\<And>d. ancestor C db a d \<Longrightarrow> hdr_Uint64 C d \<le> hdr_Uint64 C b \<Longrightarrow> ancestor C db a' d" using r(2) by auto
    obtain s where s: "descend C db (hdr_Uint64 C a') b = Some s" "case s of
        None \<Rightarrow> \<forall>d. ancestor C db b d \<longrightarrow> hdr_Uint64 C a' < hdr_Uint64 C d
      | Some c \<Rightarrow> ancestor C db b c \<and> hdr_Uint64 C c = min (hdr_Uint64 C b) (hdr_Uint64 C a') \<and>
          (\<forall>d. ancestor C db b d \<and> hdr_Uint64 C d \<le> hdr_Uint64 C a' \<longrightarrow> ancestor C db c d)"
      using descend_result [OF assms(1)] by blast
    have both: "ancestor C db a d \<and> ancestor C db b d \<longleftrightarrow> ancestor C db a' d \<and> ancestor C db b d" for d
      using a'(1,3) below [of b d] ancestor_trans [OF a'(1)] by blast
    show ?thesis
    proof (cases s)
      case None
      have "\<not> (ancestor C db a d \<and> ancestor C db b d)" for d
        using s(2) both [of d] below [of a' d] None by (auto simp: not_less [symmetric])
      then show ?thesis using r(1) s(1) Some None by (simp add: FindCommonAncestor_def deepest_common_def)
    next
      case sb: (Some b')
      then have b': "ancestor C db b b'" "hdr_Uint64 C b' = min (hdr_Uint64 C b) (hdr_Uint64 C a')"
        "\<And>d. ancestor C db b d \<Longrightarrow> hdr_Uint64 C d \<le> hdr_Uint64 C a' \<Longrightarrow> ancestor C db b' d" using s(2) by auto
      have "hdr_Uint64 C a' = hdr_Uint64 C b'" using a'(2) b'(2) by (simp add: min_def)
      from common_loop_result [OF assms this] obtain u where u: "common_loop C db a' b' = Some u" "deepest_common C db a' b' u"
        by blast
      have "ancestor C db a' d \<and> ancestor C db b' d \<longleftrightarrow> ancestor C db a d \<and> ancestor C db b d" for d
        using both [of d] b'(1,3) below [of a' d] ancestor_trans [OF b'(1)] by blast
      then have "deepest_common C db a b u"
        using u(2) both by (auto simp: deepest_common_def split: option.splits)
      then show ?thesis using u(1) r(1) s(1) Some sb by (simp add: FindCommonAncestor_def)
    qed
  qed
qed

lemma flat_laws: "rlp_laws flat_codecs"
proof -
  have "replicate (length rs) () = rs" for rs by (induction rs) auto
  then show ?thesis by (simp add: rlp_laws_def flat_codecs_def)
qed

theorem block_roundtrip_witness:
  "ReadBlock flat_codecs (store (WriteBlock flat_codecs (5, 2)) no_database) 5 5 = Some (5, 2)"
  using block_roundtrip [OF flat_laws _ _ _ refl refl, of 5 5 5 no_database 2]
  by (simp add: flat_codecs_def no_database_def hdr_Uint64_def)

definition one_header :: database where
  "one_header = store (WriteHeader flat_codecs 1) no_database"

lemma flat_simps:
  "hdr_Hash flat_codecs = id" "hdr_Uint64 flat_codecs x = word_of_nat (unat x)" "DecHeader flat_codecs = Some \<circ> BytesToHash"
  "EncHeader flat_codecs = hash_Bytes" "hdr_ParentHash flat_codecs x = x - 1"
  by (simp_all add: flat_codecs_def hdr_Uint64_def)

lemma one_header_lookup: "lookup one_header (Header n h) = (if n = 1 \<and> h = 1 then hash_Bytes 1 else [])"
  by (simp add: one_header_def lookup_store ops_defs flat_simps as_items no_database_def Let_def)

lemma one_header_linked: "linked flat_codecs one_header"
proof -
  have "Ancient one_header kind n = []" for kind n
    by (simp add: one_header_def) (simp add: Ancient_def no_database_def)
  then show ?thesis
    by (auto simp: linked_def ReadHeader_def ReadHeaderRLP_def Get_items one_header_lookup flat_simps Let_def
        split: if_splits)
qed

theorem common_ancestor_found_witness:
  "\<exists>r. FindCommonAncestor flat_codecs one_header 2 1 = Some r \<and> deepest_common flat_codecs one_header 2 1 r"
  by (rule common_ancestor_found) (simp_all add: one_header_linked flat_simps)

end
