(* ===== verification/Freezer.thy ===== *)
theory Freezer
  imports Freezer_Table Raw_DB "HOL-Library.Char_ord"
begin

text \<open>
  The ancient store (\<^verbatim>\<open>freezer.go\<close>): five tables kept in step, and the background loop that
  moves old blocks of the canonical chain from the key-value store into them, with the start of
  a database on both (\<^verbatim>\<open>database.go\<close>). A walk over the map of tables takes its order as an
  argument. Where the code ends the process (a failed repair) or panics, the result is \<open>None\<close>.
  The wait between two rounds, the lock on the directory and the logging are left out.
\<close>

section \<open>The store\<close>

datatype freezer_error = errUnknownTable | errOutOrderInsertion | errNotSupported | TableError fz_error

record freezer =
  fr_frozen :: u64
  fr_tables :: "string \<rightharpoonup> freezerTable"

definition freezerNoSnappy :: "(string \<times> bool) list" where
  "freezerNoSnappy = [(freezerHeaderTable, False), (freezerHashTable, True), (freezerBodiesTable, False),
     (freezerReceiptTable, False), (freezerDifficultyTable, True)]"

definition HasAncient :: "freezer \<Rightarrow> string \<Rightarrow> u64 \<Rightarrow> bool" where
  "HasAncient f kind number = (case fr_tables f kind of Some t \<Rightarrow> fz_has number t | None \<Rightarrow> False)"

definition fr_Ancient :: "snappy \<Rightarrow> freezer \<Rightarrow> string \<Rightarrow> u64 \<Rightarrow> freezer_error + bytes" where
  "fr_Ancient sn f kind number =
     (case fr_tables f kind of
        Some t \<Rightarrow> (case Retrieve sn number t of Inl e \<Rightarrow> Inl (TableError e) | Inr b \<Rightarrow> Inr b)
      | None \<Rightarrow> Inl errUnknownTable)"

definition Ancients :: "freezer \<Rightarrow> u64" where
  "Ancients f = fr_frozen f"

definition AncientSize :: "freezer \<Rightarrow> string \<Rightarrow> freezer_error + u64" where
  "AncientSize f kind =
     (case fr_tables f kind of Some t \<Rightarrow> Inr (sizeNolock t) | None \<Rightarrow> Inl errUnknownTable)"

text \<open>The loops over the tables stop at the first error, with the earlier tables changed.\<close>

fun truncate_tables :: "string list \<Rightarrow> u64 \<Rightarrow> (string \<rightharpoonup> freezerTable) \<Rightarrow> (string \<rightharpoonup> freezerTable) \<times> fz_error option" where
  "truncate_tables [] items ts = (ts, None)"
| "truncate_tables (k # ks) items ts =
     (case Freezer_Table.truncate items (the (ts k)) of
        Inl e \<Rightarrow> (ts, Some e)
      | Inr t \<Rightarrow> truncate_tables ks items (ts(k \<mapsto> t)))"

fun min_items :: "string list \<Rightarrow> (string \<rightharpoonup> freezerTable) \<Rightarrow> u64 \<Rightarrow> u64" where
  "min_items [] ts mn = mn"
| "min_items (k # ks) ts mn =
     (let items = fz_items (the (ts k)) in min_items ks ts (if mn > items then items else mn))"

type_synonym walk = "(string \<rightharpoonup> freezerTable) \<Rightarrow> string list"

definition fr_repair :: "walk \<Rightarrow> freezer \<Rightarrow> freezer \<times> fz_error option" where
  "fr_repair rng f =
     (let mn = min_items (rng (fr_tables f)) (fr_tables f) (- 1) in
      case truncate_tables (rng (fr_tables f)) mn (fr_tables f) of
        (ts, Some e) \<Rightarrow> (f\<lparr>fr_tables := ts\<rparr>, Some e)
      | (ts, None) \<Rightarrow> (f\<lparr>fr_tables := ts, fr_frozen := mn\<rparr>, None))"

definition TruncateAncients :: "walk \<Rightarrow> u64 \<Rightarrow> freezer \<Rightarrow> freezer \<times> fz_error option" where
  "TruncateAncients rng items f =
     (if fr_frozen f \<le> items then (f, None)
      else case truncate_tables (rng (fr_tables f)) items (fr_tables f) of
        (ts, Some e) \<Rightarrow> (f\<lparr>fr_tables := ts\<rparr>, Some e)
      | (ts, None) \<Rightarrow> (f\<lparr>fr_tables := ts, fr_frozen := items\<rparr>, None))"

text \<open>
  Appending to the five tables in turn. A table refuses an item before it changes anything; a
  missing table is a nil pointer.
\<close>

fun append_tables ::
  "snappy \<Rightarrow> u64 \<Rightarrow> (string \<times> bytes) list \<Rightarrow> (string \<rightharpoonup> freezerTable) \<Rightarrow> ((string \<rightharpoonup> freezerTable) \<times> fz_error option) option"
where
  "append_tables sn n [] ts = Some (ts, None)"
| "append_tables sn n ((k, blob) # rest) ts =
     (case ts k of None \<Rightarrow> None
      | Some t \<Rightarrow>
        (case Append sn n blob t of
           Inl e \<Rightarrow> Some (ts, Some e)
         | Inr t' \<Rightarrow> append_tables sn n rest (ts(k \<mapsto> t'))))"

definition AppendAncient ::
  "walk \<Rightarrow> snappy \<Rightarrow> u64 \<Rightarrow> bytes \<Rightarrow> bytes \<Rightarrow> bytes \<Rightarrow> bytes \<Rightarrow> bytes \<Rightarrow> freezer \<Rightarrow> (freezer \<times> freezer_error option) option"
where
  "AppendAncient rng sn number h header body receipts td f =
     (if fr_frozen f \<noteq> number then Some (f, Some errOutOrderInsertion)
      else case append_tables sn (fr_frozen f)
          [(freezerHashTable, h), (freezerHeaderTable, header), (freezerBodiesTable, body),
           (freezerReceiptTable, receipts), (freezerDifficultyTable, td)] (fr_tables f) of
        None \<Rightarrow> None
      | Some (ts, None) \<Rightarrow> Some (f\<lparr>fr_tables := ts, fr_frozen := fr_frozen f + 1\<rparr>, None)
      | Some (ts, Some e) \<Rightarrow>
          (case fr_repair rng (f\<lparr>fr_tables := ts\<rparr>) of
             (f, None) \<Rightarrow> Some (f, Some (TableError e)) | (f, Some _) \<Rightarrow> None))"




section \<open>Moving blocks into the store\<close>

text \<open>A reader without an ancient store, and one with it.\<close>

definition nofreezedb :: "(bytes \<rightharpoonup> bytes) \<Rightarrow> database" where
  "nofreezedb kv = \<lparr>db_kv = kv, db_ancient = (\<lambda>kind n. None)\<rparr>"

definition freezerdb :: "snappy \<Rightarrow> (bytes \<rightharpoonup> bytes) \<Rightarrow> freezer \<Rightarrow> database" where
  "freezerdb sn kv f =
     \<lparr>db_kv = kv, db_ancient = (\<lambda>kind n. case fr_Ancient sn f kind n of Inl e \<Rightarrow> None | Inr b \<Rightarrow> Some b)\<rparr>"

definition freezerBatchLimit :: u64 where
  "freezerBatchLimit = 30000"

text \<open>The loop that copies blocks, from the first one not frozen up to the limit.\<close>

lemma next_below: "(a :: u64) < b \<Longrightarrow> unat (a + 1) = unat a + 1"
proof -
  assume "a < b"
  then have "unat a + 1 < 2 ^ 64"
    using unsigned_less [where 'a = nat, of b] by (simp add: word_less_nat_alt)
  then show ?thesis by (simp add: unat_word_ariths)
qed

lemma distance_step: "(a :: u64) < b \<Longrightarrow> unat (b - (a + 1)) < unat (b - a)"
proof -
  assume ab: "a < b"
  then have "a + 1 \<le> b" "a \<le> b" using next_below [OF ab] by (simp_all add: word_le_nat_alt word_less_nat_alt)
  then have "unat (b - (a + 1)) = unat b - unat (a + 1)" "unat (b - a) = unat b - unat a" by (simp_all only: unat_sub)
  then show ?thesis using ab next_below [OF ab] by (simp only: word_less_nat_alt)
qed

lemma AppendAncient_frozen:
  "AppendAncient rng sn number h header body receipts td f = Some (f', None) \<Longrightarrow> fr_frozen f' = fr_frozen f + 1"
  by (auto simp: AppendAncient_def split: if_splits option.splits prod.splits)

function freeze_loop ::
  "walk \<Rightarrow> snappy \<Rightarrow> ('h, 'b, 't, 'r, 'c) codecs \<Rightarrow> database \<Rightarrow> u64 \<Rightarrow> freezer \<Rightarrow> hash list \<Rightarrow> (freezer \<times> hash list) option"
where
  "freeze_loop rng sn C nfdb limit f ancients =
     (if \<not> fr_frozen f < limit then Some (f, ancients)
      else let h = ReadCanonicalHash nfdb (fr_frozen f) in
        if h = 0 then Some (f, ancients)
        else let header = ReadHeaderRLP C nfdb h (fr_frozen f) in
          if header = [] then Some (f, ancients)
          else let body = ReadBodyRLP nfdb h (fr_frozen f) in
            if body = [] then Some (f, ancients)
            else let receipts = ReadReceiptsRLP nfdb h (fr_frozen f) in
              if receipts = [] then Some (f, ancients)
              else let td = ReadTdRLP nfdb h (fr_frozen f) in
                if td = [] then Some (f, ancients)
                else case AppendAncient rng sn (fr_frozen f) (hash_Bytes h) header body receipts td f of
                  None \<Rightarrow> None
                | Some (f', Some e) \<Rightarrow> Some (f', ancients)
                | Some (f', None) \<Rightarrow> freeze_loop rng sn C nfdb limit f' (ancients @ [h]))"
  by pat_completeness auto
termination
  by (relation "measure (\<lambda>(rng, sn, C, nfdb, limit, f, ancients). unat (limit - fr_frozen f))")
    (auto dest!: AppendAncient_frozen simp: distance_step)

declare freeze_loop.simps [simp del]

text \<open>The deletions of a round: the frozen blocks, then what is left at their heights.\<close>

fun wipe_frozen :: "u64 \<Rightarrow> hash list \<Rightarrow> kv_op list" where
  "wipe_frozen number [] = []"
| "wipe_frozen number (h # hs) =
     (if number \<noteq> 0 then DeleteBlockWithoutNumber h number @ DeleteCanonicalHash number else []) @ wipe_frozen (number + 1) hs"

definition wipe_side :: "database \<Rightarrow> u64 \<Rightarrow> kv_op list" where
  "wipe_side db number = (if number \<noteq> 0 then concat (map (\<lambda>h. DeleteBlock h number) (ReadAllHashes db number)) else [])"

text \<open>
  One round of the background loop on the key-value store and the freezer. The flag says
  whether the loop waits before its next round.
\<close>

definition freeze_round ::
  "walk \<Rightarrow> snappy \<Rightarrow> ('h, 'b, 't, 'r, 'c) codecs \<Rightarrow> u64 \<Rightarrow> (bytes \<rightharpoonup> bytes) \<Rightarrow> freezer \<Rightarrow> (bool \<times> (bytes \<rightharpoonup> bytes) \<times> freezer) option"
where
  "freeze_round rng sn C ImmutabilityThreshold kv f =
     (let nfdb = nofreezedb kv; h = ReadHeadBlockHash nfdb in
      if h = 0 then Some (True, kv, f)
      else case ReadHeaderNumber nfdb h of None \<Rightarrow> Some (True, kv, f)
      | Some number \<Rightarrow>
        if number < ImmutabilityThreshold then Some (True, kv, f)
        else if number - ImmutabilityThreshold \<le> fr_frozen f then Some (True, kv, f)
        else case ReadHeader C nfdb h number of None \<Rightarrow> Some (True, kv, f)
        | Some head \<Rightarrow>
          let limit = number - ImmutabilityThreshold;
              limit = (if limit - fr_frozen f > freezerBatchLimit then fr_frozen f + freezerBatchLimit else limit);
              first = fr_frozen f in
          case freeze_loop rng sn C nfdb limit f [] of None \<Rightarrow> None
          | Some (f, ancients) \<Rightarrow>
            let kv = apply_ops (wipe_frozen first ancients) kv;
                db = freezerdb sn kv f;
                numbers = map (\<lambda>i. first + word_of_nat i) [0 ..< unat (fr_frozen f - first)];
                kv = apply_ops (concat (map (wipe_side db) numbers)) kv in
            Some (fr_frozen f - first < freezerBatchLimit, kv, f))"

section \<open>Starting a database\<close>

datatype start_error = GenesisMismatch | GapInChain | AncientMoved | NilNumber

definition start_checks :: "snappy \<Rightarrow> (bytes \<rightharpoonup> bytes) \<Rightarrow> freezer \<Rightarrow> start_error option" where
  "start_checks sn kv f =
     (let db = nofreezedb kv; kvgenesis = Get db (headerHashKey 0) in
      if kvgenesis = [] then None
      else let frozen = Ancients f in
        if frozen > 0 then
          (if (case fr_Ancient sn f freezerHashTable 0 of Inl e \<Rightarrow> [] | Inr b \<Rightarrow> b) \<noteq> kvgenesis then Some GenesisMismatch
           else if Get db (headerHashKey frozen) = [] then
             (case ReadHeaderNumber db (ReadHeadHeaderHash db) of
                None \<Rightarrow> Some NilNumber
              | Some n \<Rightarrow> if n > frozen - 1 then Some GapInChain else None)
           else None)
        else if ReadHeadHeaderHash db \<noteq> BytesToHash kvgenesis then
          (if Get db (headerHashKey 1) = [] then Some AncientMoved else None)
        else None)"

section \<open>Tables in step\<close>

definition kinds :: "string list" where
  "kinds = [freezerHashTable, freezerHeaderTable, freezerBodiesTable, freezerReceiptTable, freezerDifficultyTable]"

lemma kinds_distinct: "distinct kinds"
  by (simp add: kinds_def freezer_tables)

text \<open>Every table holds its column; in a store in step the columns have one length.\<close>

definition holds_cols :: "snappy \<Rightarrow> (string \<rightharpoonup> freezerTable) \<Rightarrow> (string \<Rightarrow> bytes list) \<Rightarrow> bool" where
  "holds_cols sn ts cols \<longleftrightarrow> dom ts = set kinds \<and> (\<forall>k \<in> set kinds. fz_holds sn (the (ts k)) (cols k))"

definition fr_inv :: "snappy \<Rightarrow> freezer \<Rightarrow> (string \<Rightarrow> bytes list) \<Rightarrow> bool" where
  "fr_inv sn f cols \<longleftrightarrow> holds_cols sn (fr_tables f) cols \<and> (\<forall>k \<in> set kinds. length (cols k) = unat (fr_frozen f))"

lemma holds_colsD:
  "holds_cols sn ts cols \<Longrightarrow> k \<in> set kinds \<Longrightarrow> \<exists>t. ts k = Some t \<and> fz_holds sn t (cols k)"
  by (force simp: holds_cols_def)

lemma holds_cols_upd:
  "holds_cols sn ts cols \<Longrightarrow> k \<in> set kinds \<Longrightarrow> fz_holds sn t c \<Longrightarrow> holds_cols sn (ts(k \<mapsto> t)) (cols(k := c))"
  by (auto simp: holds_cols_def)

lemma truncate_tables_ok:
  assumes "holds_cols sn ts cols" "set ks \<subseteq> set kinds"
  shows "\<exists>ts'. truncate_tables ks n ts = (ts', None) \<and>
    holds_cols sn ts' (\<lambda>k. if k \<in> set ks then take (unat n) (cols k) else cols k)"
  using assms
proof (induction ks arbitrary: ts cols)
  case (Cons k ks)
  from holds_colsD [OF Cons.prems(1), of k] Cons.prems(2) obtain t where t: "ts k = Some t" "fz_holds sn t (cols k)" by auto
  from table.cut [OF t(2), of n] obtain t' where t': "Freezer_Table.truncate n t = Inr t'" "fz_holds sn t' (take (unat n) (cols k))"
    by blast
  have k: "k \<in> set kinds" "set ks \<subseteq> set kinds" using Cons.prems(2) by simp_all
  from Cons.IH [OF holds_cols_upd [OF Cons.prems(1) k(1) t'(2)] k(2)] obtain ts' where
    ts': "truncate_tables ks n (ts(k \<mapsto> t')) = (ts', None)"
    "holds_cols sn ts' (\<lambda>j. if j \<in> set ks then take (unat n) ((cols(k := take (unat n) (cols k))) j) else (cols(k := take (unat n) (cols k))) j)"
    by blast
  have "(\<lambda>j. if j \<in> set ks then take (unat n) ((cols(k := take (unat n) (cols k))) j) else (cols(k := take (unat n) (cols k))) j) =
      (\<lambda>j. if j \<in> set (k # ks) then take (unat n) (cols j) else cols j)" by (auto simp: fun_eq_iff)
  with ts' t(1) t'(1) show ?case by auto
qed simp



definition extended :: "(string \<Rightarrow> bytes list) \<Rightarrow> (string \<times> bytes) list \<Rightarrow> string \<Rightarrow> bytes list" where
  "extended cols blobs = (\<lambda>k. case map_of blobs k of None \<Rightarrow> cols k | Some b \<Rightarrow> cols k @ [b])"

definition five :: "bytes \<Rightarrow> bytes \<Rightarrow> bytes \<Rightarrow> bytes \<Rightarrow> bytes \<Rightarrow> (string \<times> bytes) list" where
  "five h header body receipts td =
     [(freezerHashTable, h), (freezerHeaderTable, header), (freezerBodiesTable, body),
      (freezerReceiptTable, receipts), (freezerDifficultyTable, td)]"

lemma five_keys: "map fst (five h header body receipts td) = kinds"
  by (simp add: five_def kinds_def)

text \<open>Whatever table refuses its item, all of them still hold their columns.\<close>

lemma append_tables_any:
  assumes "holds_cols sn ts cols" "distinct (map fst blobs)" "fst ` set blobs \<subseteq> set kinds"
    "\<forall>(k, b) \<in> set blobs. fz_items (the (ts k)) = n \<longrightarrow> fz_fits sn (the (ts k)) b"
  shows "\<exists>ts' e cols'. append_tables sn n blobs ts = Some (ts', e) \<and> holds_cols sn ts' cols' \<and>
    ((\<forall>(k, b) \<in> set blobs. fz_items (the (ts k)) = n) \<longrightarrow> e = None \<and> cols' = extended cols blobs)"
  using assms
proof (induction blobs arbitrary: ts cols)
  case Nil
  then show ?case by (auto simp: extended_def)
next
  case (Cons kb blobs)
  obtain k b where kb: "kb = (k, b)" by (cases kb)
  have k: "k \<in> set kinds" "k \<notin> fst ` set blobs" using Cons.prems(2,3) by (auto simp: kb)
  from holds_colsD [OF Cons.prems(1) k(1)] obtain t where t: "ts k = Some t" "fz_holds sn t (cols k)" by auto
  show ?case
  proof (cases "fz_items t = n")
    case False
    with table.refused [OF t(2), of n b] obtain e where "Append sn n b t = Inl e" by auto
    then show ?thesis using Cons.prems(1) t(1) False by (auto simp: kb)
  next
    case True
    have "fz_fits sn t b" using Cons.prems(4) t(1) True by (auto simp: kb)
    from table.added [OF t(2) this] True obtain t' where
      t': "Append sn n b t = Inr t'" "fz_holds sn t' (cols k @ [b])" by auto
    let ?ts = "ts(k \<mapsto> t')" and ?cols = "cols(k := cols k @ [b])"
    have other: "the (?ts j) = the (ts j)" if "(j, c) \<in> set blobs" for j c using that k(2) by force
    have fits: "\<forall>(j, c) \<in> set blobs. fz_items (the (?ts j)) = n \<longrightarrow> fz_fits sn (the (?ts j)) c"
      using Cons.prems(4) other by (auto simp: kb)
    have rest: "distinct (map fst blobs)" "fst ` set blobs \<subseteq> set kinds" using Cons.prems(2,3) by auto
    from Cons.IH [OF holds_cols_upd [OF Cons.prems(1) k(1) t'(2)] rest fits] obtain ts' e cols' where
      ih: "append_tables sn n blobs ?ts = Some (ts', e)" "holds_cols sn ts' cols'"
        "(\<forall>(j, c) \<in> set blobs. fz_items (the (?ts j)) = n) \<longrightarrow> e = None \<and> cols' = extended ?cols blobs" by blast
    have "extended ?cols blobs = extended cols (kb # blobs)"
    proof
      fix j
      show "extended ?cols blobs j = extended cols (kb # blobs) j"
      proof (cases "j = k")
        case True
        then have "map_of blobs j = None" using k(2) by (simp add: map_of_eq_None_iff)
        with True show ?thesis by (simp add: extended_def kb)
      next
        case False
        then show ?thesis by (simp add: extended_def kb split: option.split)
      qed
    qed
    moreover have "\<forall>(j, c) \<in> set blobs. fz_items (the (?ts j)) = n" if "\<forall>(j, c) \<in> set (kb # blobs). fz_items (the (ts j)) = n"
    proof safe
      fix j c assume jc: "(j, c) \<in> set blobs"
      then show "fz_items (the (?ts j)) = n" using that unfolding other [OF jc] by auto
    qed
    ultimately have "(\<forall>(j, c) \<in> set (kb # blobs). fz_items (the (ts j)) = n) \<longrightarrow>
        e = None \<and> cols' = extended cols (kb # blobs)" using ih(3) by simp
    moreover have "append_tables sn n (kb # blobs) ts = Some (ts', e)" using ih(1) t(1) t'(1) by (simp add: kb)
    ultimately show ?thesis using ih(2) by blast
  qed
qed

lemma length_extended: "k \<in> fst ` set blobs \<Longrightarrow> length (extended cols blobs k) = Suc (length (cols k))"
  by (auto simp: extended_def map_of_eq_None_iff split: option.split)

lemma fr_inv_items:
  assumes "fr_inv sn f cols" "k \<in> set kinds"
  shows "fz_items (the (fr_tables f k)) = fr_frozen f"
proof -
  from assms(1) have h: "holds_cols sn (fr_tables f) cols" "length (cols k) = unat (fr_frozen f)"
    using assms(2) by (simp_all add: fr_inv_def)
  from holds_colsD [OF h(1) assms(2)] obtain t where t: "fr_tables f k = Some t" "fz_holds sn t (cols k)" by auto
  from table.counted [OF t(2)] show ?thesis using t(1) h(2) by (simp add: word_unat_eq_iff)
qed

lemma AppendAncient_ok:
  assumes "fr_inv sn f cols" "fr_frozen f \<noteq> - 1"
    "\<forall>(k, b) \<in> set (five h header body receipts td). fz_fits sn (the (fr_tables f k)) b"
  shows "\<exists>ts. AppendAncient rng sn (fr_frozen f) h header body receipts td f =
      Some (f\<lparr>fr_tables := ts, fr_frozen := fr_frozen f + 1\<rparr>, None) \<and>
    append_tables sn (fr_frozen f) (five h header body receipts td) (fr_tables f) = Some (ts, None) \<and>
    fr_inv sn (f\<lparr>fr_tables := ts, fr_frozen := fr_frozen f + 1\<rparr>) (extended cols (five h header body receipts td))"
proof -
  let ?b = "five h header body receipts td"
  have keys: "fst ` set ?b = set kinds" using five_keys by (metis set_map)
  have items: "\<forall>(k, b) \<in> set ?b. fz_items (the (fr_tables f k)) = fr_frozen f"
    using fr_inv_items [OF assms(1)] keys by force
  have h0: "holds_cols sn (fr_tables f) cols" using assms(1) by (simp add: fr_inv_def)
  have d: "distinct (map fst ?b)" "fst ` set ?b \<subseteq> set kinds" using kinds_distinct keys by (simp_all add: five_keys)
  have ft: "\<forall>(k, b) \<in> set ?b. fz_items (the (fr_tables f k)) = fr_frozen f \<longrightarrow> fz_fits sn (the (fr_tables f k)) b"
    using assms(3) by blast
  from append_tables_any [OF h0 d ft] obtain ts e cols' where
    "append_tables sn (fr_frozen f) ?b (fr_tables f) = Some (ts, e)" "holds_cols sn ts cols'"
    "(\<forall>(k, b) \<in> set ?b. fz_items (the (fr_tables f k)) = fr_frozen f) \<longrightarrow> e = None \<and> cols' = extended cols ?b"
    by blast
  with items have ts: "append_tables sn (fr_frozen f) ?b (fr_tables f) = Some (ts, None)" "holds_cols sn ts (extended cols ?b)"
    by simp_all
  have "1 + fr_frozen f \<noteq> 0" using assms(2) eq_neg_iff_add_eq_0 [of "fr_frozen f" 1] by (simp add: add.commute)
  from unatSuc [OF this] have "unat (fr_frozen f + 1) = Suc (unat (fr_frozen f))" by (simp only: add.commute)
  then have "fr_inv sn (f\<lparr>fr_tables := ts, fr_frozen := fr_frozen f + 1\<rparr>) (extended cols ?b)"
    using assms(1) ts(2) keys by (simp add: fr_inv_def length_extended)
  with ts(1) show ?thesis by (simp add: AppendAncient_def five_def)
qed

lemma fr_inv_get:
  assumes "fr_inv sn f cols" "k \<in> set kinds"
  shows "fr_Ancient sn f k n = (if unat n < unat (fr_frozen f) then Inr (cols k ! unat n) else Inl (TableError errOutOfBounds))"
proof -
  from assms have h: "holds_cols sn (fr_tables f) cols" "length (cols k) = unat (fr_frozen f)" by (simp_all add: fr_inv_def)
  from holds_colsD [OF h(1) assms(2)] obtain t where t: "fr_tables f k = Some t" "fz_holds sn t (cols k)" by auto
  from fz_holds_get [OF t(2), of n] t(1) h(2) show ?thesis by (simp add: fr_Ancient_def)
qed

lemma TruncateAncients_ok:
  assumes "fr_inv sn f cols" "map_order rng"
  shows "\<exists>f'. TruncateAncients rng n f = (f', None) \<and> fr_inv sn f' (\<lambda>k. take (unat n) (cols k))"
proof (cases "fr_frozen f \<le> n")
  case True
  then have "take (unat n) (cols k) = cols k" if "k \<in> set kinds" for k
    using assms(1) that by (simp add: fr_inv_def word_le_nat_alt)
  then have "fr_inv sn f (\<lambda>k. take (unat n) (cols k))" using assms(1) by (simp add: fr_inv_def holds_cols_def)
  with True show ?thesis by (simp add: TruncateAncients_def)
next
  case False
  have h: "holds_cols sn (fr_tables f) cols" using assms(1) by (simp add: fr_inv_def)
  then have dom: "dom (fr_tables f) = set kinds" by (simp add: holds_cols_def)
  then have fin: "finite (dom (fr_tables f))" by (simp only: List.finite_set)
  have order: "set (rng (fr_tables f)) = set kinds" using map_orderD [OF assms(2) fin] dom by simp
  from truncate_tables_ok [OF h, of "rng (fr_tables f)" n] order obtain ts where
    ts: "truncate_tables (rng (fr_tables f)) n (fr_tables f) = (ts, None)"
      "holds_cols sn ts (\<lambda>k. if k \<in> set kinds then take (unat n) (cols k) else cols k)" by auto
  have "holds_cols sn ts (\<lambda>k. take (unat n) (cols k))" using ts(2) by (simp add: holds_cols_def)
  then have "fr_inv sn (f\<lparr>fr_tables := ts, fr_frozen := n\<rparr>) (\<lambda>k. take (unat n) (cols k))"
    using assms(1) False by (simp add: fr_inv_def word_le_nat_alt)
  with False ts(1) show ?thesis by (simp add: TruncateAncients_def)
qed

section \<open>Starting after a crash\<close>




lemma freezerNoSnappy_keys: "fst ` set freezerNoSnappy = set kinds" "distinct (map fst freezerNoSnappy)"
  by (auto simp: freezerNoSnappy_def kinds_def freezer_tables)


text \<open>
  C28: The ancient store is five lists of one length. In a store whose tables are in step, every
  item of every table is read by its number and nothing past the end; appending a block under
  the next number, when the tables have room for it, adds one item to each of the five tables,
  and under any other number is refused without a change; truncating keeps the same number of
  first items in every table.
\<close>

theorem freezer_is_five_lists:
  assumes "fr_inv sn f cols" "map_order rng"
  shows "(\<forall>k \<in> set kinds. \<forall>n. HasAncient f k n = (unat n < unat (fr_frozen f)) \<and>
      fr_Ancient sn f k n = (if unat n < unat (fr_frozen f) then Inr (cols k ! unat n) else Inl (TableError errOutOfBounds))) \<and>
    (\<forall>h header body receipts td. fr_frozen f \<noteq> - 1 \<and>
      (\<forall>(k, b) \<in> set (five h header body receipts td). fz_fits sn (the (fr_tables f k)) b) \<longrightarrow>
      (\<exists>f'. AppendAncient rng sn (fr_frozen f) h header body receipts td f = Some (f', None) \<and>
        fr_inv sn f' (extended cols (five h header body receipts td)))) \<and>
    (\<forall>n h header body receipts td. n \<noteq> fr_frozen f \<longrightarrow>
      AppendAncient rng sn n h header body receipts td f = Some (f, Some errOutOrderInsertion)) \<and>
    (\<forall>n. \<exists>f'. TruncateAncients rng n f = (f', None) \<and> fr_inv sn f' (\<lambda>k. take (unat n) (cols k)))"
proof -
  have "HasAncient f k n = (unat n < unat (fr_frozen f))" if k: "k \<in> set kinds" for k n
  proof -
    have "holds_cols sn (fr_tables f) cols" using assms(1) by (simp add: fr_inv_def)
    from holds_colsD [OF this k] obtain t where "fr_tables f k = Some t" by auto
    with fr_inv_items [OF assms(1) k] show ?thesis by (simp add: HasAncient_def fz_has_def word_less_nat_alt)
  qed
  moreover have "\<exists>f'. AppendAncient rng sn (fr_frozen f) h header body receipts td f = Some (f', None) \<and>
      fr_inv sn f' (extended cols (five h header body receipts td))"
    if "fr_frozen f \<noteq> - 1" "\<forall>(k, b) \<in> set (five h header body receipts td). fz_fits sn (the (fr_tables f k)) b"
    for h header body receipts td
    using AppendAncient_ok [OF assms(1) that] by blast
  moreover have "AppendAncient rng sn n h header body receipts td f = Some (f, Some errOutOrderInsertion)"
    if "n \<noteq> fr_frozen f" for n h header body receipts td using that by (simp add: AppendAncient_def)
  ultimately show ?thesis using fr_inv_get [OF assms(1)] TruncateAncients_ok [OF assms] by blast
qed


text \<open>An empty store, for the witnesses.\<close>

definition empty_tables :: "string \<rightharpoonup> freezerTable" where
  "empty_tables = (\<lambda>k. map_option (fresh_table 100) (map_of freezerNoSnappy k))"

definition empty_freezer :: freezer where
  "empty_freezer = \<lparr>fr_frozen = 0, fr_tables = empty_tables\<rparr>"

definition some_order :: "(string \<rightharpoonup> freezerTable) \<Rightarrow> string list" where
  "some_order m = sorted_list_of_set (dom m)"

lemma some_order: "map_order some_order"
  using map_order_sorted by (simp add: some_order_def [abs_def])

lemma empty_tables_at: "(k, nc) \<in> set freezerNoSnappy \<Longrightarrow> empty_tables k = Some (fresh_table 100 nc)"
  using map_of_is_SomeI [OF freezerNoSnappy_keys(2)] by (simp add: empty_tables_def)

lemma empty_holds: "holds_cols plain empty_tables (\<lambda>_. [])"
  unfolding holds_cols_def
proof
  have "dom empty_tables = dom (map_of freezerNoSnappy)" by (simp add: empty_tables_def dom_def)
  then show "dom empty_tables = set kinds" by (simp add: dom_map_of_conv_image_fst freezerNoSnappy_keys)
  show "\<forall>k \<in> set kinds. fz_holds plain (the (empty_tables k)) []"
    unfolding freezerNoSnappy_keys(1) [symmetric] using empty_tables_at fresh_holds by force
qed

lemma empty_inv: "fr_inv plain empty_freezer (\<lambda>_. [])"
  using empty_holds by (simp add: fr_inv_def empty_freezer_def)

theorem freezer_is_five_lists_witness:
  "fr_Ancient plain empty_freezer freezerHashTable 3 = Inl (TableError errOutOfBounds)"
  using freezer_is_five_lists [OF empty_inv some_order] by (simp add: kinds_def empty_freezer_def)


section \<open>Freezing\<close>

text \<open>What the loop copies for a height: the canonical hash and the four blobs under it.\<close>

definition old_blobs :: "('h, 'b, 't, 'r, 'c) codecs \<Rightarrow> database \<Rightarrow> u64 \<Rightarrow> (string \<times> bytes) list" where
  "old_blobs C db n =
     (let h = ReadCanonicalHash db n in
      five (hash_Bytes h) (ReadHeaderRLP C db h n) (ReadBodyRLP db h n) (ReadReceiptsRLP db h n) (ReadTdRLP db h n))"

definition block_present :: "('h, 'b, 't, 'r, 'c) codecs \<Rightarrow> database \<Rightarrow> u64 \<Rightarrow> bool" where
  "block_present C db n \<longleftrightarrow>
     (let h = ReadCanonicalHash db n in
      h \<noteq> 0 \<and> ReadHeaderRLP C db h n \<noteq> [] \<and> ReadBodyRLP db h n \<noteq> [] \<and> ReadReceiptsRLP db h n \<noteq> [] \<and> ReadTdRLP db h n \<noteq> [])"

lemma freeze_loop_stop:
  "\<not> fr_frozen f < limit \<or> \<not> block_present C nfdb (fr_frozen f) \<Longrightarrow>
    freeze_loop rng sn C nfdb limit f ancients = Some (f, ancients)"
  by (subst freeze_loop.simps) (auto simp: block_present_def Let_def)

lemma freeze_loop_step:
  assumes "fr_frozen f < limit" "block_present C nfdb (fr_frozen f)"
    "AppendAncient rng sn (fr_frozen f) (hash_Bytes (ReadCanonicalHash nfdb (fr_frozen f)))
      (ReadHeaderRLP C nfdb (ReadCanonicalHash nfdb (fr_frozen f)) (fr_frozen f))
      (ReadBodyRLP nfdb (ReadCanonicalHash nfdb (fr_frozen f)) (fr_frozen f))
      (ReadReceiptsRLP nfdb (ReadCanonicalHash nfdb (fr_frozen f)) (fr_frozen f))
      (ReadTdRLP nfdb (ReadCanonicalHash nfdb (fr_frozen f)) (fr_frozen f)) f = Some (f', None)"
  shows "freeze_loop rng sn C nfdb limit f ancients =
    freeze_loop rng sn C nfdb limit f' (ancients @ [ReadCanonicalHash nfdb (fr_frozen f)])"
  using assms by (subst freeze_loop.simps) (simp add: block_present_def Let_def)

lemma append_tables_each:
  "append_tables sn n blobs ts = Some (ts', None) \<Longrightarrow> distinct (map fst blobs) \<Longrightarrow>
    (\<forall>k. k \<notin> fst ` set blobs \<longrightarrow> ts' k = ts k) \<and>
    (\<forall>k \<in> fst ` set blobs. \<exists>b t t'. ts k = Some t \<and> Append sn n b t = Inr t' \<and> ts' k = Some t')"
proof (induction blobs arbitrary: ts)
  case (Cons x blobs)
  obtain k b where x: "x = (k, b)" by (cases x)
  from Cons.prems(1) obtain t t' where t: "ts k = Some t" "Append sn n b t = Inr t'"
      "append_tables sn n blobs (ts(k \<mapsto> t')) = Some (ts', None)"
    by (auto simp: x split: option.splits sum.splits)
  have d: "k \<notin> fst ` set blobs" "distinct (map fst blobs)" using Cons.prems(2) by (auto simp: x)
  note ih = Cons.IH [OF t(3) d(2)]
  have "ts' k = Some t'" using ih d(1) by simp
  moreover have "(ts(k \<mapsto> t')) j = ts j" if "j \<in> fst ` set blobs" for j using that d(1) by auto
  ultimately show ?case using ih t(1,2) by (auto simp: x)
qed simp

text \<open>Room for \<open>m\<close> more blocks, and blobs the tables can hold.\<close>

definition fr_roomy :: "nat \<Rightarrow> freezer \<Rightarrow> bool" where
  "fr_roomy m f \<longleftrightarrow> (\<forall>k \<in> set kinds. fz_roomy m (the (fr_tables f k)))"

lemma AppendAncient_roomy:
  assumes "fr_inv sn f cols" "fr_frozen f \<noteq> - 1" "fr_roomy (Suc m) f" "\<forall>(k, b) \<in> set (five h header body receipts td). small_blob sn b"
  shows "\<exists>f'. AppendAncient rng sn (fr_frozen f) h header body receipts td f = Some (f', None) \<and>
    fr_frozen f' = fr_frozen f + 1 \<and> fr_roomy m f' \<and> fr_inv sn f' (extended cols (five h header body receipts td))"
proof -
  let ?b = "five h header body receipts td"
  have keys: "fst ` set ?b = set kinds" using five_keys by (metis set_map)
  have fits: "\<forall>(k, b) \<in> set ?b. fz_fits sn (the (fr_tables f k)) b"
  proof safe
    fix k b assume kb: "(k, b) \<in> set ?b"
    then have "k \<in> set kinds" using keys by force
    then have "fz_roomy (Suc m) (the (fr_tables f k))" using assms(3) by (simp add: fr_roomy_def)
    moreover have "small_blob sn b" using assms(4) kb by auto
    ultimately show "fz_fits sn (the (fr_tables f k)) b" by (rule bounded_table.roomy_fits)
  qed
  from AppendAncient_ok [OF assms(1,2) fits] obtain ts where
    ts: "AppendAncient rng sn (fr_frozen f) h header body receipts td f = Some (f\<lparr>fr_tables := ts, fr_frozen := fr_frozen f + 1\<rparr>, None)"
      "append_tables sn (fr_frozen f) ?b (fr_tables f) = Some (ts, None)"
      "fr_inv sn (f\<lparr>fr_tables := ts, fr_frozen := fr_frozen f + 1\<rparr>) (extended cols ?b)" by blast
  have "fz_roomy m (the (ts k))" if k: "k \<in> set kinds" for k
  proof -
    have "distinct (map fst ?b)" using kinds_distinct by (simp add: five_keys)
    note each = append_tables_each [OF ts(2) this, THEN conjunct2, rule_format]
    have "k \<in> fst ` set ?b" using k keys by simp
    from each [OF this] obtain b t t' where
      t: "fr_tables f k = Some t" "Append sn (fr_frozen f) b t = Inr t'" "ts k = Some t'" by auto
    have "fz_roomy (Suc m) (the (fr_tables f k))" using assms(3) k by (simp add: fr_roomy_def)
    then have "fz_roomy (Suc m) t" by (simp add: t(1))
    from bounded_table.roomy_step [OF this t(2)] show ?thesis using t(3) by simp
  qed
  then have "fr_roomy m (f\<lparr>fr_tables := ts, fr_frozen := fr_frozen f + 1\<rparr>)" by (simp add: fr_roomy_def)
  with ts show ?thesis by auto
qed

definition small_store :: "snappy \<Rightarrow> (bytes \<rightharpoonup> bytes) \<Rightarrow> bool" where
  "small_store sn kv \<longleftrightarrow> (\<forall>v \<in> ran kv. small_blob sn v) \<and> (\<forall>h. small_blob sn (hash_Bytes h))"

lemma nofreeze_simps [simp]:
  "Ancient (nofreezedb kv) k n = []" "ancient_if (nofreezedb kv) k h n d = d" "db_kv (nofreezedb kv) = kv"
  by (simp_all add: Ancient_def ancient_if_def nofreezedb_def)

lemma nofreeze_reads:
  "ReadHeaderRLP C (nofreezedb kv) h n = lookup (nofreezedb kv) (Header n h)"
  "ReadBodyRLP (nofreezedb kv) h n = lookup (nofreezedb kv) (Body n h)"
  "ReadReceiptsRLP (nofreezedb kv) h n = lookup (nofreezedb kv) (Receipts n h)"
  "ReadTdRLP (nofreezedb kv) h n = lookup (nofreezedb kv) (Difficulty n h)"
  "ReadCanonicalHash (nofreezedb kv) n =
    (let data = lookup (nofreezedb kv) (CanonicalHash n) in if data = [] then 0 else BytesToHash data)"
  by (simp_all add: ReadHeaderRLP_def ReadBodyRLP_def ReadReceiptsRLP_def ReadTdRLP_def ReadCanonicalHash_def Get_items Let_def)

lemma small_lookup: "small_store sn kv \<Longrightarrow> lookup (nofreezedb kv) i \<noteq> [] \<Longrightarrow> small_blob sn (lookup (nofreezedb kv) i)"
  by (auto simp: small_store_def lookup_def Get_def ran_def split: option.splits)

lemma old_blobs_small:
  assumes "small_store sn kv" "block_present C (nofreezedb kv) n"
  shows "\<forall>(k, b) \<in> set (old_blobs C (nofreezedb kv) n). small_blob sn b"
proof -
  have "small_blob sn (hash_Bytes h)" for h using assms(1) by (simp add: small_store_def)
  then show ?thesis
    using assms(2) small_lookup [OF assms(1)]
    by (simp add: old_blobs_def five_def block_present_def Let_def nofreeze_reads(1-4))
qed

text \<open>The columns after copying the blocks of \<open>m\<close> heights.\<close>

fun copied :: "('h, 'b, 't, 'r, 'c) codecs \<Rightarrow> database \<Rightarrow> nat \<Rightarrow> u64 \<Rightarrow> (string \<Rightarrow> bytes list) \<Rightarrow> string \<Rightarrow> bytes list" where
  "copied C db 0 n cols = cols"
| "copied C db (Suc m) n cols = copied C db m (n + 1) (extended cols (old_blobs C db n))"

lemma freeze_loop_ok:
  assumes "fr_inv sn f cols" "small_store sn kv" "fr_frozen f \<le> limit" "fr_roomy r f" "unat (limit - fr_frozen f) \<le> r"
  shows "\<exists>f' m. freeze_loop rng sn C (nofreezedb kv) limit f ancients =
      Some (f', ancients @ map (\<lambda>i. ReadCanonicalHash (nofreezedb kv) (fr_frozen f + word_of_nat i)) [0 ..< m]) \<and>
    unat (fr_frozen f') = unat (fr_frozen f) + m \<and> fr_frozen f' \<le> limit \<and>
    fr_inv sn f' (copied C (nofreezedb kv) m (fr_frozen f) cols) \<and> fr_roomy (r - m) f' \<and>
    (\<forall>i < m. block_present C (nofreezedb kv) (fr_frozen f + word_of_nat i)) \<and>
    (fr_frozen f' = limit \<or> \<not> block_present C (nofreezedb kv) (fr_frozen f'))"
  using assms
proof (induction "unat (limit - fr_frozen f)" arbitrary: f cols ancients r)
  case 0
  then have "fr_frozen f = limit" by (simp add: unat_eq_zero)
  then have "freeze_loop rng sn C (nofreezedb kv) limit f ancients = Some (f, ancients)" by (simp add: freeze_loop_stop)
  then show ?case using 0 \<open>fr_frozen f = limit\<close> by (intro exI [of _ f] exI [of _ 0]) simp
next
  case (Suc d)
  let ?n = "fr_frozen f" and ?db = "nofreezedb kv"
  show ?case
  proof (cases "block_present C ?db ?n")
    case False
    then have "freeze_loop rng sn C ?db limit f ancients = Some (f, ancients)" by (simp add: freeze_loop_stop)
    then show ?thesis using Suc.prems False by (intro exI [of _ f] exI [of _ 0]) simp
  next
    case True
    have ne: "?n \<noteq> limit" using Suc.hyps(2) by auto
    with Suc.prems(3) have lt: "?n < limit" by simp
    then have nm: "?n \<noteq> - 1" using word_n1_ge [of limit] by auto
    have d: "unat (limit - (?n + 1)) = d"
    proof -
      have "?n + 1 \<le> limit" "unat (?n + 1) = unat ?n + 1"
        using next_below [OF lt] lt by (simp_all add: word_le_nat_alt word_less_nat_alt)
      then have "unat (limit - (?n + 1)) = unat limit - (unat ?n + 1)" by (simp only: unat_sub)
      moreover have "unat (limit - ?n) = unat limit - unat ?n" using Suc.prems(3) by (simp only: unat_sub)
      ultimately show ?thesis using Suc.hyps(2) by simp
    qed
    let ?h = "ReadCanonicalHash ?db ?n"
    obtain r' where r': "r = Suc r'" "d \<le> r'" using Suc.prems(5) Suc.hyps(2) by (cases r) auto
    have room: "fr_roomy (Suc r') f" using Suc.prems(4) r' by simp
    from AppendAncient_roomy [OF Suc.prems(1) nm room old_blobs_small [OF Suc.prems(2) True, unfolded old_blobs_def Let_def]]
    obtain f1 where f1: "AppendAncient rng sn ?n (hash_Bytes ?h) (ReadHeaderRLP C ?db ?h ?n) (ReadBodyRLP ?db ?h ?n)
          (ReadReceiptsRLP ?db ?h ?n) (ReadTdRLP ?db ?h ?n) f = Some (f1, None)"
      "fr_frozen f1 = ?n + 1" "fr_roomy r' f1" "fr_inv sn f1 (extended cols (old_blobs C ?db ?n))"
      by (auto simp: old_blobs_def Let_def)
    note step = freeze_loop_step [OF lt True f1(1)]
    have "?n + 1 \<le> limit" using next_below [OF lt] lt by (simp add: word_le_nat_alt word_less_nat_alt)
    then have le: "fr_frozen f1 \<le> limit" by (simp add: f1(2))
    have hyp: "d = unat (limit - fr_frozen f1)" using d by (simp add: f1(2))
    from Suc.hyps(1) [OF hyp f1(4) Suc.prems(2) le f1(3), of "ancients @ [?h]"] r'(2) hyp obtain f' m where
      f': "freeze_loop rng sn C ?db limit f1 (ancients @ [?h]) =
          Some (f', (ancients @ [?h]) @ map (\<lambda>i. ReadCanonicalHash ?db (?n + 1 + word_of_nat i)) [0 ..< m])"
        "unat (fr_frozen f') = unat (fr_frozen f1) + m" "fr_frozen f' \<le> limit"
        "fr_inv sn f' (copied C ?db m (?n + 1) (extended cols (old_blobs C ?db ?n)))" "fr_roomy (r' - m) f'"
        "\<forall>i < m. block_present C ?db (?n + 1 + word_of_nat i)"
        "fr_frozen f' = limit \<or> \<not> block_present C ?db (fr_frozen f')"
      by (auto simp: f1(2))
    have up: "?n + 1 + word_of_nat i = ?n + word_of_nat (Suc i)" for i by (simp add: ac_simps)
    have list: "map (\<lambda>i. ReadCanonicalHash ?db (?n + word_of_nat i)) [0 ..< Suc m] =
        ?h # map (\<lambda>i. ReadCanonicalHash ?db (?n + 1 + word_of_nat i)) [0 ..< m]"
      unfolding upt_conv_Cons [OF zero_less_Suc] map_Suc_upt [symmetric] by (simp add: up)
    have "\<forall>i < Suc m. block_present C ?db (?n + word_of_nat i)"
    proof safe
      fix i assume "i < Suc m"
      then show "block_present C ?db (?n + word_of_nat i)"
        using True f'(6) by (cases i) (auto simp: up simp del: of_nat_Suc)
    qed
    then show ?thesis
      using f' step next_below [OF lt] f1(2) r'(1) by (intro exI [of _ f'] exI [of _ "Suc m"]) (simp add: list del: upt_Suc)
  qed
qed

text \<open>What a round deletes: items of the frozen heights, and number entries of side blocks.\<close>

fun touched :: "u64 set \<Rightarrow> hash set \<Rightarrow> item \<Rightarrow> bool" where
  "touched N H (Header n h) = (n \<in> N)"
| "touched N H (Difficulty n h) = (n \<in> N)"
| "touched N H (CanonicalHash n) = (n \<in> N)"
| "touched N H (Body n h) = (n \<in> N)"
| "touched N H (Receipts n h) = (n \<in> N)"
| "touched N H (HeaderNumber h) = (h \<in> H)"
| "touched N H _ = False"

definition deletes :: "u64 set \<Rightarrow> hash set \<Rightarrow> kv_op list \<Rightarrow> bool" where
  "deletes N H ops \<longleftrightarrow> (\<forall>x \<in> set ops. \<exists>i. x = Delete (key_of i) \<and> proper i \<and> touched N H i)"

lemma deletes_append [simp]: "deletes N H (xs @ ys) \<longleftrightarrow> deletes N H xs \<and> deletes N H ys"
  by (auto simp: deletes_def)

lemma deletes_Nil [simp]: "deletes N H []"
  by (simp add: deletes_def)

lemma deletes_untouched:
  "deletes N H ops \<Longrightarrow> proper j \<Longrightarrow> \<not> touched N H j \<Longrightarrow> apply_ops ops m (key_of j) = m (key_of j)"
proof (induction ops arbitrary: m)
  case (Cons x ops)
  then obtain i where i: "x = Delete (key_of i)" "proper i" "touched N H i" by (auto simp: deletes_def)
  then have "i \<noteq> j" using Cons.prems(3) by auto
  then have "apply_op x m (key_of j) = m (key_of j)" using i Cons.prems(2) by simp
  moreover have "deletes N H ops" using Cons.prems(1) by (simp add: deletes_def)
  ultimately show ?case using Cons.IH [of "apply_op x m"] Cons.prems by (simp add: apply_ops_def)
qed (simp add: apply_ops_def)

lemma deletes_le: "deletes N H ops \<Longrightarrow> apply_ops ops m \<subseteq>\<^sub>m m"
proof (induction ops arbitrary: m)
  case (Cons x ops)
  then obtain i where "x = Delete (key_of i)" by (auto simp: deletes_def)
  then have "apply_op x m \<subseteq>\<^sub>m m" by (auto simp: map_le_def)
  moreover have "deletes N H ops" using Cons.prems by (simp add: deletes_def)
  ultimately show ?case using Cons.IH [of "apply_op x m"] by (simp add: apply_ops_def) (rule map_le_trans)
qed (simp add: apply_ops_def)

lemma deletes_item: "proper i \<Longrightarrow> touched N H i \<Longrightarrow> deletes N H [Delete (key_of i)]"
  by (auto simp: deletes_def)

lemma deletes_block:
  "n \<in> N \<Longrightarrow> deletes N H (DeleteBlockWithoutNumber h n @ DeleteCanonicalHash n)"
  "n \<in> N \<Longrightarrow> h \<in> H \<Longrightarrow> deletes N H (DeleteBlock h n)"
  by (auto simp: deletes_def ops_defs as_items)

lemma deletes_wipe_frozen: "(\<forall>i < length hs. n + word_of_nat i \<in> N) \<Longrightarrow> deletes N H (wipe_frozen n hs)"
proof (induction hs arbitrary: n)
  case (Cons h hs)
  have up: "n + 1 + word_of_nat i = n + word_of_nat (Suc i)" for i by (simp add: ac_simps)
  have "n \<in> N" using Cons.prems by force
  moreover have "\<forall>i < length hs. n + 1 + word_of_nat i \<in> N" using Cons.prems unfolding up by auto
  ultimately show ?case
    using Cons.IH [of "n + 1"] deletes_block(1) [of n N H h] by (cases "n = 0") simp_all
qed simp

lemma deletes_wipe_side:
  "n \<in> N \<Longrightarrow> set (ReadAllHashes db n) \<subseteq> H \<Longrightarrow> deletes N H (wipe_side db n)"
  using deletes_block(2) [of n N _ H] by (fastforce simp: wipe_side_def deletes_def)

text \<open>The hashes an iteration over a height finds are those of its headers.\<close>

lemma headerKeyPrefix_key: "HasPrefix k (headerKeyPrefix n) \<and> length k = length (headerKeyPrefix n) + 32 \<longleftrightarrow>
    (\<exists>h. k = key_of (Header n h))"
proof
  assume k: "HasPrefix k (headerKeyPrefix n) \<and> length k = length (headerKeyPrefix n) + 32"
  then have "k = headerKeyPrefix n @ drop (length (headerKeyPrefix n)) k" by (metis HasPrefix_def append_take_drop_id)
  moreover have "length (drop (length (headerKeyPrefix n)) k) = 32" using k by simp
  ultimately have "k = headerKeyPrefix n @ hash_Bytes (BytesToHash (drop (length (headerKeyPrefix n)) k))"
    by (simp add: hash_Bytes_BytesToHash)
  then show "\<exists>h. k = key_of (Header n h)"
    by (intro exI [of _ "BytesToHash (drop (length (headerKeyPrefix n)) k)"])
      (simp add: key_of.simps headerKey_def headerKeyPrefix_def)
qed (auto simp: key_of.simps headerKey_def headerKeyPrefix_def HasPrefix_def)

lemma ReadAllHashes_set:
  assumes "finite (dom (db_kv db))"
  shows "set (ReadAllHashes db n) = {h. db_kv db (key_of (Header n h)) \<noteq> None}"
proof -
  let ?K = "{k \<in> dom (db_kv db). HasPrefix k (headerKeyPrefix n) \<and> length k = length (headerKeyPrefix n) + 32}"
  have fin: "finite {k \<in> dom (db_kv db). HasPrefix k (headerKeyPrefix n)}" using assms by simp
  have "set (ReadAllHashes db n) = (\<lambda>k. BytesToHash (drop (length k - 32) k)) ` ?K"
    using fin by (auto simp: ReadAllHashes_def Let_def keys_with_prefix_def)
  also have "?K = (\<lambda>h. key_of (Header n h)) ` {h. db_kv db (key_of (Header n h)) \<noteq> None}"
    unfolding headerKeyPrefix_key by (auto simp: dom_def)
  also have "(\<lambda>k. BytesToHash (drop (length k - 32) k)) ` \<dots> = {h. db_kv db (key_of (Header n h)) \<noteq> None}"
    by (force simp: image_image key_of.simps headerKey_def)
  finally show ?thesis .
qed

text \<open>The columns after the copies, item by item.\<close>

lemma extended_old: "k \<in> set kinds \<Longrightarrow> extended cols (old_blobs C db n) k = cols k @ [the (map_of (old_blobs C db n) k)]"
  by (auto simp: extended_def old_blobs_def Let_def five_def kinds_def split: option.split)

lemma copied_columns:
  "k \<in> set kinds \<Longrightarrow> copied C db m n cols k =
    cols k @ map (\<lambda>i. the (map_of (old_blobs C db (n + word_of_nat i)) k)) [0 ..< m]"
proof (induction m arbitrary: n cols)
  case (Suc m)
  have up: "n + 1 + word_of_nat i = n + word_of_nat (Suc i)" for i by (simp add: ac_simps)
  have "map (\<lambda>i. the (map_of (old_blobs C db (n + word_of_nat i)) k)) [0 ..< Suc m] =
      the (map_of (old_blobs C db n) k) # map (\<lambda>i. the (map_of (old_blobs C db (n + 1 + word_of_nat i)) k)) [0 ..< m]"
    unfolding upt_conv_Cons [OF zero_less_Suc] map_Suc_upt [symmetric] by (simp add: up)
  then show ?case using Suc by (simp add: extended_old del: upt_Suc)
qed simp

text \<open>
  A sound key-value store, of finitely many entries: canonical headers have the hash they are
  stored under, and a header is stored at one height, the one its number entry names.
\<close>

definition sound_store :: "('h, 'b, 't, 'r, 'c) codecs \<Rightarrow> (bytes \<rightharpoonup> bytes) \<Rightarrow> bool" where
  "sound_store C kv \<longleftrightarrow> finite (dom kv) \<and>
     (\<forall>n h. kv (key_of (Header n h)) \<noteq> None \<longrightarrow> Keccak256Hash C (the (kv (key_of (Header n h)))) = h) \<and>
     (\<forall>n h n'. kv (key_of (Header n h)) \<noteq> None \<longrightarrow> ReadHeaderNumber (nofreezedb kv) h = Some n' \<longrightarrow> n' = n)"

lemma freezerdb_ancient:
  assumes "fr_inv sn f cols" "k \<in> set kinds"
  shows "db_ancient (freezerdb sn kv f) k n = (if n < fr_frozen f then Some (cols k ! unat n) else None)"
  using fr_inv_get [OF assms] by (simp add: freezerdb_def word_less_nat_alt)

lemma kinds_tables: "freezerHashTable \<in> set kinds" "freezerHeaderTable \<in> set kinds" "freezerBodiesTable \<in> set kinds"
    "freezerReceiptTable \<in> set kinds" "freezerDifficultyTable \<in> set kinds"
  by (simp_all add: kinds_def)

lemma five_lookup [simp]:
  "map_of (five h header body receipts td) freezerHashTable = Some h"
  "map_of (five h header body receipts td) freezerHeaderTable = Some header"
  "map_of (five h header body receipts td) freezerBodiesTable = Some body"
  "map_of (five h header body receipts td) freezerReceiptTable = Some receipts"
  "map_of (five h header body receipts td) freezerDifficultyTable = Some td"
  by (simp_all add: five_def freezer_tables)

text \<open>A block as the readers see it, and when two stores show the same one.\<close>

definition same_block :: "('h, 'b, 't, 'r, 'c) codecs \<Rightarrow> database \<Rightarrow> database \<Rightarrow> hash \<Rightarrow> u64 \<Rightarrow> bool" where
  "same_block C db db' h n \<longleftrightarrow> ReadHeaderRLP C db' h n = ReadHeaderRLP C db h n \<and> ReadBodyRLP db' h n = ReadBodyRLP db h n \<and>
     ReadReceiptsRLP db' h n = ReadReceiptsRLP db h n \<and> ReadTdRLP db' h n = ReadTdRLP db h n"

lemma Read_same:
  assumes "\<forall>k \<in> set kinds. db_ancient db' k n = db_ancient db k n"
    "\<forall>i \<in> {Header n h, Body n h, Receipts n h, Difficulty n h, CanonicalHash n}. lookup db' i = lookup db i"
  shows "same_block C db db' h n \<and> ReadCanonicalHash db' n = ReadCanonicalHash db n"
  using assms kinds_tables
  by (simp add: same_block_def ReadHeaderRLP_def ReadBodyRLP_def ReadReceiptsRLP_def ReadTdRLP_def ReadCanonicalHash_def
      Get_items Ancient_def ancient_if_def Let_def)

lemma lookup_freezerdb: "lookup (freezerdb sn kv f) i = lookup (nofreezedb kv) i"
  by (simp add: lookup_def Get_def freezerdb_def nofreezedb_def)

lemma no_ancient_reads:
  assumes "\<forall>k \<in> set kinds. db_ancient db k n = None" "db_kv db = kv"
  shows "ReadHeaderRLP C db h n = ReadHeaderRLP C (nofreezedb kv) h n" "ReadBodyRLP db h n = ReadBodyRLP (nofreezedb kv) h n"
    "ReadReceiptsRLP db h n = ReadReceiptsRLP (nofreezedb kv) h n" "ReadTdRLP db h n = ReadTdRLP (nofreezedb kv) h n"
    "ReadCanonicalHash db n = ReadCanonicalHash (nofreezedb kv) n"
proof -
  have "\<forall>k \<in> set kinds. db_ancient db k n = db_ancient (nofreezedb kv) k n" using assms(1) by (simp add: nofreezedb_def)
  moreover have "lookup db i = lookup (nofreezedb kv) i" for i using assms(2) by (simp add: lookup_def Get_def)
  ultimately show "ReadHeaderRLP C db h n = ReadHeaderRLP C (nofreezedb kv) h n" "ReadBodyRLP db h n = ReadBodyRLP (nofreezedb kv) h n"
    "ReadReceiptsRLP db h n = ReadReceiptsRLP (nofreezedb kv) h n" "ReadTdRLP db h n = ReadTdRLP (nofreezedb kv) h n"
    "ReadCanonicalHash db n = ReadCanonicalHash (nofreezedb kv) n"
    using Read_same [of db n "nofreezedb kv" h C] by (simp_all add: same_block_def)
qed

text \<open>A frozen block reads from the ancient store as it read from the key-value store.\<close>

lemma frozen_reads:
  assumes "block_present C (nofreezedb kv) n" "sound_store C kv"
    "\<forall>k \<in> set kinds. db_ancient db k n = Some (the (map_of (old_blobs C (nofreezedb kv) n) k))"
    "h = ReadCanonicalHash (nofreezedb kv) n"
  shows "ReadCanonicalHash db n = h \<and> same_block C (nofreezedb kv) db h n"
proof -
  have anc: "Ancient db k n = the (map_of (old_blobs C (nofreezedb kv) n) k)" if "k \<in> set kinds" for k
    using assms(3) that by (simp add: Ancient_def)
  note a = anc [OF kinds_tables(1)] anc [OF kinds_tables(2)] anc [OF kinds_tables(3)] anc [OF kinds_tables(4)] anc [OF kinds_tables(5)]
  have ne: "lookup (nofreezedb kv) (Header n h) \<noteq> []" using assms(1,4) by (simp add: block_present_def Let_def nofreeze_reads(1))
  then have "kv (key_of (Header n h)) \<noteq> None" "lookup (nofreezedb kv) (Header n h) = the (kv (key_of (Header n h)))"
    by (auto simp: lookup_def Get_def split: option.splits)
  then have kc: "Keccak256Hash C (lookup (nofreezedb kv) (Header n h)) = h" using assms(2) by (simp add: sound_store_def)
  show ?thesis
    using assms(1) a kc unfolding assms(4)
    by (simp add: same_block_def ReadHeaderRLP_def [of C db] ReadBodyRLP_def [of db] ReadReceiptsRLP_def [of db] ReadTdRLP_def [of db]
        ReadCanonicalHash_def [of db] old_blobs_def Let_def block_present_def ancient_if_def nofreeze_reads(1))
qed

lemma map_le_SomeD: "m' \<subseteq>\<^sub>m m \<Longrightarrow> m' k = Some v \<Longrightarrow> m k = Some v"
  by (metis domI map_le_def)

lemma sound_store_le: "sound_store C kv \<Longrightarrow> kv' \<subseteq>\<^sub>m kv \<Longrightarrow> sound_store C kv'"
  unfolding sound_store_def
proof (intro conjI allI impI)
  assume s: "finite (dom kv) \<and>
     (\<forall>n h. kv (key_of (Header n h)) \<noteq> None \<longrightarrow> Keccak256Hash C (the (kv (key_of (Header n h)))) = h) \<and>
     (\<forall>n h n'. kv (key_of (Header n h)) \<noteq> None \<longrightarrow> ReadHeaderNumber (nofreezedb kv) h = Some n' \<longrightarrow> n' = n)"
    and le: "kv' \<subseteq>\<^sub>m kv"
  show "finite (dom kv')" using s le by (meson finite_subset map_le_implies_dom_le)
  fix n h assume k: "kv' (key_of (Header n h)) \<noteq> None"
  then obtain v where v: "kv' (key_of (Header n h)) = Some v" by auto
  note v' = map_le_SomeD [OF le v]
  then show "Keccak256Hash C (the (kv' (key_of (Header n h)))) = h" using s v by fastforce
  fix n' assume "ReadHeaderNumber (nofreezedb kv') h = Some n'"
  moreover have "length [] \<noteq> (8 :: nat)" by simp
  ultimately have "ReadHeaderNumber (nofreezedb kv) h = Some n'"
    by (auto simp: ReadHeaderNumber_def Get_def Let_def split: option.splits if_splits dest: map_le_SomeD [OF le])
  then show "n' = n" using s v' by (metis option.distinct(1))
qed

lemma small_store_le: "small_store sn kv \<Longrightarrow> kv' \<subseteq>\<^sub>m kv \<Longrightarrow> small_store sn kv'"
  by (auto simp: small_store_def ran_def dest: map_le_SomeD)

text \<open>The heights of a round that froze \<open>m\<close> blocks.\<close>

definition heights :: "u64 \<Rightarrow> nat \<Rightarrow> u64 set" where
  "heights n m = (\<lambda>i. n + word_of_nat i) ` {0 ..< m}"

definition side_hashes :: "(bytes \<rightharpoonup> bytes) \<Rightarrow> u64 set \<Rightarrow> hash set" where
  "side_hashes kv N = {h. \<exists>n \<in> N. kv (key_of (Header n h)) \<noteq> None}"

lemma freeze_copy_ok:
  assumes "fr_inv sn f cols" "small_store sn kv" "sound_store C kv" "fr_roomy r f" "fr_frozen f \<le> limit" "unat (limit - fr_frozen f) \<le> r"
  shows "\<exists>f' m ancients. freeze_loop rng sn C (nofreezedb kv) limit f [] = Some (f', ancients) \<and>
    unat (fr_frozen f') = unat (fr_frozen f) + m \<and> fr_frozen f' \<le> limit \<and>
    fr_inv sn f' (copied C (nofreezedb kv) m (fr_frozen f) cols) \<and> fr_roomy (r - m) f' \<and>
    (\<forall>i < m. block_present C (nofreezedb kv) (fr_frozen f + word_of_nat i)) \<and>
    (fr_frozen f' = limit \<or> \<not> block_present C (nofreezedb kv) (fr_frozen f')) \<and>
    (let kv1 = apply_ops (wipe_frozen (fr_frozen f) ancients) kv;
         numbers = map (\<lambda>i. fr_frozen f + word_of_nat i) [0 ..< unat (fr_frozen f' - fr_frozen f)];
         ops = wipe_frozen (fr_frozen f) ancients @ concat (map (wipe_side (freezerdb sn kv1 f')) numbers) in
      deletes (heights (fr_frozen f) m) (side_hashes kv (heights (fr_frozen f) m)) ops \<and>
      apply_ops (concat (map (wipe_side (freezerdb sn kv1 f')) numbers)) kv1 = apply_ops ops kv)"
proof -
  let ?n = "fr_frozen f" and ?db = "nofreezedb kv"
  from freeze_loop_ok [OF assms(1,2,5,4,6), of rng C "[]"] obtain f' m where
    f': "freeze_loop rng sn C ?db limit f [] = Some (f', map (\<lambda>i. ReadCanonicalHash ?db (?n + word_of_nat i)) [0 ..< m])"
      "unat (fr_frozen f') = unat ?n + m" "fr_frozen f' \<le> limit" "fr_inv sn f' (copied C ?db m ?n cols)" "fr_roomy (r - m) f'"
      "\<forall>i < m. block_present C ?db (?n + word_of_nat i)" "fr_frozen f' = limit \<or> \<not> block_present C ?db (fr_frozen f')"
    by auto
  define ancients where "ancients = map (\<lambda>i. ReadCanonicalHash ?db (?n + word_of_nat i)) [0 ..< m]"
  define kv1 where "kv1 = apply_ops (wipe_frozen ?n ancients) kv"
  define N where "N = heights ?n m"
  have "?n \<le> fr_frozen f'" using f'(2) by (simp add: word_le_nat_alt)
  then have len: "unat (fr_frozen f' - ?n) = m" using f'(2) by (simp add: unat_sub)
  have w: "deletes N H (wipe_frozen ?n ancients)" for H
    by (rule deletes_wipe_frozen) (auto simp: ancients_def N_def heights_def)
  have le: "kv1 \<subseteq>\<^sub>m kv" unfolding kv1_def by (rule deletes_le [OF w])
  have fin: "finite (dom (db_kv (freezerdb sn kv1 f')))"
    using assms(3) le by (auto simp: sound_store_def freezerdb_def intro: finite_subset dest: map_le_implies_dom_le)
  have "deletes N (side_hashes kv N) (wipe_side (freezerdb sn kv1 f') n)" if "n \<in> N" for n
  proof (rule deletes_wipe_side [OF that])
    show "set (ReadAllHashes (freezerdb sn kv1 f') n) \<subseteq> side_hashes kv N"
      using that le unfolding ReadAllHashes_set [OF fin]
      by (auto simp: side_hashes_def freezerdb_def dest: map_le_SomeD)
  qed
  then have "deletes N (side_hashes kv N) (concat (map (wipe_side (freezerdb sn kv1 f')) (map (\<lambda>i. ?n + word_of_nat i) [0 ..< m])))"
    by (auto simp: deletes_def N_def heights_def)
  moreover have "apply_ops ys (apply_ops xs kv) = apply_ops (xs @ ys) kv" for xs ys by (simp add: apply_ops_def)
  ultimately show ?thesis
    using f' w [of "side_hashes kv N"] unfolding ancients_def [symmetric]
    by (intro exI [of _ f'] exI [of _ m] exI [of _ ancients]) (simp add: Let_def len kv1_def N_def)
qed

lemma heights_range:
  assumes "unat (n' :: u64) = unat n0 + m"
  shows "n \<in> heights n0 m \<longleftrightarrow> unat n0 \<le> unat n \<and> unat n < unat n0 + m"
proof
  assume "n \<in> heights n0 m"
  then obtain i where i: "i < m" "n = n0 + word_of_nat i" by (auto simp: heights_def)
  have "unat n0 + m < 2 ^ 64" using assms unsigned_less [where 'a = nat, of n'] by simp
  then have "unat n = unat n0 + i" using i by (simp add: unat_word_ariths unat_of_nat)
  then show "unat n0 \<le> unat n \<and> unat n < unat n0 + m" using i by simp
next
  assume r: "unat n0 \<le> unat n \<and> unat n < unat n0 + m"
  then have eq: "n = n0 + word_of_nat (unat n - unat n0)" by (simp add: of_nat_diff)
  have "unat n - unat n0 < m" using r by linarith
  then have "unat n - unat n0 \<in> {0 ..< m}" by simp
  with eq show "n \<in> heights n0 m" unfolding heights_def by blast
qed

text \<open>
  After the copies and the deletions the readers see every canonical block, and whatever is
  not at a frozen height, as before.
\<close>

lemma frozen_same:
  assumes "fr_inv sn f cols" "sound_store C kv" "unat (fr_frozen f') = unat (fr_frozen f) + m"
    "fr_inv sn f' (copied C (nofreezedb kv) m (fr_frozen f) cols)"
    "\<forall>i < m. block_present C (nofreezedb kv) (fr_frozen f + word_of_nat i)"
    "deletes (heights (fr_frozen f) m) H ops" "kv' = apply_ops ops kv"
  shows "ReadCanonicalHash (freezerdb sn kv' f') n = ReadCanonicalHash (freezerdb sn kv f) n \<and>
    (h = ReadCanonicalHash (freezerdb sn kv f) n \<or> n \<notin> heights (fr_frozen f) m \<longrightarrow>
      same_block C (freezerdb sn kv f) (freezerdb sn kv' f') h n)"
proof -
  let ?n = "fr_frozen f" and ?D = "freezerdb sn kv f" and ?D' = "freezerdb sn kv' f'"
  have lt: "n < fr_frozen f' \<longleftrightarrow> unat n < unat ?n + m" using assms(3) by (simp add: word_less_nat_alt)
  have anc': "db_ancient ?D' k n = (if unat n < unat ?n + m then Some (copied C (nofreezedb kv) m ?n cols k ! unat n) else None)"
    if "k \<in> set kinds" for k using freezerdb_ancient [OF assms(4) that, of kv' n] lt by simp
  have anc: "db_ancient ?D k n = (if unat n < unat ?n then Some (cols k ! unat n) else None)" if "k \<in> set kinds" for k
    using freezerdb_ancient [OF assms(1) that, of kv n] by (simp add: word_less_nat_alt)
  have L: "length (cols k) = unat ?n" if "k \<in> set kinds" for k using assms(1) that by (simp add: fr_inv_def)
  note in_range = heights_range [OF assms(3), of n]
  show ?thesis
  proof (cases "n \<in> heights ?n m")
    case False
    have "db_ancient ?D' k n = db_ancient ?D k n" if k: "k \<in> set kinds" for k
      using False anc [OF k] anc' [OF k] L [OF k] by (auto simp: in_range copied_columns [OF k] nth_append)
    moreover have "lookup ?D' i = lookup ?D i" if "i \<in> {Header n h, Body n h, Receipts n h, Difficulty n h, CanonicalHash n}" for i h
    proof -
      have "proper i" "\<not> touched (heights ?n m) H i" using that False by auto
      from deletes_untouched [OF assms(6) this] show ?thesis by (simp add: lookup_def Get_def freezerdb_def assms(7))
    qed
    ultimately show ?thesis using Read_same [of ?D' n ?D h C] by blast
  next
    case True
    then obtain i where i: "i < m" "n = ?n + word_of_nat i" by (auto simp: heights_def)
    have un: "unat n = unat ?n + i"
    proof -
      have "unat ?n + m < 2 ^ 64" using assms(3) unsigned_less [where 'a = nat, of "fr_frozen f'"] by simp
      then show ?thesis using i by (simp add: unat_word_ariths unat_of_nat)
    qed
    have present: "block_present C (nofreezedb kv) n" using assms(5) i by simp
    have "\<forall>k \<in> set kinds. db_ancient ?D' k n = Some (the (map_of (old_blobs C (nofreezedb kv) n) k))"
    proof
      fix k assume k: "k \<in> set kinds"
      have "copied C (nofreezedb kv) m ?n cols k ! (unat ?n + i) = the (map_of (old_blobs C (nofreezedb kv) n) k)"
        using L [OF k] i by (simp add: copied_columns [OF k] nth_append)
      then show "db_ancient ?D' k n = Some (the (map_of (old_blobs C (nofreezedb kv) n) k))"
        using anc' [OF k] i(1) unfolding un by simp
    qed
    note fr = frozen_reads [OF present assms(2) this refl]
    have "\<forall>k \<in> set kinds. db_ancient ?D k n = None" using anc True by (simp add: in_range)
    moreover have "db_kv ?D = kv" by (simp add: freezerdb_def)
    ultimately have na: "ReadCanonicalHash ?D n = ReadCanonicalHash (nofreezedb kv) n"
        "same_block C ?D (nofreezedb kv) h n"
      by (simp_all add: no_ancient_reads same_block_def)
    show ?thesis using fr na True by (auto simp: same_block_def)
  qed
qed

text \<open>One round, when there is something to freeze and in every case.\<close>

definition round_step ::
  "walk \<Rightarrow> snappy \<Rightarrow> ('h, 'b, 't, 'r, 'c) codecs \<Rightarrow> u64 \<Rightarrow> nat \<Rightarrow> (bytes \<rightharpoonup> bytes) \<Rightarrow> freezer \<Rightarrow> (string \<Rightarrow> bytes list) \<Rightarrow>
    nat \<Rightarrow> (bytes \<rightharpoonup> bytes) \<Rightarrow> freezer \<Rightarrow> kv_op list \<Rightarrow> bool"
where
  "round_step rng sn C thr r kv f cols m kv' f' ops \<longleftrightarrow>
    (\<exists>wait. freeze_round rng sn C thr kv f = Some (wait, kv', f')) \<and>
    fr_inv sn f' (copied C (nofreezedb kv) m (fr_frozen f) cols) \<and>
    unat (fr_frozen f') = unat (fr_frozen f) + m \<and> fr_roomy (r - m) f' \<and>
    (\<forall>i < m. block_present C (nofreezedb kv) (fr_frozen f + word_of_nat i)) \<and>
    deletes (heights (fr_frozen f) m) (side_hashes kv (heights (fr_frozen f) m)) ops \<and> kv' = apply_ops ops kv"

definition head_at :: "('h, 'b, 't, 'r, 'c) codecs \<Rightarrow> (bytes \<rightharpoonup> bytes) \<Rightarrow> u64 \<Rightarrow> bool" where
  "head_at C kv number \<longleftrightarrow>
     (let db = nofreezedb kv; h = ReadHeadBlockHash db in
      h \<noteq> 0 \<and> ReadHeaderNumber db h = Some number \<and> ReadHeader C db h number \<noteq> None)"

lemma freeze_round_active:
  assumes "fr_inv sn f cols" "small_store sn kv" "sound_store C kv" "fr_roomy r f" "30000 \<le> r"
    "head_at C kv number" "thr \<le> number" "fr_frozen f < number - thr"
  shows "\<exists>kv' f' m ops. round_step rng sn C thr r kv f cols m kv' f' ops \<and>
    (unat (fr_frozen f') = min (unat (number - thr)) (unat (fr_frozen f) + 30000) \<or>
      fr_frozen f' < number - thr \<and> \<not> block_present C (nofreezedb kv) (fr_frozen f'))"
proof -
  let ?db = "nofreezedb kv"
  define h where "h = ReadHeadBlockHash ?db"
  obtain head where hd: "h \<noteq> 0" "ReadHeaderNumber ?db h = Some number" "ReadHeader C ?db h number = Some head"
    using assms(6) by (auto simp: head_at_def Let_def h_def)
  define limit where "limit = (if number - thr - fr_frozen f > freezerBatchLimit then fr_frozen f + freezerBatchLimit else number - thr)"
  note lt = assms(8)
  have dist: "unat (number - thr - fr_frozen f) = unat (number - thr) - unat (fr_frozen f)"
    using lt by (intro unat_sub) simp
  have lim: "unat limit = min (unat (number - thr)) (unat (fr_frozen f) + 30000)"
  proof (cases "number - thr - fr_frozen f > freezerBatchLimit")
    case True
    then have gt: "unat (fr_frozen f) + 30000 < unat (number - thr)"
      using dist by (simp add: freezerBatchLimit_def word_less_nat_alt)
    then have "unat (fr_frozen f) + 30000 < 2 ^ 64" using unsigned_less [where 'a = nat, of "number - thr"] by simp
    then have "unat (fr_frozen f + 30000) = unat (fr_frozen f) + 30000" by (simp add: unat_word_ariths)
    then show ?thesis using True gt by (simp add: limit_def freezerBatchLimit_def)
  next
    case False
    then have "unat (number - thr) \<le> unat (fr_frozen f) + 30000"
      using dist by (simp add: freezerBatchLimit_def word_less_nat_alt)
    then show ?thesis using False by (simp add: limit_def)
  qed
  have le: "fr_frozen f \<le> limit" using lim lt by (simp add: word_le_nat_alt word_less_nat_alt)
  then have "unat (limit - fr_frozen f) \<le> r" using lim assms(5) by (simp add: unat_sub)
  from freeze_copy_ok [OF assms(1-4) le this, of rng] obtain f' m ancients where
    f': "freeze_loop rng sn C ?db limit f [] = Some (f', ancients)" "unat (fr_frozen f') = unat (fr_frozen f) + m"
      "fr_frozen f' \<le> limit" "fr_inv sn f' (copied C ?db m (fr_frozen f) cols)" "fr_roomy (r - m) f'"
      "\<forall>i < m. block_present C ?db (fr_frozen f + word_of_nat i)" "fr_frozen f' = limit \<or> \<not> block_present C ?db (fr_frozen f')"
    and ops: "let kv1 = apply_ops (wipe_frozen (fr_frozen f) ancients) kv;
       numbers = map (\<lambda>i. fr_frozen f + word_of_nat i) [0 ..< unat (fr_frozen f' - fr_frozen f)];
       ops = wipe_frozen (fr_frozen f) ancients @ concat (map (wipe_side (freezerdb sn kv1 f')) numbers) in
      deletes (heights (fr_frozen f) m) (side_hashes kv (heights (fr_frozen f) m)) ops \<and>
      apply_ops (concat (map (wipe_side (freezerdb sn kv1 f')) numbers)) kv1 = apply_ops ops kv"
    by blast
  define kv1 where "kv1 = apply_ops (wipe_frozen (fr_frozen f) ancients) kv"
  define side where "side = concat (map (wipe_side (freezerdb sn kv1 f'))
    (map (\<lambda>i. fr_frozen f + word_of_nat i) [0 ..< unat (fr_frozen f' - fr_frozen f)]))"
  have "\<not> number < thr" "\<not> number - thr \<le> fr_frozen f" using assms(7,8) by (simp_all add: not_le)
  then have run: "freeze_round rng sn C thr kv f =
      Some (fr_frozen f' - fr_frozen f < freezerBatchLimit, apply_ops side kv1, f')"
    using hd f'(1)
    by (simp add: freeze_round_def Let_def h_def [symmetric] limit_def [symmetric] kv1_def side_def)
  have d: "deletes (heights (fr_frozen f) m) (side_hashes kv (heights (fr_frozen f) m)) (wipe_frozen (fr_frozen f) ancients @ side)"
    "apply_ops side kv1 = apply_ops (wipe_frozen (fr_frozen f) ancients @ side) kv"
    using ops unfolding Let_def kv1_def [symmetric] side_def [symmetric] by blast+
  have "round_step rng sn C thr r kv f cols m (apply_ops side kv1) f' (wipe_frozen (fr_frozen f) ancients @ side)"
    unfolding round_step_def using run d f'(2,4-6) by blast
  moreover have "unat (fr_frozen f') = min (unat (number - thr)) (unat (fr_frozen f) + 30000) \<or>
      fr_frozen f' < number - thr \<and> \<not> block_present C ?db (fr_frozen f')"
  proof (cases "fr_frozen f' = limit")
    case False
    then have "fr_frozen f' < limit" using f'(3) by simp
    then have "fr_frozen f' < number - thr" using lim by (simp add: word_less_nat_alt)
    then show ?thesis using f'(7) False by simp
  qed (simp add: lim)
  ultimately show ?thesis by blast
qed

lemma freeze_round_ok:
  assumes "fr_inv sn f cols" "small_store sn kv" "sound_store C kv" "fr_roomy r f" "30000 \<le> r"
  shows "\<exists>kv' f' m ops. round_step rng sn C thr r kv f cols m kv' f' ops"
proof -
  let ?db = "nofreezedb kv"
  have idle: ?thesis if "freeze_round rng sn C thr kv f = Some (True, kv, f)"
    using that assms(1,4)
    by (intro exI [of _ kv] exI [of _ f] exI [of _ 0] exI [of _ "[]"]) (auto simp: round_step_def apply_ops_def)
  define h where "h = ReadHeadBlockHash ?db"
  show ?thesis
  proof (cases "\<exists>number. head_at C kv number \<and> thr \<le> number \<and> fr_frozen f < number - thr")
    case True
    with freeze_round_active [OF assms] show ?thesis by blast
  next
    case False
    then show ?thesis
      by (intro idle) (auto simp: freeze_round_def head_at_def Let_def not_le split: option.splits)
  qed
qed

text \<open>
  C30: Freezing loses no block of the chain. In a database whose key-value store is sound and
  whose ancient store is in step and has room for a batch, a round of the background loop
  always ends; afterwards the store is sound and in step again, the frozen height has not
  fallen, and every canonical hash, and under it the header, body, receipts and difficulty of
  every canonical block, reads exactly as before, wherever the block now is. Off the frozen
  heights also the side blocks read as before.
\<close>

theorem freezing_keeps_the_chain:
  assumes "fr_inv sn f cols" "small_store sn kv" "sound_store C kv" "fr_roomy r f" "30000 \<le> r"
  shows "\<exists>wait kv' f' cols'. freeze_round rng sn C thr kv f = Some (wait, kv', f') \<and>
    fr_inv sn f' cols' \<and> small_store sn kv' \<and> sound_store C kv' \<and> fr_frozen f \<le> fr_frozen f' \<and>
    (\<forall>n. ReadCanonicalHash (freezerdb sn kv' f') n = ReadCanonicalHash (freezerdb sn kv f) n) \<and>
    (\<forall>n h. h = ReadCanonicalHash (freezerdb sn kv f) n \<or> n < fr_frozen f \<or> fr_frozen f' \<le> n \<longrightarrow>
      same_block C (freezerdb sn kv f) (freezerdb sn kv' f') h n)"
proof -
  from freeze_round_ok [OF assms, of rng thr] obtain wait kv' f' m ops where
    r: "freeze_round rng sn C thr kv f = Some (wait, kv', f')"
    and inv: "fr_inv sn f' (copied C (nofreezedb kv) m (fr_frozen f) cols)"
    and u: "unat (fr_frozen f') = unat (fr_frozen f) + m"
    and p: "\<forall>i < m. block_present C (nofreezedb kv) (fr_frozen f + word_of_nat i)"
    and d: "deletes (heights (fr_frozen f) m) (side_hashes kv (heights (fr_frozen f) m)) ops" and k: "kv' = apply_ops ops kv"
    unfolding round_step_def by blast
  have le: "kv' \<subseteq>\<^sub>m kv" unfolding k by (rule deletes_le [OF d])
  note same = frozen_same [OF assms(1,3) u inv p d k]
  have off: "n \<notin> heights (fr_frozen f) m" if "n < fr_frozen f \<or> fr_frozen f' \<le> n" for n
    using that heights_range [OF u, of n] by (auto simp: word_less_nat_alt word_le_nat_alt u)
  have "fr_frozen f \<le> fr_frozen f'" using u by (simp add: word_le_nat_alt)
  moreover have "same_block C (freezerdb sn kv f) (freezerdb sn kv' f') h n"
    if "h = ReadCanonicalHash (freezerdb sn kv f) n \<or> n < fr_frozen f \<or> fr_frozen f' \<le> n" for h n
    using that same [of n h] off [of n] by auto
  ultimately show ?thesis
    using r inv small_store_le [OF assms(2) le] sound_store_le [OF assms(3) le] same by blast
qed

text \<open>Repeating the rounds.\<close>

fun freeze_rounds ::
  "nat \<Rightarrow> walk \<Rightarrow> snappy \<Rightarrow> ('h, 'b, 't, 'r, 'c) codecs \<Rightarrow> u64 \<Rightarrow> (bytes \<rightharpoonup> bytes) \<Rightarrow> freezer \<Rightarrow> ((bytes \<rightharpoonup> bytes) \<times> freezer) option"
where
  "freeze_rounds 0 rng sn C thr kv f = Some (kv, f)"
| "freeze_rounds (Suc k) rng sn C thr kv f =
     (case freeze_round rng sn C thr kv f of None \<Rightarrow> None
      | Some (wait, kv, f) \<Rightarrow> freeze_rounds k rng sn C thr kv f)"

lemma untouched_lookup:
  "deletes N H ops \<Longrightarrow> proper i \<Longrightarrow> \<not> touched N H i \<Longrightarrow> lookup (nofreezedb (apply_ops ops kv)) i = lookup (nofreezedb kv) i"
  by (simp add: lookup_def Get_def deletes_untouched)

lemma untouched_block:
  "deletes N H ops \<Longrightarrow> n \<notin> N \<Longrightarrow> block_present C (nofreezedb (apply_ops ops kv)) n = block_present C (nofreezedb kv) n"
  by (simp add: block_present_def nofreeze_reads untouched_lookup)

lemma Get_head: "Get db headBlockKey = lookup db LastBlock"
  by (simp add: lookup_def key_of.simps)

text \<open>The head of the chain, which is above the frozen heights, stays where it is.\<close>

lemma untouched_head:
  assumes "deletes N (side_hashes kv N) ops" "sound_store C kv" "head_at C kv number" "number \<notin> N"
  shows "head_at C (apply_ops ops kv) number"
proof -
  let ?h = "ReadHeadBlockHash (nofreezedb kv)"
  have head: "?h \<noteq> 0" "ReadHeaderNumber (nofreezedb kv) ?h = Some number" "ReadHeader C (nofreezedb kv) ?h number \<noteq> None"
    using assms(3) by (auto simp: head_at_def Let_def)
  have "?h \<notin> side_hashes kv N"
  proof
    assume "?h \<in> side_hashes kv N"
    then obtain n where n: "n \<in> N" "kv (key_of (Header n ?h)) \<noteq> None" unfolding side_hashes_def by blast
    from assms(2) n(2) head(2) have "number = n" unfolding sound_store_def by blast
    with assms(4) n(1) show False by simp
  qed
  then have l: "lookup (nofreezedb (apply_ops ops kv)) (HeaderNumber ?h) = lookup (nofreezedb kv) (HeaderNumber ?h)"
      "lookup (nofreezedb (apply_ops ops kv)) (Header number ?h) = lookup (nofreezedb kv) (Header number ?h)"
      "lookup (nofreezedb (apply_ops ops kv)) LastBlock = lookup (nofreezedb kv) LastBlock"
    using assms(4) by (simp_all add: untouched_lookup [OF assms(1)])
  have "ReadHeadBlockHash (nofreezedb (apply_ops ops kv)) = ?h" by (simp add: ReadHeadBlockHash_def Get_head l(3))
  moreover have "ReadHeaderNumber (nofreezedb (apply_ops ops kv)) ?h = ReadHeaderNumber (nofreezedb kv) ?h"
    by (simp add: ReadHeaderNumber_def Get_items l(1))
  moreover have "ReadHeader C (nofreezedb (apply_ops ops kv)) ?h number = ReadHeader C (nofreezedb kv) ?h number"
    by (simp add: ReadHeader_def nofreeze_reads(1) l(2))
  ultimately show ?thesis using head by (simp add: head_at_def)
qed

text \<open>
  C31: The ancient store catches up. When the head of the chain is \<open>number\<close> and every canonical
  block from the frozen height up to \<open>number - threshold\<close> is in the key-value store, repeating
  the rounds of the background loop freezes all of them: after at most one round for every
  30000 blocks, and one more, the frozen height is \<open>number - threshold\<close>.
\<close>

theorem freezing_catches_up:
  assumes "fr_inv sn f cols" "small_store sn kv" "sound_store C kv" "fr_roomy r f"
    "unat (number - thr) - unat (fr_frozen f) + 30000 \<le> r" "head_at C kv number" "thr \<le> number" "fr_frozen f \<le> number - thr"
    "\<forall>n. fr_frozen f \<le> n \<and> n < number - thr \<longrightarrow> block_present C (nofreezedb kv) n"
  shows "\<exists>k kv' f'. k \<le> (unat (number - thr) - unat (fr_frozen f)) div 30000 + 1 \<and>
    freeze_rounds k rng sn C thr kv f = Some (kv', f') \<and> fr_frozen f' = number - thr"
  using assms
proof (induction "unat (number - thr) - unat (fr_frozen f)" arbitrary: kv f cols r rule: less_induct)
  case less
  let ?t = "number - thr"
  show ?case
  proof (cases "fr_frozen f = ?t")
    case True
    then show ?thesis by (intro exI [of _ 0]) simp
  next
    case False
    then have lt: "fr_frozen f < ?t" using less.prems(8) by simp
    have "30000 \<le> r" using less.prems(5) by simp
    from freeze_round_active [OF less.prems(1-4) this less.prems(6,7) lt, of rng] obtain kv' f' m ops where
      st: "round_step rng sn C thr r kv f cols m kv' f' ops" and
      alt: "unat (fr_frozen f') = min (unat ?t) (unat (fr_frozen f) + 30000) \<or>
        fr_frozen f' < ?t \<and> \<not> block_present C (nofreezedb kv) (fr_frozen f')" by blast
    from st obtain wait where run: "freeze_round rng sn C thr kv f = Some (wait, kv', f')"
      and inv: "fr_inv sn f' (copied C (nofreezedb kv) m (fr_frozen f) cols)" and u: "unat (fr_frozen f') = unat (fr_frozen f) + m"
      and room: "fr_roomy (r - m) f'" and d: "deletes (heights (fr_frozen f) m) (side_hashes kv (heights (fr_frozen f) m)) ops"
      and k: "kv' = apply_ops ops kv" by (auto simp: round_step_def)
    have "fr_frozen f \<le> fr_frozen f'" using u by (simp add: word_le_nat_alt)
    with alt less.prems(9) have fz: "unat (fr_frozen f') = min (unat ?t) (unat (fr_frozen f) + 30000)" by auto
    have up: "unat (fr_frozen f) < unat ?t" using lt by (simp add: word_less_nat_alt)
    have le: "kv' \<subseteq>\<^sub>m kv" unfolding k by (rule deletes_le [OF d])
    have t: "unat ?t \<le> unat number" using less.prems(7) by (simp add: unat_sub)
    have "number \<notin> heights (fr_frozen f) m" using heights_range [OF u, of number] t fz u by auto
    from untouched_head [OF d less.prems(3,6) this] have head: "head_at C kv' number" unfolding k .
    have present: "\<forall>n. fr_frozen f' \<le> n \<and> n < ?t \<longrightarrow> block_present C (nofreezedb kv') n"
    proof safe
      fix n assume n: "fr_frozen f' \<le> n" "n < ?t"
      then have "n \<notin> heights (fr_frozen f) m" using heights_range [OF u, of n] u by (simp add: word_le_nat_alt)
      from untouched_block [OF d this] have "block_present C (nofreezedb kv') n = block_present C (nofreezedb kv) n"
        unfolding k .
      moreover have "fr_frozen f \<le> n" using n(1) u by (simp add: word_le_nat_alt)
      ultimately show "block_present C (nofreezedb kv') n" using less.prems(9) n(2) by blast
    qed
    have dec: "unat ?t - unat (fr_frozen f') < unat ?t - unat (fr_frozen f)" using up fz by auto
    have cap: "unat ?t - unat (fr_frozen f') + 30000 \<le> r - m" using less.prems(5) u fz by auto
    have le': "fr_frozen f' \<le> ?t" using fz by (simp add: word_le_nat_alt)
    from less.hyps [OF dec inv small_store_le [OF less.prems(2) le] sound_store_le [OF less.prems(3) le] room cap head
        less.prems(7) le' present] obtain j kv'' f'' where
      j: "j \<le> (unat ?t - unat (fr_frozen f')) div 30000 + 1" "freeze_rounds j rng sn C thr kv' f' = Some (kv'', f'')"
        "fr_frozen f'' = ?t" by blast
    show ?thesis
    proof (cases "unat ?t \<le> unat (fr_frozen f) + 30000")
      case True
      then have "fr_frozen f' = ?t" using fz by (simp add: word_unat_eq_iff)
      then show ?thesis using run by (intro exI [of _ 1] exI [of _ kv'] exI [of _ f']) simp
    next
      case False
      then have "unat ?t - unat (fr_frozen f) = (unat ?t - unat (fr_frozen f')) + 30000" using fz by simp
      then have "(unat ?t - unat (fr_frozen f)) div 30000 = (unat ?t - unat (fr_frozen f')) div 30000 + 1"
        by simp
      then show ?thesis using j run by (intro exI [of _ "Suc j"] exI [of _ kv''] exI [of _ f'']) simp
    qed
  qed
qed

text \<open>A store with two blocks, the second one at the head, for the witnesses.\<close>

definition two_blocks :: "bytes \<rightharpoonup> bytes" where
  "two_blocks = [key_of LastBlock \<mapsto> hash_Bytes 2, key_of (HeaderNumber 2) \<mapsto> be64 1,
     key_of (Header 1 2) \<mapsto> hash_Bytes 2, key_of (CanonicalHash 0) \<mapsto> hash_Bytes 5, key_of (Header 0 5) \<mapsto> hash_Bytes 5,
     key_of (Body 0 5) \<mapsto> [0], key_of (Receipts 0 5) \<mapsto> [0], key_of (Difficulty 0 5) \<mapsto> [0]]"

lemma two_lookup: "lookup (nofreezedb two_blocks) i = (case two_blocks (key_of i) of None \<Rightarrow> [] | Some v \<Rightarrow> v)"
  by (simp add: lookup_def Get_def)

lemma two_small: "small_store plain two_blocks"
proof -
  have "small_blob plain b" if "length b \<le> 32" for b using that by (simp add: small_blob_def plain_def)
  moreover have "length v \<le> 32" if "v \<in> ran two_blocks" for v
    using that by (auto simp: two_blocks_def ran_def split: if_splits)
  ultimately show ?thesis by (simp add: small_store_def)
qed

lemma two_sound: "sound_store flat_codecs two_blocks"
proof -
  have "finite (dom two_blocks)" by (simp add: two_blocks_def)
  moreover have hdr: "two_blocks (key_of (Header n h)) = (if n = 1 \<and> h = 2 then Some (hash_Bytes 2)
      else if n = 0 \<and> h = 5 then Some (hash_Bytes 5) else None)" for n h
    by (simp add: two_blocks_def)
  moreover have "ReadHeaderNumber (nofreezedb two_blocks) h = (if h = 2 then Some 1 else None)" for h
    by (simp add: ReadHeaderNumber_def Let_def Get_items two_lookup) (simp add: two_blocks_def)
  ultimately show ?thesis
    unfolding sound_store_def by (auto simp: flat_codecs_def split: if_splits)
qed

lemma two_head: "head_at flat_codecs two_blocks 1"
  by (simp add: head_at_def Let_def ReadHeadBlockHash_def ReadHeaderNumber_def ReadHeader_def nofreeze_reads(1) Get_items
      Get_head two_lookup) (simp add: two_blocks_def flat_simps)

lemma two_present: "block_present flat_codecs (nofreezedb two_blocks) 0"
  by (simp add: block_present_def Let_def nofreeze_reads two_lookup) (simp add: two_blocks_def)

lemma empty_roomy: "r \<le> 60000 \<Longrightarrow> fr_roomy r empty_freezer"
proof -
  assume r: "r \<le> 60000"
  have "fz_roomy r (the (empty_tables k))" if "k \<in> set kinds" for k
  proof -
    from that obtain nc where "(k, nc) \<in> set freezerNoSnappy" unfolding freezerNoSnappy_keys(1) [symmetric] by auto
    from empty_tables_at [OF this] r show ?thesis by (simp add: fz_roomy_def fresh_table_def)
  qed
  then show ?thesis by (simp add: fr_roomy_def empty_freezer_def)
qed

theorem freezing_keeps_the_chain_witness:
  "\<exists>wait kv' f'. freeze_round some_order plain flat_codecs 0 two_blocks empty_freezer = Some (wait, kv', f') \<and>
    ReadCanonicalHash (freezerdb plain kv' f') 0 = ReadCanonicalHash (freezerdb plain two_blocks empty_freezer) 0"
  using freezing_keeps_the_chain [OF empty_inv two_small two_sound empty_roomy, of 30000 some_order 0] by fastforce

theorem freezing_catches_up_witness:
  "\<exists>k kv' f'. freeze_rounds k some_order plain flat_codecs 0 two_blocks empty_freezer = Some (kv', f') \<and> fr_frozen f' = 1"
proof -
  have "n = 0" if "n < 1" for n :: u64 using that by (simp add: word_less_nat_alt unat_eq_zero)
  then have "\<forall>n. fr_frozen empty_freezer \<le> n \<and> n < 1 - 0 \<longrightarrow> block_present flat_codecs (nofreezedb two_blocks) n"
    using two_present by auto
  moreover have "unat ((1 :: u64) - 0) - unat (fr_frozen empty_freezer) + 30000 \<le> 30001" by (simp add: empty_freezer_def)
  ultimately show ?thesis
    using freezing_catches_up [OF empty_inv two_small two_sound empty_roomy _ two_head, of 30001 0 some_order]
    by (auto simp: empty_freezer_def)
qed

end
