(* ===== verification/Raw_Table.thy ===== *)
theory Raw_Table
  imports Raw_DB
begin

text \<open>
  A table of the chain database (\<^verbatim>\<open>table.go\<close>): a view of a store in which every key carries
  a prefix, with its batches, replays, iterators and compaction ranges. The methods for ancient
  data, statistics and closing pass their arguments on and are left out.
\<close>

section \<open>The table and its batches\<close>

record table =
  tb_db :: database
  tb_prefix :: bytes

definition NewTable :: "database \<Rightarrow> bytes \<Rightarrow> table" where
  "NewTable db p = \<lparr>tb_db = db, tb_prefix = p\<rparr>"

definition tb_Has :: "table \<Rightarrow> bytes \<Rightarrow> bool" where
  "tb_Has t key \<longleftrightarrow> Has (tb_db t) (tb_prefix t @ key)"

definition tb_Get :: "table \<Rightarrow> bytes \<Rightarrow> bytes option" where
  "tb_Get t key = db_kv (tb_db t) (tb_prefix t @ key)"

definition tb_Put :: "table \<Rightarrow> bytes \<Rightarrow> bytes \<Rightarrow> table" where
  "tb_Put t key v = t\<lparr>tb_db := store [Put (tb_prefix t @ key) v] (tb_db t)\<rparr>"

definition tb_Delete :: "table \<Rightarrow> bytes \<Rightarrow> table" where
  "tb_Delete t key = t\<lparr>tb_db := store [Delete (tb_prefix t @ key)] (tb_db t)\<rparr>"

text \<open>A batch of the store is the list of its writes and the bytes they hold.\<close>

record batch =
  ba_ops :: "kv_op list"
  ba_size :: nat

definition inner_Put :: "batch \<Rightarrow> bytes \<Rightarrow> bytes \<Rightarrow> batch" where
  "inner_Put b key v = b\<lparr>ba_ops := ba_ops b @ [Put key v], ba_size := ba_size b + length v\<rparr>"

definition inner_Delete :: "batch \<Rightarrow> bytes \<Rightarrow> batch" where
  "inner_Delete b key = b\<lparr>ba_ops := ba_ops b @ [Delete key], ba_size := ba_size b + 1\<rparr>"

record table_batch =
  tbb_batch :: batch
  tbb_prefix :: bytes

definition tb_NewBatch :: "table \<Rightarrow> table_batch" where
  "tb_NewBatch t = \<lparr>tbb_batch = \<lparr>ba_ops = [], ba_size = 0\<rparr>, tbb_prefix = tb_prefix t\<rparr>"

definition tbb_Put :: "table_batch \<Rightarrow> bytes \<Rightarrow> bytes \<Rightarrow> table_batch" where
  "tbb_Put b key v = b\<lparr>tbb_batch := inner_Put (tbb_batch b) (tbb_prefix b @ key) v\<rparr>"

definition tbb_Delete :: "table_batch \<Rightarrow> bytes \<Rightarrow> table_batch" where
  "tbb_Delete b key = b\<lparr>tbb_batch := inner_Delete (tbb_batch b) (tbb_prefix b @ key)\<rparr>"

definition tbb_ValueSize :: "table_batch \<Rightarrow> nat" where
  "tbb_ValueSize b = ba_size (tbb_batch b)"

definition tbb_Write :: "table_batch \<Rightarrow> database \<Rightarrow> database" where
  "tbb_Write b db = store (ba_ops (tbb_batch b)) db"

definition tbb_Reset :: "table_batch \<Rightarrow> table_batch" where
  "tbb_Reset b = b\<lparr>tbb_batch := \<lparr>ba_ops = [], ba_size = 0\<rparr>\<rparr>"

text \<open>
  Replaying calls the writer \<open>w\<close> for every entry with the prefix cut off; a key shorter than
  the prefix is a slice out of range.
\<close>

fun replay_op :: "bytes \<Rightarrow> kv_op \<Rightarrow> kv_op option" where
  "replay_op p (Put key v) = (if length p \<le> length key then Some (Put (drop (length p) key) v) else None)"
| "replay_op p (Delete key) = (if length p \<le> length key then Some (Delete (drop (length p) key)) else None)"

fun replay_ops :: "bytes \<Rightarrow> kv_op list \<Rightarrow> kv_op list option" where
  "replay_ops p [] = Some []"
| "replay_ops p (x # xs) =
     (case replay_op p x of None \<Rightarrow> None
      | Some y \<Rightarrow> (case replay_ops p xs of None \<Rightarrow> None | Some ys \<Rightarrow> Some (y # ys)))"

definition tbb_Replay :: "table_batch \<Rightarrow> kv_op list option" where
  "tbb_Replay b = replay_ops (tbb_prefix b) (ba_ops (tbb_batch b))"

section \<open>Iterators and compaction\<close>

text \<open>The store walks over the keys with a prefix from \<open>prefix @ start\<close> on.\<close>

definition inner_iterator :: "database \<Rightarrow> bytes \<Rightarrow> bytes \<Rightarrow> (bytes \<times> bytes) list" where
  "inner_iterator db p start =
     map (\<lambda>k. (k, the (db_kv db k))) (filter (\<lambda>k. p @ start \<le> k) (keys_with_prefix p (db_kv db)))"

definition tb_NewIterator :: "table \<Rightarrow> bytes \<Rightarrow> bytes \<Rightarrow> (bytes \<times> bytes) list" where
  "tb_NewIterator t p start =
     map (\<lambda>(key, v). (drop (length (tb_prefix t)) key, v)) (inner_iterator (tb_db t) (tb_prefix t @ p) start)"

fun limit_loop :: "nat \<Rightarrow> bytes \<Rightarrow> bytes option" where
  "limit_loop 0 limit = Some limit"
| "limit_loop (Suc i) limit =
     (let limit = limit[i := limit ! i + 1] in
      if limit ! i > 0 then Some limit else if i = 0 then None else limit_loop i limit)"

text \<open>The range that is compacted; \<open>None\<close> stands for nil.\<close>

definition Compact :: "table \<Rightarrow> bytes option \<Rightarrow> bytes option \<Rightarrow> bytes option \<times> bytes option" where
  "Compact t start limit =
     (let start = (if start = None then Some (tb_prefix t) else start);
          limit = (if limit = None then limit_loop (length (tb_prefix t)) (tb_prefix t) else limit) in
      (start, limit))"

section \<open>Isolation\<close>

text \<open>What a table sees of its store.\<close>

definition tview :: "bytes \<Rightarrow> (bytes \<rightharpoonup> bytes) \<Rightarrow> bytes \<rightharpoonup> bytes" where
  "tview p m = (\<lambda>k. m (p @ k))"

fun prefixed :: "bytes \<Rightarrow> kv_op \<Rightarrow> kv_op" where
  "prefixed p (Put k v) = Put (p @ k) v"
| "prefixed p (Delete k) = Delete (p @ k)"

lemma HasPrefix_append: "HasPrefix k p \<longleftrightarrow> (\<exists>r. k = p @ r)"
  unfolding HasPrefix_def by (metis append_eq_conv_conj append_take_drop_id)

lemma apply_ops_Cons: "apply_ops (x # xs) m = apply_ops xs (apply_op x m)"
  by (simp add: apply_ops_def)

lemma tview_op: "tview p (apply_op (prefixed p x) m) = apply_op x (tview p m)"
  by (cases x) (auto simp: tview_def fun_eq_iff)

lemma tview_ops: "tview p (apply_ops (map (prefixed p) xs) m) = apply_ops xs (tview p m)"
  by (induction xs arbitrary: m) (simp_all add: apply_ops_Cons tview_op, simp add: apply_ops_def)

lemma outside_op: "\<not> HasPrefix k p \<Longrightarrow> apply_op (prefixed p x) m k = m k"
  by (cases x) (auto simp: HasPrefix_append)

lemma outside_ops: "\<not> HasPrefix k p \<Longrightarrow> apply_ops (map (prefixed p) xs) m k = m k"
  by (induction xs arbitrary: m) (simp_all add: apply_ops_Cons outside_op, simp add: apply_ops_def)

lemma replay_prefixed: "replay_ops p (map (prefixed p) xs) = Some xs"
proof (induction xs)
  case (Cons x xs)
  then show ?case by (cases x) simp_all
qed simp

text \<open>Running a list of writes through a batch of the table.\<close>

fun tbb_op :: "kv_op \<Rightarrow> table_batch \<Rightarrow> table_batch" where
  "tbb_op (Put k v) b = tbb_Put b k v"
| "tbb_op (Delete k) b = tbb_Delete b k"

lemma tbb_ops: "ba_ops (tbb_batch (fold tbb_op xs b)) = ba_ops (tbb_batch b) @ map (prefixed (tbb_prefix b)) xs
    \<and> tbb_prefix (fold tbb_op xs b) = tbb_prefix b"
proof (induction xs arbitrary: b)
  case (Cons x xs)
  show ?case using Cons [of "tbb_op x b"]
    by (cases x) (simp_all add: tbb_Put_def tbb_Delete_def inner_Put_def inner_Delete_def)
qed simp

lemma append_le [simp]: "p @ x \<le> p @ y \<longleftrightarrow> x \<le> y" for x y p :: bytes
  by (induction p) auto

lemma append_less [simp]: "p @ x < p @ y \<longleftrightarrow> x < y" for x y p :: bytes
  by (induction p) auto

lemma keys_with_prefix_view:
  assumes "finite (dom m)"
  shows "keys_with_prefix (p @ q) m = map ((@) p) (keys_with_prefix q (tview p m))"
proof -
  let ?A = "{k \<in> dom (tview p m). HasPrefix k q}"
  have img: "(@) p ` ?A = {k \<in> dom m. HasPrefix k (p @ q)}"
    by (auto simp: HasPrefix_append tview_def dom_def image_def)
  then have "finite ((@) p ` ?A)" using assms by simp
  then have fin: "finite ?A" by (rule finite_imageD) (simp add: inj_on_def)
  have "sorted (map ((@) p) (sorted_list_of_set ?A))"
    using sorted_list_of_set(2) [of ?A] by (simp add: sorted_map)
  moreover have "distinct (map ((@) p) (sorted_list_of_set ?A))" by (simp add: distinct_map inj_on_def)
  moreover have "set (map ((@) p) (sorted_list_of_set ?A)) = {k \<in> dom m. HasPrefix k (p @ q)}"
    using fin img by simp
  ultimately have "sorted_list_of_set {k \<in> dom m. HasPrefix k (p @ q)} = map ((@) p) (sorted_list_of_set ?A)"
    using assms by (intro sorted_distinct_set_unique) simp_all
  then show ?thesis unfolding keys_with_prefix_def .
qed

section \<open>The compaction range\<close>

lemma below_max: "(x :: u8) \<noteq> 255 \<Longrightarrow> x < x + 1 \<and> (y < x + 1 \<longleftrightarrow> y \<le> x)"
proof -
  assume "x \<noteq> 255"
  then have "unat x \<noteq> 255" by (auto simp: word_unat_eq_iff)
  moreover have "unat x < 256" by simp
  ultimately have "unat x + 1 < 256" by linarith
  then have "unat (x + 1) = unat x + 1" by (simp add: unat_word_ariths)
  then show ?thesis by (auto simp: word_less_nat_alt word_le_nat_alt)
qed

text \<open>
  The loop raises the last byte that can be raised and leaves zeros behind it; when all bytes
  are 255 there is no limit.
\<close>

lemma limit_loop_result:
  "p \<noteq> [] \<Longrightarrow> (\<exists>q b j. p = q @ [b] @ replicate j 255 \<and> b \<noteq> 255 \<and> limit_loop (length p) (p @ z) = Some (q @ [b + 1] @ replicate j 0 @ z))
     \<or> p = replicate (length p) 255 \<and> limit_loop (length p) (p @ z) = None" for p z :: bytes
proof (induction p arbitrary: z rule: rev_induct)
  case (snoc b p)
  have up: "(p @ [b] @ z)[length p := (p @ [b] @ z) ! length p + 1] = p @ [b + 1] @ z" by simp
  show ?case
  proof (cases "b = 255")
    case False
    then have "b < b + 1" using below_max by blast
    then have "b + 1 > 0" by (metis word_gt_0 word_zero_le leD)
    then show ?thesis using up False by (intro disjI1 exI [of _ p] exI [of _ b] exI [of _ 0]) simp
  next
    case True
    show ?thesis
    proof (cases "p = []")
      case True
      with \<open>b = 255\<close> show ?thesis by simp
    next
      case ne: False
      have "b + 1 = 0" using True by simp
      then have "(p @ [b] @ z)[length p := (p @ [b] @ z) ! length p + 1] = p @ 0 # z" using up by simp
      then have step: "limit_loop (length (p @ [b])) ((p @ [b]) @ z) = limit_loop (length p) (p @ 0 # z)"
        using ne nth_append_length [of p 0 z] by (simp add: Let_def del: list_update_append nth_append_length)
      have shift: "replicate j x @ x # y = replicate (Suc j) x @ y" for j and x :: u8 and y
        by (simp add: replicate_app_Cons_same)
      from snoc.IH [OF ne, of "0 # z"] show ?thesis
      proof (elim disjE exE conjE)
        fix q c j
        assume "p = q @ [c] @ replicate j 255" "c \<noteq> 255"
          "limit_loop (length p) (p @ 0 # z) = Some (q @ [c + 1] @ replicate j 0 @ 0 # z)"
        then show ?thesis using True unfolding step shift
          by (intro disjI1 exI [of _ q] exI [of _ c] exI [of _ "Suc j"]) (simp add: replicate_append_same)
      next
        assume "p = replicate (length p) 255" "limit_loop (length p) (p @ 0 # z) = None"
        then show ?thesis using True unfolding step
          by (intro disjI2) (metis length_append_singleton replicate_Suc replicate_append_same)
      qed
    qed
  qed
qed simp

lemma between_append: "q @ x \<le> k \<Longrightarrow> k < q @ y \<Longrightarrow> \<exists>r. k = q @ r \<and> x \<le> r \<and> r < y" for k :: bytes
proof (induction q arbitrary: k)
  case (Cons c q)
  then show ?case by (cases k) auto
qed simp

lemma from_max: "replicate j 255 \<le> k \<Longrightarrow> \<exists>r. k = replicate j 255 @ r" for k :: bytes
proof (induction j arbitrary: k)
  case (Suc j)
  then obtain c k' where k: "k = c # k'" "255 < c \<or> 255 = c \<and> replicate j 255 \<le> k'" by (cases k) auto
  have "unat c < 256" by simp
  then have "unat c \<le> 255" by linarith
  then have "\<not> 255 < c" by (simp add: word_less_nat_alt)
  with k Suc.IH [of k'] show ?case by auto
qed simp

lemma below_zeros: "k < replicate j 0 \<Longrightarrow> \<exists>i < j. k = replicate i 0" for k :: bytes
proof (induction j arbitrary: k)
  case (Suc j)
  show ?case
  proof (cases k)
    case Nil
    then show ?thesis by (intro exI [of _ 0]) simp
  next
    case (Cons c k')
    with Suc.prems have "c = 0" "k' < replicate j 0" by auto
    with Suc.IH Cons show ?thesis by (metis Suc_mono replicate_Suc)
  qed
qed simp

text \<open>
  The range has every key with the prefix and, besides, only the beginnings of the limit that
  end in the zeros behind the raised byte.
\<close>

lemma compaction_range:
  assumes "p \<noteq> []" "limit_loop (length p) p = Some l"
  shows "(HasPrefix k p \<longrightarrow> p \<le> k \<and> k < l) \<and> (p \<le> k \<and> k < l \<longrightarrow> HasPrefix k p \<or> HasPrefix l k)"
proof -
  from limit_loop_result [OF assms(1), of "[]"] assms(2) obtain q b j where
    p: "p = q @ [b] @ replicate j 255" and b: "b \<noteq> 255" and l: "l = q @ [b + 1] @ replicate j 0" by auto
  have "p \<le> k \<and> k < l" if "HasPrefix k p"
  proof -
    from that obtain r where "k = p @ r" by (auto simp: HasPrefix_append)
    then show ?thesis using append_le [of p "[]" r] below_max [OF b] by (simp add: l) (simp add: p)
  qed
  moreover have "HasPrefix k p \<or> HasPrefix l k" if k: "p \<le> k" "k < l"
  proof -
    from between_append [of q "[b] @ replicate j 255" k "[b + 1] @ replicate j 0"] k obtain r where
      r: "k = q @ r" "[b] @ replicate j 255 \<le> r" "r < [b + 1] @ replicate j 0" by (auto simp: p l)
    then obtain c r' where c: "r = c # r'" by (cases r) auto
    consider "c = b" "replicate j 255 \<le> r'" | "c = b + 1" "r' < replicate j 0"
      using r(2,3) c below_max [OF b, of c] by auto
    then show ?thesis
    proof cases
      case 1
      from from_max [OF 1(2)] 1(1) c r(1) show ?thesis by (auto simp: HasPrefix_append p)
    next
      case 2
      from below_zeros [OF 2(2)] obtain i where i: "i < j" "r' = replicate i 0" by auto
      then have "replicate j 0 = r' @ replicate (j - i) 0" by (simp flip: replicate_add)
      then show ?thesis using 2(1) c r(1) by (auto simp: HasPrefix_append l)
    qed
  qed
  ultimately show ?thesis by blast
qed

text \<open>A start the caller gives is not moved into the key space of the table.\<close>

lemma compact_start_not_prefixed: "fst (Compact t (Some k) limit) = Some k"
  by (simp add: Compact_def)

text \<open>
  C27: A table is a store of its own inside the store. Through the prefix it sees exactly its
  part; puts, deletes and written batches act on that part as they would on a separate store
  and leave every key outside it alone; a batch replays the operations it was given; and an
  iterator walks over the keys of the table in their order, from the wanted start on, with the
  prefix removed.
\<close>

theorem table_isolated:
  assumes "t = NewTable db p" "finite (dom (db_kv db))" "m = tview p (db_kv db)"
    "b = fold tbb_op xs (tb_NewBatch t)"
  shows "(\<forall>k. tb_Get t k = m k \<and> tb_Has t k = (m k \<noteq> None)) \<and>
    (\<forall>k v. tview p (db_kv (tb_db (tb_Put t k v))) = m(k \<mapsto> v)) \<and>
    (\<forall>k. tview p (db_kv (tb_db (tb_Delete t k))) = m(k := None)) \<and>
    tview p (db_kv (tbb_Write b db)) = apply_ops xs m \<and>
    (\<forall>k. \<not> HasPrefix k p \<longrightarrow> db_kv (tbb_Write b db) k = db_kv db k) \<and>
    tbb_Replay b = Some xs \<and>
    (\<forall>q start. tb_NewIterator t q start = map (\<lambda>k. (k, the (m k))) (filter ((\<le>) (q @ start)) (keys_with_prefix q m)))"
proof -
  have t: "tb_db t = db" "tb_prefix t = p" by (simp_all add: assms(1) NewTable_def)
  have b: "ba_ops (tbb_batch b) = map (prefixed p) xs" "tbb_prefix b = p"
    using tbb_ops [of xs "tb_NewBatch t"] by (simp_all add: assms(4) tb_NewBatch_def t)
  have "tb_NewIterator t q start = map (\<lambda>k. (k, the (m k))) (filter ((\<le>) (q @ start)) (keys_with_prefix q m))" for q start
    by (simp add: tb_NewIterator_def inner_iterator_def t keys_with_prefix_view [OF assms(2)] assms(3)
        filter_map comp_def) (simp add: tview_def)
  moreover have "tview p (db_kv (tb_db (tb_Put t k v))) = m(k \<mapsto> v)" for k v
    using tview_op [of p "Put k v"] by (simp add: tb_Put_def t apply_ops_def assms(3))
  moreover have "tview p (db_kv (tb_db (tb_Delete t k))) = m(k := None)" for k
    using tview_op [of p "Delete k"] by (simp add: tb_Delete_def t apply_ops_def assms(3))
  ultimately show ?thesis
    by (simp add: tb_Get_def tb_Has_def Has_def t assms(3) tbb_Write_def b tview_ops outside_ops tbb_Replay_def replay_prefixed)
      (simp add: tview_def)
qed

theorem table_isolated_witness:
  "tview [1] (db_kv (tbb_Write (fold tbb_op [Put [5] [6]] (tb_NewBatch (NewTable no_database [1]))) no_database)) = [[5] \<mapsto> [6]]"
  using table_isolated [OF refl _ refl refl, of no_database "[1]" "[Put [5] [6]]"]
  by (simp add: no_database_def tview_def apply_ops_def)

end
