(* ===== verification/Spec2Isabelle.thy ===== *)
theory Spec2Isabelle
  imports Bit_Compress Block_Processing Tx_Pool_Props Bn_Pairing Safe_Math Evm_Compiler Fork_ID Freezer Raw_Table
begin

text \<open>
  A verification library for the chain client of this repository, over the Go files in
  \<^verbatim>\<open>src/\<close>. Every definition that models code is a translation of the code it names; the manifest
  gives the lines.

  \<^bold>\<open>The program.\<close> A client keeps a chain of blocks. Transactions arrive in a pool, which keeps those
  that can be executed apart from those that must wait, by account and by price, and journals
  the local ones to a file. Blocks are executed message by message, their result is checked, and
  their parts are stored in a key-value database, from which old blocks are moved to an
  append-only store of flat files. Peers compare fork identifiers before they exchange blocks.
  Around this stand the pairing curve of the precompiled contracts, the text formats of the RPC
  interface, checked integers, the bitset compression of bloom bits, and an assembler with a
  disassembler for contract code.

  \<^bold>\<open>Conventions.\<close> Unsigned integers of the code are words and wrap as they do there; \<^verbatim>\<open>big.Int\<close> is
  \<open>int\<close>. A Go slice is a list, a struct a record, a map a partial function; the order in which a
  map is walked is an argument, of which a property assumes only that it lists the keys. An
  operation that returns an error returns a sum with the error on the left, one that may panic
  an option in which \<open>None\<close> is the panic; a loop that need not end is a \<open>partial_function\<close> or a
  function with a termination proof, and its property states that it ends. A pointer that is
  shared is written back where the code writes through it. What other packages do (hashes,
  encodings, the consensus engine, signatures, the virtual machine, the file system's errors,
  the clock) is an argument; what the code relies on is a named hypothesis, and a witness
  instantiates it.

  \<^bold>\<open>Shared theories.\<close> \<open>Chain_Prelude\<close>: words, bytes, big-endian numbers, errors, the order of map
  traversals, and the locale \<open>codec\<close> of an encoder with its decoder, which the bitset
  compression, the hex formats and the freezer's index entries interpret. \<open>Go_Heap\<close>:
  \<^verbatim>\<open>container/heap\<close> with its sift loops; its locale \<open>priority_queue\<close> gives the laws of push, pop
  and remove for any weak order, and the nonce and price heaps interpret it.

  \<^bold>\<open>Executing blocks.\<close> \<open>State_Transition\<close> (\<^verbatim>\<open>state_transition.go\<close>, \<^verbatim>\<open>gaspool.go\<close>, \<^verbatim>\<open>evm.go\<close>): intrinsic
  gas, buying and refunding gas, the transition of a message. Its properties: the intrinsic gas is the
  unbounded sum or the overflow error, gas and balances add up, and what a refused message
  leaves. \<open>Block_Processing\<close> (\<^verbatim>\<open>state_processor.go\<close>, \<^verbatim>\<open>block_validator.go\<close>): the transactions of
  a block in order, body and state validation, the gas limit of the next block.

  \<^bold>\<open>The transaction pool.\<close> \<open>Tx_List\<close> (\<^verbatim>\<open>tx_list.go\<close>): the map of an account's transactions with
  its heap of nonces and its cache. \<open>Tx_Priced\<close>: the lookup table, the local accounts, the price
  heap with stale entries, virtual nonces (\<^verbatim>\<open>tx_noncer.go\<close>). \<open>Tx_Journal\<close> (\<^verbatim>\<open>tx_journal.go\<close>).
  \<open>Tx_Pool\<close>, \<open>Tx_Pool_Ops\<close> and \<open>Tx_Pool_Reorg\<close> (\<^verbatim>\<open>tx_pool.go\<close>): the pool's record and every
  operation under its lock, first those on single transactions, then batches, queries, promotion,
  demotion, truncation and eviction, then the reset to a new head, the run that follows it, the
  loop that schedules runs, and the construction. \<open>Tx_Pool_Inv\<close> states the invariant
  \<open>consistent\<close>: every known transaction stands in exactly one list, in the slot of its sender and
  nonce, no list is empty, the price heap holds every known transaction. In the middle of an
  operation some known transactions stand in no list; \<open>pinv\<close> names them, so that each step has a
  law of its own. \<open>Tx_Pool_Laws\<close> (adding), \<open>Tx_Pool_Run\<close> (promotion and demotion),
  \<open>Tx_Pool_Trunc\<close> and \<open>Tx_Pool_Queue\<close> (the limits, eviction, the price threshold) and
  \<open>Tx_Pool_Reorg_Laws\<close> (walks over branches, reset, run) compose these laws; \<open>Tx_Pool_Life\<close> covers
  a pool's whole life, \<open>Tx_Pool_Sched\<close> the interleavings of the scheduler's messages, and
  \<open>Tx_Pool_Props\<close> holds the properties with a small environment. The count of stale entries in
  the price heap is not part of the invariant: a transaction removed and added again has two
  live entries.

  \<^bold>\<open>Storage.\<close> \<open>Raw_Schema\<close> (\<^verbatim>\<open>schema.go\<close>, the inspection of \<^verbatim>\<open>database.go\<close>): the keys, of which no two
  items share one. \<open>Raw_DB\<close> (the \<^verbatim>\<open>accessors_*.go\<close>): reading, writing and deleting; a writer is the
  list of its puts and deletes. \<open>Raw_Table\<close> (\<^verbatim>\<open>table.go\<close>): prefixed views. \<open>Freezer_Table\<close>
  (\<^verbatim>\<open>freezer_table.go\<close>): one table of the ancient store as index and data files; the abstraction
  \<open>fz_holds\<close> relates it to the list of its items, and the locales \<open>append_log\<close> and \<open>bounded_log\<close>
  are the contract that \<open>Freezer\<close> (\<^verbatim>\<open>freezer.go\<close>) builds on: five tables in step, repair after a
  crash, and rounds of freezing that change nothing a reader sees. Data files have the size bound
  of the code; items are assumed small enough for one file.

  \<^bold>\<open>Arithmetic and text.\<close> \<open>Bn_Field\<close>, \<open>Bn_Tower\<close>, \<open>Bn_Pairing\<close> (\<^verbatim>\<open>constants.go\<close>, \<^verbatim>\<open>gfp2.go\<close>,
  \<^verbatim>\<open>gfp6.go\<close>, \<^verbatim>\<open>gfp12.go\<close>, \<^verbatim>\<open>twist.go\<close>, \<^verbatim>\<open>optate.go\<close>): the tower refines the polynomial rings modulo
  the prime, the curve operations the affine chord and tangent. \<open>Hex_Util\<close> (\<^verbatim>\<open>hexutil.go\<close>,
  \<^verbatim>\<open>json.go\<close>), \<open>Safe_Math\<close> (\<^verbatim>\<open>integer.go\<close>, \<^verbatim>\<open>int.go\<close>), \<open>Bit_Compress\<close> (\<^verbatim>\<open>compress.go\<close>): round
  trips and exact ranges. \<open>Evm_Disasm\<close> (\<^verbatim>\<open>asm.go\<close>), \<open>Evm_Lexer\<close> (\<^verbatim>\<open>lexer.go\<close>), \<open>Evm_Compiler\<close>
  (\<^verbatim>\<open>compiler.go\<close>): exactness of the disassembly, termination of the lexer, positions of labels.
  \<open>Fork_ID\<close> (\<^verbatim>\<open>forkid.go\<close>): which identifiers are accepted.

  \<^bold>\<open>Bounds.\<close> No model runs on fuel except the loops whose number of rounds the code fixes. Properties
  of the pool assume fewer than \<open>2^64\<close> transactions in all, and an account queue limit that is
  not negative as a signed integer; the freezer's assume file sizes below \<open>2^63\<close>.

  \<^bold>\<open>Not modelled.\<close> Insertion and head management (\<^verbatim>\<open>blockchain.go\<close>, \<^verbatim>\<open>blockchain_insert.go\<close>,
  \<^verbatim>\<open>headerchain.go\<close>), which run over caches, tries and goroutines of other packages; background
  indexing (\<^verbatim>\<open>chain_iterator.go\<close>, \<^verbatim>\<open>chain_indexer.go\<close>) and the bloom bits pipeline
  (\<^verbatim>\<open>generator.go\<close>, \<^verbatim>\<open>scheduler.go\<close>, \<^verbatim>\<open>matcher.go\<close>); the genesis block and generated code; the ABI
  (\<^verbatim>\<open>type.go\<close>, \<^verbatim>\<open>pack.go\<close>, \<^verbatim>\<open>unpack.go\<close> and others), which is driven by reflection; the curve that
  calls the bundled C library, ECIES, RSA, signatures and the key store, whose work is done in
  other packages; HTTP handlers, templates, test backends, printing and file names.
\<close>

end
